(* ===== verification/Go_Json.thy ===== *)
theory Go_Json
  imports Go_Prelude
begin

text \<open>
  JSON documents and the part of Go's \<^verbatim>\<open>encoding/json\<close> the modelled code uses.

  A \<^verbatim>\<open>json.RawMessage\<close> is a parsed document here, and an optional document is a
  message that may be missing (no bytes). \<^verbatim>\<open>json.Unmarshal\<close> into a struct visits the
  object's members in order and stores each in the field whose name matches
  exactly or, failing that, up to case, so the last matching member wins; the
  declared field names of one struct never collide up to case in the modelled
  code. A member of the wrong type leaves the field at its zero value and makes
  \<^verbatim>\<open>Unmarshal\<close> return an error after the other fields are stored; \<^verbatim>\<open>null\<close> leaves
  the field alone without an error. Merging two objects given for one struct
  field is not modelled: the last one is decoded on its own.
\<close>

datatype json =
    JNull
  | JBool bool
  | JNum string
  | JStr string
  | JArr "json list"
  | JObj "(string \<times> json) list"

primrec jsize :: "json \<Rightarrow> nat" where
  "jsize JNull = 1"
| "jsize (JBool b) = 1"
| "jsize (JNum s) = 1"
| "jsize (JStr s) = 1"
| "jsize (JArr xs) = Suc (sum_list (map jsize xs))"
| "jsize (JObj kvs) = Suc (sum_list (map snd (map (map_prod (\<lambda>k. k) jsize) kvs)))"

definition jsize_opt :: "json option \<Rightarrow> nat" where
  "jsize_opt r = (case r of None \<Rightarrow> 0 | Some j \<Rightarrow> jsize j)"

lemma jsize_pos [simp]: "0 < jsize j"
  by (cases j) auto

lemma jsize_opt_simps [simp]: "jsize_opt None = 0" "jsize_opt (Some j) = jsize j"
  by (simp_all add: jsize_opt_def)

section \<open>Struct fields\<close>

text \<open>The raw message stored in a struct field with JSON name \<open>k\<close>.\<close>

definition jfield :: "string \<Rightarrow> json \<Rightarrow> json option" where
  "jfield k j =
     (case j of JObj kvs \<Rightarrow> map_option snd (find (\<lambda>kv. equal_fold (fst kv) k) (rev kvs))
      | _ \<Rightarrow> None)"

definition jfield_opt :: "string \<Rightarrow> json option \<Rightarrow> json option" where
  "jfield_opt k r = Option.bind r (jfield k)"

text \<open>A field of type \<^verbatim>\<open>string\<close>: its value, and whether it decodes without an error.\<close>

definition jstr :: "string \<Rightarrow> json \<Rightarrow> string" where
  "jstr k j = (case jfield k j of Some (JStr s) \<Rightarrow> s | _ \<Rightarrow> '''')"

definition str_ok :: "json option \<Rightarrow> bool" where
  "str_ok r = (case r of None \<Rightarrow> True | Some JNull \<Rightarrow> True | Some (JStr s) \<Rightarrow> True | _ \<Rightarrow> False)"

definition jstr_opt :: "string \<Rightarrow> json option \<Rightarrow> string" where
  "jstr_opt k r = (case r of None \<Rightarrow> '''' | Some j \<Rightarrow> jstr k j)"

text \<open>A struct target takes an object or \<^verbatim>\<open>null\<close>; a slice target an array or \<^verbatim>\<open>null\<close>.\<close>

definition struct_ok :: "json \<Rightarrow> bool" where
  "struct_ok j = (case j of JObj kvs \<Rightarrow> True | JNull \<Rightarrow> True | _ \<Rightarrow> False)"

definition slice_ok :: "json option \<Rightarrow> bool" where
  "slice_ok r = (case r of None \<Rightarrow> True | Some JNull \<Rightarrow> True | Some (JArr xs) \<Rightarrow> True | _ \<Rightarrow> False)"

definition jelems :: "json option \<Rightarrow> json list" where
  "jelems r = (case r of Some (JArr xs) \<Rightarrow> xs | _ \<Rightarrow> [])"

lemma find_set: "find P xs = Some x \<Longrightarrow> x \<in> set xs"
  by (induction xs) (auto split: if_splits)

lemma jfield_size: "jfield k j = Some v \<Longrightarrow> jsize v < jsize j"
proof -
  assume "jfield k j = Some v"
  then obtain kvs kv where j: "j = JObj kvs" and "kv \<in> set kvs" and v: "v = snd kv"
    by (cases j) (auto simp: jfield_def dest!: find_set)
  then have "jsize v \<in> set (map snd (map (map_prod (\<lambda>k. k) jsize) kvs))"
    by force
  then have "jsize v \<le> sum_list (map snd (map (map_prod (\<lambda>k. k) jsize) kvs))"
    by (rule member_le_sum_list) simp
  with j show ?thesis by simp
qed

lemma jelems_size: "x \<in> set (jelems (jfield k j)) \<Longrightarrow> jsize x < jsize j"
proof -
  assume "x \<in> set (jelems (jfield k j))"
  then obtain xs where f: "jfield k j = Some (JArr xs)" and "x \<in> set xs"
    by (cases "jfield k j") (auto simp: jelems_def split: json.splits)
  then have "jsize x \<in> set (map jsize xs)" by simp
  then have "jsize x \<le> sum_list (map jsize xs)" by (rule member_le_sum_list) simp
  with jfield_size [OF f] show ?thesis by simp
qed

lemma jfield_opt_size: "jfield_opt k r = Some v \<Longrightarrow> jsize v < jsize_opt r"
  by (cases r) (auto simp: jfield_opt_def dest: jfield_size)

section \<open>Base64\<close>

text \<open>
  \<^verbatim>\<open>base64.StdEncoding.DecodeString\<close>: line breaks are dropped, every group has
  four symbols, and only the last may end in padding. \<^term>\<open>None\<close> is the error.
\<close>

definition b64_val :: "char \<Rightarrow> nat option" where
  "b64_val c =
     (let n = (of_char c :: nat)
      in if 65 \<le> n \<and> n \<le> 90 then Some (n - 65)
         else if 97 \<le> n \<and> n \<le> 122 then Some (n - 71)
         else if 48 \<le> n \<and> n \<le> 57 then Some (n + 4)
         else if n = 43 then Some 62
         else if n = 47 then Some 63
         else None)"

fun b64_groups :: "string \<Rightarrow> nat list option" where
  "b64_groups [] = Some []"
| "b64_groups [a, b, c, d] =
     (case (b64_val a, b64_val b) of
        (Some x, Some y) \<Rightarrow>
          (if c = CHR ''='' \<and> d = CHR ''='' then Some [x * 4 + y div 16]
           else (case b64_val c of
                   None \<Rightarrow> None
                 | Some z \<Rightarrow>
                     (if d = CHR ''='' then Some [x * 4 + y div 16, y mod 16 * 16 + z div 4]
                      else (case b64_val d of
                              None \<Rightarrow> None
                            | Some w \<Rightarrow> Some [x * 4 + y div 16, y mod 16 * 16 + z div 4,
                                              z mod 4 * 64 + w]))))
      | _ \<Rightarrow> None)"
| "b64_groups (a # b # c # d # rest) =
     (case (b64_val a, b64_val b, b64_val c, b64_val d, b64_groups rest) of
        (Some x, Some y, Some z, Some w, Some out) \<Rightarrow>
          Some ([x * 4 + y div 16, y mod 16 * 16 + z div 4, z mod 4 * 64 + w] @ out)
      | _ \<Rightarrow> None)"
| "b64_groups _ = None"

definition b64_decode :: "string \<Rightarrow> nat list option" where
  "b64_decode s = b64_groups (filter (\<lambda>c. c \<noteq> CHR 0x0A \<and> c \<noteq> CHR 0x0D) s)"

lemma b64_val_bound: "b64_val c = Some n \<Longrightarrow> n < 64"
  by (auto simp: b64_val_def Let_def split: if_splits)

text \<open>\<^verbatim>\<open>binary.LittleEndian.Uint64\<close> on the first eight bytes.\<close>

fun little_endian :: "nat list \<Rightarrow> nat" where
  "little_endian [] = 0"
| "little_endian (b # bs) = b + 256 * little_endian bs"

lemma little_endian_bound:
  "\<forall>b \<in> set bs. b < 256 \<Longrightarrow> little_endian bs < 256 ^ length bs"
proof (induction bs)
  case (Cons b bs)
  then have "b < 256" and "little_endian bs + 1 \<le> 256 ^ length bs" by auto
  then have "b + 256 * little_endian bs < 256 * (little_endian bs + 1)" by simp
  also have "\<dots> \<le> 256 * 256 ^ length bs"
    using \<open>little_endian bs + 1 \<le> 256 ^ length bs\<close> by (rule mult_le_mono2)
  finally show ?case by simp
qed simp

end
