(* ===== verification/Gnostate_Types.thy ===== *)
theory Gnostate_Types
  imports Go_Json
begin

text \<open>
  The data model of \<^verbatim>\<open>pkg/gnostate\<close> (file \<^verbatim>\<open>types.go\<close>): the decoded node tree, the
  limits of one decode with their defaults, and the statistics it reports.
\<close>

section \<open>Nodes\<close>

datatype kind =
    KindPrimitive | KindStruct | KindSlice | KindArray | KindMap | KindFunc
  | KindType | KindPackage | KindNil | KindRef | KindCycle | KindTruncated

text \<open>
  The scalar fields of a \<^verbatim>\<open>Node\<close>; its children are the second component of
  \<open>node\<close>, since a record cannot be recursive.
\<close>

record node_info =
  n_name :: string
  n_type :: string
  n_kind :: kind
  n_value :: string
  n_object_id :: string
  n_owner_id :: string
  n_hash :: string
  n_type_id :: string
  n_size :: int
  n_refs :: int
  n_rev :: int
  n_file :: string
  n_line :: int
  n_from_heap :: bool

datatype node = Node (info: node_info) (children: "node list")

text \<open>\<^verbatim>\<open>Node{Kind: k}\<close>: every other field is Go's zero value.\<close>

definition zero_info :: "kind \<Rightarrow> node_info" where
  "zero_info k =
     \<lparr>n_name = '''', n_type = '''', n_kind = k, n_value = '''', n_object_id = '''',
      n_owner_id = '''', n_hash = '''', n_type_id = '''', n_size = 0, n_refs = 0, n_rev = 0,
      n_file = '''', n_line = 0, n_from_heap = False\<rparr>"

definition upd_info :: "(node_info \<Rightarrow> node_info) \<Rightarrow> node \<Rightarrow> node" where
  "upd_info f n = Node (f (info n)) (children n)"

lemma upd_info_simps [simp]:
  "info (upd_info f n) = f (info n)" "children (upd_info f n) = children n"
  by (simp_all add: upd_info_def)

lemma zero_info_kind [simp]: "n_kind (zero_info k) = k"
  by (simp add: zero_info_def)

section \<open>Limits and statistics\<close>

record limits =
  max_depth :: int
  max_nodes :: int
  max_fetch :: int
  max_string :: int

definition DefaultLimits :: limits where
  "DefaultLimits = \<lparr>max_depth = 12, max_nodes = 4000, max_fetch = 512, max_string = 4096\<rparr>"

definition withDefaults :: "limits \<Rightarrow> limits" where
  "withDefaults l =
     \<lparr>max_depth = (if max_depth l \<le> 0 then max_depth DefaultLimits else max_depth l),
      max_nodes = (if max_nodes l \<le> 0 then max_nodes DefaultLimits else max_nodes l),
      max_fetch = (if max_fetch l \<le> 0 then max_fetch DefaultLimits else max_fetch l),
      max_string = (if max_string l \<le> 0 then max_string DefaultLimits else max_string l)\<rparr>"

lemma withDefaults_pos [simp]:
  "0 < max_depth (withDefaults l)" "0 < max_nodes (withDefaults l)"
  "0 < max_fetch (withDefaults l)" "0 < max_string (withDefaults l)"
  by (auto simp: withDefaults_def DefaultLimits_def)

lemma withDefaults_idem [simp]: "withDefaults (withDefaults l) = withDefaults l"
  by (rule limits.equality) (auto simp: withDefaults_def DefaultLimits_def)

record stats =
  st_nodes :: int
  st_fetches :: int
  st_truncated :: bool
  st_clipped :: bool

record gno_tree =
  t_nodes :: "node list"
  t_stats :: stats

section \<open>Counting nodes\<close>

text \<open>
  The nodes of a forest that carry data: everything but the childless placeholders
  of kind \<^const>\<open>KindTruncated\<close> the walk leaves where a limit stopped it.
\<close>

fun loaded :: "node \<Rightarrow> nat" where
  "loaded (Node i cs) =
     (if n_kind i = KindTruncated \<and> cs = [] then 0 else 1) + sum_list (map loaded cs)"

definition loaded_all :: "node list \<Rightarrow> nat" where
  "loaded_all ns = sum_list (map loaded ns)"

fun tree_size :: "node \<Rightarrow> nat" where
  "tree_size (Node i cs) = 1 + sum_list (map tree_size cs)"

lemma loaded_all_simps [simp]:
  "loaded_all [] = 0" "loaded_all (n # ns) = loaded n + loaded_all ns"
  "loaded_all (ns @ ms) = loaded_all ns + loaded_all ms"
  by (simp_all add: loaded_all_def)

lemma loaded_Node:
  "loaded (Node i cs) = (if n_kind i = KindTruncated \<and> cs = [] then 0 else 1) + loaded_all cs"
  by (simp add: loaded_all_def)

declare loaded.simps [simp del]

lemma loaded_children: "loaded_all (children n) \<le> loaded n"
  by (cases n) (simp add: loaded_Node)

lemma loaded_upd_info:
  "n_kind (f (info n)) = n_kind (info n) \<Longrightarrow> loaded (upd_info f n) = loaded n"
  by (cases n) (simp add: upd_info_def loaded_Node)

lemma loaded_nth: "i < length ns \<Longrightarrow> loaded (ns ! i) \<le> loaded_all ns"
proof -
  assume "i < length ns"
  then have "loaded (ns ! i) \<in> set (map loaded ns)" by simp
  then show ?thesis unfolding loaded_all_def by (rule member_le_sum_list) simp
qed

lemma loaded_all_take_drop: "loaded_all (take m (drop k ns)) \<le> loaded_all ns"
proof -
  have "loaded_all ns = loaded_all (take k ns) + loaded_all (drop k ns)"
    by (metis append_take_drop_id loaded_all_simps(3))
  moreover have "loaded_all (drop k ns)
      = loaded_all (take m (drop k ns)) + loaded_all (drop m (drop k ns))"
    by (metis append_take_drop_id loaded_all_simps(3))
  ultimately show ?thesis by simp
qed

end
