(* ===== verification/Gnostate_Avl.thy ===== *)
theory Gnostate_Avl
  imports Gnostate_Types
begin

text \<open>
  Recognising \<^verbatim>\<open>avl.Tree\<close> in a decoded forest (\<^verbatim>\<open>pkg/gnostate/avl.go\<close>): a struct
  whose only field is \<^verbatim>\<open>node\<close> is rewritten into a map of the leaves' entries.
  An abstract leaf tree gives the meaning of the nodes, and \<^verbatim>\<open>flattenTree\<close> is shown to list
  the entries of the abstract tree in order.
\<close>

section \<open>The code\<close>

definition avlNodeFields :: "string list" where
  "avlNodeFields = [''key'', ''value'', ''height'', ''size'', ''leftNode'', ''rightNode'']"

definition isAVLNode :: "node \<Rightarrow> bool" where
  "isAVLNode n \<longleftrightarrow>
     n_kind (info n) = KindStruct \<and>
     map (\<lambda>c. n_name (info c)) (children n) = avlNodeFields"

lemma isAVLNode_length: "isAVLNode n \<Longrightarrow> length (children n) = 6"
  by (auto simp: isAVLNode_def avlNodeFields_def dest: arg_cong [where f = length])

lemma children_nth_size: "i < length (children n) \<Longrightarrow> size (children n ! i) < size n"
proof -
  assume "i < length (children n)"
  then have "size (children n ! i) \<in> set (map size (children n))" by simp
  then have "size (children n ! i) \<le> sum_list (map size (children n))"
    by (rule member_le_sum_list) simp
  then show ?thesis by (cases n) (simp add: size_list_conv_sum_list)
qed

definition unresolved_kind :: "kind \<Rightarrow> bool" where
  "unresolved_kind k \<longleftrightarrow> k \<in> {KindRef, KindCycle, KindTruncated}"

text \<open>
  \<^verbatim>\<open>collectEntries\<close> appends to \<open>out\<close> and may set \<open>partial\<close>; both are threaded and
  returned.
\<close>

function collectEntries :: "node \<Rightarrow> node list \<Rightarrow> bool \<Rightarrow> node list \<times> bool" where
  "collectEntries n out partial =
     (if n_kind (info n) = KindNil then (out, partial)
      else if unresolved_kind (n_kind (info n)) then (out, True)
      else if \<not> isAVLNode n then (out, True)
      else let key = children n ! 0; val = children n ! 1; height = children n ! 2;
               left = children n ! 4; right = children n ! 5
           in if n_value (info height) = ''0'' then
                (let entry = upd_info (\<lambda>i. i\<lparr>n_name := n_value (info key)\<rparr>) val;
                     entry = (if n_object_id (info entry) = ''''
                              then upd_info (\<lambda>i. i\<lparr>n_object_id := n_object_id (info n)\<rparr>) entry
                              else entry)
                 in (out @ [entry], partial))
              else (let (out', partial') = collectEntries left out partial
                    in collectEntries right out' partial'))"
  by pat_completeness auto
termination
  by (relation "measure (\<lambda>(n, out, partial). size n)")
    (auto intro!: children_nth_size dest: isAVLNode_length)

declare collectEntries.simps [simp del]

definition plural :: "nat \<Rightarrow> string" where
  "plural n = (if n = 1 then ''1 entry'' else itoa (int n) @ '' entries'')"

definition flattenTree :: "node \<Rightarrow> node \<times> bool" where
  "flattenTree n =
     (if n_kind (info n) \<noteq> KindStruct \<or> length (children n) \<noteq> 1 \<or>
         n_name (info (children n ! 0)) \<noteq> ''node''
      then (n, False)
      else let root = children n ! 0; rk = n_kind (info root)
           in if rk \<noteq> KindNil \<and> \<not> unresolved_kind rk \<and> \<not> isAVLNode root then (n, False)
              else let (entries, partial) = collectEntries root [] False;
                       out = (zero_info KindMap)
                         \<lparr>n_name := n_name (info n), n_type := n_type (info n),
                          n_object_id := n_object_id (info n), n_owner_id := n_owner_id (info n),
                          n_hash := n_hash (info n), n_size := n_size (info n),
                          n_value := plural (length entries) @
                                     (if partial then '', partially loaded'' else '''')\<rparr>
                   in (Node out entries, True))"

fun flatten_node :: "node \<Rightarrow> node" where
  "flatten_node (Node i cs) =
     (let n = Node i (map flatten_node cs); (flat, ok) = flattenTree n
      in if ok then flat else n)"

definition flattenTrees :: "node list \<Rightarrow> node list" where
  "flattenTrees ns = map flatten_node ns"

section \<open>Abstract leaf trees\<close>

text \<open>
  What a decoded \<^verbatim>\<open>avl.Node\<close> stands for. Only leaves carry entries; \<open>Unread\<close> is a
  subtree the walk did not load.
\<close>

datatype avl = Empty | Unread | Leaf string node string | Branch avl avl

fun avl_repr :: "avl \<Rightarrow> node \<Rightarrow> bool" where
  "avl_repr Empty n \<longleftrightarrow> n_kind (info n) = KindNil"
| "avl_repr Unread n \<longleftrightarrow> unresolved_kind (n_kind (info n))"
| "avl_repr (Leaf k v oid) n \<longleftrightarrow>
     isAVLNode n \<and> n_value (info (children n ! 2)) = ''0'' \<and>
     n_value (info (children n ! 0)) = k \<and> children n ! 1 = v \<and> n_object_id (info n) = oid"
| "avl_repr (Branch l r) n \<longleftrightarrow>
     isAVLNode n \<and> n_value (info (children n ! 2)) \<noteq> ''0'' \<and>
     avl_repr l (children n ! 4) \<and> avl_repr r (children n ! 5)"

text \<open>One map entry: the value, named by its key, addressable by the leaf's object.\<close>

definition entry_node :: "string \<Rightarrow> node \<Rightarrow> string \<Rightarrow> node" where
  "entry_node k v oid =
     upd_info (\<lambda>i. i\<lparr>n_name := k,
                     n_object_id := (if n_object_id i = '''' then oid else n_object_id i)\<rparr>) v"

fun avl_entries :: "avl \<Rightarrow> node list" where
  "avl_entries Empty = []"
| "avl_entries Unread = []"
| "avl_entries (Leaf k v oid) = [entry_node k v oid]"
| "avl_entries (Branch l r) = avl_entries l @ avl_entries r"

fun avl_keys :: "avl \<Rightarrow> string list" where
  "avl_keys Empty = []"
| "avl_keys Unread = []"
| "avl_keys (Leaf k v oid) = [k]"
| "avl_keys (Branch l r) = avl_keys l @ avl_keys r"

fun avl_partial :: "avl \<Rightarrow> bool" where
  "avl_partial Empty \<longleftrightarrow> False"
| "avl_partial Unread \<longleftrightarrow> True"
| "avl_partial (Leaf k v oid) \<longleftrightarrow> False"
| "avl_partial (Branch l r) \<longleftrightarrow> avl_partial l \<or> avl_partial r"

fun avl_ordered :: "avl \<Rightarrow> bool" where
  "avl_ordered (Branch l r) \<longleftrightarrow>
     avl_ordered l \<and> avl_ordered r \<and>
     (\<forall>x \<in> set (avl_keys l). \<forall>y \<in> set (avl_keys r). x < y)"
| "avl_ordered _ \<longleftrightarrow> True"

lemma isAVLNode_kind: "isAVLNode n \<Longrightarrow> n_kind (info n) = KindStruct"
  by (simp add: isAVLNode_def)

lemma unresolved_kind_simps [simp]:
  "unresolved_kind KindRef" "unresolved_kind KindCycle" "unresolved_kind KindTruncated"
  "\<not> unresolved_kind KindStruct" "\<not> unresolved_kind KindNil" "\<not> unresolved_kind KindMap"
  by (simp_all add: unresolved_kind_def)

lemma collectEntries_refines:
  "avl_repr t n \<Longrightarrow>
   collectEntries n out partial = (out @ avl_entries t, partial \<or> avl_partial t)"
proof (induction t arbitrary: n out partial)
  case Unread
  then show ?case by (auto simp: collectEntries.simps [of n] unresolved_kind_def)
next
  case (Leaf k v oid)
  then show ?case
    by (auto simp: collectEntries.simps [of n] isAVLNode_kind entry_node_def upd_info_def Let_def)
next
  case (Branch l r)
  then show ?case by (simp add: collectEntries.simps [of n] isAVLNode_kind Let_def)
qed (simp add: collectEntries.simps)

lemma avl_entries_names: "map (\<lambda>e. n_name (info e)) (avl_entries t) = avl_keys t"
  by (induction t) (auto simp: entry_node_def)

lemma avl_keys_sorted: "avl_ordered t \<Longrightarrow> sorted_wrt (<) (avl_keys t)"
  by (induction t) (auto simp: sorted_wrt_append)

text \<open>Every node stands for some abstract tree, unless it is a struct of another shape.\<close>

lemma avl_repr_recognised:
  "avl_repr t n \<Longrightarrow>
   n_kind (info n) = KindNil \<or> unresolved_kind (n_kind (info n)) \<or> isAVLNode n"
  by (cases t) auto

lemma flattenTree_refines:
  assumes "n_kind (info n) = KindStruct" "children n = [root]"
    "n_name (info root) = ''node''" "avl_repr t root"
  shows "snd (flattenTree n)"
    and "n_kind (info (fst (flattenTree n))) = KindMap"
    and "children (fst (flattenTree n)) = avl_entries t"
    and "n_value (info (fst (flattenTree n))) =
           plural (length (avl_entries t)) @ (if avl_partial t then '', partially loaded'' else '''')"
  using assms avl_repr_recognised [OF assms(4)]
  by (auto simp: flattenTree_def Let_def collectEntries_refines)

section \<open>Flattening reaches a fixed point\<close>

fun flat :: "node \<Rightarrow> bool" where
  "flat (Node i cs) \<longleftrightarrow> \<not> snd (flattenTree (Node i cs)) \<and> (\<forall>c \<in> set cs. flat c)"

lemma flattenTree_not_ok: "\<not> snd (flattenTree n) \<Longrightarrow> fst (flattenTree n) = n"
  by (auto simp: flattenTree_def Let_def split: if_splits prod.splits)

lemma flattenTree_recognises_shape:
  "n_kind (f (info n)) = n_kind (info n) \<Longrightarrow>
   snd (flattenTree (upd_info f n)) = snd (flattenTree n)"
  by (auto simp: flattenTree_def Let_def split: prod.splits)

lemma flat_upd_info: "n_kind (f (info n)) = n_kind (info n) \<Longrightarrow> flat (upd_info f n) = flat n"
  using flattenTree_recognises_shape [of f n] by (cases n) (simp add: upd_info_def)

lemma flat_children: "flat n \<Longrightarrow> c \<in> set (children n) \<Longrightarrow> flat c"
  by (cases n) auto

lemma collectEntries_flat:
  "flat n \<Longrightarrow> \<forall>e \<in> set out. flat e \<Longrightarrow> \<forall>e \<in> set (fst (collectEntries n out partial)). flat e"
proof (induction n arbitrary: out partial rule: measure_induct_rule [of size])
  case (less n out partial)
  show ?case
  proof (cases "isAVLNode n")
    case True
    then have len: "length (children n) = 6" by (rule isAVLNode_length)
    with less.prems(1) have kids: "flat (children n ! i)" "size (children n ! i) < size n"
      if "i < 6" for i
      using that by (auto intro: flat_children children_nth_size)
    show ?thesis
    proof (cases "n_value (info (children n ! 2)) = ''0''")
      case leaf: True
      then show ?thesis
        using True kids(1) [of 1] less.prems(2)
        by (simp add: collectEntries.simps [of n] isAVLNode_kind Let_def flat_upd_info)
    next
      case False
      obtain out' partial' where l: "collectEntries (children n ! 4) out partial = (out', partial')"
        by fastforce
      have "\<forall>e \<in> set (fst (collectEntries (children n ! 4) out partial)). flat e"
        by (intro less.IH kids less.prems(2)) auto
      with l have "\<forall>e \<in> set out'. flat e" by simp
      then have "\<forall>e \<in> set (fst (collectEntries (children n ! 5) out' partial')). flat e"
        by (intro less.IH kids) auto
      then show ?thesis
        using True False l by (simp only: collectEntries.simps [of n] isAVLNode_kind Let_def)
          simp
    qed
  qed (use less.prems in \<open>auto simp: collectEntries.simps [of n]\<close>)
qed

lemma flat_flatten_node: "flat (flatten_node n)"
proof (induction n)
  case (Node i cs)
  let ?n = "Node i (map flatten_node cs)"
  have kids: "\<forall>c \<in> set (children ?n). flat c" using Node by auto
  show ?case
  proof (cases "snd (flattenTree ?n)")
    case False
    with kids show ?thesis by (simp add: Let_def case_prod_beta)
  next
    case True
    then have "length (children ?n) = 1"
      by (auto simp: flattenTree_def split: if_splits)
    with kids have "flat (children ?n ! 0)" by auto
    with True have "\<forall>e \<in> set (fst (collectEntries (children ?n ! 0) [] False)). flat e"
      by (intro collectEntries_flat) auto
    with True show ?thesis
      by (auto simp: Let_def case_prod_beta flattenTree_def split: if_splits)
  qed
qed

lemma flatten_node_flat: "flat n \<Longrightarrow> flatten_node n = n"
  by (induction n) (auto simp: Let_def case_prod_beta map_idI)

section \<open>Properties\<close>

text \<open>
  C35. Flattening a decoded \<^verbatim>\<open>avl.Tree\<close> yields a map whose children are exactly the
  leaves of the tree, left to right, each named by its key; the keys of a search
  tree come out strictly increasing; and the rendered value says "partially
  loaded" exactly when some subtree was not read.
\<close>

theorem flattenTree_lists_entries:
  assumes "n_kind (info n) = KindStruct" "children n = [root]"
    "n_name (info root) = ''node''" "avl_repr t root" "avl_ordered t"
  shows "\<exists>m. flattenTree n = (m, True) \<and> n_kind (info m) = KindMap \<and>
    children m = avl_entries t \<and>
    map (\<lambda>e. n_name (info e)) (children m) = avl_keys t \<and>
    sorted_wrt (<) (map (\<lambda>e. n_name (info e)) (children m)) \<and>
    n_value (info m) = plural (length (avl_keys t)) @
      (if avl_partial t then '', partially loaded'' else '''')"
proof (intro exI conjI)
  show "flattenTree n = (fst (flattenTree n), True)"
    using flattenTree_refines(1) [OF assms(1-4)] by (metis prod.collapse)
  show "n_value (info (fst (flattenTree n))) = plural (length (avl_keys t)) @
      (if avl_partial t then '', partially loaded'' else '''')"
    using flattenTree_refines(4) [OF assms(1-4)] avl_entries_names [of t]
    by (metis length_map)
qed (simp_all add: flattenTree_refines [OF assms(1-4)] avl_entries_names avl_keys_sorted assms(5))

definition demo_leaf :: "string \<Rightarrow> string \<Rightarrow> node" where
  "demo_leaf k oid =
     Node ((zero_info KindStruct)\<lparr>n_object_id := oid\<rparr>)
       (map (\<lambda>(f, v). Node ((zero_info KindPrimitive)\<lparr>n_name := f, n_value := v\<rparr>) [])
          [(''key'', k), (''value'', ''v''), (''height'', ''0''), (''size'', ''1''),
           (''leftNode'', ''''), (''rightNode'', '''')])"

definition demo_root :: node where
  "demo_root =
     Node ((zero_info KindStruct)\<lparr>n_name := ''node''\<rparr>)
       (map (\<lambda>(f, v). Node ((zero_info KindPrimitive)\<lparr>n_name := f, n_value := v\<rparr>) [])
          [(''key'', ''b''), (''value'', ''''), (''height'', ''1''), (''size'', ''2'')] @
        [upd_info (\<lambda>i. i\<lparr>n_name := ''leftNode''\<rparr>) (demo_leaf ''a'' ''o:1''),
         upd_info (\<lambda>i. i\<lparr>n_name := ''rightNode''\<rparr>) (demo_leaf ''b'' ''o:2'')])"

definition demo_avl :: avl where
  "demo_avl =
     Branch (Leaf ''a'' (children (demo_leaf ''a'' '''') ! 1) ''o:1'')
            (Leaf ''b'' (children (demo_leaf ''b'' '''') ! 1) ''o:2'')"

theorem flattenTree_lists_entries_witness:
  "\<exists>m. flattenTree (Node (zero_info KindStruct) [demo_root]) = (m, True) \<and>
    map (\<lambda>e. n_name (info e)) (children m) = [''a'', ''b''] \<and> n_value (info m) = ''2 entries''"
proof -
  have r: "avl_repr demo_avl demo_root" "avl_ordered demo_avl" "n_name (info demo_root) = ''node''"
    by code_simp+
  have k: "avl_keys demo_avl = [''a'', ''b'']" "\<not> avl_partial demo_avl" "plural 2 = ''2 entries''"
    by code_simp+
  have "\<exists>m. flattenTree (Node (zero_info KindStruct) [demo_root]) = (m, True) \<and>
      map (\<lambda>e. n_name (info e)) (children m) = avl_keys demo_avl \<and>
      n_value (info m) = plural (length (avl_keys demo_avl)) @
        (if avl_partial demo_avl then '', partially loaded'' else '''')"
    using flattenTree_lists_entries [OF _ _ r(3,1,2), of "Node (zero_info KindStruct) [demo_root]"]
    by fastforce
  with k show ?thesis by (simp add: numeral_2_eq_2)
qed

text \<open>A second pass changes nothing: the realm page and the object page agree.\<close>

theorem flattenTrees_idempotent: "flattenTrees (flattenTrees ns) = flattenTrees ns"
  by (auto simp: flattenTrees_def flatten_node_flat flat_flatten_node)

end
