(* ===== verification/Gnostate_Decode.thy ===== *)
theory Gnostate_Decode
  imports Gnostate_Avl "HOL-Library.Word"
begin

text \<open>
  The state walker of \<^verbatim>\<open>pkg/gnostate/decode.go\<close>, one definition per method.

  The walker state (\<open>walker\<close>) is threaded through every call. A resolver is a
  pair of functions over a state of its own, so that a resolver that records
  what it was asked for (the prefetch cache) is one too; a body that is an
  error, empty or not JSON is \<^term>\<open>None\<close>, since the code answers all three alike.

  The methods call one another recursively. Each is written over the recursive
  call \<open>rv\<close> it makes on a part of its message, and \<^verbatim>\<open>ref\<close> also over \<open>follow\<close>, the call
  on the message the resolver answered. \<open>walk\<close> and \<open>rawValue\<close> close the knot: the
  first recurs on the nesting of one message, with fuel equal to its size, the
  second on the number of references that may be nested. Running out of either
  is \<^term>\<open>None\<close>.
\<close>

section \<open>Wire format\<close>

definition tPrimitive :: string where "tPrimitive = ''/gno.PrimitiveType''"
definition tRef :: string where "tRef = ''/gno.RefType''"
definition tPointer :: string where "tPointer = ''/gno.PointerType''"
definition tSlice :: string where "tSlice = ''/gno.SliceType''"
definition tArray :: string where "tArray = ''/gno.ArrayType''"
definition tMap :: string where "tMap = ''/gno.MapType''"
definition tStruct :: string where "tStruct = ''/gno.StructType''"
definition tDeclared :: string where "tDeclared = ''/gno.DeclaredType''"
definition tFunc :: string where "tFunc = ''/gno.FuncType''"
definition tInterface :: string where "tInterface = ''/gno.InterfaceType''"
definition tType :: string where "tType = ''/gno.TypeType''"
definition tPackage :: string where "tPackage = ''/gno.PackageType''"
definition tHeapItem :: string where "tHeapItem = ''/gno.heapItemType''"

definition vString :: string where "vString = ''/gno.StringValue''"
definition vBigint :: string where "vBigint = ''/gno.BigintValue''"
definition vBigdec :: string where "vBigdec = ''/gno.BigdecValue''"
definition vPointer :: string where "vPointer = ''/gno.PointerValue''"
definition vRef :: string where "vRef = ''/gno.RefValue''"
definition vHeapItem :: string where "vHeapItem = ''/gno.HeapItemValue''"
definition vStruct :: string where "vStruct = ''/gno.StructValue''"
definition vSlice :: string where "vSlice = ''/gno.SliceValue''"
definition vArray :: string where "vArray = ''/gno.ArrayValue''"
definition vMap :: string where "vMap = ''/gno.MapValue''"
definition vFunc :: string where "vFunc = ''/gno.FuncValue''"
definition vType :: string where "vType = ''/gno.TypeValue''"
definition vBound :: string where "vBound = ''/gno.BoundMethodValue''"
definition vPackage :: string where "vPackage = ''/gno.PackageValue''"
definition vBlock :: string where "vBlock = ''/gno.Block''"
definition vRefNode :: string where "vRefNode = ''/gno.RefNode''"

lemmas wire_tags =
  tPrimitive_def tRef_def tPointer_def tSlice_def tArray_def tMap_def tStruct_def tDeclared_def
  tFunc_def tInterface_def tType_def tPackage_def tHeapItem_def
  vString_def vBigint_def vBigdec_def vPointer_def vRef_def vHeapItem_def vStruct_def vSlice_def
  vArray_def vMap_def vFunc_def vType_def vBound_def vPackage_def vBlock_def vRefNode_def

definition primitiveNames :: "int \<Rightarrow> string option" where
  "primitiveNames = map_of
     [(1, ''invalid''), (2, ''untyped bool''), (4, ''bool''), (8, ''untyped string''),
      (16, ''string''), (32, ''int''), (64, ''int8''), (128, ''int16''), (256, ''untyped rune''),
      (512, ''int32''), (1024, ''int64''), (2048, ''uint''), (4096, ''uint8''),
      (8192, ''databyte''), (16384, ''uint16''), (32768, ''uint32''), (65536, ''uint64''),
      (131072, ''float32''), (262144, ''float64''), (524288, ''untyped bigint''),
      (1048576, ''untyped bigdec'')]"

definition signedPrimitives :: "int \<Rightarrow> bool" where
  "signedPrimitives code \<longleftrightarrow> code \<in> {32, 64, 128, 256, 512, 1024, 524288}"

record typed_value =
  tv_T :: "json option"
  tv_V :: "json option"
  tv_N :: string

definition decode_tv :: "json option \<Rightarrow> typed_value" where
  "decode_tv r = \<lparr>tv_T = jfield_opt ''T'' r, tv_V = jfield_opt ''V'' r, tv_N = jstr_opt ''N'' r\<rparr>"

record object_info =
  oi_id :: string
  oi_hash :: string
  oi_owner :: string
  oi_mod_time :: string
  oi_ref_count :: string
  oi_size :: string

definition decode_oi :: "json option \<Rightarrow> object_info" where
  "decode_oi r =
     \<lparr>oi_id = jstr_opt ''ID'' r, oi_hash = jstr_opt ''Hash'' r, oi_owner = jstr_opt ''OwnerID'' r,
      oi_mod_time = jstr_opt ''ModTime'' r, oi_ref_count = jstr_opt ''RefCount'' r,
      oi_size = jstr_opt ''LastObjectSize'' r\<rparr>"

text \<open>\<^verbatim>\<open>len(raw) == 0 || string(raw) == "null"\<close>.\<close>

definition no_message :: "json option \<Rightarrow> bool" where
  "no_message r \<longleftrightarrow> r = None \<or> r = Some JNull"

section \<open>Types\<close>

record type_info =
  ti_name :: string
  ti_id :: string
  ti_fields :: "string list"

definition tname :: "type_info option \<Rightarrow> string" where
  "tname ti = (case ti of None \<Rightarrow> '''' | Some t \<Rightarrow> ti_name t)"

definition tid :: "type_info option \<Rightarrow> string" where
  "tid ti = (case ti of None \<Rightarrow> '''' | Some t \<Rightarrow> ti_id t)"

definition type_named :: "string \<Rightarrow> type_info" where
  "type_named s = \<lparr>ti_name = s, ti_id = '''', ti_fields = []\<rparr>"

definition shortTypeID :: "string \<Rightarrow> string" where
  "shortTypeID s = rev (takeWhile (\<lambda>c. c \<noteq> CHR ''.'') (rev s))"

definition primitiveCode :: "json option \<Rightarrow> int" where
  "primitiveCode t =
     (case t of None \<Rightarrow> 0
      | Some j \<Rightarrow>
          if \<not> (struct_ok j \<and> str_ok (jfield ''@type'' j) \<and> str_ok (jfield ''value'' j)) \<or>
             jstr ''@type'' j \<noteq> tPrimitive
          then 0 else fst (parse_int (jstr ''value'' j)))"

definition isFuncType :: "json option \<Rightarrow> bool" where
  "isFuncType t =
     (case t of None \<Rightarrow> False
      | Some j \<Rightarrow> struct_ok j \<and> str_ok (jfield ''@type'' j) \<and> jstr ''@type'' j = tFunc)"

definition zeroValue :: "int \<Rightarrow> string" where
  "zeroValue code =
     (if code = 2 \<or> code = 4 then ''false''
      else if code = 8 \<or> code = 16 then ''''
      else ''0'')"

definition type_head_ok :: "json \<Rightarrow> bool" where
  "type_head_ok j \<longleftrightarrow>
     struct_ok j \<and>
     list_all (\<lambda>k. str_ok (jfield k j)) [''@type'', ''ID'', ''Name'', ''PkgPath'', ''Len''] \<and>
     slice_ok (jfield ''Fields'' j) \<and>
     list_all (\<lambda>f. struct_ok f \<and> str_ok (jfield ''Name'' f)) (jelems (jfield ''Fields'' j))"

lemma jfield_shrinks [simp]: "jsize_opt (jfield k j) < jsize j"
  by (cases "jfield k j") (auto dest: jfield_size)

function typeOf :: "json option \<Rightarrow> type_info option" where
  "typeOf r =
     (case r of None \<Rightarrow> None
      | Some raw \<Rightarrow>
        if raw = JNull \<or> \<not> type_head_ok raw then None
        else let t = jstr ''@type'' raw in
        if t = tPrimitive then
          (let v = jstr ''value'' raw
           in case primitiveNames (fst (parse_int v)) of
                Some nm \<Rightarrow> Some (type_named nm)
              | None \<Rightarrow> Some (type_named (''primitive('' @ v @ '')'')))
        else if t = tRef then
          (let i = jstr ''ID'' raw
           in Some \<lparr>ti_name = shortTypeID i, ti_id = i, ti_fields = []\<rparr>)
        else if t = tDeclared then
          (let nm = jstr ''Name'' raw; pp = jstr ''PkgPath'' raw;
               ti = (if nm = '''' then \<lparr>ti_name = shortTypeID pp, ti_id = pp, ti_fields = []\<rparr>
                     else \<lparr>ti_name = nm, ti_id = pp @ ''.'' @ nm, ti_fields = []\<rparr>)
           in case typeOf (jfield ''Base'' raw) of
                Some b \<Rightarrow> Some (ti\<lparr>ti_fields := ti_fields b\<rparr>)
              | None \<Rightarrow> Some ti)
        else if t = tStruct then
          Some ((type_named ''struct'')
            \<lparr>ti_fields := map (jstr ''Name'') (jelems (jfield ''Fields'' raw))\<rparr>)
        else if t = tPointer then
          (case typeOf (jfield ''Elt'' raw) of
             Some e \<Rightarrow> Some (e\<lparr>ti_name := ''*'' @ ti_name e\<rparr>)
           | None \<Rightarrow> Some (type_named ''pointer''))
        else if t = tSlice then
          (case typeOf (jfield ''Elt'' raw) of
             Some e \<Rightarrow> Some (type_named (''[]'' @ ti_name e))
           | None \<Rightarrow> Some (type_named ''slice''))
        else if t = tArray then
          (case typeOf (jfield ''Elt'' raw) of
             Some e \<Rightarrow> Some (type_named (''['' @ jstr ''Len'' raw @ '']'' @ ti_name e))
           | None \<Rightarrow> Some (type_named ''array''))
        else if t = tMap then
          (case (typeOf (jfield ''Key'' raw), typeOf (jfield ''value'' raw)) of
             (Some k, Some v) \<Rightarrow> Some (type_named (''map['' @ ti_name k @ '']'' @ ti_name v))
           | _ \<Rightarrow> Some (type_named ''map''))
        else if t = tFunc then Some (type_named ''func'')
        else if t = tInterface then
          (let nm = jstr ''Name'' raw
           in Some (type_named (if nm \<noteq> '''' then nm else ''interface'')))
        else if t = tType then Some (type_named ''type'')
        else if t = tPackage then Some (type_named ''package'')
        else None)"
  by pat_completeness auto
termination
  by (relation "measure jsize_opt") auto

declare typeOf.simps [simp del]

section \<open>Walker state\<close>

record 's resolver =
  r_object :: "string \<Rightarrow> 's \<Rightarrow> json option \<times> 's"
  r_type :: "string \<Rightarrow> 's \<Rightarrow> json option \<times> 's"

text \<open>
  What does not change during a decode: the resolver (\<^term>\<open>None\<close> is the nil
  resolver), the limits, and \<^verbatim>\<open>strconv.FormatFloat(_, 'g', -1, _)\<close> on the bits of a
  float, which is a parameter: shortest float formatting is not modelled.
\<close>

record 's walk_env =
  we_res :: "'s resolver option"
  we_lim :: limits
  fmt_f32 :: "32 word \<Rightarrow> string"
  fmt_f64 :: "64 word \<Rightarrow> string"

record 's walker =
  wk_nodes :: int
  wk_fetches :: int
  wk_truncated :: bool
  wk_clipped :: bool
  on_path :: "string set"
  wk_types :: "string \<rightharpoonup> type_info option"
  res_state :: 's

type_synonym 's raw_dec =
  "string \<Rightarrow> type_info option \<Rightarrow> json \<Rightarrow> int \<Rightarrow> 's walker \<Rightarrow> (node \<times> 's walker) option"

definition newWalker :: "'s \<Rightarrow> 's walker" where
  "newWalker s =
     \<lparr>wk_nodes = 0, wk_fetches = 0, wk_truncated = False, wk_clipped = False,
      on_path = {}, wk_types = Map.empty, res_state = s\<rparr>"

definition budget :: "'s walk_env \<Rightarrow> int \<Rightarrow> 's walker \<Rightarrow> bool \<times> 's walker" where
  "budget E depth w =
     (if max_nodes (we_lim E) \<le> wk_nodes w \<or> max_depth (we_lim E) < depth
      then (False, w\<lparr>wk_truncated := True\<rparr>) else (True, w))"

definition ellipsis :: string where
  "ellipsis = [CHR 0xE2, CHR 0x80, CHR 0xA6]"

definition clip :: "'s walk_env \<Rightarrow> string \<Rightarrow> 's walker \<Rightarrow> string \<times> 's walker" where
  "clip E s w =
     (if int (length s) \<le> max_string (we_lim E) then (s, w)
      else (take (nat (max_string (we_lim E))) s @ ellipsis, w\<lparr>wk_clipped := True\<rparr>))"

definition stamp :: "object_info \<Rightarrow> node \<Rightarrow> node" where
  "stamp oi n =
     (if oi_id oi = '''' then n
      else upd_info (\<lambda>i.
        let i = i\<lparr>n_object_id := oi_id oi, n_owner_id := oi_owner oi, n_hash := oi_hash oi\<rparr>;
            i = (case parse_int (oi_size oi) of (v, ok) \<Rightarrow> if ok then i\<lparr>n_size := v\<rparr> else i);
            i = (case parse_int (oi_ref_count oi) of (v, ok) \<Rightarrow> if ok then i\<lparr>n_refs := v\<rparr> else i)
        in (case parse_int (oi_mod_time oi) of (v, ok) \<Rightarrow> if ok then i\<lparr>n_rev := v\<rparr> else i)) n)"

definition mk_node :: "string \<Rightarrow> type_info option \<Rightarrow> kind \<Rightarrow> string \<Rightarrow> node" where
  "mk_node name ti k v =
     Node ((zero_info k)\<lparr>n_name := name, n_type := tname ti, n_type_id := tid ti,
                         n_value := v\<rparr>) []"

definition number :: "'s walk_env \<Rightarrow> json option \<Rightarrow> string \<Rightarrow> string" where
  "number E t n =
     (case b64_decode n of None \<Rightarrow> n
      | Some b \<Rightarrow>
          if length b < 8 then n
          else let u = (word_of_nat (little_endian (take 8 b)) :: 64 word); code = primitiveCode t
               in if code = 4 \<or> code = 2 then (if u \<noteq> 0 then ''true'' else ''false'')
                  else if code = 131072 then fmt_f32 E (ucast u)
                  else if code = 262144 then fmt_f64 E u
                  else if signedPrimitives code then itoa (sint u)
                  else itoa (uint u))"

definition printableASCII :: "nat list \<Rightarrow> string option" where
  "printableASCII b =
     (if b = [] \<or> 512 < length b then None
      else if list_all (\<lambda>c. 32 \<le> c \<and> c \<le> 126) b then Some (map char_of b) else None)"

definition index_name :: "nat \<Rightarrow> string" where
  "index_name i = ''['' @ itoa (int i) @ '']''"

definition fieldNames ::
  "'s walk_env \<Rightarrow> type_info option \<Rightarrow> nat \<Rightarrow> 's walker \<Rightarrow> string list \<times> 's walker" where
  "fieldNames E ti want w =
     (case ti of None \<Rightarrow> ([], w)
      | Some t \<Rightarrow>
        if want = 0 then ([], w)
        else if length (ti_fields t) = want then (ti_fields t, w)
        else case we_res E of None \<Rightarrow> ([], w)
        | Some res \<Rightarrow>
          if ti_id t = '''' then ([], w)
          else case wk_types w (ti_id t) of
            Some cached \<Rightarrow>
              (case cached of None \<Rightarrow> ([], w)
               | Some c \<Rightarrow> (if length (ti_fields c) \<noteq> want then [] else ti_fields c, w))
          | None \<Rightarrow>
            (let w = w\<lparr>wk_types := (wk_types w)(ti_id t \<mapsto> None)\<rparr>
             in if max_fetch (we_lim E) \<le> wk_fetches w then ([], w\<lparr>wk_truncated := True\<rparr>)
                else let w = w\<lparr>wk_fetches := wk_fetches w + 1\<rparr>;
                         (body, s) = r_type res (ti_id t) (res_state w);
                         w = w\<lparr>res_state := s\<rparr>
                     in case body of None \<Rightarrow> ([], w)
                        | Some j \<Rightarrow>
                          if \<not> (struct_ok j \<and> str_ok (jfield ''typeid'' j)) then ([], w)
                          else let resolved = typeOf (jfield ''type'' j);
                                   w = w\<lparr>wk_types := (wk_types w)(ti_id t \<mapsto> resolved)\<rparr>
                               in case resolved of None \<Rightarrow> ([], w)
                                  | Some rt \<Rightarrow>
                                      (if length (ti_fields rt) \<noteq> want then [] else ti_fields rt,
                                       w)))"

section \<open>The methods of the walker\<close>

definition value_with ::
  "'s walk_env \<Rightarrow> 's raw_dec \<Rightarrow> string \<Rightarrow> typed_value \<Rightarrow> int \<Rightarrow> 's walker
     \<Rightarrow> (node \<times> 's walker) option" where
  "value_with E rv name tv depth w =
     (let (ok, w) = budget E depth w
      in if \<not> ok then Some (mk_node name None KindTruncated '''', w)
         else let w = w\<lparr>wk_nodes := wk_nodes w + 1\<rparr>; ti = typeOf (tv_T tv)
              in if tv_N tv \<noteq> ''''
                 then Some (mk_node name ti KindPrimitive (number E (tv_T tv) (tv_N tv)), w)
                 else case tv_V tv of
                     Some v \<Rightarrow>
                       if v \<noteq> JNull then rv name ti v depth w
                       else let code = primitiveCode (tv_T tv)
                            in if code \<noteq> 0
                               then Some (mk_node name ti KindPrimitive (zeroValue code), w)
                               else Some (mk_node name ti KindNil ''nil'', w)
                   | None \<Rightarrow>
                       let code = primitiveCode (tv_T tv)
                       in if code \<noteq> 0
                          then Some (mk_node name ti KindPrimitive (zeroValue code), w)
                          else Some (mk_node name ti KindNil ''nil'', w))"

definition pointer_with ::
  "'s walk_env \<Rightarrow> 's raw_dec \<Rightarrow> 's raw_dec" where
  "pointer_with E rv name ti raw depth w =
     (if \<not> no_message (jfield ''TV'' raw)
      then value_with E rv name (decode_tv (jfield ''TV'' raw)) depth w
      else case jfield ''Base'' raw of
          None \<Rightarrow> Some (mk_node name ti KindNil ''nil'', w)
        | Some b \<Rightarrow>
            if b = JNull then Some (mk_node name ti KindNil ''nil'', w)
            else case rv name ti b depth w of None \<Rightarrow> None
              | Some (base, w) \<Rightarrow>
                  if n_from_heap (info base) then Some (base, w)
                  else case parse_int (jstr ''Index'' raw) of
                    (idx, ok) \<Rightarrow>
                      if ok \<and> 0 \<le> idx \<and> idx < int (length (children base))
                      then Some (upd_info (\<lambda>i. i\<lparr>n_name := name\<rparr>) (children base ! nat idx), w)
                      else Some (base, w))"

definition ref_with ::
  "'s walk_env \<Rightarrow> 's raw_dec \<Rightarrow> 's raw_dec" where
  "ref_with E follow name ti raw depth w =
     (let oid = jstr ''ObjectID'' raw; pkg = jstr ''PkgPath'' raw;
          unresolved = upd_info (\<lambda>i. i\<lparr>n_object_id := oid, n_hash := jstr ''Hash'' raw\<rparr>)
                         (mk_node name ti KindRef '''')
      in if pkg \<noteq> '''' then Some (mk_node name ti KindPackage pkg, w)
         else if oid = '''' then Some (unresolved, w)
         else case we_res E of None \<Rightarrow> Some (unresolved, w)
         | Some res \<Rightarrow>
           if oid \<in> on_path w
           then Some (upd_info (\<lambda>i. i\<lparr>n_object_id := oid\<rparr>) (mk_node name ti KindCycle ''''), w)
           else if max_fetch (we_lim E) \<le> wk_fetches w \<or> \<not> fst (budget E depth w)
           then Some (unresolved, w\<lparr>wk_truncated := True\<rparr>)
           else let w = w\<lparr>wk_fetches := wk_fetches w + 1\<rparr>;
                    (body, s) = r_object res oid (res_state w);
                    w = w\<lparr>res_state := s\<rparr>
                in case body of None \<Rightarrow> Some (unresolved, w)
                   | Some env \<Rightarrow>
                     if \<not> (struct_ok env \<and> str_ok (jfield ''objectid'' env))
                     then Some (unresolved, w)
                     else case jfield ''value'' env of None \<Rightarrow> Some (unresolved, w)
                     | Some v \<Rightarrow>
                       (case follow name ti v depth (w\<lparr>on_path := insert oid (on_path w)\<rparr>) of
                          None \<Rightarrow> None
                        | Some (n, w) \<Rightarrow>
                            Some (if n_object_id (info n) = ''''
                                  then upd_info (\<lambda>i. i\<lparr>n_object_id := oid\<rparr>) n else n,
                                  w\<lparr>on_path := on_path w - {oid}\<rparr>)))"

definition structValue_with ::
  "'s walk_env \<Rightarrow> 's raw_dec \<Rightarrow> 's raw_dec" where
  "structValue_with E rv name ti raw depth w =
     (let fs = jelems (jfield ''Fields'' raw);
          n = stamp (decode_oi (jfield ''ObjectInfo'' raw)) (mk_node name ti KindStruct '''');
          (names, w) = fieldNames E ti (length fs) w;
          fname = (\<lambda>i. if i < length names \<and> names ! i \<noteq> '''' then names ! i else index_name i)
      in case fold_opt (\<lambda>(i, f) w. value_with E rv (fname i) (decode_tv (Some f)) (depth + 1) w)
                (enumerate 0 fs) w of
           None \<Rightarrow> None
         | Some (cs, w) \<Rightarrow> Some (Node (info n) cs, w))"

definition slice_with ::
  "'s walk_env \<Rightarrow> 's raw_dec \<Rightarrow> 's raw_dec" where
  "slice_with E rv name ti raw depth w =
     (case jfield ''Base'' raw of
        None \<Rightarrow> Some (mk_node name ti KindNil ''nil'', w)
      | Some b \<Rightarrow>
          if b = JNull then Some (mk_node name ti KindNil ''nil'', w)
          else case rv name ti b depth w of None \<Rightarrow> None
            | Some (base, w) \<Rightarrow>
                let off = max 0 (fst (parse_int (jstr ''Offset'' raw)));
                    len = fst (parse_int (jstr ''Length'' raw));
                    hi = wrap64 (off + len);
                    window = take (nat (hi - off)) (drop (nat off) (children base));
                    n = mk_node name ti KindSlice (''len '' @ itoa len);
                    i = (info n)\<lparr>n_object_id := n_object_id (info base),
                                 n_hash := n_hash (info base), n_size := n_size (info base)\<rparr>
                in Some (Node i (map (\<lambda>(k, c). upd_info (\<lambda>i. i\<lparr>n_name := index_name k\<rparr>) c)
                                  (enumerate 0 window)), w))"

definition array_with ::
  "'s walk_env \<Rightarrow> 's raw_dec \<Rightarrow> 's raw_dec" where
  "array_with E rv name ti raw depth w =
     (let n = stamp (decode_oi (jfield ''ObjectInfo'' raw)) (mk_node name ti KindArray '''');
          data = jstr ''Data'' raw; xs = jelems (jfield ''List'' raw)
      in if data \<noteq> '''' then
           (case b64_decode data of
              None \<Rightarrow> Some (upd_info (\<lambda>i. i\<lparr>n_value := ''undecodable bytes''\<rparr>) n, w)
            | Some b \<Rightarrow>
                (case printableASCII b of
                   Some s \<Rightarrow> (case clip E s w of (v, w) \<Rightarrow> Some (upd_info (\<lambda>i. i\<lparr>n_value := v\<rparr>) n, w))
                 | None \<Rightarrow> Some (upd_info (\<lambda>i. i\<lparr>n_value := itoa (int (length b)) @ '' bytes''\<rparr>) n, w)))
         else case fold_opt (\<lambda>(i, e) w. value_with E rv (index_name i) (decode_tv (Some e)) (depth + 1) w)
                     (enumerate 0 xs) w of
                None \<Rightarrow> None
              | Some (cs, w) \<Rightarrow>
                  Some (Node ((info n)\<lparr>n_value := ''len '' @ itoa (int (length xs))\<rparr>) cs, w))"

definition mapValue_with ::
  "'s walk_env \<Rightarrow> 's raw_dec \<Rightarrow> 's raw_dec" where
  "mapValue_with E rv name ti raw depth w =
     (let n = stamp (decode_oi (jfield ''ObjectInfo'' raw)) (mk_node name ti KindMap '''');
          xs = jelems (jfield ''List'' raw)
      in case fold_opt
                (\<lambda>(i, e) w.
                   case value_with E rv '''' (decode_tv (jfield ''Key'' e)) (depth + 1) w of
                     None \<Rightarrow> None
                   | Some (k, w) \<Rightarrow>
                       let key = (if n_value (info k) = '''' then index_name i
                                  else n_value (info k))
                       in value_with E rv key (decode_tv (jfield ''Value'' e)) (depth + 1) w)
                (enumerate 0 xs) w of
           None \<Rightarrow> None
         | Some (cs, w) \<Rightarrow>
             Some (Node ((info n)\<lparr>n_value := ''len '' @ itoa (int (length xs))\<rparr>) cs, w))"

definition funcValue :: "string \<Rightarrow> type_info option \<Rightarrow> json \<Rightarrow> node" where
  "funcValue name ti raw =
     (let n = stamp (decode_oi (jfield ''ObjectInfo'' raw)) (mk_node name ti KindFunc '''');
          nm = jstr ''Name'' raw;
          loc = jfield_opt ''Location'' (jfield ''Source'' raw);
          line = jstr_opt ''Line'' (jfield_opt ''Pos'' (jfield_opt ''Span'' loc))
      in upd_info (\<lambda>i.
           let i = i\<lparr>n_value := (if nm = '''' then ''func'' else nm), n_file := jstr_opt ''File'' loc\<rparr>
           in case parse_int line of (ln, ok) \<Rightarrow> if ok then i\<lparr>n_line := ln\<rparr> else i) n)"

definition rawValue_with ::
  "'s walk_env \<Rightarrow> 's raw_dec \<Rightarrow> 's raw_dec \<Rightarrow> 's raw_dec" where
  "rawValue_with E rv follow name ti raw depth w =
     (if \<not> (struct_ok raw \<and> str_ok (jfield ''@type'' raw))
      then Some (mk_node name ti KindTruncated ''undecodable'', w)
      else let t = jstr ''@type'' raw in
      if t = vString \<or> t = vBigint \<or> t = vBigdec then
        (case clip E (jstr ''value'' raw) w of (v, w) \<Rightarrow> Some (mk_node name ti KindPrimitive v, w))
      else if t = vHeapItem then
        (case value_with E rv name (decode_tv (jfield ''Value'' raw)) depth w of
           None \<Rightarrow> None
         | Some (inner, w) \<Rightarrow>
             Some (upd_info (\<lambda>i. i\<lparr>n_from_heap := True\<rparr>)
                     (stamp (decode_oi (jfield ''ObjectInfo'' raw)) inner), w))
      else if t = vPointer then pointer_with E rv name ti raw depth w
      else if t = vRef then ref_with E follow name ti raw depth w
      else if t = vStruct then structValue_with E rv name ti raw depth w
      else if t = vSlice then slice_with E rv name ti raw depth w
      else if t = vArray then array_with E rv name ti raw depth w
      else if t = vMap then mapValue_with E rv name ti raw depth w
      else if t = vType then
        Some (Node ((zero_info KindType)\<lparr>n_name := name, n_type := ''type'',
                n_value := tname (typeOf (jfield ''Type'' raw))\<rparr>) [], w)
      else if t = vFunc \<or> t = vBound then Some (funcValue name ti raw, w)
      else if t = vPackage then Some (mk_node name ti KindPackage '''', w)
      else if t = vBlock \<or> t = vRefNode then Some (mk_node name ti KindFunc '''', w)
      else Some (mk_node name ti KindTruncated t, w))"

text \<open>The recursion: \<open>walk\<close> within one message, \<open>rawValue\<close> across references.\<close>

primrec walk :: "'s walk_env \<Rightarrow> 's raw_dec \<Rightarrow> nat \<Rightarrow> 's raw_dec" where
  "walk E follow 0 = (\<lambda>name ti raw depth w. None)"
| "walk E follow (Suc m) = rawValue_with E (walk E follow m) follow"

primrec rawValue :: "'s walk_env \<Rightarrow> nat \<Rightarrow> 's raw_dec" where
  "rawValue E 0 =
     (\<lambda>name ti raw depth w.
        walk E (\<lambda>_ _ _ _ _. None) (jsize raw) name ti raw depth w)"
| "rawValue E (Suc n) =
     (\<lambda>name ti raw depth w.
        walk E (rawValue E n) (jsize raw) name ti raw depth w)"

definition value_of ::
  "'s walk_env \<Rightarrow> nat \<Rightarrow> string \<Rightarrow> typed_value \<Rightarrow> int \<Rightarrow> 's walker
     \<Rightarrow> (node \<times> 's walker) option" where
  "value_of E fuel = value_with E (rawValue E fuel)"

section \<open>Entry points\<close>

datatype decode_error = ParsePackageBlock | ParseEnvelope | NoValue string

definition stats_of :: "'s walker \<Rightarrow> stats" where
  "stats_of w = \<lparr>st_nodes = wk_nodes w, st_fetches = wk_fetches w,
                 st_truncated = wk_truncated w, st_clipped = wk_clipped w\<rparr>"

definition pkg_block_ok :: "json \<Rightarrow> bool" where
  "pkg_block_ok j \<longleftrightarrow>
     struct_ok j \<and> slice_ok (jfield ''names'' j) \<and> slice_ok (jfield ''values'' j) \<and>
     list_all (\<lambda>x. str_ok (Some x)) (jelems (jfield ''names'' j)) \<and>
     list_all (\<lambda>x. struct_ok x \<and> str_ok (jfield ''N'' x)) (jelems (jfield ''values'' j))"

definition elem_str :: "json \<Rightarrow> string" where
  "elem_str j = (case j of JStr s \<Rightarrow> s | _ \<Rightarrow> '''')"

text \<open>
  The loop over the parallel arrays \<^verbatim>\<open>names\<close> and \<^verbatim>\<open>values\<close>; pairing them stops at the
  shorter one, as the \<^verbatim>\<open>break\<close> does.
\<close>

fun decode_block ::
  "'s walk_env \<Rightarrow> nat \<Rightarrow> (string \<times> typed_value) list \<Rightarrow> 's walker
     \<Rightarrow> (node list \<times> 's walker) option" where
  "decode_block E fuel [] w = Some ([], w)"
| "decode_block E fuel ((name, tv) # rest) w =
     (if name = '''' \<or> name = ''_'' then decode_block E fuel rest w
      else if isFuncType (tv_T tv) then decode_block E fuel rest w
      else case value_of E fuel name tv 0 w of None \<Rightarrow> None
        | Some (n, w) \<Rightarrow>
            if n_kind (info n) = KindFunc then decode_block E fuel rest w
            else map_option (\<lambda>(ns, w). (n # ns, w)) (decode_block E fuel rest w))"

definition with_defaults_env :: "'s walk_env \<Rightarrow> 's walk_env" where
  "with_defaults_env E = E\<lparr>we_lim := withDefaults (we_lim E)\<rparr>"

definition block_bindings :: "json \<Rightarrow> (string \<times> typed_value) list" where
  "block_bindings j =
     zip (map elem_str (jelems (jfield ''names'' j)))
         (map (\<lambda>v. decode_tv (Some v)) (jelems (jfield ''values'' j)))"

definition DecodePackage ::
  "'s walk_env \<Rightarrow> nat \<Rightarrow> json option \<Rightarrow> 's \<Rightarrow> (decode_error + gno_tree \<times> 's) option" where
  "DecodePackage E fuel raw s =
     (case raw of None \<Rightarrow> Some (Inl ParsePackageBlock)
      | Some j \<Rightarrow>
        if \<not> pkg_block_ok j then Some (Inl ParsePackageBlock)
        else map_option
          (\<lambda>(ns, w). Inr (\<lparr>t_nodes = flattenTrees ns, t_stats = stats_of w\<rparr>, res_state w))
          (decode_block (with_defaults_env E) fuel (block_bindings j) (newWalker s)))"

definition DecodeObject ::
  "'s walk_env \<Rightarrow> nat \<Rightarrow> json option \<Rightarrow> string \<Rightarrow> 's \<Rightarrow> (decode_error + node) option" where
  "DecodeObject E fuel raw typeID s =
     (case raw of None \<Rightarrow> Some (Inl ParseEnvelope)
      | Some env \<Rightarrow>
        if \<not> (struct_ok env \<and> str_ok (jfield ''objectid'' env)) then Some (Inl ParseEnvelope)
        else let oid = jstr ''objectid'' env in
          (case jfield ''value'' env of None \<Rightarrow> Some (Inl (NoValue oid))
           | Some v \<Rightarrow>
             let ti = (if typeID = '''' then None
                       else Some \<lparr>ti_name = shortTypeID typeID, ti_id = typeID, ti_fields = []\<rparr>)
             in map_option
                  (\<lambda>(n, w). Inr (flatten_node
                     (if n_object_id (info n) = '''' then upd_info (\<lambda>i. i\<lparr>n_object_id := oid\<rparr>) n
                      else n)))
                  (rawValue (with_defaults_env E) fuel '''' ti v 0 (newWalker s))))"

end
