(* ===== verification/Gnostate_Walk.thy ===== *)
theory Gnostate_Walk
  imports Gnostate_Decode
begin

text \<open>
  What every run of the walker keeps, whatever the payload and whatever the
  resolver answers: its counters only grow and stay within the limits, the set
  of objects on the path is restored, and the tree it built carries at most as
  many data nodes as the walker counted. The second part shows that the recursion ends.
\<close>

section \<open>The contract between the walker and a resolver\<close>

text \<open>
  \<open>RS\<close> is what the resolver promises about its own state from one call to the
  next. The walker's lemmas are proved once under this contract.
\<close>

locale walker_run =
  fixes E :: "'s walk_env"
    and RS :: "'s \<Rightarrow> 's \<Rightarrow> bool"
  assumes RS_refl: "RS s s"
    and RS_trans: "RS s t \<Longrightarrow> RS t u \<Longrightarrow> RS s u"
    and RS_object: "we_res E = Some res \<Longrightarrow> RS s (snd (r_object res oid s))"
    and RS_type: "we_res E = Some res \<Longrightarrow> RS s (snd (r_type res ty s))"

definition advances ::
  "'s walk_env \<Rightarrow> ('s \<Rightarrow> 's \<Rightarrow> bool) \<Rightarrow> 's walker \<Rightarrow> 's walker \<Rightarrow> bool" where
  "advances E RS w w' \<longleftrightarrow>
     wk_nodes w \<le> wk_nodes w' \<and> wk_fetches w \<le> wk_fetches w' \<and>
     (wk_truncated w \<longrightarrow> wk_truncated w') \<and> (wk_clipped w \<longrightarrow> wk_clipped w') \<and>
     on_path w' = on_path w \<and>
     (wk_fetches w \<le> max_fetch (we_lim E) \<longrightarrow> wk_fetches w' \<le> max_fetch (we_lim E)) \<and>
     (wk_nodes w \<le> max_nodes (we_lim E) \<longrightarrow> wk_nodes w' \<le> max_nodes (we_lim E)) \<and>
     RS (res_state w) (res_state w')"

definition post_val ::
  "'s walk_env \<Rightarrow> ('s \<Rightarrow> 's \<Rightarrow> bool) \<Rightarrow> 's walker \<Rightarrow> node \<Rightarrow> 's walker \<Rightarrow> bool" where
  "post_val E RS w n w' \<longleftrightarrow>
     advances E RS w w' \<and> int (loaded n) \<le> wk_nodes w' - wk_nodes w"

definition post_raw ::
  "'s walk_env \<Rightarrow> ('s \<Rightarrow> 's \<Rightarrow> bool) \<Rightarrow> 's walker \<Rightarrow> node \<Rightarrow> 's walker \<Rightarrow> bool" where
  "post_raw E RS w n w' \<longleftrightarrow>
     advances E RS w w' \<and> int (loaded n) \<le> wk_nodes w' - wk_nodes w + 1"

definition sound_dec ::
  "'s walk_env \<Rightarrow> ('s \<Rightarrow> 's \<Rightarrow> bool) \<Rightarrow> 's raw_dec \<Rightarrow> bool" where
  "sound_dec E RS rv \<longleftrightarrow>
     (\<forall>name ti raw depth w n w'. rv name ti raw depth w = Some (n, w') \<longrightarrow> post_raw E RS w n w')"

lemma sound_decD:
  "sound_dec E RS rv \<Longrightarrow> rv name ti raw depth w = Some (n, w') \<Longrightarrow> post_raw E RS w n w'"
  by (auto simp: sound_dec_def)

lemma loaded_mk_node [simp]:
  "loaded (mk_node name ti k v) = (if k = KindTruncated then 0 else 1)"
  by (simp add: mk_node_def loaded_Node)

lemma mk_node_info [simp]:
  "n_kind (info (mk_node name ti k v)) = k" "children (mk_node name ti k v) = []"
  "n_value (info (mk_node name ti k v)) = v" "n_name (info (mk_node name ti k v)) = name"
  by (simp_all add: mk_node_def)

lemma stamp_simps [simp]:
  "n_kind (info (stamp oi n)) = n_kind (info n)" "children (stamp oi n) = children n"
  by (auto simp: stamp_def Let_def split: prod.splits)

lemma loaded_cong:
  "n_kind (info m) = n_kind (info n) \<Longrightarrow> children m = children n \<Longrightarrow> loaded m = loaded n"
  by (cases m; cases n) (simp add: loaded_Node)

lemma loaded_stamp [simp]: "loaded (stamp oi n) = loaded n"
  by (rule loaded_cong) simp_all


lemma loaded_renamed_le:
  "(\<And>k i. n_kind (g k i) = n_kind i) \<Longrightarrow>
   loaded_all (map (\<lambda>(k, c). upd_info (g k) c) (enumerate j cs)) = loaded_all cs"
  by (induction cs arbitrary: j) (auto simp: loaded_upd_info)

lemma parse_int_max: "fst (parse_int s) \<le> max_int64"
  by (auto simp: parse_int_def min_int64_def max_int64_def Let_def split: option.splits)

context walker_run
begin

lemma advances_refl: "advances E RS w w"
  by (simp add: advances_def RS_refl)

lemma advances_trans: "advances E RS a b \<Longrightarrow> advances E RS b c \<Longrightarrow> advances E RS a c"
  by (auto simp: advances_def intro: RS_trans)

lemma advances_clip: "clip E s w = (v, w') \<Longrightarrow> advances E RS w w' \<and> wk_nodes w' = wk_nodes w"
  by (auto simp: clip_def advances_def RS_refl split: if_splits)

lemma advances_fieldNames:
  assumes "fieldNames E ti want w = (ns, w')"
  shows "advances E RS w w' \<and> wk_nodes w' = wk_nodes w"
proof (cases "\<exists>t res. ti = Some t \<and> we_res E = Some res \<and> want \<noteq> 0 \<and> length (ti_fields t) \<noteq> want \<and>
    ti_id t \<noteq> '''' \<and> wk_types w (ti_id t) = None \<and> wk_fetches w < max_fetch (we_lim E)")
  case False
  then have "w' = w \<or> (\<exists>T. w' = w\<lparr>wk_types := T, wk_truncated := True\<rparr>)"
    using assms
    by (cases ti; cases "we_res E") (auto simp: fieldNames_def Let_def split: option.splits if_splits)
  then show ?thesis by (auto simp: advances_def RS_refl)
next
  case True
  then obtain t res where t: "ti = Some t" "we_res E = Some res" "want \<noteq> 0"
    "length (ti_fields t) \<noteq> want" "ti_id t \<noteq> ''''" "wk_types w (ti_id t) = None"
    "wk_fetches w < max_fetch (we_lim E)" by blast
  obtain body s where r: "r_type res (ti_id t) (res_state w) = (body, s)" by fastforce
  have "wk_nodes w' = wk_nodes w \<and> wk_fetches w' = wk_fetches w + 1 \<and> on_path w' = on_path w \<and>
      wk_truncated w' = wk_truncated w \<and> wk_clipped w' = wk_clipped w \<and> res_state w' = s"
    using assms t r by (auto simp: fieldNames_def Let_def split: option.splits if_splits)
  moreover have "RS (res_state w) s" using RS_type [OF t(2)] r by (metis snd_conv)
  ultimately show ?thesis using t(7) by (auto simp: advances_def)
qed

lemma value_with_post:
  assumes "sound_dec E RS rv" "value_with E rv name tv depth w = Some (n, w')"
  shows "post_val E RS w n w'"
proof (cases "fst (budget E depth w)")
  case False
  with assms(2) show ?thesis
    by (auto simp: value_with_def budget_def post_val_def advances_def RS_refl split: if_splits)
next
  case True
  then have bud: "budget E depth w = (True, w)" and lt: "wk_nodes w < max_nodes (we_lim E)"
    by (auto simp: budget_def split: if_splits)
  let ?w = "w\<lparr>wk_nodes := wk_nodes w + 1\<rparr>"
  have w: "advances E RS w ?w" using lt by (simp add: advances_def RS_refl)
  show ?thesis
  proof (cases "\<exists>v. tv_N tv = '''' \<and> tv_V tv = Some v \<and> v \<noteq> JNull")
    case True
    then have "rv name (typeOf (tv_T tv)) (the (tv_V tv)) depth ?w = Some (n, w')"
      using assms(2) bud by (auto simp: value_with_def Let_def)
    from sound_decD [OF assms(1) this] w show ?thesis
      by (auto simp: post_val_def post_raw_def intro: advances_trans)
  next
    case False
    then have "w' = ?w \<and> loaded n = 1"
      using assms(2) bud by (auto simp: value_with_def Let_def split: option.splits if_splits)
    with w show ?thesis by (simp add: post_val_def)
  qed
qed

lemma fold_children_post:
  assumes "\<And>x w n w'. x \<in> set xs \<Longrightarrow> f x w = Some (n, w') \<Longrightarrow> post_val E RS w n w'"
  shows "fold_opt f xs w = Some (ns, w') \<Longrightarrow>
    advances E RS w w' \<and> int (loaded_all ns) \<le> wk_nodes w' - wk_nodes w"
  using assms
proof (induction xs arbitrary: w ns)
  case Nil
  then show ?case by (simp add: advances_refl)
next
  case (Cons x xs)
  then obtain n w1 ns' where 1: "f x w = Some (n, w1)" "fold_opt f xs w1 = Some (ns', w')"
      "ns = n # ns'"
    by (auto split: option.splits)
  have "post_val E RS w n w1" using 1(1) by (rule Cons.prems(2) [rotated]) simp
  moreover have "advances E RS w1 w' \<and> int (loaded_all ns') \<le> wk_nodes w' - wk_nodes w1"
    by (rule Cons.IH [OF 1(2)]) (rule Cons.prems(2), auto)
  ultimately show ?case using 1 by (auto simp: post_val_def intro: advances_trans)
qed

lemma pointer_with_post:
  assumes "sound_dec E RS rv" "pointer_with E rv name ti raw depth w = Some (n, w')"
  shows "post_raw E RS w n w'"
proof -
  have val: "post_val E RS w n w' \<Longrightarrow> post_raw E RS w n w'"
    by (simp add: post_val_def post_raw_def)
  have base: "post_raw E RS w n w'"
    if "rv name ti b depth w = Some (base, w')"
      "n = base \<or> (\<exists>i < length (children base). n = upd_info (\<lambda>j. j\<lparr>n_name := name\<rparr>) (children base ! i))"
    for b base
  proof -
    have "loaded n \<le> loaded base"
      using that(2) loaded_children [of base]
      by (auto simp: loaded_upd_info dest: loaded_nth)
    with sound_decD [OF assms(1) that(1)] show ?thesis by (simp add: post_raw_def)
  qed
  have nil: "post_raw E RS u (mk_node name ti KindNil ''nil'') u" for u
    by (simp add: post_raw_def advances_refl)
  show ?thesis
  proof (cases "no_message (jfield ''TV'' raw) \<and> \<not> no_message (jfield ''Base'' raw)")
    case False
    with assms(2) show ?thesis
      by (auto simp: pointer_with_def no_message_def split: if_splits option.splits
          intro: val value_with_post [OF assms(1)] nil)
  next
    case True
    then obtain b bs u where b: "rv name ti b depth w = Some (bs, u)"
      and sp: "(if n_from_heap (info bs) then Some (bs, u)
                else case parse_int (jstr ''Index'' raw) of
                    (idx, ok) \<Rightarrow>
                      if ok \<and> 0 \<le> idx \<and> idx < int (length (children bs))
                      then Some (upd_info (\<lambda>i. i\<lparr>n_name := name\<rparr>) (children bs ! nat idx), u)
                      else Some (bs, u)) = Some (n, w')"
      using assms(2) by (auto simp: pointer_with_def no_message_def split: option.splits if_splits)
    obtain idx ok where p: "parse_int (jstr ''Index'' raw) = (idx, ok)" by fastforce
    have u: "u = w'" using sp p by (simp split: if_splits)
    have "n = bs \<or> (\<exists>i < length (children bs). n = upd_info (\<lambda>j. j\<lparr>n_name := name\<rparr>) (children bs ! i))"
    proof (cases "n_from_heap (info bs) \<or> \<not> (ok \<and> 0 \<le> idx \<and> idx < int (length (children bs)))")
      case True
      with sp p show ?thesis by (auto split: if_splits)
    next
      case False
      with sp p have "n = upd_info (\<lambda>i. i\<lparr>n_name := name\<rparr>) (children bs ! nat idx)" by simp
      moreover have "nat idx < length (children bs)" using False by linarith
      ultimately show ?thesis by blast
    qed
    with b u show ?thesis using base by blast
  qed
qed

lemma ref_with_post:
  assumes "sound_dec E RS follow" "ref_with E follow name ti raw depth w = Some (n, w')"
  shows "post_raw E RS w n w'"
proof -
  let ?oid = "jstr ''ObjectID'' raw"
  have leaf: "post_raw E RS w n w'" if "loaded n \<le> 1" "advances E RS w w'" "wk_nodes w' = wk_nodes w"
    using that by (simp add: post_raw_def)
  show ?thesis
  proof (cases "\<exists>res. we_res E = Some res \<and> jstr ''PkgPath'' raw = '''' \<and> ?oid \<noteq> '''' \<and>
      ?oid \<notin> on_path w \<and> wk_fetches w < max_fetch (we_lim E) \<and> fst (budget E depth w)")
    case False
    then have "loaded n \<le> 1 \<and> advances E RS w w' \<and> wk_nodes w' = wk_nodes w"
      using assms(2)
      by (auto simp: ref_with_def Let_def loaded_upd_info advances_def RS_refl
          split: if_splits option.splits)
    then show ?thesis using leaf by blast
  next
    case True
    then obtain res where res: "we_res E = Some res" and fet: "wk_fetches w < max_fetch (we_lim E)"
      and new: "?oid \<notin> on_path w" and go: "jstr ''PkgPath'' raw = ''''" "?oid \<noteq> ''''"
        "fst (budget E depth w)" by blast
    obtain body s where ro: "r_object res ?oid (res_state w) = (body, s)" by fastforce
    have rs: "RS (res_state w) s" using RS_object [OF res] ro by (metis snd_conv)
    let ?w = "w\<lparr>wk_fetches := wk_fetches w + 1, res_state := s\<rparr>"
    have adv: "advances E RS w ?w" using fet rs by (simp add: advances_def)
    show ?thesis
    proof (cases "\<exists>env v. body = Some env \<and> struct_ok env \<and> str_ok (jfield ''objectid'' env) \<and>
        jfield ''value'' env = Some v")
      case False
      then have "loaded n \<le> 1 \<and> w' = ?w"
        using assms(2) res fet new go ro
        by (auto simp: ref_with_def Let_def loaded_upd_info split: option.splits if_splits)
      with adv show ?thesis using leaf by simp
    next
      case True
      then obtain v n0 w0 where
        f: "follow name ti v depth (?w\<lparr>on_path := insert ?oid (on_path w)\<rparr>) = Some (n0, w0)"
        and n: "n = (if n_object_id (info n0) = '''' then upd_info (\<lambda>i. i\<lparr>n_object_id := ?oid\<rparr>) n0 else n0)"
        and w': "w' = w0\<lparr>on_path := on_path w0 - {?oid}\<rparr>"
        using assms(2) res fet new go ro
        by (auto simp: ref_with_def Let_def split: option.splits if_splits)
      from n have l: "loaded n = loaded n0" by (auto simp: loaded_upd_info)
      from sound_decD [OF assms(1) f] rs fet new w' l show ?thesis
        by (auto simp: post_raw_def advances_def intro: RS_trans)
    qed
  qed
qed

lemma structValue_with_post:
  assumes "sound_dec E RS rv" "structValue_with E rv name ti raw depth w = Some (n, w')"
  shows "post_raw E RS w n w'"
proof -
  let ?fs = "jelems (jfield ''Fields'' raw)"
  obtain names w1 where f: "fieldNames E ti (length ?fs) w = (names, w1)" by fastforce
  from assms(2) f obtain cs g where
    fold: "fold_opt (\<lambda>(i, f) w. value_with E rv (g i) (decode_tv (Some f)) (depth + 1) w)
             (enumerate 0 ?fs) w1 = Some (cs, w')"
    and n: "loaded n \<le> 1 + loaded_all cs"
    by (auto simp: structValue_with_def Let_def loaded_Node split: option.splits prod.splits)
  have "advances E RS w1 w' \<and> int (loaded_all cs) \<le> wk_nodes w' - wk_nodes w1"
    using fold by (rule fold_children_post [rotated]) (auto intro: value_with_post [OF assms(1)])
  with advances_fieldNames [OF f] n show ?thesis
    by (auto simp: post_raw_def intro: advances_trans)
qed

lemma slice_with_post:
  assumes "sound_dec E RS rv" "slice_with E rv name ti raw depth w = Some (n, w')"
  shows "post_raw E RS w n w'"
proof (cases "no_message (jfield ''Base'' raw)")
  case True
  with assms(2) show ?thesis
    by (auto simp: slice_with_def no_message_def post_raw_def advances_refl)
next
  case False
  then obtain b base k j where rv: "rv name ti b depth w = Some (base, w')"
    and n: "loaded n = 1 + loaded_all (take k (drop j (children base)))"
    using assms(2)
    by (auto simp: slice_with_def no_message_def Let_def loaded_Node loaded_renamed_le
        split: option.splits if_splits prod.splits)
  have "loaded n \<le> 1 + loaded_all (children base)"
    unfolding n using loaded_all_take_drop by simp
  then have "loaded n \<le> max 1 (loaded base)"
    by (cases base) (auto simp: loaded_Node split: if_splits)
  with sound_decD [OF assms(1) rv] show ?thesis by (auto simp: post_raw_def advances_def)
qed

lemma array_with_post:
  assumes "sound_dec E RS rv" "array_with E rv name ti raw depth w = Some (n, w')"
  shows "post_raw E RS w n w'"
proof (cases "jstr ''Data'' raw = ''''")
  case False
  then have "loaded n = 1 \<and> advances E RS w w'"
    using assms(2)
    by (auto simp: array_with_def Let_def loaded_upd_info advances_refl
        split: option.splits prod.splits dest: advances_clip)
  then show ?thesis by (auto simp: post_raw_def advances_def)
next
  case True
  let ?xs = "jelems (jfield ''List'' raw)"
  from True assms(2) obtain cs where
    fold: "fold_opt (\<lambda>(i, e) w. value_with E rv (index_name i) (decode_tv (Some e)) (depth + 1) w)
             (enumerate 0 ?xs) w = Some (cs, w')"
    and n: "loaded n = 1 + loaded_all cs"
    by (auto simp: array_with_def Let_def loaded_Node split: option.splits)
  have "advances E RS w w' \<and> int (loaded_all cs) \<le> wk_nodes w' - wk_nodes w"
    using fold by (rule fold_children_post [rotated]) (auto intro: value_with_post [OF assms(1)])
  with n show ?thesis by (auto simp: post_raw_def)
qed

lemma mapValue_with_post:
  assumes "sound_dec E RS rv" "mapValue_with E rv name ti raw depth w = Some (n, w')"
  shows "post_raw E RS w n w'"
proof -
  let ?step = "\<lambda>(i, e) w.
      case value_with E rv '''' (decode_tv (jfield ''Key'' e)) (depth + 1) w of
        None \<Rightarrow> None
      | Some (k, w) \<Rightarrow>
          let key = (if n_value (info k) = '''' then index_name i else n_value (info k))
          in value_with E rv key (decode_tv (jfield ''Value'' e)) (depth + 1) w"
  from assms(2) obtain cs where
    fold: "fold_opt ?step (enumerate 0 (jelems (jfield ''List'' raw))) w = Some (cs, w')"
    and n: "loaded n = 1 + loaded_all cs"
    by (auto simp: mapValue_with_def Let_def loaded_Node split: option.splits)
  have step: "post_val E RS w n w'" if "?step x w = Some (n, w')" for x w n w'
  proof -
    from that obtain k w1 key where
      "value_with E rv '''' (decode_tv (jfield ''Key'' (snd x))) (depth + 1) w = Some (k, w1)"
      "value_with E rv key (decode_tv (jfield ''Value'' (snd x))) (depth + 1) w1 = Some (n, w')"
      by (auto simp: case_prod_beta Let_def split: option.splits)
    from this [THEN value_with_post [OF assms(1)]] show ?thesis
      by (auto simp: post_val_def advances_def intro: RS_trans)
  qed
  have "advances E RS w w' \<and> int (loaded_all cs) \<le> wk_nodes w' - wk_nodes w"
    using fold by (rule fold_children_post [rotated]) (rule step)
  with n show ?thesis by (auto simp: post_raw_def)
qed

lemma rawValue_with_post:
  assumes "sound_dec E RS rv" "sound_dec E RS follow"
    "rawValue_with E rv follow name ti raw depth w = Some (n, w')"
  shows "post_raw E RS w n w'"
proof -
  have leaf: "post_raw E RS u m u'" if "loaded m \<le> 1" "advances E RS u u'" for m u u'
    using that by (auto simp: post_raw_def advances_def)
  have heap: "post_raw E RS w (upd_info (\<lambda>i. i\<lparr>n_from_heap := True\<rparr>) (stamp oi m)) w'"
    if "value_with E rv name tv depth w = Some (m, w')" for m tv oi
    using value_with_post [OF assms(1) that]
    by (simp add: post_raw_def post_val_def loaded_upd_info)
  have func: "loaded (funcValue name ti raw) = 1"
    by (auto simp: funcValue_def Let_def loaded_upd_info split: prod.splits)
  from assms(3) show ?thesis
    by (auto simp: rawValue_with_def Let_def func advances_refl loaded_Node
        split: if_splits option.splits prod.splits
        intro: leaf heap pointer_with_post [OF assms(1)] ref_with_post [OF assms(2)]
          structValue_with_post [OF assms(1)] slice_with_post [OF assms(1)]
          array_with_post [OF assms(1)] mapValue_with_post [OF assms(1)]
        dest: advances_clip)
qed

lemma sound_walk: "sound_dec E RS follow \<Longrightarrow> sound_dec E RS (walk E follow m)"
proof (induction m)
  case 0
  then show ?case by (simp add: sound_dec_def)
next
  case (Suc m)
  then have "sound_dec E RS (walk E follow m)" by blast
  from rawValue_with_post [OF this Suc.prems] show ?case by (simp add: sound_dec_def)
qed

lemma sound_rawValue: "sound_dec E RS (rawValue E fuel)"
proof (induction fuel)
  case 0
  have "sound_dec E RS (\<lambda>_ _ _ _ _. None)" by (simp add: sound_dec_def)
  from sound_walk [OF this] show ?case by (auto simp: sound_dec_def)
next
  case (Suc fuel)
  from sound_walk [OF this] show ?case by (auto simp: sound_dec_def)
qed

lemma decode_block_post:
  "decode_block E fuel bs w = Some (ns, w') \<Longrightarrow>
   advances E RS w w' \<and> int (loaded_all ns) \<le> wk_nodes w' - wk_nodes w"
proof (induction bs arbitrary: w ns)
  case Nil
  then show ?case by (simp add: advances_refl)
next
  case (Cons b bs)
  obtain name tv where b: "b = (name, tv)" by fastforce
  show ?case
  proof (cases "name = '''' \<or> name = ''_'' \<or> isFuncType (tv_T tv)")
    case True
    with Cons.prems b have "decode_block E fuel bs w = Some (ns, w')" by (simp split: if_splits)
    then show ?thesis by (rule Cons.IH)
  next
    case False
    with Cons.prems b obtain n w1 ns' where
      v: "value_of E fuel name tv 0 w = Some (n, w1)"
      and r: "decode_block E fuel bs w1 = Some (ns', w')" "ns = ns' \<or> ns = n # ns'"
      by (auto split: option.splits if_splits)
    have "post_val E RS w n w1"
      using v sound_rawValue unfolding value_of_def by (rule value_with_post [rotated])
    with Cons.IH [OF r(1)] r(2) show ?thesis
      by (auto simp: post_val_def advances_def intro: RS_trans)
  qed
qed

end

text \<open>A resolver about whose state nothing is known still satisfies the contract.\<close>

definition any_state :: "'s \<Rightarrow> 's \<Rightarrow> bool" where
  "any_state s t \<longleftrightarrow> True"

interpretation any_resolver: walker_run E any_state for E
  by unfold_locales (simp_all add: any_state_def)

section \<open>Termination\<close>

text \<open>
  The recursion follows a reference only to an object that is not on the path and
  only while fetches are left. \<open>mu\<close> is any measure that decreases when it does; with
  more fuel than \<open>mu\<close> the walk returns.
\<close>

locale follow_measure = walker_run E RS for E :: "'s walk_env" and RS +
  fixes mu :: "'s walker \<Rightarrow> nat"
  assumes mu_advances: "advances E RS w w' \<Longrightarrow> mu w' \<le> mu w"
    and mu_follow:
      "we_res E = Some res \<Longrightarrow> oid \<notin> on_path w \<Longrightarrow> wk_fetches w < max_fetch (we_lim E) \<Longrightarrow>
       r_object res oid (res_state w) = (Some env, s) \<Longrightarrow>
       mu (w\<lparr>wk_fetches := wk_fetches w + 1, res_state := s, on_path := insert oid (on_path w)\<rparr>)
         < mu w"

definition total_dec :: "('s walker \<Rightarrow> nat) \<Rightarrow> nat \<Rightarrow> nat \<Rightarrow> 's raw_dec \<Rightarrow> bool" where
  "total_dec mu k sz rv \<longleftrightarrow>
     (\<forall>name ti raw depth w. jsize raw \<le> sz \<longrightarrow> mu w \<le> k \<longrightarrow> rv name ti raw depth w \<noteq> None)"

lemma total_decD:
  "total_dec mu k sz rv \<Longrightarrow> jsize raw \<le> sz \<Longrightarrow> mu w \<le> k \<Longrightarrow>
   \<exists>n w'. rv name ti raw depth w = Some (n, w')"
  by (metis total_dec_def not_Some_eq surj_pair)

lemma tv_V_size: "tv_V (decode_tv r) = Some v \<Longrightarrow> jsize v < jsize_opt r"
  by (rule jfield_opt_size [of "''V''"]) (simp add: decode_tv_def)

context follow_measure
begin

lemma value_with_total:
  assumes "total_dec mu k sz rv" "\<And>v. tv_V tv = Some v \<Longrightarrow> jsize v \<le> sz" "mu w \<le> k"
  shows "value_with E rv name tv depth w \<noteq> None"
proof -
  have adv: "advances E RS w (w\<lparr>wk_nodes := wk_nodes w + 1\<rparr>)" if "fst (budget E depth w)"
    using that by (auto simp: advances_def budget_def RS_refl split: if_splits)
  show ?thesis
  proof (cases "fst (budget E depth w) \<and> tv_N tv = '''' \<and> (\<exists>v. tv_V tv = Some v \<and> v \<noteq> JNull)")
    case True
    then obtain v where v: "tv_V tv = Some v" by blast
    have "mu (w\<lparr>wk_nodes := wk_nodes w + 1\<rparr>) \<le> k"
      using mu_advances [OF adv] True assms(3) by fastforce
    from total_decD [OF assms(1) assms(2) [OF v] this] True v show ?thesis
      by (force simp: value_with_def budget_def Let_def split: if_splits)
  next
    case False
    then show ?thesis
      by (auto simp: value_with_def budget_def Let_def split: if_splits option.splits)
  qed
qed

lemma fold_children_total:
  assumes "\<And>x w. x \<in> set xs \<Longrightarrow> mu w \<le> k \<Longrightarrow> f x w \<noteq> None"
    and "\<And>x w n w'. x \<in> set xs \<Longrightarrow> f x w = Some (n, w') \<Longrightarrow> advances E RS w w'"
  shows "mu w \<le> k \<Longrightarrow> fold_opt f xs w \<noteq> None"
  using assms
proof (induction xs arbitrary: w)
  case (Cons x xs)
  obtain n w1 where 1: "f x w = Some (n, w1)"
    using Cons.prems(1,2) by (metis list.set_intros(1) not_Some_eq surj_pair)
  have "mu w1 \<le> mu w" using mu_advances Cons.prems(3) [OF _ 1] by simp
  then have "mu w1 \<le> k" using Cons.prems(1) by simp
  then have "fold_opt f xs w1 \<noteq> None"
    using Cons.prems(2) [OF list.set_intros(2)] Cons.prems(3) [OF list.set_intros(2)]
    by (rule Cons.IH)
  with 1 show ?case by auto
qed simp

lemma child_total:
  assumes "total_dec mu k sz rv" "jsize_opt r \<le> Suc sz" "mu w \<le> k"
  shows "value_with E rv name (decode_tv r) depth w \<noteq> None"
  using assms(1) _ assms(3)
proof (rule value_with_total)
  fix v assume "tv_V (decode_tv r) = Some v"
  from tv_V_size [OF this] assms(2) show "jsize v \<le> sz" by simp
qed

lemma child_advances:
  "sound_dec E RS rv \<Longrightarrow> value_with E rv name tv depth w = Some (n, w') \<Longrightarrow> advances E RS w w'"
  using value_with_post by (auto simp: post_val_def)

lemma jfield_opt_le: "jfield k0 raw = Some b \<Longrightarrow> jsize raw \<le> Suc sz \<Longrightarrow> jsize b \<le> sz"
  using jfield_size [of k0 raw b] by simp

lemma pointer_with_total:
  assumes "total_dec mu k sz rv" "jsize raw \<le> Suc sz" "mu w \<le> k"
  shows "pointer_with E rv name ti raw depth w \<noteq> None"
proof -
  have tv: "value_with E rv name (decode_tv (jfield ''TV'' raw)) depth w \<noteq> None"
    using assms(1) _ assms(3) by (rule child_total) (use assms(2) jfield_shrinks [of "''TV''" raw] in linarith)
  have base: "\<exists>n w'. rv name ti b depth w = Some (n, w')" if "jfield ''Base'' raw = Some b" for b
    using assms(1) jfield_opt_le [OF that assms(2)] assms(3) by (rule total_decD)
  show ?thesis using tv
    by (auto simp: pointer_with_def dest!: base split: option.splits if_splits prod.splits)
qed

lemma slice_with_total:
  assumes "total_dec mu k sz rv" "jsize raw \<le> Suc sz" "mu w \<le> k"
  shows "slice_with E rv name ti raw depth w \<noteq> None"
proof -
  have base: "\<exists>n w'. rv name ti b depth w = Some (n, w')" if "jfield ''Base'' raw = Some b" for b
    using assms(1) jfield_opt_le [OF that assms(2)] assms(3) by (rule total_decD)
  show ?thesis
    by (auto simp: slice_with_def Let_def dest!: base split: option.splits if_splits prod.splits)
qed

lemma elems_total:
  assumes "total_dec mu k sz rv" "sound_dec E RS rv" "jsize raw \<le> Suc sz" "mu w \<le> k"
  shows "fold_opt (\<lambda>(i, e) w. value_with E rv (g i) (decode_tv (Some e)) depth w)
           (enumerate 0 (jelems (jfield fld raw))) w \<noteq> None"
proof (rule fold_children_total [OF _ _ assms(4)])
  fix x :: "nat \<times> json" and w :: "'s walker"
  assume x: "x \<in> set (enumerate 0 (jelems (jfield fld raw)))" and w: "mu w \<le> k"
  then have "snd x \<in> set (jelems (jfield fld raw))" by (auto dest: set_enumerate_snd)
  from jelems_size [OF this] assms(3) have "jsize_opt (Some (snd x)) \<le> Suc sz" by simp
  from child_total [OF assms(1) this w]
  show "(case x of (i, e) \<Rightarrow> \<lambda>w. value_with E rv (g i) (decode_tv (Some e)) depth w) w \<noteq> None"
    by (simp add: case_prod_beta)
qed (auto simp: case_prod_beta intro: child_advances [OF assms(2)])

lemma mapValue_with_total:
  assumes "total_dec mu k sz rv" "sound_dec E RS rv" "jsize raw \<le> Suc sz" "mu w \<le> k"
  shows "mapValue_with E rv name ti raw depth w \<noteq> None"
proof -
  let ?xs = "enumerate 0 (jelems (jfield ''List'' raw))"
  let ?step = "\<lambda>(i, e) w.
      case value_with E rv '''' (decode_tv (jfield ''Key'' e)) (depth + 1) w of
        None \<Rightarrow> None
      | Some (k, w) \<Rightarrow>
          let key = (if n_value (info k) = '''' then index_name i else n_value (info k))
          in value_with E rv key (decode_tv (jfield ''Value'' e)) (depth + 1) w"
  have adv: "advances E RS w w'" if "?step x w = Some (n, w')" for x w n w'
  proof -
    from that obtain k w1 key where
      "value_with E rv '''' (decode_tv (jfield ''Key'' (snd x))) (depth + 1) w = Some (k, w1)"
      "value_with E rv key (decode_tv (jfield ''Value'' (snd x))) (depth + 1) w1 = Some (n, w')"
      by (auto simp: case_prod_beta Let_def split: option.splits)
    from this [THEN child_advances [OF assms(2)]] show ?thesis by (rule advances_trans)
  qed
  have tot: "?step x w \<noteq> None" if x: "x \<in> set ?xs" and w: "mu w \<le> k" for x w
  proof -
    have "snd x \<in> set (jelems (jfield ''List'' raw))" using x by (rule set_enumerate_snd)
    from jelems_size [OF this] assms(3) have e: "jsize (snd x) \<le> Suc sz" by simp
    have sub: "jsize_opt (jfield f (snd x)) \<le> Suc sz" for f
      using e jfield_shrinks [of f "snd x"] by linarith
    obtain n w1 where 1:
      "value_with E rv '''' (decode_tv (jfield ''Key'' (snd x))) (depth + 1) w = Some (n, w1)"
      using child_total [OF assms(1) sub w] by fastforce
    have "mu w1 \<le> k" using mu_advances [OF child_advances [OF assms(2) 1]] w by simp
    from child_total [OF assms(1) sub this] 1 show ?thesis by (simp add: case_prod_beta Let_def)
  qed
  have "fold_opt ?step ?xs w \<noteq> None" using tot adv assms(4) by (rule fold_children_total)
  then show ?thesis
    unfolding mapValue_with_def Let_def by (auto split: option.splits)
qed

lemma structValue_with_total:
  assumes "total_dec mu k sz rv" "sound_dec E RS rv" "jsize raw \<le> Suc sz" "mu w \<le> k"
  shows "structValue_with E rv name ti raw depth w \<noteq> None"
proof -
  obtain names w1 where f: "fieldNames E ti (length (jelems (jfield ''Fields'' raw))) w = (names, w1)"
    by fastforce
  have "mu w1 \<le> k" using mu_advances advances_fieldNames [OF f] assms(4) by fastforce
  note elems_total [OF assms(1-3) this, where fld = "''Fields''" and depth = "depth + 1"]
  with f show ?thesis
    unfolding structValue_with_def Let_def by (auto split: option.splits)
qed

lemma array_with_total:
  assumes "total_dec mu k sz rv" "sound_dec E RS rv" "jsize raw \<le> Suc sz" "mu w \<le> k"
  shows "array_with E rv name ti raw depth w \<noteq> None"
  using elems_total [OF assms, where fld = "''List''" and depth = "depth + 1" and g = index_name]
  unfolding array_with_def Let_def by (auto split: option.splits prod.splits)

lemma ref_with_total:
  assumes "\<And>sz k'. k' < mu w \<Longrightarrow> total_dec mu k' sz follow"
  shows "ref_with E follow name ti raw depth w \<noteq> None"
proof -
  let ?oid = "jstr ''ObjectID'' raw"
  have go: "follow name ti v depth
          (w\<lparr>wk_fetches := wk_fetches w + 1, res_state := s, on_path := insert ?oid (on_path w)\<rparr>)
            \<noteq> None"
    if "we_res E = Some res" "?oid \<notin> on_path w" "wk_fetches w < max_fetch (we_lim E)"
      "r_object res ?oid (res_state w) = (Some env, s)" for res env s v
    using total_decD [OF assms [OF mu_follow [OF that]] order_refl order_refl] by fastforce
  show ?thesis
  proof
    assume "ref_with E follow name ti raw depth w = None"
    then obtain res env s v where
      "we_res E = Some res" "?oid \<notin> on_path w" "wk_fetches w < max_fetch (we_lim E)"
      "r_object res ?oid (res_state w) = (Some env, s)"
      "follow name ti v depth
        (w\<lparr>wk_fetches := wk_fetches w + 1, res_state := s, on_path := insert ?oid (on_path w)\<rparr>)
          = None"
      by (simp add: ref_with_def Let_def split: option.splits if_splits prod.splits)
    with go show False by blast
  qed
qed

lemma rawValue_with_total:
  assumes "total_dec mu k sz rv" "sound_dec E RS rv" "\<And>sz k'. k' < k \<Longrightarrow> total_dec mu k' sz follow"
    and "jsize raw \<le> Suc sz" "mu w \<le> k"
  shows "rawValue_with E rv follow name ti raw depth w \<noteq> None"
proof -
  have "jsize_opt (jfield ''Value'' raw) \<le> Suc sz"
    using assms(4) jfield_shrinks [of "''Value''" raw] by linarith
  from child_total [OF assms(1) this assms(5)]
  have heap: "value_with E rv name (decode_tv (jfield ''Value'' raw)) depth w \<noteq> None" .
  have "ref_with E follow name ti raw depth w \<noteq> None"
    by (rule ref_with_total) (use assms(3,5) in simp)
  note parts = this pointer_with_total [OF assms(1,4,5)] slice_with_total [OF assms(1,4,5)]
    structValue_with_total [OF assms(1,2,4,5)] array_with_total [OF assms(1,2,4,5)]
    mapValue_with_total [OF assms(1,2,4,5)]
  show ?thesis
    unfolding rawValue_with_def Let_def
    by (intro if_not_None parts) (use heap in \<open>auto split: option.splits prod.splits\<close>)
qed

lemma walk_total:
  assumes "sound_dec E RS follow" "\<And>sz k'. k' < k \<Longrightarrow> total_dec mu k' sz follow"
  shows "total_dec mu k m (walk E follow m)"
proof (induction m)
  case 0
  then show ?case by (simp add: total_dec_def jsize_pos [THEN gr_implies_not0])
next
  case (Suc m)
  from rawValue_with_total [OF this sound_walk [OF assms(1)] assms(2)]
  show ?case by (simp add: total_dec_def)
qed

lemma rawValue_total: "mu w \<le> fuel \<Longrightarrow> rawValue E fuel name ti raw depth w \<noteq> None"
proof (induction fuel arbitrary: name ti raw depth w)
  case 0
  have "sound_dec E RS (\<lambda>_ _ _ _ _. None)" by (simp add: sound_dec_def)
  from walk_total [OF this, of 0 "jsize raw"] 0 show ?case by (simp add: total_dec_def)
next
  case (Suc fuel)
  have "total_dec mu (Suc fuel) (jsize raw) (walk E (rawValue E fuel) (jsize raw))"
    using sound_rawValue by (rule walk_total) (simp add: total_dec_def Suc.IH)
  with Suc.prems show ?case by (simp add: total_dec_def)
qed

lemma decode_block_total: "mu w \<le> fuel \<Longrightarrow> decode_block E fuel bs w \<noteq> None"
proof (induction bs arbitrary: w)
  case (Cons b bs)
  obtain name tv where b: "b = (name, tv)" by fastforce
  have "total_dec mu fuel sz (rawValue E fuel)" for sz
    by (simp add: total_dec_def rawValue_total)
  from this [of "jsize (the (tv_V tv))"] have "value_of E fuel name tv 0 w \<noteq> None"
    unfolding value_of_def by (rule value_with_total) (use Cons.prems in simp_all)
  then obtain n w1 where v: "value_of E fuel name tv 0 w = Some (n, w1)" by fastforce
  then have "advances E RS w w1"
    unfolding value_of_def by (rule child_advances [OF sound_rawValue])
  then have "mu w1 \<le> fuel" using mu_advances Cons.prems le_trans by blast
  from Cons.IH [OF this] Cons.IH [OF Cons.prems] v b show ?case by auto
qed simp

end

end
