(* ===== verification/Gnostate_Limits.thy ===== *)
theory Gnostate_Limits
  imports Gnostate_Walk
begin

text \<open>
  What a whole decode promises about its limits: it returns, it stays within the
  budgets, and a cycle of references ends in a marker.
\<close>

section \<open>Fuel from the fetch budget\<close>

text \<open>
  Every reference followed costs one fetch, so the fetches left bound the nesting
  of references, whatever the resolver does.
\<close>

interpretation fetch_fuel:
  follow_measure E any_state "\<lambda>w. nat (max_fetch (we_lim E) - wk_fetches w)" for E
  by unfold_locales (auto simp: advances_def any_state_def)

section \<open>Flattening adds no nodes\<close>

lemma six_children: "length xs = 6 \<Longrightarrow> xs = [xs ! 0, xs ! 1, xs ! 2, xs ! 3, xs ! 4, xs ! 5]"
  by (rule nth_equalityI) (auto simp: less_Suc_eq numeral_eq_Suc)

lemma isAVLNode_loaded:
  assumes "isAVLNode n"
  shows "loaded (children n ! 1) \<le> loaded n"
    and "loaded (children n ! 4) + loaded (children n ! 5) \<le> loaded n"
proof -
  have "loaded_all (children n) = loaded (children n ! 0) + loaded (children n ! 1) +
      loaded (children n ! 2) + loaded (children n ! 3) + loaded (children n ! 4) +
      loaded (children n ! 5)"
    by (subst six_children [OF isAVLNode_length [OF assms]]) simp
  with loaded_children [of n]
  show "loaded (children n ! 1) \<le> loaded n"
    "loaded (children n ! 4) + loaded (children n ! 5) \<le> loaded n" by simp_all
qed

lemma collectEntries_loaded:
  "loaded_all (fst (collectEntries n out partial)) \<le> loaded_all out + loaded n"
proof (induction n arbitrary: out partial rule: measure_induct_rule [of size])
  case (less n out partial)
  show ?case
  proof (cases "isAVLNode n")
    case False
    then show ?thesis by (auto simp: collectEntries.simps [of n])
  next
    case True
    note smaller = children_nth_size [of _ n, unfolded isAVLNode_length [OF True]]
    show ?thesis
    proof (cases "n_value (info (children n ! 2)) = ''0''")
      case leaf: True
      then show ?thesis using True isAVLNode_loaded(1) [OF True]
        by (simp add: collectEntries.simps [of n] isAVLNode_kind Let_def loaded_upd_info)
    next
      case False
      obtain out' partial' where l: "collectEntries (children n ! 4) out partial = (out', partial')"
        by fastforce
      have "loaded_all out' \<le> loaded_all out + loaded (children n ! 4)"
        using less.IH [OF smaller, of 4 out partial] l by simp
      moreover have "loaded_all (fst (collectEntries (children n ! 5) out' partial'))
          \<le> loaded_all out' + loaded (children n ! 5)"
        by (rule less.IH [OF smaller]) simp
      ultimately show ?thesis
        using True False l isAVLNode_loaded(2) [OF True]
        by (simp add: collectEntries.simps [of n] isAVLNode_kind Let_def)
    qed
  qed
qed

lemma flattenTree_loaded: "loaded (fst (flattenTree n)) \<le> loaded n"
proof (cases "snd (flattenTree n)")
  case False
  then show ?thesis by (simp add: flattenTree_not_ok)
next
  case True
  then obtain i root where n: "n = Node i [root]" "n_kind i = KindStruct"
    by (cases n) (auto simp: flattenTree_def length_Suc_conv split: if_splits)
  with True collectEntries_loaded [of root "[]" False] show ?thesis
    by (auto simp: flattenTree_def Let_def loaded_Node split: if_splits prod.splits)
qed

lemma loaded_flatten_node: "loaded (flatten_node n) \<le> loaded n"
proof (induction n)
  case (Node i cs)
  have "loaded_all (map flatten_node cs) \<le> loaded_all cs"
    unfolding loaded_all_def map_map comp_def using Node by (rule sum_list_mono)
  then have "loaded (Node i (map flatten_node cs)) \<le> loaded (Node i cs)" by (simp add: loaded_Node)
  with flattenTree_loaded [of "Node i (map flatten_node cs)"] show ?case
    by (auto simp: Let_def case_prod_beta)
qed

lemma loaded_flattenTrees: "loaded_all (flattenTrees ns) \<le> loaded_all ns"
  unfolding flattenTrees_def loaded_all_def map_map comp_def
  by (rule sum_list_mono) (rule loaded_flatten_node)

section \<open>Properties\<close>

lemma DecodePackage_Inr:
  assumes "DecodePackage E fuel raw s = Some (Inr (t, s'))"
  obtains j ns w where "raw = Some j" "pkg_block_ok j"
    "decode_block (with_defaults_env E) fuel (block_bindings j) (newWalker s) = Some (ns, w)"
    "t = \<lparr>t_nodes = flattenTrees ns, t_stats = stats_of w\<rparr>" "s' = res_state w"
  using assms by (auto simp: DecodePackage_def split: option.splits if_splits)

text \<open>
  C1. A package decode returns, whatever the payload and whatever the resolver
  answers, even one that makes up a fresh object for every request: references nest
  at most as deep as the fetch budget.
\<close>

theorem DecodePackage_returns:
  assumes "nat (max_fetch (withDefaults (we_lim E))) \<le> fuel"
  shows "\<exists>r. DecodePackage E fuel raw s = Some r"
proof -
  have "decode_block (with_defaults_env E) fuel bs (newWalker s) \<noteq> None" for bs
    by (rule fetch_fuel.decode_block_total)
      (use assms in \<open>simp add: newWalker_def with_defaults_env_def\<close>)
  then show ?thesis by (auto simp: DecodePackage_def split: option.splits)
qed

text \<open>
  C2. A decoded package stays within its budgets: the walker visits at most \<^verbatim>\<open>MaxNodes\<close>
  values and asks the resolver at most \<^verbatim>\<open>MaxFetch\<close> questions, and the tree it returns,
  after \<^verbatim>\<open>avl.Tree\<close> flattening, carries at most as many data nodes as \<^verbatim>\<open>Stats.Nodes\<close> says.
\<close>

theorem DecodePackage_within_limits:
  assumes "DecodePackage E fuel raw s = Some (Inr (t, s'))"
  shows "0 \<le> st_fetches (t_stats t) \<and>
    st_fetches (t_stats t) \<le> max_fetch (withDefaults (we_lim E)) \<and>
    int (loaded_all (t_nodes t)) \<le> st_nodes (t_stats t) \<and>
    st_nodes (t_stats t) \<le> max_nodes (withDefaults (we_lim E))"
proof -
  from assms obtain j ns w where
    d: "decode_block (with_defaults_env E) fuel (block_bindings j) (newWalker s) = Some (ns, w)"
    and t: "t = \<lparr>t_nodes = flattenTrees ns, t_stats = stats_of w\<rparr>"
    by (rule DecodePackage_Inr)
  have pos: "0 < max_nodes (withDefaults (we_lim E))" "0 < max_fetch (withDefaults (we_lim E))"
    by simp_all
  from any_resolver.decode_block_post [OF d] pos loaded_flattenTrees [of ns] show ?thesis
    unfolding t by (auto simp: advances_def newWalker_def stats_of_def with_defaults_env_def)
qed

text \<open>A package block with one exported variable \<^verbatim>\<open>x\<close> of type \<^verbatim>\<open>int\<close> holding 5, no resolver.\<close>

definition demo_env :: "unit walk_env" where
  "demo_env = \<lparr>we_res = None,
     we_lim = \<lparr>max_depth = 0, max_nodes = 0, max_fetch = 1, max_string = 0\<rparr>,
     fmt_f32 = (\<lambda>_. ''''), fmt_f64 = (\<lambda>_. '''')\<rparr>"

definition demo_int :: json where
  "demo_int = JObj [(''T'', JObj [(''@type'', JStr ''/gno.PrimitiveType''), (''value'', JStr ''32'')]),
                    (''N'', JStr ''BQAAAAAAAAA='')]"

definition demo_block :: json where
  "demo_block = JObj [(''names'', JArr [JStr ''x'']), (''values'', JArr [demo_int])]"

definition demo_tree :: gno_tree where
  "demo_tree =
     \<lparr>t_nodes = [mk_node ''x'' (Some (type_named ''int'')) KindPrimitive ''5''],
      t_stats = \<lparr>st_nodes = 1, st_fetches = 0, st_truncated = False, st_clipped = False\<rparr>\<rparr>"

lemma demo_decodes: "DecodePackage demo_env 0 (Some demo_block) () = Some (Inr (demo_tree, ()))"
  by code_simp

theorem DecodePackage_returns_witness:
  "nat (max_fetch (withDefaults (we_lim demo_env))) \<le> 1 \<and>
   (\<exists>r. DecodePackage demo_env 1 (Some demo_block) () = Some r)"
proof
  show "nat (max_fetch (withDefaults (we_lim demo_env))) \<le> 1" by code_simp
  then show "\<exists>r. DecodePackage demo_env 1 (Some demo_block) () = Some r"
    by (rule DecodePackage_returns)
qed

theorem DecodePackage_within_limits_witness:
  "DecodePackage demo_env 0 (Some demo_block) () = Some (Inr (demo_tree, ())) \<and>
   int (loaded_all (t_nodes demo_tree)) \<le> st_nodes (t_stats demo_tree) \<and>
   st_nodes (t_stats demo_tree) \<le> 4000"
  using demo_decodes DecodePackage_within_limits [OF demo_decodes]
  by (simp add: withDefaults_def DefaultLimits_def demo_env_def)

section \<open>Rings of references\<close>

text \<open>
  A ring of objects, each of whose value is a reference to the next: the database
  a resolver serves, and the reference that enters it.
\<close>

definition ref_json :: "string \<Rightarrow> json" where
  "ref_json oid = JObj [(''@type'', JStr vRef), (''ObjectID'', JStr oid)]"

definition envelope :: "string \<Rightarrow> json \<Rightarrow> json" where
  "envelope oid v = JObj [(''objectid'', JStr oid), (''value'', v)]"

fun ring_next :: "string list \<Rightarrow> string \<Rightarrow> string \<Rightarrow> string" where
  "ring_next [] o0 x = o0"
| "ring_next (y # ys) o0 x = (if x = y then (case ys of [] \<Rightarrow> o0 | z # _ \<Rightarrow> z) else ring_next ys o0 x)"

definition ring_resolver :: "string list \<Rightarrow> 's resolver" where
  "ring_resolver os =
     \<lparr>r_object = (\<lambda>o1 s. (Some (envelope o1 (ref_json (ring_next os (hd os) o1))), s)),
      r_type = (\<lambda>_ s. (None, s))\<rparr>"

lemma ref_json_fields [simp]:
  "struct_ok (ref_json o1)" "jfield ''@type'' (ref_json o1) = Some (JStr vRef)"
  "jstr ''ObjectID'' (ref_json o1) = o1" "jstr ''PkgPath'' (ref_json o1) = ''''"
  "jstr ''@type'' (ref_json o1) = vRef"
  by (simp_all add: ref_json_def struct_ok_def jfield_def jstr_def equal_fold_def to_lower_def
      lower_char_def)

lemma envelope_fields [simp]:
  "struct_ok (envelope o1 v)" "str_ok (jfield ''objectid'' (envelope o1 v))"
  "jfield ''value'' (envelope o1 v) = Some v"
  by (simp_all add: envelope_def struct_ok_def jfield_def equal_fold_def to_lower_def
      lower_char_def str_ok_def)

lemma rawValue_ref:
  "rawValue E (Suc fuel) name ti (ref_json o1) depth w =
   ref_with E (rawValue E fuel) name ti (ref_json o1) depth w"
proof -
  obtain m where "jsize (ref_json o1) = Suc m" using jsize_pos gr0_implies_Suc by blast
  then show ?thesis by (simp add: rawValue_with_def wire_tags str_ok_def)
qed

definition cycle_node :: "string \<Rightarrow> type_info option \<Rightarrow> string \<Rightarrow> node" where
  "cycle_node name ti oid = upd_info (\<lambda>i. i\<lparr>n_object_id := oid\<rparr>) (mk_node name ti KindCycle '''')"

lemma rawValue_on_path:
  assumes "we_res E = Some res" "o1 \<in> on_path w" "o1 \<noteq> ''''"
  shows "rawValue E fuel name ti (ref_json o1) depth w = Some (cycle_node name ti o1, w)"
proof -
  obtain m where "jsize (ref_json o1) = Suc m" using jsize_pos gr0_implies_Suc by blast
  with assms show ?thesis
    by (cases fuel)
      (simp_all add: rawValue_with_def wire_tags str_ok_def ref_with_def cycle_node_def)
qed

lemma ring_next_mid:
  "distinct (pre @ y # suf) \<Longrightarrow>
   ring_next (pre @ y # suf) o0 y = (case suf of [] \<Rightarrow> o0 | z # _ \<Rightarrow> z)"
  by (induction pre) auto

lemma rawValue_ring:
  assumes "we_res E = Some (ring_resolver os)" "distinct os" "'''' \<notin> set os"
    "int (length os) \<le> max_fetch (we_lim E)"
  shows "os = pre @ suf \<Longrightarrow> suf \<noteq> [] \<Longrightarrow> pre = [] \<longrightarrow> on_path w = {} \<Longrightarrow>
    on_path w = set pre \<Longrightarrow> wk_fetches w = int (length pre) \<Longrightarrow> fst (budget E depth w) \<Longrightarrow>
    rawValue E (length suf) name ti (ref_json (hd suf)) depth w =
      Some (cycle_node name ti (hd os), w\<lparr>wk_fetches := int (length os)\<rparr>)"
proof (induction suf arbitrary: pre w)
  case (Cons y suf)
  let ?w = "w\<lparr>wk_fetches := wk_fetches w + 1, on_path := insert y (on_path w)\<rparr>"
  have y: "y \<notin> on_path w" "y \<noteq> ''''" using Cons.prems assms(2,3) by auto
  have "hd os \<in> set os" using Cons.prems(1) by (intro hd_in_set) simp
  then have hd: "hd os \<noteq> ''''" using assms(3) by auto
  have next_y: "ring_next os (hd os) y = (case suf of [] \<Rightarrow> hd os | z # _ \<Rightarrow> z)"
    using ring_next_mid [of pre y suf "hd os"] Cons.prems(1) assms(2) by simp
  have go: "rawValue E (length suf) name ti (ref_json (ring_next os (hd os) y)) depth ?w =
      Some (cycle_node name ti (hd os), ?w\<lparr>wk_fetches := int (length os)\<rparr>)"
  proof (cases "suf = []")
    case True
    have "hd os \<in> on_path ?w" using Cons.prems(1,4) True by (cases pre) auto
    from rawValue_on_path [OF assms(1) this hd] True Cons.prems(1,5) next_y show ?thesis
      by (simp del: rawValue.simps)
  next
    case False
    have b: "fst (budget E depth ?w)" using Cons.prems(6) by (simp add: budget_def split: if_splits)
    have "rawValue E (length suf) name ti (ref_json (hd suf)) depth ?w =
        Some (cycle_node name ti (hd os), ?w\<lparr>wk_fetches := int (length os)\<rparr>)"
      using Cons.prems False b by (intro Cons.IH [of "pre @ [y]"]) auto
    with False next_y show ?thesis by (cases suf) auto
  qed
  have "wk_fetches w < max_fetch (we_lim E)" using Cons.prems(1,5) assms(4) by simp
  moreover have "w\<lparr>wk_fetches := f, res_state := res_state w\<rparr> = w\<lparr>wk_fetches := f\<rparr>" for f by simp
  moreover have "w\<lparr>wk_fetches := f, on_path := insert y (on_path w) - {y}\<rparr> = w\<lparr>wk_fetches := f\<rparr>"
    for f using y(1) by simp
  moreover have "n_object_id (info (cycle_node name ti (hd os))) = hd os"
    by (simp add: cycle_node_def)
  ultimately show ?case using go y Cons.prems(6) assms(1) hd
    by (simp add: rawValue_ref ref_with_def ring_resolver_def Let_def del: rawValue.simps)
qed simp

text \<open>
  A ring of objects, each holding a reference to the next, decodes to a single
  cycle marker naming the object that closes the ring, after one fetch per object,
  with the path restored.
\<close>

theorem reference_ring_ends_in_cycle:
  assumes "we_res E = Some (ring_resolver os)" "distinct os" "'''' \<notin> set os" "os \<noteq> []"
    "int (length os) \<le> max_fetch (we_lim E)" "0 < max_nodes (we_lim E)" "depth \<le> max_depth (we_lim E)"
  shows "rawValue E (length os) name ti (ref_json (hd os)) depth (newWalker s) =
    Some (cycle_node name ti (hd os), (newWalker s)\<lparr>wk_fetches := int (length os)\<rparr>)"
  by (rule rawValue_ring [OF assms(1,2,3,5), of "[]"])
    (use assms in \<open>auto simp: newWalker_def budget_def\<close>)

theorem reference_ring_ends_in_cycle_witness:
  "rawValue (demo_env\<lparr>we_res := Some (ring_resolver [''a:1'', ''a:2'']), we_lim := DefaultLimits\<rparr>)
     2 ''x'' None (ref_json ''a:1'') 0 (newWalker ()) =
   Some (cycle_node ''x'' None ''a:1'', (newWalker ())\<lparr>wk_fetches := 2\<rparr>)"
  using reference_ring_ends_in_cycle
    [of "demo_env\<lparr>we_res := Some (ring_resolver [''a:1'', ''a:2'']), we_lim := DefaultLimits\<rparr>"
      "[''a:1'', ''a:2'']" 0 "''x''" None "()"]
  by (simp add: DefaultLimits_def numeral_2_eq_2)

section \<open>Placeholders are not counted\<close>

text \<open>An array of \<open>k\<close> zero values, decoded with a budget of one node.\<close>

lemma spent_budget_fold:
  "max_nodes (we_lim E) \<le> wk_nodes w \<Longrightarrow>
   fold_opt (\<lambda>(i, e) w. value_with E rv (g i) (h e) depth w) xs w =
     Some (map (\<lambda>(i, e). mk_node (g i) None KindTruncated '''') xs,
           if xs = [] then w else w\<lparr>wk_truncated := True\<rparr>)"
proof (induction xs arbitrary: w)
  case (Cons x xs)
  then show ?case
    by (cases x) (auto simp: value_with_def budget_def)
qed simp

definition wide_array :: "nat \<Rightarrow> json" where
  "wide_array k = JObj [(''@type'', JStr vArray), (''List'', JArr (replicate k (JObj [])))]"

definition wide_block :: "nat \<Rightarrow> json" where
  "wide_block k =
     JObj [(''names'', JArr [JStr ''x'']),
           (''values'', JArr [JObj [(''V'', wide_array k)]])]"

lemma wide_array_fields [simp]:
  "struct_ok (wide_array k)" "str_ok (jfield ''@type'' (wide_array k))"
  "jstr ''@type'' (wide_array k) = vArray" "jstr ''Data'' (wide_array k) = ''''"
  "jfield ''ObjectInfo'' (wide_array k) = None"
  "jelems (jfield ''List'' (wide_array k)) = replicate k (JObj [])"
  by (simp_all add: wide_array_def struct_ok_def jfield_def jstr_def equal_fold_def to_lower_def
      lower_char_def str_ok_def jelems_def)

lemma rawValue_array:
  assumes "struct_ok raw" "str_ok (jfield ''@type'' raw)" "jstr ''@type'' raw = vArray"
  obtains rv where "rawValue E fuel name ti raw depth w = array_with E rv name ti raw depth w"
proof -
  obtain m where "jsize raw = Suc m" using jsize_pos gr0_implies_Suc by blast
  with assms that show ?thesis
    by (cases fuel) (simp_all add: rawValue_with_def wire_tags)
qed

definition wide_node :: "nat \<Rightarrow> node" where
  "wide_node k =
     Node ((zero_info KindArray)\<lparr>n_name := ''x'', n_value := ''len '' @ itoa (int k)\<rparr>)
       (map (\<lambda>(i, e). mk_node (index_name i) None KindTruncated '''')
          (enumerate 0 (replicate k (JObj []))))"

lemma decode_oi_None: "oi_id (decode_oi None) = ''''"
  by (simp add: decode_oi_def jstr_opt_def)

lemma array_wide:
  assumes "max_nodes (we_lim E) \<le> wk_nodes w" "0 < k"
  shows "array_with E rv ''x'' None (wide_array k) depth w =
    Some (wide_node k, w\<lparr>wk_truncated := True\<rparr>)"
  using assms
  by (simp add: array_with_def Let_def spent_budget_fold stamp_def decode_oi_None wide_node_def
      mk_node_def tname_def tid_def zero_info_def enumerate_eq_zip)

lemma wide_block_bindings:
  "pkg_block_ok (wide_block k)"
  "block_bindings (wide_block k) = [(''x'', \<lparr>tv_T = None, tv_V = Some (wide_array k), tv_N = ''''\<rparr>)]"
  by (simp_all add: wide_block_def wide_array_def pkg_block_ok_def struct_ok_def jfield_def
      equal_fold_def to_lower_def lower_char_def slice_ok_def jelems_def str_ok_def
      block_bindings_def elem_str_def decode_tv_def jfield_opt_def jstr_opt_def jstr_def)

lemma wide_decodes:
  assumes "max_nodes (we_lim E) = 1" "0 < k"
  shows "decode_block (with_defaults_env E) fuel (block_bindings (wide_block k)) (newWalker s) =
    Some ([wide_node k], (newWalker s)\<lparr>wk_nodes := 1, wk_truncated := True\<rparr>)"
proof -
  let ?E = "with_defaults_env E" and ?w = "(newWalker s)\<lparr>wk_nodes := 1\<rparr>"
  have lim: "max_nodes (we_lim ?E) = 1" "0 < max_depth (we_lim ?E)"
    using assms(1) by (auto simp: with_defaults_env_def withDefaults_def DefaultLimits_def)
  have "rawValue ?E fuel ''x'' None (wide_array k) 0 ?w = Some (wide_node k, ?w\<lparr>wk_truncated := True\<rparr>)"
  proof -
    obtain rv where "rawValue ?E fuel ''x'' None (wide_array k) 0 ?w =
        array_with ?E rv ''x'' None (wide_array k) 0 ?w"
      by (rule rawValue_array [of "wide_array k"]) simp_all
    then show ?thesis by (simp add: array_wide lim assms(2))
  qed
  moreover have "typeOf None = None" by (simp add: typeOf.simps)
  moreover have "wide_array k \<noteq> JNull" by (simp add: wide_array_def)
  moreover have "n_kind (info (wide_node k)) = KindArray" by (simp add: wide_node_def)
  ultimately show ?thesis
    using lim by (simp add: wide_block_bindings value_of_def value_with_def budget_def newWalker_def
        isFuncType_def)
qed

lemma flatten_leaf: "children n = [] \<Longrightarrow> flatten_node n = n"
  by (cases n) (simp add: flattenTree_def)

lemma flatten_wide: "flatten_node (wide_node k) = wide_node k"
proof -
  have "map flatten_node (children (wide_node k)) = children (wide_node k)"
    by (rule map_idI) (auto simp: wide_node_def intro!: flatten_leaf)
  then show ?thesis
    by (simp add: wide_node_def flattenTree_def)
qed

lemma tree_size_wide: "tree_size (wide_node k) = Suc k"
proof -
  have "tree_size (mk_node name ti kd v) = 1" for name ti kd v by (simp add: mk_node_def)
  then have "sum_list (map tree_size (map (\<lambda>(i, e). mk_node (g i) None kd '''') xs)) = length xs"
    for g kd and xs :: "(nat \<times> json) list"
    by (induction xs) auto
  from this [of index_name KindTruncated "enumerate 0 (replicate k (JObj []))"]
  show ?thesis by (simp add: wide_node_def)
qed

text \<open>
  \<^verbatim>\<open>MaxNodes\<close> does not bound the size of the tree: once it is spent, each remaining
  element of an array still appends a placeholder the budget does not count, so a
  budget of one node can return a tree of any size.
\<close>

theorem MaxNodes_leaves_placeholders_uncounted:
  assumes "max_nodes (we_lim E) = 1" "0 < k"
  shows "\<exists>t. DecodePackage E fuel (Some (wide_block k)) s = Some (Inr (t, s)) \<and>
    st_nodes (t_stats t) = 1 \<and> st_truncated (t_stats t) \<and>
    sum_list (map tree_size (t_nodes t)) = Suc k"
  using wide_decodes [OF assms]
  by (simp add: DecodePackage_def wide_block_bindings(1) stats_of_def flattenTrees_def flatten_wide
      tree_size_wide newWalker_def)

theorem MaxNodes_leaves_placeholders_uncounted_witness:
  "\<exists>t. DecodePackage (demo_env\<lparr>we_lim := DefaultLimits\<lparr>max_nodes := 1\<rparr>\<rparr>) 0
         (Some (wide_block 1000)) () = Some (Inr (t, ())) \<and>
    st_nodes (t_stats t) = 1 \<and> st_truncated (t_stats t) \<and>
    sum_list (map tree_size (t_nodes t)) = 1001"
  using MaxNodes_leaves_placeholders_uncounted
    [of "demo_env\<lparr>we_lim := DefaultLimits\<lparr>max_nodes := 1\<rparr>\<rparr>" 1000 0 "()"]
  by simp

end
