(* ===== verification/Gnostate_Sim.thy ===== *)
theory Gnostate_Sim
  imports Gnostate_Limits
begin

text \<open>
  Two walkers side by side. The contract \<open>walker_sim\<close> relates a run to one under
  larger limits, or under another resolver that gives the same answers; inside it,
  a run that stayed clear of whatever could tell the two apart is shown to be matched
  by the other step for step. It is used twice: a decode that no limit cut is the
  decode under any larger limits, and resolving in rounds agrees with resolving one
  object at a time.
\<close>

section \<open>The contract\<close>

definition limits_le :: "limits \<Rightarrow> limits \<Rightarrow> bool" where
  "limits_le l m \<longleftrightarrow> max_depth l \<le> max_depth m \<and> max_nodes l \<le> max_nodes m \<and>
     max_fetch l \<le> max_fetch m \<and> max_string l \<le> max_string m"

text \<open>
  \<open>okS\<close> says of the first resolver's state that it has not noticed a difference;
  \<open>strict\<close> that the limits differ, so the run must not have met one, and \<open>longer\<close> that the
  limit on strings may be among them.
\<close>

locale walker_sim = walker_run E RS for E :: "'s walk_env" and RS +
  fixes F :: "'t walk_env" and SR :: "'s \<Rightarrow> 't \<Rightarrow> bool" and okS :: "'s \<Rightarrow> bool" and strict longer :: bool
  assumes floats: "fmt_f32 F = fmt_f32 E" "fmt_f64 F = fmt_f64 E"
    and lims: "limits_le (we_lim E) (we_lim F)" "\<not> strict \<Longrightarrow> we_lim F = we_lim E"
      "\<not> longer \<Longrightarrow> max_string (we_lim F) = max_string (we_lim E)"
    and res_none: "we_res F = None \<longleftrightarrow> we_res E = None"
    and okS_back: "RS s s' \<Longrightarrow> okS s' \<Longrightarrow> okS s"
    and object_sim:
      "we_res E = Some r1 \<Longrightarrow> we_res F = Some r2 \<Longrightarrow> r_object r1 oid s = (b, s') \<Longrightarrow> okS s' \<Longrightarrow>
       SR s t \<Longrightarrow> \<exists>t'. r_object r2 oid t = (b, t') \<and> SR s' t'"
    and type_sim:
      "we_res E = Some r1 \<Longrightarrow> we_res F = Some r2 \<Longrightarrow> r_type r1 ty s = (b, s') \<Longrightarrow> okS s' \<Longrightarrow>
       SR s t \<Longrightarrow> \<exists>t'. r_type r2 ty t = (b, t') \<and> SR s' t'"

definition ok_walk :: "bool \<Rightarrow> bool \<Rightarrow> ('s \<Rightarrow> bool) \<Rightarrow> 's walker \<Rightarrow> bool" where
  "ok_walk strict longer okS w \<longleftrightarrow>
     okS (res_state w) \<and> (strict \<longrightarrow> \<not> wk_truncated w) \<and> (longer \<longrightarrow> \<not> wk_clipped w)"

definition same_walk :: "('s \<Rightarrow> 't \<Rightarrow> bool) \<Rightarrow> 's walker \<Rightarrow> 't walker \<Rightarrow> bool" where
  "same_walk SR w v \<longleftrightarrow>
     wk_nodes v = wk_nodes w \<and> wk_fetches v = wk_fetches w \<and> wk_truncated v = wk_truncated w \<and>
     wk_clipped v = wk_clipped w \<and> on_path v = on_path w \<and> wk_types v = wk_types w \<and>
     SR (res_state w) (res_state v)"

lemma same_walk_eqs:
  assumes "same_walk SR w v"
  shows "wk_nodes v = wk_nodes w" "wk_fetches v = wk_fetches w" "wk_truncated v = wk_truncated w"
    "wk_clipped v = wk_clipped w" "on_path v = on_path w" "wk_types v = wk_types w"
    "SR (res_state w) (res_state v)"
  using assms by (simp_all add: same_walk_def)

lemma same_walk_upd [intro]:
  assumes "same_walk SR w v"
  shows "same_walk SR (w\<lparr>wk_nodes := i\<rparr>) (v\<lparr>wk_nodes := i\<rparr>)"
    "same_walk SR (w\<lparr>wk_fetches := i\<rparr>) (v\<lparr>wk_fetches := i\<rparr>)"
    "same_walk SR (w\<lparr>wk_truncated := b\<rparr>) (v\<lparr>wk_truncated := b\<rparr>)"
    "same_walk SR (w\<lparr>wk_clipped := b\<rparr>) (v\<lparr>wk_clipped := b\<rparr>)"
    "same_walk SR (w\<lparr>on_path := P\<rparr>) (v\<lparr>on_path := P\<rparr>)"
    "same_walk SR (w\<lparr>wk_types := T\<rparr>) (v\<lparr>wk_types := T\<rparr>)"
  using assms by (simp_all add: same_walk_def)

lemma same_walk_state:
  "same_walk SR w v \<Longrightarrow> SR s t \<Longrightarrow> same_walk SR (w\<lparr>res_state := s\<rparr>) (v\<lparr>res_state := t\<rparr>)"
  by (simp add: same_walk_def)

definition sim_dec ::
  "bool \<Rightarrow> bool \<Rightarrow> ('s \<Rightarrow> bool) \<Rightarrow> ('s \<Rightarrow> 't \<Rightarrow> bool) \<Rightarrow> 's raw_dec \<Rightarrow> 't raw_dec \<Rightarrow> bool" where
  "sim_dec strict longer okS SR rv rv' \<longleftrightarrow>
     (\<forall>name ti raw depth w v n w'. same_walk SR w v \<longrightarrow> rv name ti raw depth w = Some (n, w') \<longrightarrow>
        ok_walk strict longer okS w' \<longrightarrow>
        (\<exists>v'. rv' name ti raw depth v = Some (n, v') \<and> same_walk SR w' v'))"

lemma sim_decD:
  "sim_dec strict longer okS SR rv rv' \<Longrightarrow> same_walk SR w v \<Longrightarrow> rv name ti raw depth w = Some (n, w') \<Longrightarrow>
   ok_walk strict longer okS w' \<Longrightarrow> \<exists>v'. rv' name ti raw depth v = Some (n, v') \<and> same_walk SR w' v'"
  by (auto simp: sim_dec_def)

context walker_sim
begin

abbreviation good :: "'s walker \<Rightarrow> bool" where "good \<equiv> ok_walk strict longer okS"
abbreviation sim :: "'s walker \<Rightarrow> 't walker \<Rightarrow> bool" where "sim \<equiv> same_walk SR"

lemma good_back: "advances E RS w w' \<Longrightarrow> good w' \<Longrightarrow> good w"
  by (auto simp: ok_walk_def advances_def intro: okS_back)

lemma budget_sim:
  assumes "budget E depth w = (b, w')" "good w'" "sim w v"
  shows "\<exists>v'. budget F depth v = (b, v') \<and> sim w' v'"
proof (cases strict)
  case True
  with assms(1,2) have "b" "w' = w" "wk_nodes w < max_nodes (we_lim E)" "depth \<le> max_depth (we_lim E)"
    by (auto simp: budget_def ok_walk_def split: if_splits)
  with lims(1) assms(3) same_walk_eqs(1) [OF assms(3)] show ?thesis
    by (simp add: budget_def limits_le_def)
next
  case False
  have "budget F depth v = (b, if b then v else v\<lparr>wk_truncated := True\<rparr>)"
    "w' = (if b then w else w\<lparr>wk_truncated := True\<rparr>)"
    using assms(1) lims(2) [OF False] same_walk_eqs(1) [OF assms(3)]
    by (auto simp: budget_def split: if_splits)
  with assms(3) show ?thesis by auto
qed

lemma clip_sim:
  assumes "clip E s w = (x, w')" "good w'" "sim w v"
  shows "\<exists>v'. clip F s v = (x, v') \<and> sim w' v'"
proof (cases longer)
  case True
  with assms(1,2) have "x = s" "w' = w" "int (length s) \<le> max_string (we_lim E)"
    by (auto simp: clip_def ok_walk_def split: if_splits)
  with lims(1) assms(3) show ?thesis by (simp add: clip_def limits_le_def)
next
  case False
  let ?fits = "int (length s) \<le> max_string (we_lim E)"
  have "clip F s v = (x, if ?fits then v else v\<lparr>wk_clipped := True\<rparr>)"
    "w' = (if ?fits then w else w\<lparr>wk_clipped := True\<rparr>)"
    using assms(1) lims(3) [OF False] by (auto simp: clip_def split: if_splits)
  with assms(3) show ?thesis by auto
qed

lemma number_sim: "number F t s = number E t s"
  unfolding number_def floats ..

lemma fieldNames_sim:
  assumes "fieldNames E ti want w = (ns, w')" "good w'" "sim w v"
  shows "\<exists>v'. fieldNames F ti want v = (ns, v') \<and> sim w' v'"
proof (cases "\<exists>t r1. ti = Some t \<and> we_res E = Some r1 \<and> want \<noteq> 0 \<and> length (ti_fields t) \<noteq> want \<and>
    ti_id t \<noteq> '''' \<and> wk_types w (ti_id t) = None \<and> wk_fetches w < max_fetch (we_lim E)")
  case False
  note types = same_walk_eqs(6) [OF assms(3)] and fetches = same_walk_eqs(2) [OF assms(3)]
  show ?thesis
  proof (cases "\<exists>t r1. ti = Some t \<and> we_res E = Some r1 \<and> want \<noteq> 0 \<and>
      length (ti_fields t) \<noteq> want \<and> ti_id t \<noteq> '''' \<and> wk_types w (ti_id t) = None")
    case True
    then obtain t r1 where t: "ti = Some t" "we_res E = Some r1" "want \<noteq> 0"
      "length (ti_fields t) \<noteq> want" "ti_id t \<noteq> ''''" "wk_types w (ti_id t) = None" by blast
    with False have spent: "max_fetch (we_lim E) \<le> wk_fetches w" by auto
    with assms(1) t have w': "ns = []"
      "w' = w\<lparr>wk_types := (wk_types w)(ti_id t \<mapsto> None), wk_truncated := True\<rparr>"
      by (simp_all add: fieldNames_def Let_def)
    with assms(2) have "\<not> strict" by (simp add: ok_walk_def)
    with spent have "max_fetch (we_lim F) \<le> wk_fetches v" using lims(2) fetches by simp
    moreover obtain r2 where "we_res F = Some r2" using res_none t(2) by fastforce
    ultimately have "fieldNames F ti want v =
        ([], v\<lparr>wk_types := (wk_types w)(ti_id t \<mapsto> None), wk_truncated := True\<rparr>)"
      using t types by (simp add: fieldNames_def Let_def)
    with w' assms(3) show ?thesis by auto
  next
    case quiet: False
    then have "w' = w" "fieldNames F ti want v = (ns, v)"
      using assms(1) res_none types
      by (cases ti; cases "we_res E"; auto simp: fieldNames_def split: option.splits if_splits)+
    with assms(3) show ?thesis by blast
  qed
next
  case True
  then obtain t r1 where t: "ti = Some t" "we_res E = Some r1" "want \<noteq> 0"
    "length (ti_fields t) \<noteq> want" "ti_id t \<noteq> ''''" "wk_types w (ti_id t) = None"
    "wk_fetches w < max_fetch (we_lim E)" by blast
  obtain r2 where r2: "we_res F = Some r2" using res_none t(2) by fastforce
  obtain body s where r: "r_type r1 (ti_id t) (res_state w) = (body, s)" by fastforce
  have s: "res_state w' = s"
    using assms(1) t r by (auto simp: fieldNames_def Let_def split: option.splits if_splits)
  then have "okS s" using assms(2) by (simp add: ok_walk_def)
  then obtain u where u: "r_type r2 (ti_id t) (res_state v) = (body, u)" "SR s u"
    using type_sim [OF t(2) r2 r] assms(3) by (auto simp: same_walk_def)
  have less: "wk_fetches v < max_fetch (we_lim F)"
    using t(7) same_walk_eqs(2) [OF assms(3)] lims(1) by (simp add: limits_le_def)
  define w1 where "w1 = w\<lparr>wk_types := (wk_types w)(ti_id t \<mapsto> None),
    wk_fetches := wk_fetches w + 1, res_state := s\<rparr>"
  define v1 where "v1 = v\<lparr>wk_types := (wk_types v)(ti_id t \<mapsto> None),
    wk_fetches := wk_fetches v + 1, res_state := u\<rparr>"
  let ?pick = "\<lambda>x. case body of None \<Rightarrow> ([], x)
      | Some j \<Rightarrow> if \<not> (struct_ok j \<and> str_ok (jfield ''typeid'' j)) then ([], x)
          else let resolved = typeOf (jfield ''type'' j);
                   x = x\<lparr>wk_types := (wk_types x)(ti_id t \<mapsto> resolved)\<rparr>
               in case resolved of None \<Rightarrow> ([], x)
                  | Some rt \<Rightarrow> (if length (ti_fields rt) \<noteq> want then [] else ti_fields rt, x)"
  have 1: "fieldNames E ti want w = ?pick w1"
    using t r unfolding fieldNames_def w1_def by (simp add: Let_def)
  have 2: "fieldNames F ti want v = ?pick v1"
    using t r2 u(1) less same_walk_eqs(6) [OF assms(3)] unfolding fieldNames_def v1_def
    by (simp add: Let_def split: option.split)
  have wv: "sim w1 v1"
    unfolding w1_def v1_def same_walk_eqs(2,6) [OF assms(3)]
    using assms(3) u(2) by (intro same_walk_state same_walk_upd)
  then have "sim (w1\<lparr>wk_types := (wk_types w1)(ti_id t \<mapsto> x)\<rparr>)
      (v1\<lparr>wk_types := (wk_types v1)(ti_id t \<mapsto> x)\<rparr>)" for x
    unfolding same_walk_eqs(6) [OF wv] by (rule same_walk_upd)
  with wv 1 2 assms(1) show ?thesis
    by (auto simp: Let_def split: option.splits if_splits)
qed

lemma value_with_sim:
  assumes "sim_dec strict longer okS SR rv rv'"
    and "value_with E rv name tv depth w = Some (n, w')" "good w'" "sim w v"
  shows "\<exists>v'. value_with F rv' name tv depth v = Some (n, v') \<and> sim w' v'"
proof (cases "fst (budget E depth w)")
  case False
  then obtain u where b: "budget E depth w = (False, u)" by (metis prod.collapse)
  with assms(2) have u: "w' = u" "n = mk_node name None KindTruncated ''''"
    by (auto simp: value_with_def)
  from budget_sim [OF b] assms(3,4) u(1) obtain v' where
    "budget F depth v = (False, v')" "sim w' v'" by blast
  with u(2) show ?thesis by (simp add: value_with_def)
next
  case True
  then have b: "budget E depth w = (True, w)" by (auto simp: budget_def split: if_splits)
  have "wk_nodes w < max_nodes (we_lim E)" "depth \<le> max_depth (we_lim E)"
    using True by (auto simp: budget_def split: if_splits)
  then have b': "budget F depth v = (True, v)"
    using lims(1) same_walk_eqs(1) [OF assms(4)] by (simp add: budget_def limits_le_def)
  let ?w = "w\<lparr>wk_nodes := wk_nodes w + 1\<rparr>" and ?v = "v\<lparr>wk_nodes := wk_nodes v + 1\<rparr>"
  have wv: "sim ?w ?v" unfolding same_walk_eqs(1) [OF assms(4)] using assms(4) by (rule same_walk_upd)
  show ?thesis
  proof (cases "\<exists>x. tv_N tv = '''' \<and> tv_V tv = Some x \<and> x \<noteq> JNull")
    case True
    then have "rv name (typeOf (tv_T tv)) (the (tv_V tv)) depth ?w = Some (n, w')"
      using assms(2) b by (auto simp: value_with_def Let_def)
    from sim_decD [OF assms(1) wv this assms(3)] True b' show ?thesis
      by (auto simp: value_with_def Let_def)
  next
    case False
    then have "w' = ?w" "value_with F rv' name tv depth v = Some (n, ?v)"
      using assms(2) b b'
      by (auto simp: value_with_def Let_def number_sim split: option.splits if_splits)
    with wv show ?thesis by blast
  qed
qed

lemma fold_children_sim:
  assumes "\<And>x w n w' v. x \<in> set xs \<Longrightarrow> f x w = Some (n, w') \<Longrightarrow> good w' \<Longrightarrow> sim w v \<Longrightarrow>
      \<exists>v'. g x v = Some (n, v') \<and> sim w' v'"
    and "\<And>x w n w'. x \<in> set xs \<Longrightarrow> f x w = Some (n, w') \<Longrightarrow> advances E RS w w'"
  shows "fold_opt f xs w = Some (ns, w') \<Longrightarrow> good w' \<Longrightarrow> sim w v \<Longrightarrow>
    \<exists>v'. fold_opt g xs v = Some (ns, v') \<and> sim w' v'"
  using assms
proof (induction xs arbitrary: w v ns)
  case (Cons x xs)
  from Cons.prems(1) obtain n w1 ms where 1: "f x w = Some (n, w1)"
    "fold_opt f xs w1 = Some (ms, w')" "ns = n # ms"
    by (auto split: option.splits)
  have "advances E RS w1 w'"
    using _ _ _ 1(2) by (rule fold_opt_rel) (auto intro: Cons.prems(5) advances_refl advances_trans)
  then have "good w1" using Cons.prems(2) by (rule good_back)
  then obtain v1 where v1: "g x v = Some (n, v1)" "sim w1 v1"
    using Cons.prems(4) [OF _ 1(1) _ Cons.prems(3)] by auto
  have "\<exists>v'. fold_opt g xs v1 = Some (ms, v') \<and> sim w' v'"
    using 1(2) Cons.prems(2) v1(2) Cons.prems(4) [OF list.set_intros(2)]
      Cons.prems(5) [OF list.set_intros(2)]
    by (rule Cons.IH)
  with v1 1(3) show ?case by auto
qed simp

lemma pointer_with_sim:
  assumes "sim_dec strict longer okS SR rv rv'"
    and "pointer_with E rv name ti raw depth w = Some (n, w')" "good w'" "sim w v"
  shows "\<exists>v'. pointer_with F rv' name ti raw depth v = Some (n, v') \<and> sim w' v'"
proof (cases "no_message (jfield ''TV'' raw) \<and> \<not> no_message (jfield ''Base'' raw)")
  case False
  then show ?thesis
    using assms(2,4) value_with_sim [OF assms(1) _ assms(3,4)]
    by (cases "no_message (jfield ''TV'' raw)")
      (auto simp: pointer_with_def no_message_def split: option.splits if_splits)
next
  case True
  then obtain b where b: "no_message (jfield ''TV'' raw)" "jfield ''Base'' raw = Some b" "b \<noteq> JNull"
    by (auto simp: no_message_def)
  let ?pick = "\<lambda>(base, x). if n_from_heap (info base) then Some (base, x)
      else case parse_int (jstr ''Index'' raw) of (idx, ok) \<Rightarrow>
        if ok \<and> 0 \<le> idx \<and> idx < int (length (children base))
        then Some (upd_info (\<lambda>i. i\<lparr>n_name := name\<rparr>) (children base ! nat idx), x)
        else Some (base, x)"
  have E: "pointer_with E rv name ti raw depth w = Option.bind (rv name ti b depth w) ?pick"
    and F: "pointer_with F rv' name ti raw depth v = Option.bind (rv' name ti b depth v) ?pick"
    using b by (simp_all add: pointer_with_def split: option.split)
  from assms(2) E obtain base where base: "rv name ti b depth w = Some (base, w')"
    "?pick (base, w') = Some (n, w')"
    by (auto simp: bind_eq_Some_conv split: if_splits prod.splits)
  from sim_decD [OF assms(1,4) base(1) assms(3)] obtain v' where
    "rv' name ti b depth v = Some (base, v')" "sim w' v'" by blast
  with F base(2) show ?thesis by (auto split: if_splits prod.splits)
qed

lemma slice_with_sim:
  assumes "sim_dec strict longer okS SR rv rv'"
    and "slice_with E rv name ti raw depth w = Some (n, w')" "good w'" "sim w v"
  shows "\<exists>v'. slice_with F rv' name ti raw depth v = Some (n, v') \<and> sim w' v'"
proof (cases "no_message (jfield ''Base'' raw)")
  case True
  with assms(2,4) show ?thesis by (auto simp: slice_with_def no_message_def)
next
  case False
  then obtain b where b: "jfield ''Base'' raw = Some b" "b \<noteq> JNull"
    by (auto simp: no_message_def)
  from assms(2) b obtain base where base: "rv name ti b depth w = Some (base, w')"
    by (auto simp: slice_with_def Let_def split: option.splits)
  from sim_decD [OF assms(1,4) base assms(3)] obtain v' where
    "rv' name ti b depth v = Some (base, v')" "sim w' v'" by blast
  with assms(2) b base show ?thesis by (auto simp: slice_with_def Let_def)
qed

lemma elems_sim:
  assumes "sim_dec strict longer okS SR rv rv'" "sound_dec E RS rv"
    and "fold_opt (\<lambda>(i, e) w. value_with E rv (g i) (decode_tv (Some e)) depth w) xs w = Some (ns, w')"
    and "good w'" "sim w v"
  shows "\<exists>v'. fold_opt (\<lambda>(i, e) w. value_with F rv' (g i) (decode_tv (Some e)) depth w) xs v
    = Some (ns, v') \<and> sim w' v'"
  by (rule fold_children_sim [OF _ _ assms(3-5)])
    (auto simp: case_prod_beta value_with_post [OF assms(2), unfolded post_val_def]
      intro: value_with_sim [OF assms(1)])

lemma elems_advances:
  assumes "sound_dec E RS rv"
    and "fold_opt (\<lambda>(i, e) w. value_with E rv (g i) (decode_tv (Some e)) depth w) xs w = Some (ns, w')"
  shows "advances E RS w w'"
  using _ _ _ assms(2)
  by (rule fold_opt_rel)
    (auto simp: case_prod_beta value_with_post [OF assms(1), unfolded post_val_def]
      intro: advances_refl advances_trans)

lemma structValue_with_sim:
  assumes "sim_dec strict longer okS SR rv rv'" "sound_dec E RS rv"
    and "structValue_with E rv name ti raw depth w = Some (n, w')" "good w'" "sim w v"
  shows "\<exists>v'. structValue_with F rv' name ti raw depth v = Some (n, v') \<and> sim w' v'"
proof -
  let ?fs = "jelems (jfield ''Fields'' raw)"
  let ?g = "\<lambda>names i. if i < length names \<and> names ! i \<noteq> '''' then names ! i else index_name i"
  obtain names w1 where f: "fieldNames E ti (length ?fs) w = (names, w1)" by fastforce
  from assms(3) f obtain cs where
    fold: "fold_opt (\<lambda>(i, f) w. value_with E rv (?g names i) (decode_tv (Some f)) (depth + 1) w)
             (enumerate 0 ?fs) w1 = Some (cs, w')"
    and n: "n = Node (info (stamp (decode_oi (jfield ''ObjectInfo'' raw))
                        (mk_node name ti KindStruct ''''))) cs"
    by (auto simp: structValue_with_def Let_def split: option.splits)
  have "good w1" using elems_advances [OF assms(2) fold] assms(4) by (rule good_back)
  from fieldNames_sim [OF f this assms(5)] obtain v1 where
    v1: "fieldNames F ti (length ?fs) v = (names, v1)" "sim w1 v1" by blast
  from elems_sim [OF assms(1,2) fold assms(4) v1(2)] v1(1) n show ?thesis
    by (auto simp: structValue_with_def Let_def)
qed

lemma array_with_sim:
  assumes "sim_dec strict longer okS SR rv rv'" "sound_dec E RS rv"
    and "array_with E rv name ti raw depth w = Some (n, w')" "good w'" "sim w v"
  shows "\<exists>v'. array_with F rv' name ti raw depth v = Some (n, v') \<and> sim w' v'"
proof (cases "jstr ''Data'' raw = ''''")
  case True
  with assms(3) obtain cs where
    fold: "fold_opt (\<lambda>(i, f) w. value_with E rv (index_name i) (decode_tv (Some f)) (depth + 1) w)
             (enumerate 0 (jelems (jfield ''List'' raw))) w = Some (cs, w')"
    by (auto simp: array_with_def Let_def split: option.splits)
  from elems_sim [OF assms(1,2) fold assms(4,5)] assms(3) fold True show ?thesis
    by (auto simp: array_with_def Let_def)
next
  case False
  show ?thesis
  proof (cases "Option.bind (b64_decode (jstr ''Data'' raw)) printableASCII")
    case None
    with False assms(3,5) show ?thesis
      by (auto simp: array_with_def Let_def bind_eq_None_conv split: option.splits)
  next
    case (Some s)
    then obtain b where b: "b64_decode (jstr ''Data'' raw) = Some b" "printableASCII b = Some s"
      by (auto simp: bind_eq_Some_conv)
    obtain x u where c: "clip E s w = (x, u)" by fastforce
    with False b assms(3) have "w' = u" by (simp add: array_with_def Let_def)
    with clip_sim [OF c _ assms(5)] assms(4) obtain v' where "clip F s v = (x, v')" "sim w' v'"
      by blast
    with False b c assms(3) show ?thesis by (simp add: array_with_def Let_def)
  qed
qed

lemma mapValue_with_sim:
  assumes "sim_dec strict longer okS SR rv rv'" "sound_dec E RS rv"
    and "mapValue_with E rv name ti raw depth w = Some (n, w')" "good w'" "sim w v"
  shows "\<exists>v'. mapValue_with F rv' name ti raw depth v = Some (n, v') \<and> sim w' v'"
proof -
  let ?key = "\<lambda>i k. if n_value (info k) = '''' then index_name i else n_value (info k)"
  let ?stepE = "\<lambda>(i, e) w.
      case value_with E rv '''' (decode_tv (jfield ''Key'' e)) (depth + 1) w of
        None \<Rightarrow> None
      | Some (k, w) \<Rightarrow>
          let key = ?key i k
          in value_with E rv key (decode_tv (jfield ''Value'' e)) (depth + 1) w"
  let ?stepF = "\<lambda>(i, e) w.
      case value_with F rv' '''' (decode_tv (jfield ''Key'' e)) (depth + 1) w of
        None \<Rightarrow> None
      | Some (k, w) \<Rightarrow>
          let key = ?key i k
          in value_with F rv' key (decode_tv (jfield ''Value'' e)) (depth + 1) w"
  have split: "\<exists>k w1. value_with E rv '''' (decode_tv (jfield ''Key'' (snd x))) (depth + 1) w = Some (k, w1) \<and>
      value_with E rv (?key (fst x) k) (decode_tv (jfield ''Value'' (snd x))) (depth + 1) w1 = Some (m, u)"
    if "?stepE x w = Some (m, u)" for x w m u
  proof -
    from that obtain k w1 where
      k: "value_with E rv '''' (decode_tv (jfield ''Key'' (snd x))) (depth + 1) w = Some (k, w1)"
      by (auto simp: case_prod_beta split: option.splits)
    with that show ?thesis
      by (intro exI [of _ k] exI [of _ w1] conjI)
        (simp_all add: case_prod_beta Let_def split: if_splits)
  qed
  have adv: "advances E RS w u" if "?stepE x w = Some (m, u)" for x w m u
  proof -
    note vadv = value_with_post [OF assms(2), unfolded post_val_def, THEN conjunct1]
    from split [OF that] obtain k w1 where
      "value_with E rv '''' (decode_tv (jfield ''Key'' (snd x))) (depth + 1) w = Some (k, w1)"
      "value_with E rv (?key (fst x) k) (decode_tv (jfield ''Value'' (snd x))) (depth + 1) w1
        = Some (m, u)" by blast
    from this [THEN vadv] show ?thesis by (rule advances_trans)
  qed
  have step: "\<exists>y. ?stepF x v = Some (m, y) \<and> sim u y"
    if 1: "?stepE x w = Some (m, u)" and ok: "good u" and wv: "sim w v" for x w m u v
  proof -
    from split [OF 1] obtain k w1 where
      k: "value_with E rv '''' (decode_tv (jfield ''Key'' (snd x))) (depth + 1) w = Some (k, w1)"
      and m: "value_with E rv (?key (fst x) k) (decode_tv (jfield ''Value'' (snd x))) (depth + 1) w1
        = Some (m, u)" by blast
    have "advances E RS w1 u" using value_with_post [OF assms(2) m] by (simp add: post_val_def)
    with ok have "good w1" by (rule good_back [rotated])
    from value_with_sim [OF assms(1) k this wv] obtain v1 where
      "value_with F rv' '''' (decode_tv (jfield ''Key'' (snd x))) (depth + 1) v = Some (k, v1)"
      "sim w1 v1" by blast
    moreover from value_with_sim [OF assms(1) m ok this(2)] obtain y where
      "value_with F rv' (?key (fst x) k) (decode_tv (jfield ''Value'' (snd x))) (depth + 1) v1 = Some (m, y)"
      "sim u y" by blast
    ultimately show ?thesis
      by (intro exI [of _ y]) (simp add: case_prod_beta Let_def split: if_splits)
  qed
  from assms(3) obtain cs where
    fold: "fold_opt ?stepE (enumerate 0 (jelems (jfield ''List'' raw))) w = Some (cs, w')"
    by (auto simp: mapValue_with_def Let_def split: option.splits)
  have "\<exists>v'. fold_opt ?stepF (enumerate 0 (jelems (jfield ''List'' raw))) v = Some (cs, v') \<and> sim w' v'"
    using step adv fold assms(4,5) by (rule fold_children_sim)
  with assms(3) fold show ?thesis by (auto simp: mapValue_with_def Let_def)
qed

lemma ref_with_sim:
  assumes "sim_dec strict longer okS SR follow follow'" "sound_dec E RS follow"
    and "ref_with E follow name ti raw depth w = Some (n, w')" "good w'" "sim w v"
  shows "\<exists>v'. ref_with F follow' name ti raw depth v = Some (n, v') \<and> sim w' v'"
proof -
  let ?oid = "jstr ''ObjectID'' raw"
  let ?stopped = "\<lambda>(E :: 's walk_env) w. max_fetch (we_lim E) \<le> wk_fetches w \<or> \<not> fst (budget E depth w)"
  let ?un = "upd_info (\<lambda>i. i\<lparr>n_object_id := ?oid, n_hash := jstr ''Hash'' raw\<rparr>)
    (mk_node name ti KindRef '''')"
  note eqs = same_walk_eqs [OF assms(5)]
  show ?thesis
  proof (cases "jstr ''PkgPath'' raw \<noteq> '''' \<or> ?oid = '''' \<or> we_res E = None \<or> ?oid \<in> on_path w")
    case True
    then have "w' = w" "ref_with F follow' name ti raw depth v = Some (n, v)"
      using assms(3) res_none eqs(5) by (auto simp: ref_with_def Let_def split: option.splits if_splits)
    with assms(5) show ?thesis by blast
  next
    case False
    then obtain r1 where r1: "we_res E = Some r1" by (cases "we_res E") auto
    then obtain r2 where r2: "we_res F = Some r2" using res_none by fastforce
    show ?thesis
    proof (cases "?stopped E w")
      case stop: True
      with assms(3) False r1 have w': "n = ?un" "w' = w\<lparr>wk_truncated := True\<rparr>"
        by (auto simp: ref_with_def Let_def)
      with assms(4) have "\<not> strict" by (simp add: ok_walk_def)
      from lims(2) [OF this] stop eqs(1,2)
      have "max_fetch (we_lim F) \<le> wk_fetches v \<or> \<not> fst (budget F depth v)"
        by (auto simp: budget_def split: if_splits)
      with False r2 eqs(5) w' have
        "ref_with F follow' name ti raw depth v = Some (n, v\<lparr>wk_truncated := True\<rparr>)"
        by (simp add: ref_with_def Let_def)
      with assms(5) w' show ?thesis by auto
    next
      case go: False
      then have go2: "\<not> max_fetch (we_lim F) \<le> wk_fetches v" "fst (budget F depth v)"
        using lims(1) eqs(1,2) by (auto simp: budget_def limits_le_def split: if_splits)
      obtain body s where o1: "r_object r1 ?oid (res_state w) = (body, s)" by fastforce
      let ?w = "w\<lparr>wk_fetches := wk_fetches w + 1, res_state := s\<rparr>"
      let ?body = "Option.bind body (\<lambda>env.
        if struct_ok env \<and> str_ok (jfield ''objectid'' env) then jfield ''value'' env else None)"
      let ?fix = "\<lambda>(n, x). (if n_object_id (info n) = ''''
        then upd_info (\<lambda>i. i\<lparr>n_object_id := ?oid\<rparr>) n else n, x\<lparr>on_path := on_path x - {?oid}\<rparr>)"
      have E: "ref_with E follow name ti raw depth w =
          (case ?body of None \<Rightarrow> Some (?un, ?w)
           | Some y \<Rightarrow> map_option ?fix (follow name ti y depth (?w\<lparr>on_path := insert ?oid (on_path w)\<rparr>)))"
        using False r1 go o1 by (auto simp: ref_with_def Let_def split: option.splits)
      have "okS s"
      proof (cases ?body)
        case None
        with E assms(3,4) show ?thesis by (auto simp: ok_walk_def)
      next
        case (Some y)
        with E assms(3) have
          "map_option ?fix (follow name ti y depth (?w\<lparr>on_path := insert ?oid (on_path w)\<rparr>)) = Some (n, w')"
          by simp
        then obtain n0 w0 where
          f: "follow name ti y depth (?w\<lparr>on_path := insert ?oid (on_path w)\<rparr>) = Some (n0, w0)"
          and "res_state w' = res_state w0" by auto
        with sound_decD [OF assms(2) f] assms(4) show ?thesis
          by (auto simp: post_raw_def advances_def ok_walk_def intro: okS_back)
      qed
      with object_sim [OF r1 r2 o1 _ eqs(7)] obtain t where
        o2: "r_object r2 ?oid (res_state v) = (body, t)" "SR s t" by blast
      let ?v = "v\<lparr>wk_fetches := wk_fetches v + 1, res_state := t\<rparr>"
      have F: "ref_with F follow' name ti raw depth v =
          (case ?body of None \<Rightarrow> Some (?un, ?v)
           | Some y \<Rightarrow> map_option (\<lambda>(n, x). (if n_object_id (info n) = ''''
                then upd_info (\<lambda>i. i\<lparr>n_object_id := ?oid\<rparr>) n else n, x\<lparr>on_path := on_path x - {?oid}\<rparr>))
              (follow' name ti y depth (?v\<lparr>on_path := insert ?oid (on_path v)\<rparr>)))"
        using False r2 go2 o2(1) eqs(5) by (auto simp: ref_with_def Let_def split: option.splits)
      have wv: "sim ?w ?v" unfolding eqs(2)
        using assms(5) o2(2) by (intro same_walk_state same_walk_upd)
      show ?thesis
      proof (cases ?body)
        case None
        with E F wv assms(3) show ?thesis by auto
      next
        case (Some y)
        with E assms(3) have
          "map_option ?fix (follow name ti y depth (?w\<lparr>on_path := insert ?oid (on_path w)\<rparr>)) = Some (n, w')"
          by simp
        then obtain n0 w0 where
          f: "follow name ti y depth (?w\<lparr>on_path := insert ?oid (on_path w)\<rparr>) = Some (n0, w0)"
          and fin: "?fix (n0, w0) = (n, w')" by auto
        have "good w0" using assms(4) fin by (auto simp: ok_walk_def)
        moreover have "sim (?w\<lparr>on_path := insert ?oid (on_path w)\<rparr>)
            (?v\<lparr>on_path := insert ?oid (on_path v)\<rparr>)"
          unfolding eqs(5) using wv by (rule same_walk_upd)
        ultimately obtain v0 where v0: "sim w0 v0"
          "follow' name ti y depth (?v\<lparr>on_path := insert ?oid (on_path v)\<rparr>) = Some (n0, v0)"
          using sim_decD [OF assms(1) _ f] by blast
        from v0(1) have "sim (w0\<lparr>on_path := on_path w0 - {?oid}\<rparr>) (v0\<lparr>on_path := on_path v0 - {?oid}\<rparr>)"
          unfolding same_walk_eqs(5) [OF v0(1)] by (rule same_walk_upd)
        with F Some v0(2) fin show ?thesis by auto
      qed
    qed
  qed
qed

lemma rawValue_with_sim:
  assumes "sim_dec strict longer okS SR rv rv'" "sound_dec E RS rv"
    and "sim_dec strict longer okS SR follow follow'" "sound_dec E RS follow"
    and "rawValue_with E rv follow name ti raw depth w = Some (n, w')" "good w'" "sim w v"
  shows "\<exists>v'. rawValue_with F rv' follow' name ti raw depth v = Some (n, v') \<and> sim w' v'"
proof (cases "struct_ok raw \<and> str_ok (jfield ''@type'' raw)")
  case False
  with assms(5,7) show ?thesis by (auto simp: rawValue_with_def)
next
  case ok: True
  let ?t = "jstr ''@type'' raw"
  note [simp] = rawValue_with_def Let_def
  consider "?t \<in> {vString, vBigint, vBigdec}" | "?t = vHeapItem" | "?t = vPointer" | "?t = vRef"
    | "?t = vStruct" | "?t = vSlice" | "?t = vArray" | "?t = vMap"
    | "?t \<notin> {vString, vBigint, vBigdec, vHeapItem, vPointer, vRef, vStruct, vSlice, vArray, vMap}"
    by blast
  then show ?thesis
  proof cases
    case 1
    obtain x u where c: "clip E (jstr ''value'' raw) w = (x, u)" by fastforce
    with 1 ok assms(5) have "w' = u" "n = mk_node name ti KindPrimitive x" by auto
    with clip_sim [OF c _ assms(7)] assms(6) 1 ok show ?thesis by auto
  next
    case 2
    with ok assms(5) obtain m where
      m: "value_with E rv name (decode_tv (jfield ''Value'' raw)) depth w = Some (m, w')"
      by (auto simp: wire_tags split: option.splits)
    from value_with_sim [OF assms(1) m assms(6,7)] m 2 ok assms(5) show ?thesis
      by (auto simp: wire_tags)
  next
    case 3
    with ok assms(5) pointer_with_sim [OF assms(1) _ assms(6,7)] show ?thesis by (simp add: wire_tags)
  next
    case 4
    with ok assms(5) ref_with_sim [OF assms(3,4) _ assms(6,7)] show ?thesis by (simp add: wire_tags)
  next
    case 5
    with ok assms(5) structValue_with_sim [OF assms(1,2) _ assms(6,7)]
    show ?thesis by (simp add: wire_tags)
  next
    case 6
    with ok assms(5) slice_with_sim [OF assms(1) _ assms(6,7)] show ?thesis by (simp add: wire_tags)
  next
    case 7
    with ok assms(5) array_with_sim [OF assms(1,2) _ assms(6,7)] show ?thesis by (simp add: wire_tags)
  next
    case 8
    with ok assms(5) mapValue_with_sim [OF assms(1,2) _ assms(6,7)] show ?thesis by (simp add: wire_tags)
  next
    case 9
    with ok assms(5,7) show ?thesis by (auto split: if_splits)
  qed
qed

lemma walk_sim:
  assumes "sim_dec strict longer okS SR follow follow'" "sound_dec E RS follow"
  shows "sim_dec strict longer okS SR (walk E follow m) (walk F follow' m)"
proof (induction m)
  case 0
  then show ?case by (simp add: sim_dec_def)
next
  case (Suc m)
  from rawValue_with_sim [OF this sound_walk [OF assms(2)] assms] show ?case
    by (simp add: sim_dec_def)
qed

lemma rawValue_sim: "f \<le> g \<Longrightarrow> sim_dec strict longer okS SR (rawValue E f) (rawValue F g)"
proof (induction f arbitrary: g)
  case 0
  let ?none = "\<lambda>_ _ _ _ _. None"
  have "sound_dec E RS ?none" by (simp add: sound_dec_def)
  note sim = walk_sim [OF _ this]
  have "sim_dec strict longer okS SR ?none follow" for follow by (simp add: sim_dec_def)
  from sim [OF this] show ?case by (cases g) (auto simp: sim_dec_def)
next
  case (Suc f)
  then obtain g' where "g = Suc g'" "f \<le> g'" by (cases g) auto
  with walk_sim [OF Suc.IH [OF this(2)] sound_rawValue] show ?case by (auto simp: sim_dec_def)
qed

lemma decode_block_sim:
  assumes "f \<le> g"
  shows "decode_block E f bs w = Some (ns, w') \<Longrightarrow> good w' \<Longrightarrow> sim w v \<Longrightarrow>
    \<exists>v'. decode_block F g bs v = Some (ns, v') \<and> sim w' v'"
proof (induction bs arbitrary: w v ns)
  case (Cons b bs)
  obtain name tv where b: "b = (name, tv)" by fastforce
  show ?case
  proof (cases "name = '''' \<or> name = ''_'' \<or> isFuncType (tv_T tv)")
    case True
    with Cons.prems(1) b have "decode_block E f bs w = Some (ns, w')" by (simp split: if_splits)
    from Cons.IH [OF this Cons.prems(2,3)] True b show ?thesis by auto
  next
    case False
    with Cons.prems(1) b obtain n w1 ms where
      n: "value_of E f name tv 0 w = Some (n, w1)" and ms: "decode_block E f bs w1 = Some (ms, w')"
      and ns: "ns = (if n_kind (info n) = KindFunc then ms else n # ms)"
      by (auto split: option.splits if_splits)
    from decode_block_post [OF ms] Cons.prems(2) have "good w1" by (auto intro: good_back)
    with value_with_sim [OF rawValue_sim [OF assms] _ _ Cons.prems(3)] n obtain v1 where
      v1: "value_of F g name tv 0 v = Some (n, v1)" "sim w1 v1"
      unfolding value_of_def by blast
    from Cons.IH [OF ms Cons.prems(2) v1(2)] v1(1) ns False b show ?thesis by auto
  qed
qed simp

end

section \<open>Larger limits\<close>

definition limits_sup :: "limits \<Rightarrow> limits \<Rightarrow> limits" where
  "limits_sup l m = \<lparr>max_depth = max (max_depth l) (max_depth m),
     max_nodes = max (max_nodes l) (max_nodes m), max_fetch = max (max_fetch l) (max_fetch m),
     max_string = max (max_string l) (max_string m)\<rparr>"

lemma limits_sup_le: "limits_le l (limits_sup l m)"
  by (simp add: limits_le_def limits_sup_def)

lemma limits_sup_absorb: "limits_le l m \<Longrightarrow> limits_sup l m = m"
  by (simp add: limits_le_def limits_sup_def)

interpretation larger_limits:
  walker_sim E any_state "E\<lparr>we_lim := limits_sup (we_lim E) m\<rparr>" "(=)" "\<lambda>_. True" True True for E m
  by unfold_locales (auto simp: limits_sup_le any_state_def)

text \<open>
  A decode that reports neither a truncation nor a clipped string does not depend
  on its limits: any larger limits give the same tree, the same statistics and the
  same questions to the resolver.
\<close>

theorem DecodePackage_limit_independent:
  assumes "DecodePackage E fuel raw s = Some (Inr (t, s'))"
    and "\<not> st_truncated (t_stats t)" "\<not> st_clipped (t_stats t)"
    and "limits_le (withDefaults (we_lim E)) (withDefaults m)" "fuel \<le> fuel'"
  shows "DecodePackage (E\<lparr>we_lim := m\<rparr>) fuel' raw s = Some (Inr (t, s'))"
proof -
  let ?E = "with_defaults_env E"
  from assms(1) obtain j ns w where j: "raw = Some j" "pkg_block_ok j"
    and d: "decode_block ?E fuel (block_bindings j) (newWalker s) = Some (ns, w)"
    and t: "t = \<lparr>t_nodes = flattenTrees ns, t_stats = stats_of w\<rparr>" "s' = res_state w"
    by (rule DecodePackage_Inr)
  have F: "with_defaults_env (E\<lparr>we_lim := m\<rparr>) =
      ?E\<lparr>we_lim := limits_sup (we_lim ?E) (withDefaults m)\<rparr>"
    using assms(4) by (simp add: with_defaults_env_def limits_sup_absorb)
  have "ok_walk True True (\<lambda>_. True) w"
    using assms(2,3) t by (simp add: ok_walk_def stats_of_def)
  moreover have "same_walk (=) (newWalker s) (newWalker s)" by (simp add: same_walk_def)
  ultimately obtain w' where "decode_block (with_defaults_env (E\<lparr>we_lim := m\<rparr>)) fuel'
      (block_bindings j) (newWalker s) = Some (ns, w')" "same_walk (=) w w'"
    using larger_limits.decode_block_sim [OF assms(5) d] unfolding F by blast
  with j t show ?thesis
    by (simp add: DecodePackage_def same_walk_def stats_of_def)
qed

theorem DecodePackage_limit_independent_witness:
  "DecodePackage (demo_env\<lparr>we_lim := \<lparr>max_depth = 20, max_nodes = 5000, max_fetch = 600,
     max_string = 9999\<rparr>\<rparr>) 7 (Some demo_block) () = Some (Inr (demo_tree, ()))"
  by (rule DecodePackage_limit_independent [OF demo_decodes])
    (simp_all add: demo_tree_def limits_le_def withDefaults_def DefaultLimits_def demo_env_def)

end
