(* ===== verification/Gnostate_Prefetch.thy ===== *)
theory Gnostate_Prefetch
  imports Gnostate_Sim
begin

text \<open>
  Resolving a realm in rounds (\<^verbatim>\<open>pkg/gnostate/prefetch.go\<close>): a cache that answers
  from what it has and records what it was asked for, and the loop that walks,
  fetches every miss at once and walks again.
\<close>

section \<open>The code\<close>

record prefetch_cache =
  pc_budget :: int
  pc_exhausted :: bool
  pc_objects :: "(string \<times> json option) list"
  pc_types :: "(string \<times> json option) list"
  want_objects :: "string list"
  want_types :: "string list"

text \<open>
  A \<^verbatim>\<open>Fetcher\<close>, with a state of its own: the error of a transport failure, or what it
  found, a missing key being \<^term>\<open>None\<close>.
\<close>

record 'f fetcher =
  f_objects :: "string list \<Rightarrow> 'f \<Rightarrow> (string + (string \<Rightarrow> json option)) \<times> 'f"
  f_types :: "string list \<Rightarrow> 'f \<Rightarrow> (string + (string \<Rightarrow> json option)) \<times> 'f"

definition pc_Object :: "string \<Rightarrow> prefetch_cache \<Rightarrow> json option \<times> prefetch_cache" where
  "pc_Object oid c =
     (case map_of (pc_objects c) oid of
        Some b \<Rightarrow> (b, c)
      | None \<Rightarrow> (None, c\<lparr>want_objects := want_objects c @ [oid]\<rparr>))"

definition pc_Type :: "string \<Rightarrow> prefetch_cache \<Rightarrow> json option \<times> prefetch_cache" where
  "pc_Type ty c =
     (case map_of (pc_types c) ty of
        Some b \<Rightarrow> (b, c)
      | None \<Rightarrow> (None, c\<lparr>want_types := want_types c @ [ty]\<rparr>))"

definition prefetch_resolver :: "prefetch_cache resolver" where
  "prefetch_resolver = \<lparr>r_object = pc_Object, r_type = pc_Type\<rparr>"

fun uniq_from :: "string \<Rightarrow> string list \<Rightarrow> string list" where
  "uniq_from l [] = []"
| "uniq_from l (s # ss) = (if s \<noteq> l then s # uniq_from s ss else uniq_from l ss)"

definition dedupe :: "string list \<Rightarrow> string list" where
  "dedupe xs = (case sort_strings xs of [] \<Rightarrow> [] | s # ss \<Rightarrow> s # uniq_from s ss)"

definition fill_objects ::
  "'f fetcher \<Rightarrow> prefetch_cache \<Rightarrow> 'f \<Rightarrow> (string + prefetch_cache) \<times> 'f" where
  "fill_objects fe c fs =
     (let oids = dedupe (want_objects c)
      in if oids = [] then (Inr c, fs)
         else let over = pc_budget c < int (length oids);
                  oids = (if over then take (nat (pc_budget c)) oids else oids);
                  c = c\<lparr>pc_exhausted := pc_exhausted c \<or> over,
                        pc_budget := pc_budget c - int (length oids)\<rparr>
              in if oids = [] then (Inr c, fs)
                 else case f_objects fe oids fs of
                        (Inl e, fs) \<Rightarrow> (Inl e, fs)
                      | (Inr got, fs) \<Rightarrow>
                          (Inr (c\<lparr>pc_objects := map (\<lambda>k. (k, got k)) oids @ pc_objects c\<rparr>), fs))"

definition fill_types ::
  "'f fetcher \<Rightarrow> prefetch_cache \<Rightarrow> 'f \<Rightarrow> (string + prefetch_cache) \<times> 'f" where
  "fill_types fe c fs =
     (let tids = dedupe (want_types c)
      in if tids = [] then (Inr c, fs)
         else case f_types fe tids fs of
                (Inl e, fs) \<Rightarrow> (Inl e, fs)
              | (Inr got, fs) \<Rightarrow>
                  (Inr (c\<lparr>pc_types := map (\<lambda>k. (k, got k)) tids @ pc_types c\<rparr>), fs))"

definition fill :: "'f fetcher \<Rightarrow> prefetch_cache \<Rightarrow> 'f \<Rightarrow> (string + prefetch_cache) \<times> 'f" where
  "fill fe c fs =
     (case fill_objects fe c fs of
        (Inl e, fs) \<Rightarrow> (Inl e, fs)
      | (Inr c, fs) \<Rightarrow> fill_types fe c fs)"

definition maxRounds :: nat where "maxRounds = 64"

definition max_int :: int where "max_int = max_int64"

datatype prefetch_error = Decode decode_error | Fetch string

text \<open>The environment of a walk over the cache: the walker's own fetch cap is lifted.\<close>

definition prefetch_env :: "'a walk_env \<Rightarrow> prefetch_cache walk_env" where
  "prefetch_env E =
     \<lparr>we_res = Some prefetch_resolver, we_lim = (withDefaults (we_lim E))\<lparr>max_fetch := max_int\<rparr>,
      fmt_f32 = fmt_f32 E, fmt_f64 = fmt_f64 E\<rparr>"

definition mark_truncated :: "gno_tree \<Rightarrow> gno_tree" where
  "mark_truncated t = t\<lparr>t_stats := (t_stats t)\<lparr>st_truncated := True\<rparr>\<rparr>"

text \<open>
  The loop, with the rounds left and the tree of the round before. \<^term>\<open>None\<close> is a walk
  that ran out of the fuel \<open>fuel\<close>.
\<close>

primrec prefetch_loop ::
  "'a walk_env \<Rightarrow> nat \<Rightarrow> json option \<Rightarrow> 'f fetcher \<Rightarrow> nat \<Rightarrow> gno_tree \<Rightarrow> prefetch_cache \<Rightarrow> 'f
     \<Rightarrow> ((prefetch_error + gno_tree) \<times> 'f) option" where
  "prefetch_loop E fuel raw fe 0 = (\<lambda>prev c fs. Some (Inr (mark_truncated prev), fs))"
| "prefetch_loop E fuel raw fe (Suc n) = (\<lambda>prev c fs.
     case DecodePackage (prefetch_env E) fuel raw (c\<lparr>want_objects := [], want_types := []\<rparr>) of
       None \<Rightarrow> None
     | Some (Inl e) \<Rightarrow> Some (Inl (Decode e), fs)
     | Some (Inr (tree, c)) \<Rightarrow>
         if pc_exhausted c then Some (Inr (mark_truncated tree), fs)
         else if want_objects c = [] \<and> want_types c = [] then Some (Inr tree, fs)
         else case fill fe c fs of
                (Inl e, fs) \<Rightarrow> Some (Inl (Fetch e), fs)
              | (Inr c, fs) \<Rightarrow> prefetch_loop E fuel raw fe n tree c fs)"

definition empty_tree :: gno_tree where
  "empty_tree = \<lparr>t_nodes = [], t_stats = \<lparr>st_nodes = 0, st_fetches = 0, st_truncated = False,
     st_clipped = False\<rparr>\<rparr>"

definition new_cache :: "int \<Rightarrow> prefetch_cache" where
  "new_cache b = \<lparr>pc_budget = b, pc_exhausted = False, pc_objects = [], pc_types = [],
     want_objects = [], want_types = []\<rparr>"

definition DecodePackageWith ::
  "'a walk_env \<Rightarrow> nat \<Rightarrow> json option \<Rightarrow> 'f fetcher \<Rightarrow> 'f
     \<Rightarrow> ((prefetch_error + gno_tree) \<times> 'f) option" where
  "DecodePackageWith E fuel raw fe fs =
     prefetch_loop E fuel raw fe maxRounds empty_tree
       (new_cache (max_fetch (withDefaults (we_lim E)))) fs"

section \<open>Requests\<close>

lemma uniq_from_spec:
  "sorted (l # ss) \<Longrightarrow>
   set (l # uniq_from l ss) = set (l # ss) \<and> sorted_wrt (<) (l # uniq_from l ss)"
proof (induction l ss rule: uniq_from.induct)
  case (2 l s ss)
  show ?case
  proof (cases "s = l")
    case True
    with 2 show ?thesis by auto
  next
    case False
    with 2 have "set (s # uniq_from s ss) = set (s # ss)" "sorted_wrt (<) (s # uniq_from s ss)"
      and "l < s" and "\<forall>x \<in> set ss. s \<le> x" by auto
    with False show ?thesis by (auto intro: less_le_trans)
  qed
qed simp

lemma dedupe_spec:
  "set (dedupe xs) = set xs" "sorted_wrt (<) (dedupe xs)"
proof -
  have "set (dedupe xs) = set xs \<and> sorted_wrt (<) (dedupe xs)"
  proof (cases "sort xs")
    case Nil
    then have "xs = []" by (metis set_empty set_sort)
    then show ?thesis by (simp add: dedupe_def sort_strings_def)
  next
    case (Cons s ss)
    then have "sorted (s # ss)" by (metis sorted_sort)
    from uniq_from_spec [OF this] show ?thesis using Cons
      by (simp add: dedupe_def sort_strings_def) (metis list.simps(15) set_sort)
  qed
  then show "set (dedupe xs) = set xs" "sorted_wrt (<) (dedupe xs)" by blast+
qed

lemma dedupe_distinct [simp]: "distinct (dedupe xs)"
  using dedupe_spec(2) [of xs] by (simp add: strict_sorted_iff)

lemma dedupe_Nil [simp]: "dedupe xs = [] \<longleftrightarrow> xs = []"
  by (metis dedupe_spec(1) set_empty)

section \<open>The cache as a resolver\<close>

abbreviation cached_objects :: "prefetch_cache \<Rightarrow> string set" where
  "cached_objects c \<equiv> fst ` set (pc_objects c)"

abbreviation cached_types :: "prefetch_cache \<Rightarrow> string set" where
  "cached_types c \<equiv> fst ` set (pc_types c)"

text \<open>A walk only records misses.\<close>

definition cache_step :: "prefetch_cache \<Rightarrow> prefetch_cache \<Rightarrow> bool" where
  "cache_step c c' \<longleftrightarrow>
     pc_budget c' = pc_budget c \<and> pc_exhausted c' = pc_exhausted c \<and>
     pc_objects c' = pc_objects c \<and> pc_types c' = pc_types c \<and>
     (\<exists>us. want_objects c' = want_objects c @ us \<and> set us \<inter> cached_objects c = {}) \<and>
     (\<exists>us. want_types c' = want_types c @ us \<and> set us \<inter> cached_types c = {})"

lemma cache_step_trans: "cache_step a b \<Longrightarrow> cache_step b c \<Longrightarrow> cache_step a c"
  by (force simp: cache_step_def)

lemma not_cached: "map_of kvs k = None \<Longrightarrow> k \<notin> fst ` set kvs"
  by (simp add: map_of_eq_None_iff)

lemma cache_step_calls: "cache_step c (snd (pc_Object k c))" "cache_step c (snd (pc_Type k c))"
  by (auto simp: pc_Object_def pc_Type_def cache_step_def dest: not_cached split: option.split)

interpretation prefetch_run: walker_run "prefetch_env E" cache_step for E
proof
  show "cache_step c c" for c by (simp add: cache_step_def)
qed (auto simp: prefetch_env_def prefetch_resolver_def intro: cache_step_trans cache_step_calls)

text \<open>
  A walk over the cache follows each reference into a cached object, so the objects
  cached and not on the path bound the references it nests.
\<close>

interpretation prefetch_fuel:
  follow_measure "prefetch_env E" cache_step
    "\<lambda>w. card (cached_objects (res_state w) - on_path w)" for E
proof
  fix w w' :: "prefetch_cache walker"
  assume "advances (prefetch_env E) cache_step w w'"
  then show "card (cached_objects (res_state w') - on_path w')
      \<le> card (cached_objects (res_state w) - on_path w)"
    by (simp add: advances_def cache_step_def)
next
  fix res oid and w :: "prefetch_cache walker" and env s
  assume res: "we_res (prefetch_env E) = Some res" and new: "oid \<notin> on_path w"
    and r: "r_object res oid (res_state w) = (Some env, s)"
  then have "map_of (pc_objects (res_state w)) oid = Some (Some env)" "s = res_state w"
    by (auto simp: prefetch_env_def prefetch_resolver_def pc_Object_def split: option.splits)
  then have "oid \<in> cached_objects (res_state w)" "s = res_state w"
    by (auto dest!: map_of_SomeD intro: rev_image_eqI)
  then show "card (cached_objects (res_state
        (w\<lparr>wk_fetches := wk_fetches w + 1, res_state := s, on_path := insert oid (on_path w)\<rparr>)) -
      on_path (w\<lparr>wk_fetches := wk_fetches w + 1, res_state := s, on_path := insert oid (on_path w)\<rparr>))
    < card (cached_objects (res_state w) - on_path w)"
    using new by (intro psubset_card_mono) auto
qed

lemma prefetch_env_defaults: "with_defaults_env (prefetch_env E) = prefetch_env E"
proof -
  have "0 < max_int" by (simp add: max_int_def max_int64_def)
  then have "withDefaults ((withDefaults l)\<lparr>max_fetch := max_int\<rparr>) = (withDefaults l)\<lparr>max_fetch := max_int\<rparr>"
    for l by (auto simp: withDefaults_def DefaultLimits_def)
  then show ?thesis by (simp add: with_defaults_env_def prefetch_env_def)
qed

lemma walk_over_cache:
  assumes "DecodePackage (prefetch_env E) fuel raw c = Some (Inr (t, c'))"
  shows "cache_step c c'"
proof -
  from assms obtain j ns w where
    d: "decode_block (prefetch_env E) fuel (block_bindings j) (newWalker c) = Some (ns, w)"
    and c: "c' = res_state w"
    unfolding prefetch_env_defaults by (rule DecodePackage_Inr) (auto simp: prefetch_env_defaults)
  from prefetch_run.decode_block_post [OF d] c show ?thesis
    by (simp add: advances_def newWalker_def)
qed

section \<open>The invariant of the loop\<close>

definition cache_inv :: "int \<Rightarrow> prefetch_cache \<Rightarrow> bool" where
  "cache_inv B c \<longleftrightarrow>
     distinct (map fst (pc_objects c)) \<and> distinct (map fst (pc_types c)) \<and>
     0 \<le> pc_budget c \<and> pc_budget c + int (length (pc_objects c)) = B"

definition fresh_wants :: "prefetch_cache \<Rightarrow> bool" where
  "fresh_wants c \<longleftrightarrow>
     set (want_objects c) \<inter> cached_objects c = {} \<and> set (want_types c) \<inter> cached_types c = {}"

lemma walk_wants_fresh:
  assumes "cache_inv B c" "cache_step (c\<lparr>want_objects := [], want_types := []\<rparr>) c'"
  shows "cache_inv B c'" "fresh_wants c'"
  using assms by (auto simp: cache_inv_def cache_step_def fresh_wants_def)

lemma map_fst_pair [simp]: "map (fst \<circ> (\<lambda>k. (k, g k))) xs = xs"
  by (simp add: comp_def)

lemma fill_objects_inv:
  assumes "cache_inv B c" "fresh_wants c" "fill_objects fe c fs = (Inr c', fs')"
  shows "cache_inv B c'" "want_types c' = want_types c" "pc_types c' = pc_types c"
    "\<not> pc_exhausted c' \<Longrightarrow> set (want_objects c) \<subseteq> cached_objects c'"
    "cached_objects c \<subseteq> cached_objects c'"
proof -
  define over where "over \<longleftrightarrow> pc_budget c < int (length (dedupe (want_objects c)))"
  define os where "os = (if over then take (nat (pc_budget c)) (dedupe (want_objects c))
    else dedupe (want_objects c))"
  have os: "distinct os" "set os \<subseteq> set (want_objects c)" "int (length os) \<le> pc_budget c"
    "\<not> over \<Longrightarrow> set os = set (want_objects c)"
    using assms(1) by (auto simp: os_def over_def cache_inv_def dedupe_spec dest: in_set_takeD)
  have new: "\<exists>got. c' = c\<lparr>pc_exhausted := pc_exhausted c \<or> over,
      pc_budget := pc_budget c - int (length os), pc_objects := map (\<lambda>k. (k, got k)) os @ pc_objects c\<rparr>"
    if "want_objects c \<noteq> []"
    using assms(3) that unfolding fill_objects_def Let_def over_def [symmetric] os_def [symmetric]
    by (auto split: if_splits sum.splits prod.splits)
  have "cache_inv B c' \<and> want_types c' = want_types c \<and> pc_types c' = pc_types c \<and>
      (\<not> pc_exhausted c' \<longrightarrow> set (want_objects c) \<subseteq> cached_objects c') \<and>
      cached_objects c \<subseteq> cached_objects c'"
  proof (cases "want_objects c = []")
    case True
    with assms(3) have "c' = c" by (simp add: fill_objects_def)
    with assms(1) True show ?thesis by simp
  next
    case False
    with new obtain got where c': "c' = c\<lparr>pc_exhausted := pc_exhausted c \<or> over,
      pc_budget := pc_budget c - int (length os), pc_objects := map (\<lambda>k. (k, got k)) os @ pc_objects c\<rparr>"
      by blast
    have "set os \<inter> cached_objects c = {}" using os(2) assms(2) by (auto simp: fresh_wants_def)
    then have "cache_inv B c'" using assms(1) os(1,3) unfolding c' cache_inv_def by simp
    moreover have "cached_objects c' = set os \<union> cached_objects c"
      unfolding c' by (simp add: image_Un image_image)
    moreover have "\<not> pc_exhausted c' \<Longrightarrow> set os = set (want_objects c)"
      using os(4) unfolding c' by simp
    moreover have "want_types c' = want_types c" "pc_types c' = pc_types c"
      unfolding c' by simp_all
    ultimately show ?thesis by blast
  qed
  then show "cache_inv B c'" "want_types c' = want_types c" "pc_types c' = pc_types c"
    "\<not> pc_exhausted c' \<Longrightarrow> set (want_objects c) \<subseteq> cached_objects c'"
    "cached_objects c \<subseteq> cached_objects c'" by blast+
qed

lemma fill_types_inv:
  assumes "cache_inv B c" "set (want_types c) \<inter> cached_types c = {}"
    "fill_types fe c fs = (Inr c', fs')"
  shows "cache_inv B c'" "pc_objects c' = pc_objects c" "pc_exhausted c' = pc_exhausted c"
    "set (want_types c) \<subseteq> cached_types c'"
proof -
  have "cache_inv B c' \<and> pc_objects c' = pc_objects c \<and> pc_exhausted c' = pc_exhausted c \<and>
      set (want_types c) \<subseteq> cached_types c'"
  proof (cases "want_types c = []")
    case True
    with assms(3) have "c' = c" by (simp add: fill_types_def)
    with assms(1) True show ?thesis by simp
  next
    case False
    with assms(3) obtain got where
      c': "c' = c\<lparr>pc_types := map (\<lambda>k. (k, got k)) (dedupe (want_types c)) @ pc_types c\<rparr>"
      by (auto simp: fill_types_def Let_def split: sum.splits prod.splits)
    have "set (dedupe (want_types c)) \<inter> cached_types c = {}" using assms(2) by (simp add: dedupe_spec)
    then have "cache_inv B c'" using assms(1) unfolding c' cache_inv_def by simp
    then show ?thesis unfolding c' by (simp add: image_Un image_image dedupe_spec)
  qed
  then show "cache_inv B c'" "pc_objects c' = pc_objects c" "pc_exhausted c' = pc_exhausted c"
    "set (want_types c) \<subseteq> cached_types c'" by blast+
qed

lemma fill_inv:
  assumes "cache_inv B c" "fresh_wants c" "fill fe c fs = (Inr c', fs')"
  shows "cache_inv B c'"
    "\<not> pc_exhausted c' \<Longrightarrow> set (want_objects c) \<subseteq> cached_objects c'"
    "set (want_types c) \<subseteq> cached_types c'"
proof -
  from assms(3) obtain c1 fs1 where
    1: "fill_objects fe c fs = (Inr c1, fs1)" and 2: "fill_types fe c1 fs1 = (Inr c', fs')"
    by (auto simp: fill_def split: sum.splits prod.splits)
  note o1 = fill_objects_inv [OF assms(1,2) 1]
  have "set (want_types c1) \<inter> cached_types c1 = {}"
    using assms(2) o1(2,3) by (simp add: fresh_wants_def)
  note o2 = fill_types_inv [OF o1(1) this 2]
  show "cache_inv B c'" by (rule o2(1))
  show "set (want_types c) \<subseteq> cached_types c'" using o2(4) o1(2) by simp
  show "set (want_objects c) \<subseteq> cached_objects c'" if "\<not> pc_exhausted c'"
    using o1(4) o2(2,3) that by simp
qed

lemma walk_over_cache_returns:
  assumes "length (pc_objects c) \<le> fuel"
  shows "DecodePackage (prefetch_env E) fuel raw c \<noteq> None"
proof -
  have "card (cached_objects c) \<le> fuel"
    using assms card_length [of "map fst (pc_objects c)"] by simp
  then have "decode_block (prefetch_env E) fuel bs (newWalker c) \<noteq> None" for bs
    by (intro prefetch_fuel.decode_block_total) (simp add: newWalker_def)
  then show ?thesis
    by (auto simp: DecodePackage_def prefetch_env_defaults split: option.splits)
qed

lemma prefetch_loop_returns:
  "cache_inv B c \<Longrightarrow> nat B \<le> fuel \<Longrightarrow> prefetch_loop E fuel raw fe n prev c fs \<noteq> None"
proof (induction n arbitrary: prev c fs)
  case (Suc n)
  let ?c = "c\<lparr>want_objects := [], want_types := []\<rparr>"
  from Suc.prems have "length (pc_objects ?c) \<le> fuel"
    unfolding cache_inv_def by simp linarith
  from walk_over_cache_returns [OF this] obtain r where
    r: "DecodePackage (prefetch_env E) fuel raw ?c = Some r" by auto
  show ?case
  proof (cases r)
    case Inl
    with r show ?thesis by simp
  next
    case (Inr p)
    then obtain tree c1 where p: "r = Inr (tree, c1)" by (cases p) auto
    with r have "cache_step ?c c1" by (auto intro: walk_over_cache)
    note c1 = walk_wants_fresh [OF Suc.prems(1) this]
    have "prefetch_loop E fuel raw fe n tree c2 fs2 \<noteq> None"
      if "fill fe c1 fs = (Inr c2, fs2)" for c2 fs2
      by (rule Suc.IH [OF fill_inv(1) [OF c1 that] Suc.prems(2)])
    with r p show ?thesis by (auto split: sum.splits prod.splits)
  qed
qed simp

lemma cache_inv_new: "0 \<le> b \<Longrightarrow> cache_inv b (new_cache b)"
  by (simp add: cache_inv_def new_cache_def)

text \<open>
  Resolving in rounds returns for every payload and every fetcher, with at most
  \<^verbatim>\<open>maxRounds\<close> passes, each of which nests at most as many references as there are
  objects in the cache, never more than \<^verbatim>\<open>MaxFetch\<close>.
\<close>

theorem DecodePackageWith_returns:
  assumes "nat (max_fetch (withDefaults (we_lim E))) \<le> fuel"
  shows "\<exists>r fs'. DecodePackageWith E fuel raw fe fs = Some (r, fs')"
proof -
  have "0 \<le> max_fetch (withDefaults (we_lim E))" by (simp add: less_imp_le)
  from prefetch_loop_returns [OF cache_inv_new [OF this] assms] show ?thesis
    unfolding DecodePackageWith_def by (metis not_Some_eq surj_pair)
qed

text \<open>
  One round asks for every miss the walk recorded and writes each one back, found or
  not, so the next walk misses none of them, unless the round overran the budget and
  said so.
\<close>

theorem fill_answers_every_miss:
  assumes "cache_inv B c" "fresh_wants c" "fill fe c fs = (Inr c', fs')" "\<not> pc_exhausted c'"
  shows "(\<forall>k \<in> set (want_objects c). snd (pc_Object k c') = c') \<and>
    (\<forall>k \<in> set (want_types c). snd (pc_Type k c') = c')"
proof (intro conjI ballI)
  show "snd (pc_Object k c') = c'" if "k \<in> set (want_objects c)" for k
    using fill_inv(2) [OF assms] that
    by (auto simp: pc_Object_def split: option.split dest!: not_cached)
  show "snd (pc_Type k c') = c'" if "k \<in> set (want_types c)" for k
    using fill_inv(3) [OF assms(1-3)] that
    by (auto simp: pc_Type_def split: option.split dest!: not_cached)
qed

section \<open>No key is requested twice\<close>

text \<open>
  A fetcher that answers as \<open>ao\<close> and \<open>at\<close> say, errors included, and keeps the list
  of the keys it was asked for.
\<close>

definition logging ::
  "(string list \<Rightarrow> string + (string \<Rightarrow> json option)) \<Rightarrow>
   (string list \<Rightarrow> string + (string \<Rightarrow> json option)) \<Rightarrow> (string list \<times> string list) fetcher" where
  "logging ao at =
     \<lparr>f_objects = (\<lambda>oids (lo, lt). (ao oids, (oids @ lo, lt))),
      f_types = (\<lambda>tids (lo, lt). (at tids, (lo, tids @ lt)))\<rparr>"

definition log_ok :: "int \<Rightarrow> string list \<times> string list \<Rightarrow> bool" where
  "log_ok B l \<longleftrightarrow> distinct (fst l) \<and> distinct (snd l) \<and> int (length (fst l)) \<le> B"

definition log_of :: "prefetch_cache \<Rightarrow> string list \<times> string list" where
  "log_of c = (map fst (pc_objects c), map fst (pc_types c))"

lemma log_of_ok: "cache_inv B c \<Longrightarrow> log_ok B (log_of c)"
  by (simp add: cache_inv_def log_ok_def log_of_def)

lemma fill_objects_log:
  assumes "cache_inv B c" "fresh_wants c" "fill_objects (logging ao at) c (log_of c) = (r, l)"
  shows "log_ok B l" "r = Inr c' \<Longrightarrow> l = log_of c'"
proof -
  define over where "over \<longleftrightarrow> pc_budget c < int (length (dedupe (want_objects c)))"
  define os where "os = (if over then take (nat (pc_budget c)) (dedupe (want_objects c))
    else dedupe (want_objects c))"
  have sub: "set os \<subseteq> set (want_objects c)"
    by (auto simp: os_def dedupe_spec dest: in_set_takeD)
  have "set (want_objects c) \<inter> cached_objects c = {}" using assms(2) by (simp add: fresh_wants_def)
  with sub have new: "set os \<inter> cached_objects c = {}" by blast
  have os: "distinct os" "int (length os) \<le> pc_budget c"
    using assms(1) by (simp_all add: os_def over_def cache_inv_def)
  note os = this new
  have l: "l = log_of c \<or> l = (os @ map fst (pc_objects c), map fst (pc_types c))"
    using assms(3) unfolding fill_objects_def Let_def over_def [symmetric] os_def [symmetric]
    by (auto simp: logging_def log_of_def split: if_splits sum.splits)
  have "log_ok B (os @ map fst (pc_objects c), map fst (pc_types c))"
    using assms(1) os by (simp add: cache_inv_def log_ok_def)
  with l log_of_ok [OF assms(1)] show "log_ok B l" by blast
  show "l = log_of c'" if "r = Inr c'"
    using assms(3) that unfolding fill_objects_def Let_def over_def [symmetric] os_def [symmetric]
    by (auto simp: logging_def log_of_def comp_def split: if_splits sum.splits)
qed

lemma fill_types_log:
  assumes "cache_inv B c" "set (want_types c) \<inter> cached_types c = {}"
    "fill_types (logging ao at) c (log_of c) = (r, l)"
  shows "log_ok B l" "r = Inr c' \<Longrightarrow> l = log_of c'"
proof -
  have l: "l = log_of c \<or> l = (map fst (pc_objects c), dedupe (want_types c) @ map fst (pc_types c))"
    using assms(3) by (auto simp: fill_types_def logging_def log_of_def Let_def split: if_splits sum.splits)
  have "log_ok B (map fst (pc_objects c), dedupe (want_types c) @ map fst (pc_types c))"
    using assms(1,2) by (simp add: cache_inv_def log_ok_def dedupe_spec)
  with l log_of_ok [OF assms(1)] show "log_ok B l" by blast
  show "l = log_of c'" if "r = Inr c'"
    using assms(3) that
    by (auto simp: fill_types_def logging_def log_of_def Let_def comp_def split: if_splits sum.splits)
qed

lemma fill_log:
  assumes "cache_inv B c" "fresh_wants c" "fill (logging ao at) c (log_of c) = (r, l)"
  shows "log_ok B l" "r = Inr c' \<Longrightarrow> l = log_of c'"
proof -
  obtain r1 l1 where 1: "fill_objects (logging ao at) c (log_of c) = (r1, l1)"
    by (rule prod.exhaust)
  have "log_ok B l \<and> (r = Inr c' \<longrightarrow> l = log_of c')"
  proof (cases r1)
    case (Inl e)
    with 1 assms(3) fill_objects_log(1) [OF assms(1,2) 1] show ?thesis by (auto simp: fill_def)
  next
    case (Inr c1)
    note l1 = fill_objects_log(2) [OF assms(1,2) 1 Inr]
    note c1 = fill_objects_inv [OF assms(1,2) 1 [unfolded Inr]]
    have "fill_types (logging ao at) c1 (log_of c1) = (r, l)"
      using assms(3) 1 Inr l1 by (simp add: fill_def)
    moreover have "set (want_types c1) \<inter> cached_types c1 = {}"
      using c1(2,3) assms(2) by (simp add: fresh_wants_def)
    ultimately show ?thesis using fill_types_log(1) [OF c1(1)] fill_types_log(2) [OF c1(1), of ao at r l c']
      by simp
  qed
  then show "log_ok B l" "r = Inr c' \<Longrightarrow> l = log_of c'" by blast+
qed

lemma log_of_walk: "cache_step c c' \<Longrightarrow> log_of c' = log_of c"
  by (simp add: cache_step_def log_of_def)

lemma prefetch_loop_log:
  "cache_inv B c \<Longrightarrow>
   prefetch_loop E fuel raw (logging ao at) n prev c (log_of c) = Some (r, l) \<Longrightarrow> log_ok B l"
proof (induction n arbitrary: prev c)
  case 0
  then show ?case using log_of_ok by auto
next
  case (Suc n)
  let ?c = "c\<lparr>want_objects := [], want_types := []\<rparr>"
  obtain d where d: "DecodePackage (prefetch_env E) fuel raw ?c = Some d"
    using Suc.prems(2) by (auto split: option.splits)
  show ?case
  proof (cases d)
    case (Inl e)
    with d Suc.prems log_of_ok show ?thesis by auto
  next
    case (Inr p)
    then obtain tree c1 where p: "d = Inr (tree, c1)" by (cases p) auto
    have step: "cache_step ?c c1" using d p by (auto intro: walk_over_cache)
    then have log: "log_of c1 = log_of c" by (simp add: cache_step_def log_of_def)
    note c1 = walk_wants_fresh [OF Suc.prems(1) step]
    obtain f l2 where f: "fill (logging ao at) c1 (log_of c1) = (f, l2)" by (rule prod.exhaust)
    note fl = fill_log [OF c1 f]
    show ?thesis
    proof (cases f)
      case (Inl e)
      with Suc.prems d p f fl(1) log log_of_ok [OF c1(1)] show ?thesis
        by (auto split: if_splits)
    next
      case (Inr c2)
      with fl(2) f have l2: "l2 = log_of c2" by blast
      from f Inr have inv: "cache_inv B c2" by (auto intro: fill_inv(1) [OF c1])
      from Suc.prems d p f log Inr l2 log_of_ok [OF c1(1)] show ?thesis
        by (auto split: if_splits intro: Suc.IH [OF inv])
    qed
  qed
qed

text \<open>
  Over a whole prefetching decode, whatever the fetcher answers, no object and no
  type is requested twice, and the distinct objects requested stay within the
  caller's \<^verbatim>\<open>MaxFetch\<close>.
\<close>

theorem prefetch_requests_each_key_once:
  assumes "DecodePackageWith E fuel raw (logging ao at) ([], []) = Some (r, (lo, lt))"
  shows "distinct lo \<and> distinct lt \<and> int (length lo) \<le> max_fetch (withDefaults (we_lim E))"
proof -
  let ?B = "max_fetch (withDefaults (we_lim E))"
  have "0 \<le> ?B" by (simp add: less_imp_le)
  note inv = cache_inv_new [OF this]
  have "log_of (new_cache ?B) = ([], [])" by (simp add: log_of_def new_cache_def)
  with prefetch_loop_log [OF inv, of E fuel raw ao at maxRounds empty_tree r "(lo, lt)"] assms
  show ?thesis by (simp add: DecodePackageWith_def log_ok_def)
qed

section \<open>Rounds agree with one object at a time\<close>

definition db_resolver ::
  "(string \<Rightarrow> json option) \<Rightarrow> (string \<Rightarrow> json option) \<Rightarrow> unit resolver" where
  "db_resolver dbo dbt = \<lparr>r_object = (\<lambda>k u. (dbo k, u)), r_type = (\<lambda>k u. (dbt k, u))\<rparr>"

definition db_fetcher ::
  "(string \<Rightarrow> json option) \<Rightarrow> (string \<Rightarrow> json option) \<Rightarrow> 'f fetcher" where
  "db_fetcher dbo dbt =
     \<lparr>f_objects = (\<lambda>_ s. (Inr dbo, s)), f_types = (\<lambda>_ s. (Inr dbt, s))\<rparr>"

text \<open>The direct decode asks the chain itself: the code's own, under the caller's limits, and the one
  whose cap on the calls of the resolver is lifted, as it is for the walks over the cache.\<close>

definition direct_env ::
  "'a walk_env \<Rightarrow> (string \<Rightarrow> json option) \<Rightarrow> (string \<Rightarrow> json option) \<Rightarrow> unit walk_env" where
  "direct_env E dbo dbt =
     \<lparr>we_res = Some (db_resolver dbo dbt), we_lim = we_lim E, fmt_f32 = fmt_f32 E, fmt_f64 = fmt_f64 E\<rparr>"

definition lift_cap :: "'a walk_env \<Rightarrow> 'a walk_env" where
  "lift_cap E = E\<lparr>we_lim := (withDefaults (we_lim E))\<lparr>max_fetch := max_int\<rparr>\<rparr>"

abbreviation lifted_env ::
  "'a walk_env \<Rightarrow> (string \<Rightarrow> json option) \<Rightarrow> (string \<Rightarrow> json option) \<Rightarrow> unit walk_env" where
  "lifted_env E dbo dbt \<equiv> lift_cap (direct_env E dbo dbt)"

lemma lifted_env_eqs:
  "we_res (lifted_env E dbo dbt) = Some (db_resolver dbo dbt)"
  "we_lim (lifted_env E dbo dbt) = (withDefaults (we_lim E))\<lparr>max_fetch := max_int\<rparr>"
  "fmt_f32 (lifted_env E dbo dbt) = fmt_f32 E" "fmt_f64 (lifted_env E dbo dbt) = fmt_f64 E"
  by (simp_all add: lift_cap_def direct_env_def)

definition coherent ::
  "(string \<Rightarrow> json option) \<Rightarrow> (string \<Rightarrow> json option) \<Rightarrow> prefetch_cache \<Rightarrow> bool" where
  "coherent dbo dbt c \<longleftrightarrow>
     (\<forall>(k, b) \<in> set (pc_objects c). b = dbo k) \<and> (\<forall>(k, b) \<in> set (pc_types c). b = dbt k)"

definition no_wants :: "prefetch_cache \<Rightarrow> bool" where
  "no_wants c \<longleftrightarrow> want_objects c = [] \<and> want_types c = []"

interpretation prefetch_sim:
  walker_sim "prefetch_env E" cache_step "lifted_env E dbo dbt" "\<lambda>c _. coherent dbo dbt c"
    no_wants False False for E dbo dbt
proof
  fix r1 r2 oid b and s s' :: prefetch_cache and t :: unit
  assume "we_res (prefetch_env E) = Some r1" "we_res (lifted_env E dbo dbt) = Some r2"
    "r_object r1 oid s = (b, s')" "no_wants s'" "coherent dbo dbt s"
  then show "\<exists>t'. r_object r2 oid t = (b, t') \<and> coherent dbo dbt s'"
    by (auto simp: prefetch_env_def lifted_env_eqs prefetch_resolver_def db_resolver_def
        pc_Object_def no_wants_def coherent_def split: option.splits dest!: map_of_SomeD)
next
  fix r1 r2 ty b and s s' :: prefetch_cache and t :: unit
  assume "we_res (prefetch_env E) = Some r1" "we_res (lifted_env E dbo dbt) = Some r2"
    "r_type r1 ty s = (b, s')" "no_wants s'" "coherent dbo dbt s"
  then show "\<exists>t'. r_type r2 ty t = (b, t') \<and> coherent dbo dbt s'"
    by (auto simp: prefetch_env_def lifted_env_eqs prefetch_resolver_def db_resolver_def
        pc_Type_def no_wants_def coherent_def split: option.splits dest!: map_of_SomeD)
qed (auto simp: prefetch_env_def lifted_env_eqs limits_le_def cache_step_def no_wants_def)

lemma fill_coherent:
  assumes "coherent dbo dbt c" "fill (db_fetcher dbo dbt) c fs = (Inr c', fs')"
  shows "coherent dbo dbt c'"
proof -
  from assms(2) obtain c1 fs1 where
    1: "fill_objects (db_fetcher dbo dbt) c fs = (Inr c1, fs1)"
    and 2: "fill_types (db_fetcher dbo dbt) c1 fs1 = (Inr c', fs')"
    by (auto simp: fill_def split: sum.splits prod.splits)
  from 1 assms(1) have "coherent dbo dbt c1"
    by (auto simp: fill_objects_def db_fetcher_def Let_def coherent_def split: if_splits)
  with 2 show ?thesis
    by (auto simp: fill_types_def db_fetcher_def Let_def coherent_def split: if_splits)
qed

lemma lifted_env_defaults: "with_defaults_env (lifted_env E dbo dbt) = lifted_env E dbo dbt"
proof -
  have "withDefaults ((withDefaults (we_lim E))\<lparr>max_fetch := max_int\<rparr>) = (withDefaults (we_lim E))\<lparr>max_fetch := max_int\<rparr>"
    using prefetch_env_defaults [of E] unfolding with_defaults_env_def prefetch_env_def by simp
  then show ?thesis by (simp add: with_defaults_env_def lift_cap_def direct_env_def)
qed

lemma settled_walk_is_direct:
  assumes "DecodePackage (prefetch_env E) fuel raw c = Some (Inr (t, c'))"
    "coherent dbo dbt c" "no_wants c'"
  shows "DecodePackage (lifted_env E dbo dbt) fuel raw () = Some (Inr (t, ()))"
proof -
  from assms(1) obtain j ns w where j: "raw = Some j" "pkg_block_ok j"
    and d: "decode_block (prefetch_env E) fuel (block_bindings j) (newWalker c) = Some (ns, w)"
    and t: "t = \<lparr>t_nodes = flattenTrees ns, t_stats = stats_of w\<rparr>" "c' = res_state w"
    by (rule DecodePackage_Inr) (auto simp: prefetch_env_defaults)
  have "ok_walk False False no_wants w" using assms(3) t by (simp add: ok_walk_def)
  moreover have "same_walk (\<lambda>c _. coherent dbo dbt c) (newWalker c) (newWalker ())"
    using assms(2) by (simp add: same_walk_def newWalker_def)
  ultimately obtain w' where
    "decode_block (lifted_env E dbo dbt) fuel (block_bindings j) (newWalker ()) = Some (ns, w')"
    "same_walk (\<lambda>c _. coherent dbo dbt c) w w'"
    using prefetch_sim.decode_block_sim [OF order_refl d] by blast
  with j t show ?thesis
    by (simp add: DecodePackage_def lifted_env_defaults same_walk_def stats_of_def)
qed

lemma prefetch_loop_direct:
  "coherent dbo dbt c \<Longrightarrow>
   prefetch_loop E fuel raw (db_fetcher dbo dbt) n prev c fs = Some (Inr t, fs') \<Longrightarrow>
   \<not> st_truncated (t_stats t) \<Longrightarrow>
   DecodePackage (lifted_env E dbo dbt) fuel raw () = Some (Inr (t, ()))"
proof (induction n arbitrary: prev c fs)
  case 0
  then show ?case by (auto simp: mark_truncated_def)
next
  case (Suc n)
  let ?c = "c\<lparr>want_objects := [], want_types := []\<rparr>"
  from Suc.prems(2) obtain tree c1 where
    d: "DecodePackage (prefetch_env E) fuel raw ?c = Some (Inr (tree, c1))"
    by (auto split: option.splits sum.splits)
  have coh: "coherent dbo dbt ?c" using Suc.prems(1) by (simp add: coherent_def)
  have "cache_step ?c c1" using d by (rule walk_over_cache)
  with coh have coh1: "coherent dbo dbt c1" by (simp add: coherent_def cache_step_def)
  have live: "\<not> pc_exhausted c1"
    using Suc.prems(2,3) d by (auto simp: mark_truncated_def)
  show ?case
  proof (cases "no_wants c1")
    case True
    with Suc.prems(2) d live have "t = tree" by (simp add: no_wants_def)
    with settled_walk_is_direct [OF d coh True] show ?thesis by simp
  next
    case False
    with Suc.prems(2) d live obtain c2 fs2 where
      f: "fill (db_fetcher dbo dbt) c1 fs = (Inr c2, fs2)"
      and l: "prefetch_loop E fuel raw (db_fetcher dbo dbt) n tree c2 fs2 = Some (Inr t, fs')"
      by (auto simp: no_wants_def split: sum.splits prod.splits)
    from Suc.IH [OF fill_coherent [OF coh1 f] l Suc.prems(3)] show ?thesis .
  qed
qed

text \<open>A direct decode that its limits did not cut is the one with the cap lifted.\<close>

definition int_fetch :: "'a walk_env \<Rightarrow> bool" where
  "int_fetch E \<longleftrightarrow> max_fetch (withDefaults (we_lim E)) \<le> max_int"

definition capped_env ::
  "'a walk_env \<Rightarrow> (string \<Rightarrow> json option) \<Rightarrow> (string \<Rightarrow> json option) \<Rightarrow> unit walk_env" where
  "capped_env E dbo dbt =
     (with_defaults_env (direct_env E dbo dbt))
       \<lparr>we_lim := (withDefaults (we_lim E))\<lparr>max_fetch := min max_int (max_fetch (withDefaults (we_lim E)))\<rparr>\<rparr>"

lemma capped_env_eqs:
  "we_res (capped_env E dbo dbt) = Some (db_resolver dbo dbt)"
  "we_lim (capped_env E dbo dbt) =
     (withDefaults (we_lim E))\<lparr>max_fetch := min max_int (max_fetch (withDefaults (we_lim E)))\<rparr>"
  "fmt_f32 (capped_env E dbo dbt) = fmt_f32 E" "fmt_f64 (capped_env E dbo dbt) = fmt_f64 E"
  by (simp_all add: capped_env_def with_defaults_env_def direct_env_def)

interpretation lifted_sim:
  walker_sim "capped_env E dbo dbt" any_state "lifted_env E dbo dbt" "(=)" "\<lambda>_. True" True False for E dbo dbt
  by unfold_locales (auto simp: capped_env_eqs lifted_env_eqs limits_le_def any_state_def)

lemma uncut_walk_is_lifted:
  assumes "DecodePackage (direct_env E dbo dbt) fuel raw () = Some (Inr (t, s))" "int_fetch E"
    and "\<not> st_truncated (t_stats t)"
  shows "DecodePackage (lifted_env E dbo dbt) fuel raw () = Some (Inr (t, s))"
proof -
  have E: "with_defaults_env (direct_env E dbo dbt) = capped_env E dbo dbt"
    using assms(2) by (simp add: capped_env_def with_defaults_env_def direct_env_def int_fetch_def min_absorb2)
  from assms(1) obtain j ns w where j: "raw = Some j" "pkg_block_ok j"
    and d: "decode_block (capped_env E dbo dbt) fuel (block_bindings j) (newWalker ()) = Some (ns, w)"
    and t: "t = \<lparr>t_nodes = flattenTrees ns, t_stats = stats_of w\<rparr>" "s = res_state w"
    by (rule DecodePackage_Inr) (auto simp: E)
  have "ok_walk True False (\<lambda>_. True) w" using assms(3) t by (simp add: ok_walk_def stats_of_def)
  moreover have "same_walk (=) (newWalker ()) (newWalker ())" by (simp add: same_walk_def)
  ultimately obtain w' where
    "decode_block (lifted_env E dbo dbt) fuel (block_bindings j) (newWalker ()) = Some (ns, w')" "same_walk (=) w w'"
    using lifted_sim.decode_block_sim [OF order_refl d] by blast
  with j t show ?thesis by (simp add: DecodePackage_def lifted_env_defaults same_walk_def stats_of_def)
qed

text \<open>
  C39. The fetcher serves a fixed database, the limits are integers of Go, and the decode in rounds is not marked
  truncated. Then its tree, with its statistics, is the one that asking the chain for one
  object at a time gives when the cap on the calls of the resolver is lifted to the largest
  integer, the other limits being the caller's. The direct decode under the caller's own
  limits, which counts every reference against the cap where the rounds count every object
  once, returns this tree as well, unless it marks its result as truncated.
\<close>

theorem prefetch_agrees_with_direct_decode:
  assumes "DecodePackageWith E fuel raw (db_fetcher dbo dbt) fs = Some (Inr t, fs')"
    and "\<not> st_truncated (t_stats t)" "max_fetch (withDefaults (we_lim E)) \<le> max_int"
  shows "DecodePackage (lift_cap (direct_env E dbo dbt)) fuel raw () = Some (Inr (t, ())) \<and>
    (\<forall>direct. DecodePackage (direct_env E dbo dbt) fuel raw () = Some (Inr (direct, ())) \<longrightarrow>
       direct = t \<or> st_truncated (t_stats direct))"
proof -
  have lifted: "DecodePackage (lifted_env E dbo dbt) fuel raw () = Some (Inr (t, ()))"
    using prefetch_loop_direct [OF _ assms(1) [unfolded DecodePackageWith_def] assms(2)]
    by (simp add: coherent_def new_cache_def)
  moreover have "direct = t \<or> st_truncated (t_stats direct)"
    if "DecodePackage (direct_env E dbo dbt) fuel raw () = Some (Inr (direct, ()))" for direct
    using uncut_walk_is_lifted [OF that] assms(3) lifted unfolding int_fetch_def by auto
  ultimately show ?thesis by blast
qed

section \<open>Witnesses\<close>

text \<open>
  A block whose variable is a reference to an object that holds a string, and the
  database with that object.
\<close>

definition ref_block :: json where
  "ref_block = JObj [(''names'', JArr [JStr ''x'']), (''values'', JArr [JObj [(''V'', ref_json ''a:1'')]])]"

definition ref_db :: "string \<Rightarrow> json option" where
  "ref_db = map_of [(''a:1'', envelope ''a:1'' (JObj [(''@type'', JStr ''/gno.StringValue''), (''value'', JStr ''hi'')]))]"

definition ref_tree :: gno_tree where
  "ref_tree =
     \<lparr>t_nodes = [upd_info (\<lambda>i. i\<lparr>n_object_id := ''a:1''\<rparr>) (mk_node ''x'' None KindPrimitive ''hi'')],
      t_stats = \<lparr>st_nodes = 1, st_fetches = 1, st_truncated = False, st_clipped = False\<rparr>\<rparr>"

lemma ref_block_prefetched:
  "DecodePackageWith demo_env 1 (Some ref_block) (db_fetcher ref_db Map.empty) () = Some (Inr ref_tree, ())"
  by code_simp

lemma ref_block_logged:
  "DecodePackageWith demo_env 1 (Some ref_block) (logging (\<lambda>_. Inr ref_db) (\<lambda>_. Inr Map.empty)) ([], [])
     = Some (Inr ref_tree, ([''a:1''], []))"
  by code_simp

theorem DecodePackageWith_returns_witness:
  "\<exists>r fs'. DecodePackageWith demo_env 1 (Some ref_block) (db_fetcher ref_db Map.empty) () = Some (r, fs')"
  by (rule DecodePackageWith_returns) (simp add: withDefaults_def demo_env_def)

theorem prefetch_requests_each_key_once_witness:
  "distinct [''a:1''] \<and> int (length [''a:1'']) \<le> max_fetch (withDefaults (we_lim demo_env))"
  using prefetch_requests_each_key_once [OF ref_block_logged] by blast

theorem prefetch_agrees_with_direct_decode_witness:
  "DecodePackage (lift_cap (direct_env demo_env ref_db Map.empty)) 1 (Some ref_block) () = Some (Inr (ref_tree, ()))"
  by (rule prefetch_agrees_with_direct_decode [OF ref_block_prefetched, THEN conjunct1])
    (simp_all add: ref_tree_def withDefaults_def demo_env_def max_int_def max_int64_def)

theorem fill_answers_every_miss_witness:
  "let c = (new_cache 2)\<lparr>want_objects := [''b'', ''a'', ''b'']\<rparr>;
       c' = projr (fst (fill (db_fetcher ref_db Map.empty) c ()))
   in pc_objects c' = [(''a'', None), (''b'', None)] \<and> snd (pc_Object ''b'' c') = c'"
proof -
  let ?c = "(new_cache 2)\<lparr>want_objects := [''b'', ''a'', ''b'']\<rparr>"
  let ?c' = "(new_cache 2)\<lparr>pc_budget := 0, want_objects := [''b'', ''a'', ''b''],
    pc_objects := [(''a'', None), (''b'', None)]\<rparr>"
  have f: "fill (db_fetcher ref_db Map.empty) ?c () = (Inr ?c', ())" by code_simp
  have inv: "cache_inv 2 ?c" "fresh_wants ?c" "\<not> pc_exhausted ?c'" by code_simp+
  from fill_answers_every_miss [OF inv(1,2) f inv(3)] show ?thesis
    by (simp add: f)
qed

end
