(* ===== verification/Go_Url.thy ===== *)
theory Go_Url
  imports Go_Prelude "HOL-Library.Multiset"
begin

text \<open>
  The query half of \<^verbatim>\<open>net/url\<close>: escaping, \<^verbatim>\<open>ParseQuery\<close> and \<^verbatim>\<open>Values.Encode\<close>. A
  \<^verbatim>\<open>Values\<close> map is the list of its (key, value) pairs; the order of pairs with
  different keys is what a map does not have, and nothing below depends on it.
\<close>

section \<open>Escaping\<close>

definition hex_char :: "nat \<Rightarrow> char" where
  "hex_char n = ''0123456789ABCDEF'' ! n"

definition hex_val :: "char \<Rightarrow> nat option" where
  "hex_val c =
     (let n = of_char c
      in if 48 \<le> n \<and> n \<le> 57 then Some (n - 48)
         else if 97 \<le> n \<and> n \<le> 102 then Some (n - 87)
         else if 65 \<le> n \<and> n \<le> 70 then Some (n - 55)
         else None)"

definition unreserved :: "char \<Rightarrow> bool" where
  "unreserved c =
     (let n = (of_char c :: nat)
      in 97 \<le> n \<and> n \<le> 122 \<or> 65 \<le> n \<and> n \<le> 90 \<or> 48 \<le> n \<and> n \<le> 57 \<or>
         c = CHR ''-'' \<or> c = CHR ''_'' \<or> c = CHR ''.'' \<or> c = CHR ''~'')"

definition escape_char :: "char \<Rightarrow> string" where
  "escape_char c =
     (if c = CHR '' '' then ''+'' else if unreserved c then [c]
      else [CHR ''%'', hex_char (of_char c div 16), hex_char (of_char c mod 16)])"

definition query_escape :: "string \<Rightarrow> string" where
  "query_escape s = concat (map escape_char s)"

fun query_unescape :: "string \<Rightarrow> string option" where
  "query_unescape [] = Some []"
| "query_unescape (c # s) =
     (if c = CHR ''%'' then
        (case s of
           a # b # t \<Rightarrow>
             (case (hex_val a, hex_val b) of
                (Some x, Some y) \<Rightarrow> map_option ((#) (char_of (16 * x + y))) (query_unescape t)
              | _ \<Rightarrow> None)
         | _ \<Rightarrow> None)
      else map_option ((#) (if c = CHR ''+'' then CHR '' '' else c)) (query_unescape s))"

lemma hex_round: "n < 16 \<Longrightarrow> hex_val (hex_char n) = Some n"
proof -
  assume "n < 16"
  then have "n \<in> {0, 1, 2, 3, 4, 5, 6, 7, 8, 9, 10, 11, 12, 13, 14, 15}" by (simp, presburger)
  then show ?thesis by (auto simp: hex_char_def hex_val_def)
qed

lemma escape_char_plain:
  "c \<in> set (escape_char d) \<Longrightarrow> unreserved c \<or> c = CHR ''%'' \<or> c = CHR ''+''"
proof -
  have h: "unreserved (hex_char n)" if "n < 16" for n
  proof -
    have "n \<in> {0, 1, 2, 3, 4, 5, 6, 7, 8, 9, 10, 11, 12, 13, 14, 15}" using that by (simp, presburger)
    then show ?thesis by (auto simp: hex_char_def unreserved_def)
  qed
  have "(of_char d :: nat) < 256" by simp
  then have "(of_char d :: nat) div 16 < 16" "(of_char d :: nat) mod 16 < 16"
    by (simp_all add: less_mult_imp_div_less)
  then show "c \<in> set (escape_char d) \<Longrightarrow> unreserved c \<or> c = CHR ''%'' \<or> c = CHR ''+''"
    using h by (auto simp: escape_char_def split: if_splits)
qed

lemma query_escape_plain:
  "c \<in> set (query_escape s) \<Longrightarrow> c \<notin> {CHR ''&'', CHR '';'', CHR ''='', CHR ''?'', CHR 0x00}"
  by (auto simp: query_escape_def unreserved_def dest!: escape_char_plain)

lemma unescape_escape_char:
  "query_unescape (escape_char c @ s) = map_option ((#) c) (query_unescape s)"
proof -
  have "(of_char c :: nat) < 256" by simp
  then have "hex_val (hex_char (of_char c div 16)) = Some (of_char c div 16)"
    "hex_val (hex_char (of_char c mod 16)) = Some (of_char c mod 16)"
    by (simp_all add: hex_round less_mult_imp_div_less)
  moreover have "16 * (of_char c div 16) + of_char c mod 16 = (of_char c :: nat)" by simp
  ultimately show ?thesis
    by (auto simp: escape_char_def unreserved_def)
qed

lemma unescape_escape [simp]: "query_unescape (query_escape s) = Some s"
  by (induction s) (simp_all add: query_escape_def unescape_escape_char)

section \<open>Parsing\<close>

text \<open>\<^verbatim>\<open>strings.Cut\<close> at one character: before it, and after it (empty when absent).\<close>

definition cut_at :: "char \<Rightarrow> string \<Rightarrow> string \<times> string" where
  "cut_at c s = (takeWhile (\<lambda>d. d \<noteq> c) s, drop 1 (dropWhile (\<lambda>d. d \<noteq> c) s))"

lemma cut_at_append [simp]: "c \<notin> set s \<Longrightarrow> cut_at c (s @ c # t) = (s, t)"
  by (induction s) (auto simp: cut_at_def)

text \<open>One segment: \<^term>\<open>None\<close> is an error, \<^term>\<open>Some None\<close> an empty segment, which is skipped.\<close>

definition parse_pair :: "string \<Rightarrow> (string \<times> string) option option" where
  "parse_pair seg =
     (if CHR '';'' \<in> set seg then None
      else if seg = '''' then Some None
      else let (k, v) = cut_at (CHR ''='') seg
           in case (query_unescape k, query_unescape v) of
                (Some k, Some v) \<Rightarrow> Some (Some (k, v))
              | _ \<Rightarrow> None)"

text \<open>\<^verbatim>\<open>ParseQuery\<close>: the pairs that parse, and whether all did.\<close>

definition parse_query :: "string \<Rightarrow> (string \<times> string) list \<times> bool" where
  "parse_query q =
     (let rs = map parse_pair (split_on (CHR ''&'') q)
      in (concat (map (\<lambda>r. case r of Some (Some p) \<Rightarrow> [p] | _ \<Rightarrow> []) rs),
          list_all (\<lambda>r. r \<noteq> None) rs))"

definition values_get :: "string \<Rightarrow> (string \<times> string) list \<Rightarrow> string" where
  "values_get k ps = (case map_of ps k of Some v \<Rightarrow> v | None \<Rightarrow> '''')"

definition values_of :: "string \<Rightarrow> (string \<times> string) list \<Rightarrow> string list" where
  "values_of k ps = map snd (filter (\<lambda>p. fst p = k) ps)"

definition values_del :: "string \<Rightarrow> (string \<times> string) list \<Rightarrow> (string \<times> string) list" where
  "values_del k ps = filter (\<lambda>p. fst p \<noteq> k) ps"

definition encode_pair :: "string \<times> string \<Rightarrow> string" where
  "encode_pair p = query_escape (fst p) @ ''='' @ query_escape (snd p)"

text \<open>\<^verbatim>\<open>Values.Encode\<close>: keys sorted, the values of one key in their order.\<close>

definition values_encode :: "(string \<times> string) list \<Rightarrow> string" where
  "values_encode ps = join_with ''&'' (map encode_pair (sort_key fst ps))"

lemma parse_encode_pair: "parse_pair (encode_pair p) = Some (Some p)"
proof -
  have "CHR ''='' \<notin> set (query_escape (fst p))" using query_escape_plain by fastforce
  then have "cut_at (CHR ''='') (encode_pair p) = (query_escape (fst p), query_escape (snd p))"
    by (simp add: encode_pair_def)
  moreover have "CHR '';'' \<notin> set (encode_pair p)"
    using query_escape_plain by (fastforce simp: encode_pair_def)
  moreover have "encode_pair p \<noteq> ''''" by (simp add: encode_pair_def)
  ultimately show ?thesis by (simp add: parse_pair_def)
qed

lemma split_encoded:
  "ps \<noteq> [] \<Longrightarrow> split_on (CHR ''&'') (join_with ''&'' (map encode_pair ps)) = map encode_pair ps"
proof (rule split_join)
  show "\<forall>s \<in> set (map encode_pair ps). CHR ''&'' \<notin> set s"
    using query_escape_plain by (fastforce simp: encode_pair_def)
qed simp

lemma parse_join: "parse_query (join_with ''&'' (map encode_pair ps)) = (ps, True)"
proof (cases "ps = []")
  case True
  then show ?thesis by (simp add: parse_query_def parse_pair_def)
next
  case False
  have "concat (map (\<lambda>r. case r of Some (Some p) \<Rightarrow> [p] | _ \<Rightarrow> []) (map parse_pair (map encode_pair ps))) = ps"
    by (induction ps) (simp_all add: parse_encode_pair)
  with split_encoded [OF False] show ?thesis
    by (simp add: parse_query_def Let_def list_all_iff parse_encode_pair)
qed

lemma parse_encode: "parse_query (values_encode ps) = (sort_key fst ps, True)"
  by (simp add: values_encode_def parse_join)

text \<open>Two lists with the same values under every key encode alike, and only those.\<close>

lemma filter_key_values:
  "filter (\<lambda>p. fst p = k) ps = map (Pair k) (values_of k ps)"
  by (auto simp: values_of_def intro!: map_idI [THEN sym])

lemma sort_key_cong_values:
  assumes "\<And>k. values_of k ps = values_of k qs"
  shows "sort_key fst ps = sort_key fst (qs :: (string \<times> string) list)"
proof -
  have f: "filter (\<lambda>p. fst p = k) ps = filter (\<lambda>p. fst p = k) qs" for k
    using assms by (simp add: filter_key_values)
  have "count (mset ps) x = count (mset qs) x" for x
  proof -
    have "count (mset zs) x = count (mset (filter (\<lambda>p. fst p = fst x) zs)) x" for zs
      by (simp add: mset_filter)
    then show ?thesis using f by metis
  qed
  then have m: "mset qs = mset ps" by (metis multiset_eqI)
  show ?thesis
  proof (rule properties_for_sort_key)
    show "mset (sort_key fst qs) = mset ps" using m by simp
    show "filter (\<lambda>x. fst k = fst x) (sort_key fst qs) = filter (\<lambda>x. fst k = fst x) ps" for k
      using f [of "fst k"] by (simp add: sort_key_stable eq_commute [of "fst k"])
  qed simp
qed

lemma values_of_sort [simp]: "values_of k (sort_key fst ps) = values_of k ps"
  by (simp add: values_of_def sort_key_stable)

lemma values_encode_eq_iff:
  "values_encode ps = values_encode qs \<longleftrightarrow> (\<forall>k. values_of k ps = values_of k qs)"
proof
  assume "values_encode ps = values_encode qs"
  then have "sort_key fst ps = sort_key fst qs" by (metis parse_encode prod.inject)
  then show "\<forall>k. values_of k ps = values_of k qs" by (metis values_of_sort)
next
  assume "\<forall>k. values_of k ps = values_of k qs"
  then have "sort_key fst ps = sort_key fst qs" by (intro sort_key_cong_values) blast
  then show "values_encode ps = values_encode qs" by (simp add: values_encode_def)
qed

end
