(* ===== verification/Traffic_Classify.thy ===== *)
theory Traffic_Classify
  imports Go_Prelude
begin

text \<open>
  What is kept of a request, \<^verbatim>\<open>pkg/traffic/classify.go\<close>: the route and its variable part,
  the kind of request, the class of client, whether it is a probe, and what a page view is
  about. Referers, which go through package \<^verbatim>\<open>net/url\<close>, are left out.
\<close>

section \<open>Route and target\<close>

definition maxTargetLen :: nat where "maxTargetLen = 160"

definition ellipsis :: string where "ellipsis = [CHR 0xE2, CHR 0x80, CHR 0xA6]"

definition clip_target :: "string \<Rightarrow> string" where
  "clip_target s = (if length s \<le> maxTargetLen then s else take maxTargetLen s @ ellipsis)"

abbreviation trim_slashes :: "string \<Rightarrow> string" where
  "trim_slashes \<equiv> trim_by (\<lambda>c. c = CHR ''/'')"

text \<open>What stands before the first, after the first and after the last occurrence of a byte.\<close>

definition before_first :: "char \<Rightarrow> string \<Rightarrow> string" where
  "before_first c s = takeWhile (\<lambda>x. x \<noteq> c) s"

definition after_first :: "char \<Rightarrow> string \<Rightarrow> string" where
  "after_first c s = tl (dropWhile (\<lambda>x. x \<noteq> c) s)"

definition after_last :: "char \<Rightarrow> string \<Rightarrow> string" where
  "after_last c s = rev (takeWhile (\<lambda>x. x \<noteq> c) (rev s))"

definition route_of :: "string \<Rightarrow> string" where
  "route_of pattern =
     (let p = trim_space pattern; r = (if CHR '' '' \<in> set p then after_first CHR '' '' p else p)
      in if r = [] then ''/'' else r)"

definition SplitPattern :: "string \<Rightarrow> string \<Rightarrow> string \<times> string" where
  "SplitPattern pattern path =
     (let route = route_of pattern
      in if CHR ''{'' \<notin> set route then (route, [])
         else let prefix = before_first CHR ''{'' route;
                  suffix = (if CHR ''}'' \<in> set route then after_last CHR ''}'' route else [])
              in (route, clip_target (trim_slashes (trim_suffix (trim_prefix path prefix) suffix))))"

section \<open>Kinds\<close>

definition assetExts :: "string list" where
  "assetExts = [''.js'', ''.mjs'', ''.css'', ''.map'', ''.ico'', ''.png'', ''.jpg'', ''.jpeg'',
     ''.svg'', ''.gif'', ''.webp'', ''.avif'', ''.woff'', ''.woff2'', ''.ttf'', ''.txt'', ''.json'', ''.xml'']"

definition PageViewPath :: string where "PageViewPath = ''/api/traffic/pageview''"

definition SPARoute :: string where "SPARoute = ''/''"

definition Kind :: "string \<Rightarrow> string \<Rightarrow> string \<Rightarrow> string" where
  "Kind route path mcp =
     (if route = PageViewPath then ''page''
      else if route = mcp \<or> has_prefix route (mcp @ ''/'') then ''mcp''
      else if has_prefix route ''/api/shield/'' \<or> has_prefix route ''/_badges'' then ''badge''
      else if has_prefix route ''/api/'' then ''api''
      else if \<exists>ext \<in> set assetExts. has_suffix (to_lower path) ext then ''asset''
      else ''document'')"

definition PageTarget :: "string \<Rightarrow> string" where
  "PageTarget path = (if path = [] \<or> path = ''/'' then ''/'' else clip_target path)"

section \<open>Clients and probes\<close>

definition botMarkers :: "string list" where
  "botMarkers = [''bot'', ''crawl'', ''spider'', ''slurp'', ''headless'', ''preview'', ''fetcher'',
     ''monitor'', ''uptime'', ''scrape'', ''archive'']"

definition agentMarkers :: "string list" where
  "agentMarkers = [''curl'', ''wget'', ''python-requests'', ''httpx'', ''aiohttp'', ''go-http-client'',
     ''node-fetch'', ''axios'', ''okhttp'', ''java/'', ''claude'', ''gpt'', ''openai'', ''anthropic'', ''mcp'']"

definition InternalUA :: string where "InternalUA = ''gnoscope-warmer''"

definition ClientClass :: "string \<Rightarrow> string" where
  "ClientClass ua =
     (let l = to_lower ua
      in if trim_space ua = [] then ''unknown''
         else if str_contains l InternalUA then ''internal''
         else if \<exists>m \<in> set botMarkers. str_contains l m then ''bot''
         else if \<exists>m \<in> set agentMarkers. str_contains l m then ''agent''
         else if str_contains l ''mozilla/'' \<or> str_contains l ''safari/'' \<or> str_contains l ''gecko''
         then ''browser''
         else ''unknown'')"

definition probePaths :: "string list" where
  "probePaths = [''/wp-login.php'', ''/wp-admin'', ''/wp-content'', ''/wp-includes'', ''/wordpress'',
     ''/xmlrpc.php'', ''/.env'', ''/.git'', ''/.aws'', ''/.ssh'', ''/.vscode'', ''/.DS_Store'',
     ''/phpmyadmin'', ''/pma'', ''/myadmin'', ''/mysql'', ''/adminer'',
     ''/administrator'', ''/admin.php'', ''/cgi-bin'', ''/vendor/phpunit'',
     ''/config.json'', ''/credentials'', ''/secrets'', ''/actuator'', ''/solr'',
     ''/owa/'', ''/autodiscover'', ''/boaform'', ''/hudson'', ''/jenkins'',
     ''/telescope/requests'', ''/server-status'', ''/.well-known/security.txt'',
     ''/rest/api/1.0'', ''/api/jsonws'', ''/HNAP1'', ''/shell'', ''/eval-stdin.php'']"

definition IsProbe :: "string \<Rightarrow> bool" where
  "IsProbe path = (let l = to_lower path
     in \<exists>p \<in> set probePaths. l = p \<or> has_prefix l (p @ ''/'') \<or> has_prefix l p)"

section \<open>What a page view is about\<close>

datatype entity_kind = EntityRealm | EntityAddress | EntityTx | EntityBlock | EntityAsset | EntityNone

text \<open>A prefix of a path, what the page is about, and how many segments name it, 0 for all.\<close>

definition entityRoutes :: "(string \<times> entity_kind \<times> nat) list" where
  "entityRoutes = [(''/realm/'', EntityRealm, 0), (''/gnohub/'', EntityRealm, 0),
     (''/address/'', EntityAddress, 1), (''/validator/'', EntityAddress, 1),
     (''/tx/'', EntityTx, 1), (''/block/'', EntityBlock, 1), (''/grc20/'', EntityAsset, 1),
     (''/stdlib/'', EntityRealm, 0)]"

definition entity_id :: "entity_kind \<Rightarrow> nat \<Rightarrow> string \<Rightarrow> entity_kind \<times> string" where
  "entity_id kind segments rest =
     (let view = (case index_of ''/-/'' rest of Some i \<Rightarrow> take i rest | None \<Rightarrow> rest);
          part = (if 0 < segments then join_with ''/'' (take segments (split_on CHR ''/'' view)) else view);
          subject = trim_slashes part
      in if subject = [] then (EntityNone, [])
         else (kind, clip_target (if kind = EntityRealm then trim_prefix subject ''gno.land/'' else subject)))"

fun first_entity :: "(string \<times> entity_kind \<times> nat) list \<Rightarrow> string \<Rightarrow> entity_kind \<times> string" where
  "first_entity [] path = (EntityNone, [])"
| "first_entity ((prefix, kind, segments) # routes) path =
     (case cut_prefix path prefix of
        None \<Rightarrow> first_entity routes path
      | Some rest \<Rightarrow> if rest = [] then first_entity routes path else entity_id kind segments rest)"

definition Entity :: "string \<Rightarrow> entity_kind \<times> string" where
  "Entity path = first_entity entityRoutes path"

definition pageKinds :: "(string \<times> string) list" where
  "pageKinds = [(''/realm/'', ''realm detail''), (''/gnohub/'', ''source browser''),
     (''/address/'', ''address detail''), (''/validator/'', ''validator detail''),
     (''/tx/'', ''transaction''), (''/block/'', ''block''), (''/grc20/'', ''asset detail''),
     (''/stdlib/'', ''stdlib''), (''/govdao'', ''governance''), (''/developer'', ''developer tools''),
     (''/gas'', ''gas''), (''/storage'', ''storage''), (''/directory'', ''directory''),
     (''/traffic'', ''traffic''), (''/analytics'', ''analytics''), (''/dashboards'', ''dashboards''),
     (''/discover'', ''discover''), (''/sanity'', ''chain health''), (''/validators'', ''validators''),
     (''/search'', ''search''), (''/watch'', ''watchlist''), (''/glossary'', ''glossary'')]"

text \<open>The longest matching prefix so far and its kind.\<close>

fun best_kind :: "string \<Rightarrow> (string \<times> string) list \<Rightarrow> string \<times> int \<Rightarrow> string \<times> int" where
  "best_kind path [] best = best"
| "best_kind path ((prefix, kind) # kinds) (b, n) =
     best_kind path kinds
       (if has_prefix path prefix \<and> n < int (length prefix) then (kind, int (length prefix)) else (b, n))"

definition PageKind :: "string \<Rightarrow> string" where
  "PageKind path =
     (if path = [] \<or> path = ''/'' then ''home''
      else let best = fst (best_kind path pageKinds ([], -1))
           in if best \<noteq> [] then best
              else if CHR ''/'' \<notin> set (trim_slashes path) then ''listing''
              else ''other'')"

section \<open>Bounds\<close>

lemma clip_target_length: "length (clip_target s) \<le> maxTargetLen + 3"
  by (simp add: clip_target_def ellipsis_def)

lemma PageTarget_length: "length (PageTarget s) \<le> maxTargetLen + 3"
  using clip_target_length [of s] by (auto simp: PageTarget_def maxTargetLen_def)

lemma SplitPattern_route: "fst (SplitPattern pattern path) = route_of pattern"
  by (simp add: SplitPattern_def Let_def)

lemma SplitPattern_target_length: "length (snd (SplitPattern pattern path)) \<le> maxTargetLen + 3"
  by (simp add: SplitPattern_def Let_def clip_target_length)

lemma PageKind_nonempty: "PageKind path \<noteq> []"
  by (simp add: PageKind_def Let_def)

lemma Kind_page: "Kind route path mcp = ''page'' \<longleftrightarrow> route = PageViewPath"
  by (simp add: Kind_def)

section \<open>Properties\<close>

lemma trim_space_solid: "\<forall>c \<in> set s. \<not> is_space c \<Longrightarrow> trim_space s = s"
  unfolding trim_space_def by (rule trim_by_id) (auto simp: hd_in_set last_in_set)

lemma after_last_append: "c \<notin> set s \<Longrightarrow> after_last c (u @ c # s) = s"
  by (simp add: after_last_def takeWhile_append takeWhile_append2 rev_swap)

lemma before_first_append: "c \<notin> set u \<Longrightarrow> before_first c (u @ c # s) = u"
  unfolding before_first_def by (induction u) auto

lemma after_first_append: "c \<notin> set u \<Longrightarrow> after_first c (u @ c # s) = s"
  unfolding after_first_def by (induction u) auto

lemma trimmed_at_both_ends:
  "\<exists>a b. x = replicate a c @ trim_by (\<lambda>d. d = c) x @ replicate b c \<and>
     (trim_by (\<lambda>d. d = c) x = [] \<or> hd (trim_by (\<lambda>d. d = c) x) \<noteq> c \<and> last (trim_by (\<lambda>d. d = c) x) \<noteq> c)"
proof -
  have front: "\<exists>a. ys = replicate a c @ dropWhile (\<lambda>d. d = c) ys" for ys
  proof (induction ys)
    case (Cons y ys)
    then obtain a where "ys = replicate a c @ dropWhile (\<lambda>d. d = c) ys" by blast
    then show ?case by (cases "y = c") (auto intro: exI [of _ "Suc a"] exI [of _ 0])
  qed simp
  define u where "u = dropWhile (\<lambda>d. d = c) x"
  obtain a b where "x = replicate a c @ u" "rev u = replicate b c @ dropWhile (\<lambda>d. d = c) (rev u)"
    using front [of x] front [of "rev u"] unfolding u_def by blast
  moreover define t where "t = rev (dropWhile (\<lambda>d. d = c) (rev u))"
  ultimately have x: "x = replicate a c @ t @ replicate b c" and u: "u = t @ replicate b c"
    by (metis rev_append rev_replicate rev_rev_ident)+
  have trim: "trim_by (\<lambda>d. d = c) x = t" by (simp add: trim_by_def t_def u_def)
  have "t \<noteq> [] \<Longrightarrow> last t \<noteq> c"
    using hd_dropWhile [of "\<lambda>d. d = c" "rev u"] by (simp add: t_def last_rev)
  moreover have "t \<noteq> [] \<Longrightarrow> hd t \<noteq> c"
    using hd_dropWhile [of "\<lambda>d. d = c" x] u unfolding u_def by (metis append_is_Nil_conv hd_append2)
  ultimately show ?thesis unfolding trim using x by blast
qed

text \<open>C20. The target of a request is what its path has in place of the wildcard, without slashes
  at its ends and clipped. The pattern has a wildcard and no white space, with or without a
  method before it: its literal prefix is what stands before the first opening brace and its
  literal suffix what stands after the last closing one. For the path of that prefix, any
  text and that suffix, the route is the pattern without the method, and the target the text
  without the slashes it starts and ends with, up to the length that is stored.\<close>
theorem SplitPattern_recovers_the_wildcard:
  assumes solid: "\<forall>c \<in> set (meth @ pre @ w @ suf). \<not> is_space c"
    and "CHR ''{'' \<notin> set pre" "CHR ''}'' \<notin> set suf"
  shows "\<exists>t a b. SplitPattern ((if meth = [] then [] else meth @ '' '') @ pre @ ''{'' @ w @ ''}'' @ suf) (pre @ x @ suf)
      = (pre @ ''{'' @ w @ ''}'' @ suf, clip_target t) \<and>
    x = replicate a (CHR ''/'') @ t @ replicate b (CHR ''/'') \<and>
    (t = [] \<or> hd t \<noteq> CHR ''/'' \<and> last t \<noteq> CHR ''/'')"
proof -
  let ?route = "pre @ ''{'' @ w @ ''}'' @ suf"
  let ?pattern = "(if meth = [] then [] else meth @ '' '') @ ?route"
  have blank: "CHR '' '' \<notin> set meth" "CHR '' '' \<notin> set ?route" using solid by (auto simp: is_space_def)
  have "\<not> is_space (hd ?pattern)" "\<not> is_space (last ?pattern)"
    using solid by (auto simp: last_append hd_append is_space_def)
  then have "trim_space ?pattern = ?pattern" unfolding trim_space_def by (intro trim_by_id) blast
  then have route: "route_of ?pattern = ?route"
    using after_first_append [OF blank(1)] blank by (simp add: route_of_def Let_def)
  have "before_first CHR ''{'' ?route = pre" using assms(2) by (simp add: before_first_append)
  moreover have "after_last CHR ''}'' ?route = suf"
    using after_last_append [OF assms(3), of "pre @ ''{'' @ w"] by simp
  moreover have "trim_suffix (x @ suf) suf = x"
    using has_suffix_iff [of "x @ suf" suf] by (auto simp: trim_suffix_def)
  ultimately have "SplitPattern ?pattern (pre @ x @ suf) = (?route, clip_target (trim_slashes x))"
    unfolding SplitPattern_def route Let_def by simp
  then show ?thesis using trimmed_at_both_ends [of x "CHR ''/''"] by blast
qed

lemma SplitPattern_recovers_the_wildcard_witness:
  "\<exists>t a b. SplitPattern ''GET /api/realm/{path...}'' ''/api/realm/r/demo/'' = (''/api/realm/{path...}'', clip_target t) \<and>
     ''r/demo/'' = replicate a (CHR ''/'') @ t @ replicate b (CHR ''/'') \<and>
     (t = [] \<or> hd t \<noteq> CHR ''/'' \<and> last t \<noteq> CHR ''/'')"
  using SplitPattern_recovers_the_wildcard [of "''GET''" "''/api/realm/''" "''path...''" "[]" "''r/demo/''"]
  by (simp add: is_space_def)

lemma to_lower_append [simp]: "to_lower (s @ t) = to_lower s @ to_lower t"
  by (simp add: to_lower_def)

lemma lowered_prefix: "has_prefix (to_lower s) p \<Longrightarrow> to_lower p = p"
proof -
  assume "has_prefix (to_lower s) p"
  then obtain t where "to_lower s = p @ t" by (auto simp: has_prefix_iff)
  then have "p @ t = to_lower p @ to_lower t"
    by (metis to_lower_append to_lower_idem)
  then show "to_lower p = p" by (simp add: to_lower_def)
qed

lemma IsProbe_lower: "IsProbe path \<longleftrightarrow> (\<exists>p \<in> set (filter (\<lambda>p. to_lower p = p) probePaths). has_prefix (to_lower path) p)"
proof -
  have "has_prefix l p" if "l = p \<or> has_prefix l (p @ ''/'') \<or> has_prefix l p" for l p
    using that by (auto simp: has_prefix_iff)
  then show ?thesis by (auto simp: IsProbe_def Let_def dest: lowered_prefix)
qed

text \<open>The two probes of the list that are spelled with capitals recognise nothing: a path is
  a probe exactly when its lower-case form starts with one of the entries without
  capitals, and neither \<open>/HNAP1\<close> nor \<open>/.DS_Store\<close> is a probe.\<close>
theorem probes_with_capitals_never_match:
  "(IsProbe path \<longleftrightarrow> (\<exists>p \<in> set (filter (\<lambda>p. p \<notin> {''/HNAP1'', ''/.DS_Store''}) probePaths).
      has_prefix (to_lower path) p)) \<and>
   \<not> IsProbe ''/HNAP1'' \<and> \<not> IsProbe ''/.DS_Store''"
proof -
  have "filter (\<lambda>p. to_lower p = p) probePaths = filter (\<lambda>p. p \<notin> {''/HNAP1'', ''/.DS_Store''}) probePaths"
    by code_simp
  moreover have "\<not> IsProbe ''/HNAP1''" "\<not> IsProbe ''/.DS_Store''" by code_simp+
  ultimately show ?thesis unfolding IsProbe_lower by simp
qed

section \<open>Subjects\<close>

lemma index_of_here: "has_prefix s sub \<Longrightarrow> index_of sub s = Some 0"
  by (cases s) (auto simp: has_prefix_def)

lemma index_of_later:
  "\<forall>i < length u. \<not> has_prefix (drop i (u @ sub @ v)) sub \<Longrightarrow> index_of sub (u @ sub @ v) = Some (length u)"
proof (induction u)
  case Nil
  then show ?case by (simp add: index_of_here)
next
  case (Cons x u)
  then have "\<not> has_prefix (x # u @ sub @ v) sub" by (metis append_Cons drop_0 length_greater_0_conv list.distinct(1))
  moreover have "\<forall>i < length u. \<not> has_prefix (drop i (u @ sub @ v)) sub"
    using Cons.prems by (metis Suc_less_eq append_Cons drop_Suc_Cons length_Cons)
  ultimately show ?case using Cons.IH by simp
qed

text \<open>The path of a realm: no view, no slash at its ends, and not the chain's name again.\<close>

definition realm_name :: "string \<Rightarrow> bool" where
  "realm_name r \<longleftrightarrow> r \<noteq> [] \<and> hd r \<noteq> CHR ''/'' \<and> last r \<noteq> CHR ''/'' \<and>
     index_of ''/-/'' (''/'' @ r @ ''/-'') = None \<and> \<not> has_prefix r ''gno.land/''"

lemma has_prefix_part: "has_prefix (a @ b) p \<Longrightarrow> length p \<le> length a \<Longrightarrow> has_prefix a p"
  by (simp add: has_prefix_def)

lemma view_cut:
  assumes "index_of ''/-/'' (r @ ''/-'') = None"
  shows "index_of ''/-/'' (r @ ''/-/'' @ v) = Some (length r)"
proof (rule index_of_later, intro allI impI notI)
  fix i
  assume i: "i < length r" and pre: "has_prefix (drop i (r @ ''/-/'' @ v)) ''/-/''"
  have "drop i (r @ ''/-/'' @ v) = drop i (r @ ''/-'') @ ''/'' @ v" using i by simp
  then have "has_prefix (drop i (r @ ''/-'') @ ''/'' @ v) ''/-/''" using pre by (simp only:)
  moreover have "length ''/-/'' \<le> length (drop i (r @ ''/-''))" using i by simp
  ultimately have "has_prefix (drop i (r @ ''/-'')) ''/-/''" by (rule has_prefix_part)
  then obtain t where "drop i (r @ ''/-'') = ''/-/'' @ t" by (auto simp: has_prefix_iff)
  then have "r @ ''/-'' = take i (r @ ''/-'') @ ''/-/'' @ t"
    by (metis append_take_drop_id)
  with index_of_None [OF assms] show False by blast
qed

lemma no_view: "index_of ''/-/'' (r @ ''/-'') = None \<Longrightarrow> index_of ''/-/'' r = None"
proof (cases "index_of ''/-/'' r")
  case (Some i)
  assume none: "index_of ''/-/'' (r @ ''/-'') = None"
  obtain u where "r = take i r @ ''/-/'' @ u" using index_of_Some [OF Some] ..
  then have "r @ ''/-'' = take i r @ ''/-/'' @ (u @ ''/-'')" by simp
  with index_of_None [OF none] show ?thesis by blast
qed

lemma entity_of_realm:
  assumes "realm_name r" "view = [] \<or> (\<exists>v. view = ''/-/'' @ v)"
  shows "entity_id EntityRealm 0 (r @ view) = (EntityRealm, clip_target r)"
    "entity_id EntityRealm 0 (''gno.land/'' @ r @ view) = (EntityRealm, clip_target r)"
proof -
  have r: "r \<noteq> []" "trim_slashes r = r" "trim_prefix r ''gno.land/'' = r"
    using assms(1) by (auto simp: realm_name_def trim_prefix_def intro!: trim_by_id)
  have cut: "(case index_of ''/-/'' (s @ view) of Some i \<Rightarrow> take i (s @ view) | None \<Rightarrow> s @ view) = s"
    if "index_of ''/-/'' (s @ ''/-'') = None" for s
    using assms(2) view_cut [OF that] no_view [OF that] by auto
  have slash: "index_of ''/-/'' (''/'' @ r @ ''/-'') = None" using assms(1) by (simp add: realm_name_def)
  then have far: "index_of ''/-/'' ((''gno.land/'' @ r) @ ''/-'') = None"
    by (simp add: has_prefix_def split: if_splits)
  have near: "index_of ''/-/'' (r @ ''/-'') = None" using slash by (simp split: if_splits)
  have g: "trim_slashes (''gno.land/'' @ r) = ''gno.land/'' @ r"
    using r(1) assms(1) by (intro trim_by_id) (auto simp: realm_name_def)
  show "entity_id EntityRealm 0 (r @ view) = (EntityRealm, clip_target r)"
    using cut [OF near] r by (simp add: entity_id_def)
  show "entity_id EntityRealm 0 (''gno.land/'' @ r @ view) = (EntityRealm, clip_target r)"
    using cut [OF far] g trim_prefix_append [of "''gno.land/''" r]
    unfolding entity_id_def Let_def append_assoc by simp
qed

text \<open>One realm is one subject: its page and its source browser, with and without the
  chain's name in front and whatever view hangs off it, are all recorded under the path of
  the realm.\<close>
theorem views_of_a_realm_share_its_subject:
  assumes "realm_name r" "page \<in> {''/realm/'', ''/gnohub/'', ''/stdlib/''}"
    "view = [] \<or> (\<exists>v. view = ''/-/'' @ v)"
  shows "Entity (page @ r @ view) = (EntityRealm, clip_target r) \<and>
    Entity (page @ ''gno.land/'' @ r @ view) = (EntityRealm, clip_target r)"
proof -
  have "r @ view \<noteq> []" "''gno.land/'' @ r @ view \<noteq> []" using assms(1) by (simp_all add: realm_name_def)
  moreover have "Entity (page @ rest) = entity_id EntityRealm 0 rest" if "rest \<noteq> []" for rest
    using assms(2) that by (elim insertE emptyE) (simp_all add: Entity_def entityRoutes_def cut_prefix_def has_prefix_def)
  ultimately show ?thesis
    using entity_of_realm [OF assms(1,3)] by (simp only: simp_thms)
qed

lemma views_of_a_realm_share_its_subject_witness:
  "Entity ''/gnohub/gno.land/r/demo/boards/-/render.gno'' = (EntityRealm, ''r/demo/boards'')"
  using views_of_a_realm_share_its_subject
    [of "''r/demo/boards''" "''/gnohub/''" "''/-/render.gno''"]
  by (simp add: realm_name_def has_prefix_def clip_target_def maxTargetLen_def)

text \<open>\<^verbatim>\<open>/gas/realms\<close>, the example of the comment on \<^verbatim>\<open>pageKinds\<close>, is not a listing.\<close>

lemma gas_realms_is_gas: "PageKind ''/gas/realms'' = ''gas''"
  by code_simp

end
