(* ===== verification/Response_Cache.thy ===== *)
theory Response_Cache
  imports Go_Url Traffic_Classify
begin

text \<open>
  The response cache of the HTTP API (\<^verbatim>\<open>pkg/httpapi/cache.go\<close>): what may be cached,
  under which key, for how long, and the operations on the table of entries. Each
  operation is the body of one locked section; the clock is read once per section
  and passed in, in nanoseconds.
\<close>

section \<open>Requests\<close>

text \<open>
  What the cache reads of a request: \<^verbatim>\<open>r.URL.Path\<close> (decoded), \<^verbatim>\<open>r.URL.EscapedPath()\<close>,
  \<^verbatim>\<open>r.URL.RawQuery\<close> and two headers.
\<close>

record http_request =
  rq_method :: string
  rq_path :: string
  rq_escaped :: string
  rq_query :: string
  rq_accept_encoding :: string
  rq_if_none_match :: string

definition SourcePrefix :: string where "SourcePrefix = ''/api/source/''"
definition CodeTreePath :: string where "CodeTreePath = ''/api/code/tree''"
definition BadgePrefix :: string where "BadgePrefix = ''/_badges/''"

definition cacheable :: "http_request \<Rightarrow> bool" where
  "cacheable r =
     (if rq_method r \<noteq> ''GET'' then False
      else if rq_path r \<in> {''/api/live'', ''/api/version''} then False
      else if rq_path r = ''/api/cache/stats'' then False
      else if rq_path r = ''/api/views'' then False
      else if rq_path r = PageViewPath then False
      else if rq_path r \<in> {''/api/traffic'', ''/api/traffic/health''} then False
      else if has_prefix (rq_path r) BadgePrefix then True
      else 5 \<le> length (rq_path r) \<and> take 5 (rq_path r) = ''/api/'')"

definition acceptsGzip :: "http_request \<Rightarrow> bool" where
  "acceptsGzip r =
     list_ex (\<lambda>v. equal_fold (fst (cut_at (CHR '';'') (trim_space v))) ''gzip'')
       (split_on (CHR '','') (rq_accept_encoding r))"

definition trackingParams :: "string \<Rightarrow> bool" where
  "trackingParams k \<longleftrightarrow>
     k \<in> {''fbclid'', ''gclid'', ''mc_cid'', ''mc_eid'', ''igshid'', ''msclkid'', ''twclid'',
          ''yclid'', ''ref_src'', ''ref_url'', ''_ga'', ''_gl''}"

text \<open>The parameters a handler is shown: no tracking ones, and no \<^verbatim>\<open>network=all\<close>.\<close>

definition tracking :: "string \<Rightarrow> bool" where
  "tracking k \<longleftrightarrow> trackingParams k \<or> has_prefix k ''utm_''"

definition visible_params :: "(string \<times> string) list \<Rightarrow> (string \<times> string) list" where
  "visible_params ps =
     (let ps = filter (\<lambda>p. \<not> tracking (fst p)) ps
      in if values_get ''network'' ps = ''all'' then values_del ''network'' ps else ps)"

definition canonicalQuery :: "string \<Rightarrow> string" where
  "canonicalQuery raw =
     (if raw = '''' then ''''
      else let (ps, ok) = parse_query raw
           in if \<not> ok then raw else values_encode (visible_params ps))"

definition gzip_mark :: string where "gzip_mark = CHR 0x00 # ''gzip''"

definition cacheKey :: "http_request \<Rightarrow> string" where
  "cacheKey r =
     (let key = rq_escaped r @ ''?'' @ canonicalQuery (rq_query r)
      in if acceptsGzip r then key @ gzip_mark else key)"

section \<open>Entries\<close>

definition seconds :: "int \<Rightarrow> int" where "seconds n = n * 1000000000"
definition minutes :: "int \<Rightarrow> int" where "minutes n = seconds (60 * n)"

definition CacheTTL :: int where "CacheTTL = seconds 30"
definition CacheStaleGrace :: int where "CacheStaleGrace = minutes 15"
definition cacheMaxEntries :: nat where "cacheMaxEntries = 512"
definition cacheMaxBodyBytes :: nat where "cacheMaxBodyBytes = 8388608"
definition pinnedSourceTTL :: int where "pinnedSourceTTL = minutes (24 * 60)"

text \<open>\<open>ce_body\<close> is \<^term>\<open>None\<close> for a nil slice, which only the zero entry has.\<close>

record cache_entry =
  ce_body :: "string option"
  ce_type :: string
  ce_encoding :: string
  ce_control :: string
  ce_etag :: string
  ce_stored :: int
  ce_ttl :: int

definition zero_entry :: cache_entry where
  "zero_entry = \<lparr>ce_body = None, ce_type = '''', ce_encoding = '''', ce_control = '''',
     ce_etag = '''', ce_stored = 0, ce_ttl = 0\<rparr>"

definition age :: "int \<Rightarrow> cache_entry \<Rightarrow> int" where
  "age now e = now - ce_stored e"

text \<open>
  The table is a Go map: a list of pairs with distinct keys, so that its length is
  \<^verbatim>\<open>len\<close>. A channel is a number; \<open>rc_closed\<close> holds the ones closed so far.
\<close>

record response_cache =
  rc_entries :: "(string \<times> cache_entry) list"
  rc_inflight :: "string \<rightharpoonup> nat"
  rc_ttl :: int
  rc_grace :: int
  rc_hits :: nat
  rc_misses :: nat
  rc_stale :: nat
  rc_coalesced :: nat
  rc_closed :: "nat set"
  rc_next :: nat

definition NewResponseCache :: "int \<Rightarrow> response_cache" where
  "NewResponseCache ttl =
     \<lparr>rc_entries = [], rc_inflight = Map.empty, rc_ttl = ttl, rc_grace = CacheStaleGrace,
      rc_hits = 0, rc_misses = 0, rc_stale = 0, rc_coalesced = 0, rc_closed = {}, rc_next = 0\<rparr>"

definition endpointTTL :: "string \<Rightarrow> int option" where
  "endpointTTL = map_of
     [(''/api/govdao'', minutes 2), (''/api/govdao/overview'', minutes 2),
      (''/api/govdao/voters'', minutes 2), (''/api/allevents'', minutes 2),
      (CodeTreePath, minutes 5)]"

definition cacheTTLFor :: "response_cache \<Rightarrow> string \<Rightarrow> int" where
  "cacheTTLFor c path = (case endpointTTL path of Some ttl \<Rightarrow> ttl | None \<Rightarrow> rc_ttl c)"

definition ttlForRequest :: "response_cache \<Rightarrow> http_request \<Rightarrow> int" where
  "ttlForRequest c r =
     (if has_prefix (rq_path r) SourcePrefix \<and>
         values_get ''at'' (fst (parse_query (rq_query r))) \<noteq> ''''
      then pinnedSourceTTL else cacheTTLFor c (rq_path r))"

definition usable :: "int \<Rightarrow> response_cache \<Rightarrow> cache_entry \<Rightarrow> bool" where
  "usable now c e \<longleftrightarrow> age now e \<le> ce_ttl e + rc_grace c"

section \<open>Operations\<close>

text \<open>The result of \<^verbatim>\<open>lookup\<close>: entry, fresh, claimed, and the channel to wait on.\<close>

type_synonym lookup_result = "cache_entry \<times> bool \<times> bool \<times> nat option"

definition claim :: "string \<Rightarrow> bool \<Rightarrow> cache_entry \<Rightarrow> response_cache \<Rightarrow> lookup_result \<times> response_cache" where
  "claim key served e c =
     (case rc_inflight c key of
        Some ch \<Rightarrow>
          ((e, False, False, Some ch),
           if served then c else c\<lparr>rc_coalesced := rc_coalesced c + 1\<rparr>)
      | None \<Rightarrow>
          ((e, False, True, Some (rc_next c)),
           c\<lparr>rc_inflight := (rc_inflight c)(key \<mapsto> rc_next c), rc_next := rc_next c + 1\<rparr>))"

definition lookup :: "int \<Rightarrow> string \<Rightarrow> response_cache \<Rightarrow> lookup_result \<times> response_cache" where
  "lookup now key c =
     (case map_of (rc_entries c) key of
        Some e \<Rightarrow>
          if usable now c e \<and> age now e \<le> ce_ttl e
          then ((e, True, False, None), c\<lparr>rc_hits := rc_hits c + 1\<rparr>)
          else if usable now c e then claim key True e (c\<lparr>rc_stale := rc_stale c + 1\<rparr>)
          else claim key False zero_entry (c\<lparr>rc_misses := rc_misses c + 1\<rparr>)
      | None \<Rightarrow> claim key False zero_entry (c\<lparr>rc_misses := rc_misses c + 1\<rparr>))"

definition done_key :: "string \<Rightarrow> response_cache \<Rightarrow> response_cache" where
  "done_key key c =
     (case rc_inflight c key of
        None \<Rightarrow> c
      | Some ch \<Rightarrow> c\<lparr>rc_inflight := (rc_inflight c)(key := None), rc_closed := insert ch (rc_closed c)\<rparr>)"

definition get :: "int \<Rightarrow> string \<Rightarrow> response_cache \<Rightarrow> cache_entry option" where
  "get now key c =
     (case map_of (rc_entries c) key of
        None \<Rightarrow> None
      | Some e \<Rightarrow> if age now e > ce_ttl e + rc_grace c then None else Some e)"

definition put :: "int \<Rightarrow> string \<Rightarrow> cache_entry \<Rightarrow> response_cache \<Rightarrow> response_cache" where
  "put now key e c =
     (let es = rc_entries c;
          es = (if cacheMaxEntries \<le> length es
                then filter (\<lambda>(k, v). \<not> (age now v > ce_ttl v + rc_grace c)) es else es);
          es = (if cacheMaxEntries \<le> length es then [] else es)
      in c\<lparr>rc_entries := (key, e) # filter (\<lambda>(k, v). k \<noteq> key) es\<rparr>)"

record cache_stats =
  cs_hits :: nat
  cs_misses :: nat
  cs_stale :: nat
  cs_coalesced :: nat
  cs_entries :: nat
  cs_inflight :: nat

definition stats_of_cache :: "response_cache \<Rightarrow> cache_stats" where
  "stats_of_cache c =
     \<lparr>cs_hits = rc_hits c, cs_misses = rc_misses c, cs_stale = rc_stale c,
      cs_coalesced = rc_coalesced c, cs_entries = length (rc_entries c),
      cs_inflight = card (dom (rc_inflight c))\<rparr>"

section \<open>Recording a response\<close>

text \<open>
  \<^verbatim>\<open>cachingWriter\<close>: the status and the buffer it keeps, the bytes it has passed on to
  the reader, and the headers the handler set.
\<close>

record resp_headers =
  h_type :: string
  h_encoding :: string
  h_control :: string
  h_etag :: string

record caching_writer =
  cw_status :: int
  cw_buf :: string
  cw_too_big :: bool
  cw_sent :: string
  cw_headers :: resp_headers

definition new_writer :: caching_writer where
  "new_writer = \<lparr>cw_status = 0, cw_buf = '''', cw_too_big = False, cw_sent = '''',
     cw_headers = \<lparr>h_type = '''', h_encoding = '''', h_control = '''', h_etag = ''''\<rparr>\<rparr>"

definition cw_WriteHeader :: "int \<Rightarrow> caching_writer \<Rightarrow> caching_writer" where
  "cw_WriteHeader status w = w\<lparr>cw_status := status\<rparr>"

definition cw_Write :: "string \<Rightarrow> caching_writer \<Rightarrow> caching_writer" where
  "cw_Write b w =
     (let w = (if cw_status w = 0 then w\<lparr>cw_status := 200\<rparr> else w);
          w = (if \<not> cw_too_big w then
                 (if cacheMaxBodyBytes < length (cw_buf w) + length b
                  then w\<lparr>cw_too_big := True, cw_buf := ''''\<rparr>
                  else w\<lparr>cw_buf := cw_buf w @ b\<rparr>)
               else w)
      in w\<lparr>cw_sent := cw_sent w @ b\<rparr>)"

definition cw_Flush :: "caching_writer \<Rightarrow> caching_writer" where
  "cw_Flush w = w\<lparr>cw_too_big := True, cw_buf := ''''\<rparr>"

text \<open>What a handler does to its writer, and a whole run of one.\<close>

datatype handler_act = SetHeaders resp_headers | Send_status int | Send string | Flush_out

fun handler_step :: "handler_act \<Rightarrow> caching_writer \<Rightarrow> caching_writer" where
  "handler_step (SetHeaders h) w = w\<lparr>cw_headers := h\<rparr>"
| "handler_step (Send_status s) w = cw_WriteHeader s w"
| "handler_step (Send b) w = cw_Write b w"
| "handler_step Flush_out w = cw_Flush w"

definition run_handler :: "handler_act list \<Rightarrow> caching_writer" where
  "run_handler acts = fold handler_step acts new_writer"

definition store :: "int \<Rightarrow> string \<Rightarrow> http_request \<Rightarrow> caching_writer \<Rightarrow> response_cache \<Rightarrow> response_cache" where
  "store now key r w c =
     (if cw_status w \<noteq> 200 \<or> cw_too_big w \<or> length (cw_buf w) = 0 then c
      else put now key
             \<lparr>ce_body = Some (cw_buf w), ce_type = h_type (cw_headers w),
              ce_encoding = h_encoding (cw_headers w), ce_control = h_control (cw_headers w),
              ce_etag = h_etag (cw_headers w), ce_stored = now, ce_ttl = ttlForRequest c r\<rparr> c)"

section \<open>Serving an entry\<close>

definition matchesETag :: "string \<Rightarrow> string \<Rightarrow> bool" where
  "matchesETag inm etag =
     list_ex (\<lambda>v. let c = trim_space v in c = ''*'' \<or> c = etag \<or> trim_prefix c ''W/'' = etag)
       (split_on (CHR '','') inm)"

record http_response =
  rs_status :: int
  rs_headers :: "(string \<times> string) list"
  rs_body :: string

definition serveEntry :: "http_request \<Rightarrow> cache_entry \<Rightarrow> string \<Rightarrow> http_response" where
  "serveEntry r e state =
     (let hs = (if ce_type e \<noteq> '''' then [(''Content-Type'', ce_type e)] else []) @
               (if ce_encoding e \<noteq> '''' then [(''Content-Encoding'', ce_encoding e)] else []) @
               (if ce_control e \<noteq> '''' then [(''Cache-Control'', ce_control e)] else []) @
               [(''Vary'', ''Accept-Encoding''), (''X-Cache'', state)];
          body = (case ce_body e of Some b \<Rightarrow> b | None \<Rightarrow> '''')
      in if ce_etag e \<noteq> '''' then
           (let hs = hs @ [(''ETag'', ce_etag e)]
            in if rq_if_none_match r \<noteq> '''' \<and> matchesETag (rq_if_none_match r) (ce_etag e)
               then \<lparr>rs_status = 304, rs_headers = hs, rs_body = ''''\<rparr>
               else \<lparr>rs_status = 200, rs_headers = hs, rs_body = body\<rparr>)
         else \<lparr>rs_status = 200, rs_headers = hs, rs_body = body\<rparr>)"

section \<open>Keys\<close>

lemma values_of_filter: "values_of k (filter (\<lambda>p. P (fst p)) ps) = (if P k then values_of k ps else [])"
  by (induction ps) (auto simp: values_of_def)

lemma values_get_of: "values_get k ps = (case values_of k ps of [] \<Rightarrow> '''' | v # _ \<Rightarrow> v)"
  by (induction ps) (auto simp: values_get_def values_of_def)

text \<open>What the handler can see of parameter \<open>k\<close> once the key's normalisation is undone.\<close>

definition visible_values :: "string \<Rightarrow> (string \<times> string) list \<Rightarrow> string list" where
  "visible_values k ps =
     (if tracking k then []
      else if k = ''network'' \<and> values_get ''network'' ps = ''all'' then []
      else values_of k ps)"

lemma network_not_tracked [simp]: "\<not> tracking ''network''"
  by (simp add: tracking_def trackingParams_def has_prefix_def)

lemma visible_params_values: "values_of k (visible_params ps) = visible_values k ps"
proof -
  let ?qs = "filter (\<lambda>p. \<not> tracking (fst p)) ps"
  have qs: "values_of j ?qs = (if tracking j then [] else values_of j ps)" for j
    by (simp add: values_of_filter [where P = "\<lambda>k. \<not> tracking k"])
  then have net: "values_get ''network'' ?qs = values_get ''network'' ps"
    by (simp add: values_get_of)
  have del: "values_of j (values_del ''network'' ?qs) = (if j = ''network'' then [] else values_of j ?qs)" for j
    unfolding values_del_def by (subst values_of_filter [where P = "\<lambda>k. k \<noteq> ''network''"]) simp
  show ?thesis by (auto simp: visible_params_def visible_values_def Let_def net del qs)
qed

lemma parse_Nil: "parse_query '''' = ([], True)"
  by (simp add: parse_query_def parse_pair_def)

lemma canonicalQuery_parsed:
  "canonicalQuery raw =
     (if snd (parse_query raw) then values_encode (visible_params (fst (parse_query raw))) else raw)"
  by (auto simp: canonicalQuery_def parse_Nil visible_params_def values_get_def values_encode_def
      case_prod_beta)

lemma visible_values_idem:
  "visible_values k (sort_key fst (visible_params ps)) = visible_values k ps"
proof -
  have "values_of j (sort_key fst (visible_params ps)) = visible_values j ps" for j
    by (simp add: visible_params_values)
  moreover have "values_get ''network'' (sort_key fst (visible_params ps)) \<noteq> ''all''"
    unfolding values_get_of calculation
    by (auto simp: visible_values_def values_get_of split: list.splits)
  ultimately show ?thesis by (auto simp: visible_values_def)
qed

text \<open>
  Canonicalising a query is idempotent: a canonical query is its own cache key.
\<close>

theorem canonicalQuery_idempotent: "canonicalQuery (canonicalQuery raw) = canonicalQuery raw"
proof (cases "snd (parse_query raw)")
  case True
  let ?ps = "visible_params (fst (parse_query raw))"
  from True have c: "canonicalQuery raw = values_encode ?ps" by (simp add: canonicalQuery_parsed)
  have "values_encode (visible_params (sort_key fst ?ps)) = values_encode ?ps"
    by (simp add: values_encode_eq_iff visible_params_values visible_values_idem)
  then show ?thesis unfolding c by (simp add: canonicalQuery_parsed parse_encode)
qed (simp add: canonicalQuery_parsed)

text \<open>
  Two queries share a cache entry exactly when a handler cannot tell them apart:
  both parse and every parameter, apart from the tracking ones and \<^verbatim>\<open>network=all\<close>, has
  the same values in the same order; a query that does not parse shares with nothing
  but itself.
\<close>

theorem canonicalQuery_shares_exactly:
  "canonicalQuery p = canonicalQuery q \<longleftrightarrow>
   (if snd (parse_query p) \<and> snd (parse_query q)
    then \<forall>k. visible_values k (fst (parse_query p)) = visible_values k (fst (parse_query q))
    else p = q)"
proof -
  have bad: "values_encode ps \<noteq> raw" if "\<not> snd (parse_query raw)" for ps raw
    using that by (metis parse_encode snd_conv)
  show ?thesis
    using bad [of p] bad [of q]
    by (auto simp: canonicalQuery_parsed values_encode_eq_iff visible_params_values)
qed

lemma values_encode_no_nul: "CHR 0x00 \<notin> set (values_encode ps)"
proof -
  have pair: "CHR 0x00 \<notin> set (encode_pair p)" for p
    using query_escape_plain by (fastforce simp: encode_pair_def)
  have "CHR 0x00 \<notin> set (join_with ''&'' (map encode_pair qs))" for qs
    by (induction qs rule: induct_list012) (auto simp: pair)
  then show ?thesis by (simp add: values_encode_def)
qed

lemma canonicalQuery_no_nul: "CHR 0x00 \<notin> set q \<Longrightarrow> CHR 0x00 \<notin> set (canonicalQuery q)"
  by (simp add: canonicalQuery_parsed values_encode_no_nul)

lemma append_sep_inject:
  fixes c :: char
  assumes "c \<notin> set s" "c \<notin> set s'"
  shows "s @ c # t = s' @ c # t' \<longleftrightarrow> s = s' \<and> t = t'"
proof
  assume "s @ c # t = s' @ c # t'"
  then have "cut_at c (s @ c # t) = cut_at c (s' @ c # t')" by simp
  with assms show "s = s' \<and> t = t'" by simp
qed simp

text \<open>
  A cache key determines the escaped path, the canonical query and the negotiated
  encoding: no request is answered from an entry another of the three filled. The
  hypotheses are what \<^verbatim>\<open>net/url\<close> promises of a parsed URL: no NUL byte, and no question
  mark in an escaped path.
\<close>

theorem cacheKey_separates:
  assumes "CHR 0x00 \<notin> set (rq_escaped r @ rq_query r)" "CHR ''?'' \<notin> set (rq_escaped r)"
    and "CHR 0x00 \<notin> set (rq_escaped r' @ rq_query r')" "CHR ''?'' \<notin> set (rq_escaped r')"
  shows "cacheKey r = cacheKey r' \<longleftrightarrow>
    rq_escaped r = rq_escaped r' \<and> canonicalQuery (rq_query r) = canonicalQuery (rq_query r') \<and>
    acceptsGzip r = acceptsGzip r'"
proof -
  let ?b = "\<lambda>r. rq_escaped r @ CHR ''?'' # canonicalQuery (rq_query r)"
  have nul: "CHR 0x00 \<notin> set (?b r)" "CHR 0x00 \<notin> set (?b r')"
    using assms(1,3) canonicalQuery_no_nul by auto
  have key: "cacheKey x = (if acceptsGzip x then ?b x @ gzip_mark else ?b x)" for x
    by (simp add: cacheKey_def Let_def)
  have "CHR 0x00 \<in> set (cacheKey x) \<longleftrightarrow> acceptsGzip x" if "CHR 0x00 \<notin> set (?b x)" for x
    using that by (auto simp: key gzip_mark_def)
  with nul have same: "cacheKey r = cacheKey r' \<Longrightarrow> acceptsGzip r = acceptsGzip r'" by metis
  have "?b r = ?b r' \<longleftrightarrow>
      rq_escaped r = rq_escaped r' \<and> canonicalQuery (rq_query r) = canonicalQuery (rq_query r')"
    using assms(2,4) by (rule append_sep_inject)
  with same show ?thesis by (auto simp: key)
qed

section \<open>The table\<close>

definition table_ok :: "response_cache \<Rightarrow> bool" where
  "table_ok c \<longleftrightarrow>
     distinct (map fst (rc_entries c)) \<and> length (rc_entries c) \<le> cacheMaxEntries"

lemma distinct_map_filter: "distinct (map f xs) \<Longrightarrow> distinct (map f (filter P xs))"
  by (induction xs) auto

definition evict :: "int \<Rightarrow> response_cache \<Rightarrow> (string \<times> cache_entry) list" where
  "evict now c =
     (let es = (if cacheMaxEntries \<le> length (rc_entries c)
                then filter (\<lambda>(k, v). usable now c v) (rc_entries c) else rc_entries c)
      in if cacheMaxEntries \<le> length es then [] else es)"

lemma put_entries:
  "rc_entries (put now key e c) = (key, e) # filter (\<lambda>(k, v). k \<noteq> key) (evict now c)"
proof -
  have "(\<lambda>(k, v). \<not> (age now v > ce_ttl v + rc_grace c)) = (\<lambda>(k :: string, v). usable now c v)"
    by (auto simp: usable_def not_less)
  then show ?thesis by (simp only: put_def evict_def Let_def) simp
qed

lemma put_other:
  "rc_inflight (put now key e c) = rc_inflight c" "rc_closed (put now key e c) = rc_closed c"
  "rc_next (put now key e c) = rc_next c" "rc_grace (put now key e c) = rc_grace c"
  by (simp_all add: put_def Let_def)

lemma evict_ok:
  "table_ok c \<Longrightarrow> distinct (map fst (evict now c)) \<and> length (evict now c) < cacheMaxEntries"
  by (auto simp: table_ok_def evict_def Let_def distinct_map_filter cacheMaxEntries_def)

lemma put_table_ok:
  assumes "table_ok c"
  shows "table_ok (put now key e c)"
proof -
  let ?es = "filter (\<lambda>(k, v). k \<noteq> key) (evict now c)"
  note ev = evict_ok [OF assms, of now]
  have "key \<notin> fst ` set ?es" "distinct (map fst ?es)"
    using ev by (auto simp: distinct_map_filter)
  moreover have "length ?es < cacheMaxEntries"
    using ev length_filter_le [of "\<lambda>(k, v). k \<noteq> key" "evict now c"] by linarith
  ultimately show ?thesis by (simp add: table_ok_def put_entries)
qed

lemma map_of_filter_neq: "k \<noteq> key \<Longrightarrow> map_of (filter (\<lambda>(k, v). k \<noteq> key) es) k = map_of es k"
  by (induction es) auto

lemma map_of_filter_value:
  "distinct (map fst es) \<Longrightarrow>
   map_of (filter (\<lambda>(k, v). P v) es) k = (case map_of es k of Some v \<Rightarrow> if P v then Some v else None | None \<Rightarrow> None)"
proof (induction es)
  case (Cons x es)
  have "map_of es k = None" if "k = fst x" using Cons.prems that by (simp add: map_of_eq_None_iff)
  with Cons show ?case by (cases x) auto
qed simp

text \<open>
  Storing an entry makes it the one its key serves, and, as long as evicting what is
  past its serving life leaves room, every other key still serves what it served.
\<close>

theorem put_keeps_what_can_be_served:
  assumes "table_ok c" "length (filter (\<lambda>(k, v). usable now c v) (rc_entries c)) < cacheMaxEntries"
    and "usable now c e"
  shows "get now k (put now key e c) = (if k = key then Some e else get now k c)"
proof -
  let ?es = "rc_entries c"
  have d: "distinct (map fst ?es)" using assms(1) by (simp add: table_ok_def)
  have ev: "evict now c =
      (if cacheMaxEntries \<le> length ?es then filter (\<lambda>(k, v). usable now c v) ?es else ?es)"
    using assms(2) by (simp add: evict_def)
  show ?thesis
  proof (cases "k = key")
    case True
    with assms(3) show ?thesis by (simp add: get_def put_entries put_other usable_def)
  next
    case False
    have "map_of (rc_entries (put now key e c)) k = map_of (evict now c) k"
      using False by (simp add: put_entries map_of_filter_neq)
    with False d show ?thesis
      by (auto simp: get_def put_other ev map_of_filter_value usable_def split: option.splits)
  qed
qed

text \<open>
  At capacity, replacing the entry of a key that is already in the table, which
  needs no room, throws away all the others, though each could still be served.
\<close>

theorem put_replacing_at_capacity_drops_the_rest:
  assumes "length (rc_entries c) = cacheMaxEntries" "key \<in> fst ` set (rc_entries c)"
    and "\<forall>(k, v) \<in> set (rc_entries c). usable now c v"
  shows "rc_entries (put now key e c) = [(key, e)]"
proof -
  have "filter (\<lambda>(k, v). usable now c v) (rc_entries c) = rc_entries c"
    using assms(3) by (auto simp: filter_id_conv)
  with assms(1) show ?thesis by (simp add: put_entries evict_def)
qed

section \<open>What is stored\<close>

fun sent_bytes :: "handler_act list \<Rightarrow> string" where
  "sent_bytes [] = ''''"
| "sent_bytes (Send b # acts) = b @ sent_bytes acts"
| "sent_bytes (_ # acts) = sent_bytes acts"

lemma handler_fold:
  assumes "cw_too_big w \<or> cw_buf w = cw_sent w" "length (cw_buf w) \<le> cacheMaxBodyBytes"
  shows "let w' = fold handler_step acts w in
    cw_sent w' = cw_sent w @ sent_bytes acts \<and>
    (cw_too_big w' \<longleftrightarrow> cw_too_big w \<or> Flush_out \<in> set acts \<or>
       cacheMaxBodyBytes < length (cw_sent w @ sent_bytes acts)) \<and>
    (cw_too_big w' \<or> cw_buf w' = cw_sent w')"
  using assms
proof (induction acts arbitrary: w)
  case Nil
  then show ?case by (auto simp: Let_def)
next
  case (Cons a acts)
  have 1: "cw_too_big (handler_step a w) \<or> cw_buf (handler_step a w) = cw_sent (handler_step a w)"
    "length (cw_buf (handler_step a w)) \<le> cacheMaxBodyBytes"
    using Cons.prems by (cases a; auto simp: cw_WriteHeader_def cw_Write_def cw_Flush_def Let_def)+
  have "cw_sent (handler_step a w) @ sent_bytes acts = cw_sent w @ sent_bytes (a # acts)"
    by (cases a) (auto simp: cw_WriteHeader_def cw_Write_def cw_Flush_def Let_def)
  moreover have "cw_too_big (handler_step a w) \<longleftrightarrow> cw_too_big w \<or> a = Flush_out \<or>
      cacheMaxBodyBytes < length (cw_sent (handler_step a w))"
    using Cons.prems by (cases a) (auto simp: cw_WriteHeader_def cw_Write_def cw_Flush_def Let_def)
  ultimately show ?case
    using Cons.IH [OF 1] by (auto simp: Let_def) (metis length_append trans_less_add1)+
qed

text \<open>
  What is stored for a handler's run is exactly the whole body the reader was sent,
  and only for a run that ended in status 200, never flushed, and wrote between one
  byte and the cap; anything else leaves the cache as it was.
\<close>

theorem store_keeps_whole_successes:
  "store now key r (run_handler acts) c =
     (let w = run_handler acts; b = sent_bytes acts in
      if cw_status w = 200 \<and> Flush_out \<notin> set acts \<and> b \<noteq> '''' \<and> length b \<le> cacheMaxBodyBytes
      then put now key
             \<lparr>ce_body = Some b, ce_type = h_type (cw_headers w), ce_encoding = h_encoding (cw_headers w),
              ce_control = h_control (cw_headers w), ce_etag = h_etag (cw_headers w),
              ce_stored = now, ce_ttl = ttlForRequest c r\<rparr> c
      else c)"
proof -
  have "cw_sent (run_handler acts) = sent_bytes acts \<and>
    (cw_too_big (run_handler acts) \<longleftrightarrow> Flush_out \<in> set acts \<or> cacheMaxBodyBytes < length (sent_bytes acts)) \<and>
    (cw_too_big (run_handler acts) \<or> cw_buf (run_handler acts) = cw_sent (run_handler acts))"
  proof -
    have "cw_sent new_writer = ''''" "\<not> cw_too_big new_writer" "cw_buf new_writer = ''''"
      by (simp_all add: new_writer_def)
    with handler_fold [of new_writer acts] show ?thesis
      unfolding run_handler_def Let_def by (metis append_Nil le0 list.size(3))
  qed
  then show ?thesis by (auto simp: store_def Let_def)
qed

section \<open>Witnesses\<close>

definition demo_request :: http_request where
  "demo_request = \<lparr>rq_method = ''GET'', rq_path = ''/api/tx/a/b'', rq_escaped = ''/api/tx/a%2Fb'',
     rq_query = ''network=all&limit=1'', rq_accept_encoding = ''gzip'', rq_if_none_match = ''''\<rparr>"

theorem cacheKey_separates_witness:
  "cacheKey demo_request \<noteq> cacheKey (demo_request\<lparr>rq_escaped := ''/api/tx/a/b''\<rparr>)"
  using cacheKey_separates [of demo_request "demo_request\<lparr>rq_escaped := ''/api/tx/a/b''\<rparr>"]
  by (simp add: demo_request_def)

theorem put_keeps_what_can_be_served_witness:
  "get 5 ''k'' (put 5 ''k'' (zero_entry\<lparr>ce_body := Some ''b''\<rparr>) (NewResponseCache CacheTTL))
     = Some (zero_entry\<lparr>ce_body := Some ''b''\<rparr>)"
  by (subst put_keeps_what_can_be_served)
    (simp_all add: table_ok_def NewResponseCache_def cacheMaxEntries_def usable_def age_def
      zero_entry_def CacheStaleGrace_def minutes_def seconds_def)

definition full_cache :: response_cache where
  "full_cache = (NewResponseCache CacheTTL)
     \<lparr>rc_entries := map (\<lambda>i. (replicate i CHR ''k'', zero_entry)) [0..<512]\<rparr>"

theorem put_replacing_at_capacity_drops_the_rest_witness:
  "length (rc_entries full_cache) = 512 \<and>
   rc_entries (put 0 '''' zero_entry full_cache) = [('''', zero_entry)]"
proof
  have u: "usable 0 full_cache zero_entry"
    by (simp add: usable_def age_def zero_entry_def full_cache_def NewResponseCache_def
        CacheStaleGrace_def minutes_def seconds_def)
  have "('''', zero_entry) \<in> set (rc_entries full_cache)" by (force simp: full_cache_def)
  then have "'''' \<in> fst ` set (rc_entries full_cache)" by force
  then show "rc_entries (put 0 '''' zero_entry full_cache) = [('''', zero_entry)]"
    by (rule put_replacing_at_capacity_drops_the_rest [rotated])
      (use u in \<open>auto simp: full_cache_def cacheMaxEntries_def\<close>)
qed (simp add: full_cache_def)

end
