(* ===== verification/Single_Flight.thy ===== *)
theory Single_Flight
  imports Main
begin

text \<open>
  One computation per key, with channels to wait on: the contract that the response
  cache and the value cache share. A key in flight has a channel; the channel is
  closed when the key is released; a new claim opens a new channel.
\<close>

section \<open>Counting\<close>

definition count_of :: "('a \<Rightarrow> bool) \<Rightarrow> 'a list \<Rightarrow> nat" where
  "count_of P xs = length (filter P xs)"

lemma count_of_simps [simp]:
  "count_of P [] = 0" "count_of P (x # xs) = (if P x then 1 else 0) + count_of P xs"
  "count_of P (xs @ ys) = count_of P xs + count_of P ys"
  by (simp_all add: count_of_def)

lemma count_of_update:
  "i < length xs \<Longrightarrow>
   count_of P (xs[i := x]) + (if P (xs ! i) then 1 else 0) = count_of P xs + (if P x then 1 else 0)"
proof (induction xs arbitrary: i)
  case (Cons a xs)
  then show ?case
  proof (cases i)
    case (Suc j)
    with Cons.IH [of j] Cons.prems show ?thesis by simp
  qed simp
qed simp

lemma count_of_pos: "0 < count_of P xs \<Longrightarrow> \<exists>i < length xs. P (xs ! i)"
  by (auto simp: count_of_def filter_empty_conv in_set_conv_nth)

section \<open>Channels\<close>

text \<open>The channels of a state: which key is in flight on which, the closed ones, the next.\<close>

definition chans_ok :: "('k \<Rightarrow> nat option) \<Rightarrow> nat set \<Rightarrow> nat \<Rightarrow> bool" where
  "chans_ok fl cl n \<longleftrightarrow>
     (\<forall>ch \<in> cl. ch < n) \<and> (\<forall>k ch. fl k = Some ch \<longrightarrow> ch < n \<and> ch \<notin> cl) \<and>
     inj_on fl (dom fl)"

locale single_flight =
  fixes inflight :: "'s \<Rightarrow> 'k \<Rightarrow> nat option"
    and closed :: "'s \<Rightarrow> nat set"
    and next_chan :: "'s \<Rightarrow> nat"
    and claimed :: "'s \<Rightarrow> 's \<Rightarrow> 'k \<Rightarrow> bool"
    and released :: "'s \<Rightarrow> 's \<Rightarrow> 'k \<Rightarrow> bool"
  assumes claimed_free: "claimed s s' key \<Longrightarrow> inflight s key = None"
    and claimed_inflight: "claimed s s' key \<Longrightarrow> inflight s' = (inflight s)(key \<mapsto> next_chan s)"
    and claimed_closed: "claimed s s' key \<Longrightarrow> closed s' = closed s"
    and claimed_next: "claimed s s' key \<Longrightarrow> next_chan s' = Suc (next_chan s)"
    and released_inflight: "released s s' key \<Longrightarrow> inflight s' = (inflight s)(key := None)"
    and released_closed: "released s s' key \<Longrightarrow> inflight s key = Some ch \<Longrightarrow> closed s' = insert ch (closed s)"
    and released_next: "released s s' key \<Longrightarrow> next_chan s' = next_chan s"
begin

abbreviation ok :: "'s \<Rightarrow> bool" where
  "ok s \<equiv> chans_ok (inflight s) (closed s) (next_chan s)"

text \<open>A waiter on a channel it was given for a key has not missed its wake-up.\<close>

definition awaits :: "'s \<Rightarrow> 'k \<Rightarrow> nat \<Rightarrow> bool" where
  "awaits s key ch \<longleftrightarrow> ch \<in> closed s \<or> inflight s key = Some ch"

lemma claimed_ok:
  assumes "claimed s s' key" "ok s"
  shows "ok s'"
  unfolding chans_ok_def
proof (intro conjI ballI allI impI)
  have inf: "inflight s' = (inflight s)(key \<mapsto> next_chan s)" using assms(1) by (rule claimed_inflight)
  have cl: "closed s' = closed s" "next_chan s' = Suc (next_chan s)"
    using assms(1) by (simp_all add: claimed_closed claimed_next)
  have old: "ch < next_chan s \<and> ch \<notin> closed s" if "inflight s k = Some ch" for k ch
    using assms(2) that unfolding chans_ok_def by blast
  have fresh: "next_chan s \<notin> closed s" using assms(2) unfolding chans_ok_def by blast
  show "ch < next_chan s'" if "ch \<in> closed s'" for ch
    using assms(2) that unfolding chans_ok_def cl by (simp add: less_SucI)
  show "ch < next_chan s'" "ch \<notin> closed s'" if "inflight s' k = Some ch" for k ch
    using that old [of k ch] fresh unfolding inf cl by (auto split: if_splits)
  show "inj_on (inflight s') (dom (inflight s'))"
  proof (rule inj_onI)
    fix x y
    assume xy: "x \<in> dom (inflight s')" "y \<in> dom (inflight s')" "inflight s' x = inflight s' y"
    have new: "inflight s k \<noteq> Some (next_chan s)" for k using old by blast
    have "x = key \<longleftrightarrow> y = key"
      using xy(3) new [of x] new [of y] unfolding inf by (auto split: if_splits)
    moreover have "x = y" if "x \<noteq> key" "y \<noteq> key"
    proof -
      have "inflight s x = inflight s y" using xy(3) that by (simp add: inf)
      moreover have "x \<in> dom (inflight s)" "y \<in> dom (inflight s)"
        using xy(1,2) that by (simp_all add: inf)
      moreover have "inj_on (inflight s) (dom (inflight s))" using assms(2) by (simp add: chans_ok_def)
      ultimately show "x = y" by (metis inj_onD)
    qed
    ultimately show "x = y" by blast
  qed
qed

lemma inflight_inj:
  assumes "ok s" "inflight s k = Some ch" "inflight s key = Some ch"
  shows "k = key"
  using assms unfolding chans_ok_def by (metis domI inj_onD)

lemma released_ok:
  assumes "released s s' key" "ok s" "inflight s key = Some ch"
  shows "ok s'"
proof -
  have inf: "inflight s' = (inflight s)(key := None)" using assms(1) by (rule released_inflight)
  have cl: "closed s' = insert ch (closed s)" using assms(1,3) by (rule released_closed)
  have nx: "next_chan s' = next_chan s" using assms(1) by (rule released_next)
  have "k = key" if "inflight s k = Some ch" for k using inflight_inj [OF assms(2) that assms(3)] .
  with assms(2,3) show ?thesis
    unfolding chans_ok_def inf cl nx by (auto simp: inj_on_def dom_def)
qed

lemma awaits_claimed:
  assumes "claimed s s' key" "awaits s k ch"
  shows "awaits s' k ch"
proof -
  have "inflight s key = None" using assms(1) by (rule claimed_free)
  then show ?thesis using assms(2)
    unfolding awaits_def claimed_inflight [OF assms(1)] claimed_closed [OF assms(1)] by auto
qed

lemma awaits_released:
  assumes "released s s' key" "awaits s k ch" "inflight s key = Some c"
  shows "awaits s' k ch"
  using assms(2,3)
  unfolding awaits_def released_inflight [OF assms(1)] released_closed [OF assms(1,3)] by auto

lemma release_wakes:
  "released s s' key \<Longrightarrow> inflight s key = Some ch \<Longrightarrow> ch \<in> closed s'"
  by (simp add: released_closed)

end

end
