(* ===== verification/Response_Flow.thy ===== *)
theory Response_Flow
  imports Response_Cache Single_Flight
begin

text \<open>
  The requests that share one response cache, run concurrently: \<^verbatim>\<open>WithResponseCache\<close> and
  \<^verbatim>\<open>refresh\<close> of \<^verbatim>\<open>pkg/httpapi/cache.go\<close>. A request is a task; each locked section of the
  cache is one step, the handler behind the cache runs between two of them, and steps
  of different tasks interleave freely. Time passes between steps.
\<close>

section \<open>Tasks\<close>

text \<open>
  Where a task stands. \<open>Computing\<close> and \<open>Refreshing\<close> run the handler and then store;
  \<open>Releasing\<close> has stored, or given up, and has \<^verbatim>\<open>done\<close> left to run. A task answered from
  the cache keeps the entry, its age and the \<^verbatim>\<open>X-Cache\<close> state it was served with.
\<close>

datatype served =
    Bypassed
  | From_cache cache_entry int string
  | Computed
  | Cancelled
  | Background

datatype task =
    Arrived http_request
  | Waiting http_request string nat
  | Computing http_request string bool
  | Refreshing http_request string
  | Releasing string
  | Finished served

text \<open>
  The handler up to the first point where it blocks: its next state, the background
  refresh it starts, if any, and the cache.
\<close>

definition serve_arrival ::
  "int \<Rightarrow> http_request \<Rightarrow> response_cache \<Rightarrow> task \<times> task list \<times> response_cache" where
  "serve_arrival now r c =
     (if \<not> cacheable r then (Finished Bypassed, [], c)
      else let key = cacheKey r; ((e, fresh, claimed, wait), c') = lookup now key c
           in if fresh then (Finished (From_cache e (age now e) ''HIT''), [], c')
              else if ce_body e \<noteq> None
              then (Finished (From_cache e (age now e) ''STALE''),
                    if claimed then [Refreshing r key] else [], c')
              else if \<not> claimed
              then (case wait of Some ch \<Rightarrow> (Waiting r key ch, [], c') | None \<Rightarrow> (Finished Cancelled, [], c'))
              else (Computing r key True, [], c'))"

definition serve_woken :: "int \<Rightarrow> http_request \<Rightarrow> string \<Rightarrow> response_cache \<Rightarrow> task" where
  "serve_woken now r key c =
     (case get now key c of
        Some e \<Rightarrow> Finished (From_cache e (age now e) ''WAIT'')
      | None \<Rightarrow> Computing r key False)"

definition after_store :: "string \<Rightarrow> bool \<Rightarrow> task" where
  "after_store key claimed = (if claimed then Releasing key else Finished Computed)"

record flow =
  fl_cache :: response_cache
  fl_now :: int
  fl_tasks :: "task list"

definition flow_init :: "int \<Rightarrow> int \<Rightarrow> flow" where
  "flow_init ttl now = \<lparr>fl_cache = NewResponseCache ttl, fl_now = now, fl_tasks = []\<rparr>"

definition set_task :: "nat \<Rightarrow> task \<Rightarrow> flow \<Rightarrow> flow" where
  "set_task i t s = s\<lparr>fl_tasks := (fl_tasks s)[i := t]\<rparr>"

definition task_at :: "flow \<Rightarrow> nat \<Rightarrow> task \<Rightarrow> bool" where
  "task_at s i t \<longleftrightarrow> i < length (fl_tasks s) \<and> fl_tasks s ! i = t"

inductive flow_step :: "flow \<Rightarrow> flow \<Rightarrow> bool" where
  tick: "0 \<le> d \<Longrightarrow> flow_step s (s\<lparr>fl_now := fl_now s + d\<rparr>)"
| arrive: "flow_step s (s\<lparr>fl_tasks := fl_tasks s @ [Arrived r]\<rparr>)"
| serve: "task_at s i (Arrived r) \<Longrightarrow> serve_arrival (fl_now s) r (fl_cache s) = (t, spawned, c) \<Longrightarrow>
    flow_step s (s\<lparr>fl_cache := c, fl_tasks := (fl_tasks s)[i := t] @ spawned\<rparr>)"
| wake: "task_at s i (Waiting r key ch) \<Longrightarrow> ch \<in> rc_closed (fl_cache s) \<Longrightarrow>
    flow_step s (set_task i (serve_woken (fl_now s) r key (fl_cache s)) s)"
| leave: "task_at s i (Waiting r key ch) \<Longrightarrow> flow_step s (set_task i (Finished Cancelled) s)"
| compute: "task_at s i (Computing r key claimed) \<Longrightarrow>
    flow_step s (set_task i (after_store key claimed)
      (s\<lparr>fl_cache := store (fl_now s) key r (run_handler acts) (fl_cache s)\<rparr>))"
| panic: "task_at s i (Computing r key claimed) \<Longrightarrow>
    flow_step s (set_task i (after_store key claimed) s)"
| refresh: "task_at s i (Refreshing r key) \<Longrightarrow>
    flow_step s (set_task i (Releasing key)
      (s\<lparr>fl_cache := store (fl_now s) key r (run_handler acts) (fl_cache s)\<rparr>))"
| release: "task_at s i (Releasing key) \<Longrightarrow>
    flow_step s (set_task i (Finished Background) (s\<lparr>fl_cache := done_key key (fl_cache s)\<rparr>))"

inductive_cases flow_stepE: "flow_step s s'"

inductive flow_reach :: "flow \<Rightarrow> bool" where
  init: "0 \<le> ttl \<Longrightarrow> flow_reach (flow_init ttl now)"
| step: "flow_reach s \<Longrightarrow> flow_step s s' \<Longrightarrow> flow_reach s'"

section \<open>Ownership\<close>

fun owns :: "string \<Rightarrow> task \<Rightarrow> bool" where
  "owns key (Computing r k claimed) \<longleftrightarrow> claimed \<and> k = key"
| "owns key (Refreshing r k) \<longleftrightarrow> k = key"
| "owns key (Releasing k) \<longleftrightarrow> k = key"
| "owns key _ \<longleftrightarrow> False"

text \<open>Those who claimed the key and have not released it, whether or not they are done computing.\<close>

definition owners :: "string \<Rightarrow> task list \<Rightarrow> nat" where
  "owners key = count_of (owns key)"

lemma owners_simps [simp]:
  "owners key [] = 0" "owners key (t # ts) = (if owns key t then 1 else 0) + owners key ts"
  "owners key (ts @ us) = owners key ts + owners key us"
  by (simp_all add: owners_def)

lemma owners_update:
  "i < length ts \<Longrightarrow>
   owners key (ts[i := t]) + (if owns key (ts ! i) then 1 else 0)
     = owners key ts + (if owns key t then 1 else 0)"
  unfolding owners_def by (rule count_of_update)

text \<open>\<open>claimed_from c c' key\<close>: the step took the key, opening a new channel.\<close>

definition claimed_from :: "response_cache \<Rightarrow> response_cache \<Rightarrow> string \<Rightarrow> bool" where
  "claimed_from c c' key \<longleftrightarrow>
     rc_inflight c key = None \<and> rc_inflight c' = (rc_inflight c)(key \<mapsto> rc_next c) \<and>
     rc_closed c' = rc_closed c \<and> rc_next c' = rc_next c + 1"

definition done_from :: "response_cache \<Rightarrow> response_cache \<Rightarrow> string \<Rightarrow> bool" where
  "done_from c c' key \<longleftrightarrow> c' = done_key key c"

interpretation rcf: single_flight rc_inflight rc_closed rc_next claimed_from done_from
  by unfold_locales
    (auto simp: claimed_from_def done_from_def done_key_def fun_upd_idem split: option.splits)

definition chan_ok :: "response_cache \<Rightarrow> bool" where
  "chan_ok c \<longleftrightarrow> chans_ok (rc_inflight c) (rc_closed c) (rc_next c)"

fun waits_ok :: "response_cache \<Rightarrow> task \<Rightarrow> bool" where
  "waits_ok c (Waiting r k ch) \<longleftrightarrow> rcf.awaits c k ch"
| "waits_ok c _ \<longleftrightarrow> True"

text \<open>What every reachable state satisfies.\<close>

definition flow_inv :: "flow \<Rightarrow> bool" where
  "flow_inv s \<longleftrightarrow>
     table_ok (fl_cache s) \<and> chan_ok (fl_cache s) \<and> rc_grace (fl_cache s) = CacheStaleGrace \<and>
     (\<forall>(k, e) \<in> set (rc_entries (fl_cache s)). ce_body e \<noteq> None) \<and>
     (\<forall>key. owners key (fl_tasks s) = (if rc_inflight (fl_cache s) key = None then 0 else 1)) \<and>
     (\<forall>t \<in> set (fl_tasks s). waits_ok (fl_cache s) t)"

definition entries_ok :: "response_cache \<Rightarrow> bool" where
  "entries_ok c \<longleftrightarrow> table_ok c \<and> rc_grace c = CacheStaleGrace \<and>
     (\<forall>(k, e) \<in> set (rc_entries c). ce_body e \<noteq> None)"

definition same_chans :: "response_cache \<Rightarrow> response_cache \<Rightarrow> bool" where
  "same_chans c c' \<longleftrightarrow> rc_inflight c' = rc_inflight c \<and> rc_closed c' = rc_closed c \<and> rc_next c' = rc_next c"

lemma set_evict: "set (evict now c) \<subseteq> set (rc_entries c)"
  by (auto simp: evict_def Let_def)

lemma store_inv:
  assumes "entries_ok c"
  shows "entries_ok (store now key r w c)" "same_chans c (store now key r w c)"
  using assms put_table_ok set_evict [of now c]
  by (auto simp: store_def entries_ok_def same_chans_def put_other put_entries)

lemma chan_ok_same: "same_chans c c' \<Longrightarrow> chan_ok c' = chan_ok c"
  by (simp add: same_chans_def chan_ok_def)

lemma waits_ok_same: "same_chans c c' \<Longrightarrow> waits_ok c' t = waits_ok c t"
  by (cases t) (auto simp: same_chans_def rcf.awaits_def)

lemma chan_ok_claimed: "claimed_from c c' key \<Longrightarrow> chan_ok c \<Longrightarrow> chan_ok c'"
  unfolding chan_ok_def by (rule rcf.claimed_ok)

lemma waits_ok_claimed: "claimed_from c c' key \<Longrightarrow> waits_ok c t \<Longrightarrow> waits_ok c' t"
  by (cases t) (auto intro: rcf.awaits_claimed)

lemma claim_cases:
  assumes "claim key b e c = ((e', fresh, claimed, wait), c')"
  shows "e' = e \<and> \<not> fresh \<and> rc_entries c' = rc_entries c \<and> rc_grace c' = rc_grace c \<and>
    (if claimed then claimed_from c c' key
     else same_chans c c' \<and> (\<exists>ch. wait = Some ch \<and> rc_inflight c key = Some ch))"
proof (cases "rc_inflight c key")
  case None
  with assms show ?thesis by (auto simp: claim_def claimed_from_def)
next
  case (Some ch)
  with assms have "e' = e" "\<not> fresh" "\<not> claimed" "wait = Some ch"
    "c' = (if b then c else c\<lparr>rc_coalesced := rc_coalesced c + 1\<rparr>)"
    by (simp_all add: claim_def)
  with Some show ?thesis by (simp add: same_chans_def)
qed

lemma claim_upd:
  assumes "claim key b e (f c) = ((e', fresh, claimed, wait), c')"
    and "rc_entries (f c) = rc_entries c" "rc_grace (f c) = rc_grace c" "same_chans c (f c)"
  shows "e' = e \<and> \<not> fresh \<and> rc_entries c' = rc_entries c \<and> rc_grace c' = rc_grace c \<and>
    (if claimed then claimed_from c c' key
     else same_chans c c' \<and> (\<exists>ch. wait = Some ch \<and> rc_inflight c key = Some ch))"
proof -
  have "claimed_from (f c) c' key = claimed_from c c' key" "same_chans (f c) c' = same_chans c c'"
    "rc_inflight (f c) = rc_inflight c"
    using assms(4) unfolding same_chans_def claimed_from_def by simp_all
  with claim_cases [OF assms(1)] assms(2,3) show ?thesis by (simp split: if_splits)
qed

lemma lookup_cases:
  assumes "lookup now key c = ((e, fresh, claimed, wait), c')"
  shows "rc_entries c' = rc_entries c \<and> rc_grace c' = rc_grace c \<and>
    (fresh \<longrightarrow> same_chans c c' \<and> \<not> claimed \<and> map_of (rc_entries c) key = Some e \<and>
       usable now c e \<and> age now e \<le> ce_ttl e) \<and>
    (\<not> fresh \<longrightarrow>
      (if claimed then claimed_from c c' key
       else same_chans c c' \<and> (\<exists>ch. wait = Some ch \<and> rc_inflight c key = Some ch)) \<and>
      (e = zero_entry \<or> map_of (rc_entries c) key = Some e \<and> usable now c e \<and> ce_ttl e < age now e))"
proof -
  let ?h = "\<lambda>c. c\<lparr>rc_hits := rc_hits c + 1\<rparr>" and ?s = "\<lambda>c. c\<lparr>rc_stale := rc_stale c + 1\<rparr>"
    and ?m = "\<lambda>c. c\<lparr>rc_misses := rc_misses c + 1\<rparr>"
  have miss: ?thesis if "claim key False zero_entry (?m c) = ((e, fresh, claimed, wait), c')"
  proof -
    have "same_chans c (?m c)" by (simp add: same_chans_def)
    with claim_upd [of key False zero_entry ?m c e fresh claimed wait c'] that show ?thesis by simp
  qed
  show ?thesis
  proof (cases "map_of (rc_entries c) key")
    case None
    with assms miss show ?thesis by (simp add: lookup_def)
  next
    case (Some e0)
    show ?thesis
    proof (cases "usable now c e0 \<and> ce_ttl e0 < age now e0")
      case True
      with Some assms have "claim key True e0 (?s c) = ((e, fresh, claimed, wait), c')"
        by (simp add: lookup_def not_le [symmetric])
      moreover have "same_chans c (?s c)" by (simp add: same_chans_def)
      ultimately show ?thesis
        using claim_upd [of key True e0 ?s c e fresh claimed wait c'] Some True by simp
    next
      case False
      with Some assms miss show ?thesis
        by (auto simp: lookup_def same_chans_def split: if_splits)
    qed
  qed
qed

lemma serve_arrival_inv:
  assumes "serve_arrival now r c = (t, spawned, c')" "entries_ok c"
  shows "entries_ok c' \<and> length spawned \<le> 1 \<and>
    ((\<exists>key. claimed_from c c' key \<and> (\<forall>k. owners k (t # spawned) = (if k = key then 1 else 0)) \<and>
        (\<forall>u \<in> set (t # spawned). waits_ok c' u)) \<or>
     same_chans c c' \<and> (\<forall>k. owners k (t # spawned) = 0) \<and> (\<forall>u \<in> set (t # spawned). waits_ok c' u))"
proof (cases "cacheable r")
  case False
  with assms show ?thesis by (auto simp: serve_arrival_def same_chans_def)
next
  case True
  obtain e fresh claimed wait c1 where l: "lookup now (cacheKey r) c = ((e, fresh, claimed, wait), c1)"
    by (metis prod.collapse)
  note lc = lookup_cases [OF l]
  from True assms(1) l have "c1 = c'"
    by (auto simp: serve_arrival_def Let_def split: if_splits option.splits)
  with lc assms(2) have "entries_ok c'" by (simp add: entries_ok_def table_ok_def)
  with True assms(1) l lc \<open>c1 = c'\<close> show ?thesis
    by (cases fresh; cases claimed; cases "ce_body e")
      (auto simp: serve_arrival_def Let_def claimed_from_def same_chans_def rcf.awaits_def)
qed

lemma done_key_inv:
  assumes "chan_ok c" "rc_inflight c key = Some ch"
  shows "chan_ok (done_key key c)" "entries_ok (done_key key c) = entries_ok c"
    "rc_inflight (done_key key c) = (rc_inflight c)(key := None)"
    "waits_ok c t \<Longrightarrow> waits_ok (done_key key c) t"
proof -
  have d: "done_from c (done_key key c) key" by (simp add: done_from_def)
  show "chan_ok (done_key key c)"
    using rcf.released_ok [OF d _ assms(2)] assms(1) by (simp add: chan_ok_def)
  show "rc_inflight (done_key key c) = (rc_inflight c)(key := None)" by (rule rcf.released_inflight [OF d])
  show "waits_ok c t \<Longrightarrow> waits_ok (done_key key c) t"
    by (cases t) (auto intro: rcf.awaits_released [OF d _ assms(2)])
  show "entries_ok (done_key key c) = entries_ok c"
    using assms(2) by (simp add: done_key_def entries_ok_def table_ok_def)
qed

lemma flow_inv_alt:
  "flow_inv s \<longleftrightarrow> entries_ok (fl_cache s) \<and> chan_ok (fl_cache s) \<and>
     (\<forall>key. owners key (fl_tasks s) = (if rc_inflight (fl_cache s) key = None then 0 else 1)) \<and>
     (\<forall>t \<in> set (fl_tasks s). waits_ok (fl_cache s) t)"
  by (auto simp: flow_inv_def entries_ok_def)

text \<open>A step that changes one task, keeps the channels and takes or gives up no key.\<close>

lemma flow_inv_task:
  assumes "flow_inv s" "task_at s i u" "entries_ok c'" "same_chans (fl_cache s) c'"
    and "\<And>k. owns k t = owns k u" "waits_ok c' t"
  shows "flow_inv (set_task i t (s\<lparr>fl_cache := c'\<rparr>))"
proof -
  have "owners k ((fl_tasks s)[i := t]) = owners k (fl_tasks s)" for k
    using owners_update [of i "fl_tasks s" k t] assms(2,5) by (auto simp: task_at_def split: if_splits)
  moreover have "\<forall>x \<in> set ((fl_tasks s)[i := t]). waits_ok c' x"
    using assms(1,4,6) set_update_subset_insert [of "fl_tasks s" i t]
    by (auto simp: flow_inv_alt waits_ok_same [OF assms(4)])
  ultimately show ?thesis
    using assms(1,3,4) chan_ok_same [OF assms(4)]
    by (simp add: flow_inv_alt set_task_def same_chans_def)
qed

lemma same_chans_refl [simp]: "same_chans c c"
  by (simp add: same_chans_def)

lemma set_task_same: "set_task i t s = set_task i t (s\<lparr>fl_cache := fl_cache s\<rparr>)"
  by simp

lemma flow_inv_step:
  assumes "flow_step s s'" "flow_inv s"
  shows "flow_inv s'"
  using assms
proof (cases rule: flow_step.cases)
  case (tick d)
  with assms(2) show ?thesis by (simp add: flow_inv_def)
next
  case (arrive r)
  with assms(2) show ?thesis by (simp add: flow_inv_def)
next
  case (serve i r t spawned c)
  have inv: "entries_ok (fl_cache s)" using assms(2) by (simp add: flow_inv_alt)
  let ?ts = "(fl_tasks s)[i := t] @ spawned"
  have own: "owners k ?ts = owners k (fl_tasks s) + owners k (t # spawned)" for k
    using owners_update [of i "fl_tasks s" k t] serve(2) by (auto simp: task_at_def split: if_splits)
  have old: "waits_ok (fl_cache s) u" if "u \<in> set (fl_tasks s)" for u
    using assms(2) that by (simp add: flow_inv_alt)
  have sub: "set ?ts \<subseteq> set (fl_tasks s) \<union> set (t # spawned)"
    using set_update_subset_insert [of "fl_tasks s" i t] by auto
  from serve_arrival_inv [OF serve(3) inv] consider
      key where "claimed_from (fl_cache s) c key" "\<And>k. owners k (t # spawned) = (if k = key then 1 else 0)"
        "\<forall>u \<in> set (t # spawned). waits_ok c u" "entries_ok c"
    | "same_chans (fl_cache s) c" "\<And>k. owners k (t # spawned) = 0"
        "\<forall>u \<in> set (t # spawned). waits_ok c u" "entries_ok c" by blast
  then show ?thesis
  proof cases
    case 1
    have "\<forall>u \<in> set ?ts. waits_ok c u" using sub old 1(1,3) waits_ok_claimed by blast
    moreover have "owners k ?ts = (if rc_inflight c k = None then 0 else 1)" for k
      using assms(2) 1(1) unfolding own 1(2) by (auto simp: flow_inv_alt claimed_from_def)
    ultimately show ?thesis
      using serve(1) 1(4) chan_ok_claimed [OF 1(1)] assms(2) by (simp add: flow_inv_alt)
  next
    case 2
    have "\<forall>u \<in> set ?ts. waits_ok c u" using sub old 2(3) waits_ok_same [OF 2(1)] by blast
    moreover have "owners k ?ts = (if rc_inflight c k = None then 0 else 1)" for k
      using assms(2) 2(1) unfolding own 2(2) by (simp add: flow_inv_alt same_chans_def)
    ultimately show ?thesis
      using serve(1) 2(4) chan_ok_same [OF 2(1)] assms(2) by (simp add: flow_inv_alt)
  qed
next
  case (wake i r key ch)
  show ?thesis
    unfolding wake(1) by (subst set_task_same, rule flow_inv_task [OF assms(2) wake(2)])
      (use assms(2) in \<open>auto simp: flow_inv_alt serve_woken_def split: option.split\<close>)
next
  case (leave i r key ch)
  show ?thesis
    unfolding leave(1) by (subst set_task_same, rule flow_inv_task [OF assms(2) leave(2)])
      (use assms(2) in \<open>auto simp: flow_inv_alt\<close>)
next
  case (compute i r key claimed acts)
  have "entries_ok (fl_cache s)" using assms(2) by (simp add: flow_inv_alt)
  from store_inv [OF this] show ?thesis
    unfolding compute(1) by (intro flow_inv_task [OF assms(2) compute(2)]) (auto simp: after_store_def)
next
  case (panic i r key claimed)
  show ?thesis
    unfolding panic(1) by (subst set_task_same, rule flow_inv_task [OF assms(2) panic(2)])
      (use assms(2) in \<open>auto simp: flow_inv_alt after_store_def\<close>)
next
  case (refresh i r key acts)
  have "entries_ok (fl_cache s)" using assms(2) by (simp add: flow_inv_alt)
  from store_inv [OF this] show ?thesis
    unfolding refresh(1) by (intro flow_inv_task [OF assms(2) refresh(2)]) auto
next
  case (release i key)
  have own: "owners k ((fl_tasks s)[i := Finished Background]) + (if k = key then 1 else 0)
      = owners k (fl_tasks s)" for k
    using owners_update [of i "fl_tasks s" k "Finished Background"] release(2) by (auto simp: task_at_def)
  have "rc_inflight (fl_cache s) key \<noteq> None"
    using own [of key] assms(2) by (auto simp: flow_inv_alt split: if_splits)
  then obtain ch where ch: "rc_inflight (fl_cache s) key = Some ch" by blast
  have ok: "chan_ok (fl_cache s)" using assms(2) by (simp add: flow_inv_alt)
  note d = done_key_inv [OF ok ch]
  have "owners k ((fl_tasks s)[i := Finished Background])
      = (if rc_inflight (done_key key (fl_cache s)) k = None then 0 else 1)" for k
    using own [of k] assms(2) ch by (auto simp: flow_inv_alt d(3) split: if_splits)
  moreover have "\<forall>u \<in> set ((fl_tasks s)[i := Finished Background]). waits_ok (done_key key (fl_cache s)) u"
    using d(4) assms(2) set_update_subset_insert [of "fl_tasks s" i "Finished Background"]
    by (fastforce simp: flow_inv_alt)
  ultimately show ?thesis
    unfolding release(1) using d(1,2) assms(2) by (simp add: flow_inv_alt set_task_def)
qed

lemma flow_inv_init: "flow_inv (flow_init ttl now)"
  by (auto simp: flow_inv_def flow_init_def NewResponseCache_def table_ok_def chan_ok_def chans_ok_def)

lemma flow_reach_inv: "flow_reach s \<Longrightarrow> flow_inv s"
  by (induction rule: flow_reach.induct) (auto intro: flow_inv_init flow_inv_step)

section \<open>Properties\<close>

text \<open>Those who are computing a key, and those of them who do so without having claimed it.\<close>

fun computes :: "string \<Rightarrow> task \<Rightarrow> bool" where
  "computes key (Computing r k claimed) \<longleftrightarrow> k = key"
| "computes key (Refreshing r k) \<longleftrightarrow> k = key"
| "computes key _ \<longleftrightarrow> False"

fun unclaimed :: "string \<Rightarrow> task \<Rightarrow> bool" where
  "unclaimed key (Computing r k claimed) \<longleftrightarrow> \<not> claimed \<and> k = key"
| "unclaimed key _ \<longleftrightarrow> False"

abbreviation computing :: "string \<Rightarrow> flow \<Rightarrow> nat" where
  "computing key s \<equiv> count_of (computes key) (fl_tasks s)"

abbreviation fallen_through :: "string \<Rightarrow> flow \<Rightarrow> nat" where
  "fallen_through key s \<equiv> count_of (unclaimed key) (fl_tasks s)"

lemma computing_owned: "count_of (computes key) ts \<le> owners key ts + count_of (unclaimed key) ts"
proof (induction ts)
  case (Cons t ts)
  then show ?case by (cases "(key, t)" rule: computes.cases) auto
qed (simp add: owners_def)

lemma serve_computes:
  "serve_arrival now r c = (t, spawned, c') \<Longrightarrow>
   count_of (computes key) (t # spawned) = owners key (t # spawned) \<and> count_of (unclaimed key) (t # spawned) = 0"
  by (auto simp: serve_arrival_def Let_def split: if_splits option.splits prod.splits)

lemma serve_claims:
  assumes "serve_arrival now r c = (t, spawned, c')" "entries_ok c"
  shows "owners key (t # spawned) = 0 \<or>
    owners key (t # spawned) = 1 \<and> rc_inflight c key = None \<and> rc_inflight c' key \<noteq> None"
proof -
  from serve_arrival_inv [OF assms] consider
      k' where "claimed_from c c' k'" "\<forall>k. owners k (t # spawned) = (if k = k' then 1 else 0)"
    | "\<forall>k. owners k (t # spawned) = 0" by blast
  then show ?thesis
  proof cases
    case 1
    then show ?thesis by (cases "key = k'") (simp_all add: claimed_from_def del: owners_simps)
  qed blast
qed

text \<open>A task begins to compute a key only by claiming one that is not in flight, or when the claim it
  waited for was released and left nothing in the cache that could be served.\<close>

definition may_begin :: "string \<Rightarrow> flow \<Rightarrow> flow \<Rightarrow> bool" where
  "may_begin key s s' \<longleftrightarrow>
     rc_inflight (fl_cache s) key = None \<and> rc_inflight (fl_cache s') key \<noteq> None \<and>
       fallen_through key s' = fallen_through key s \<or>
     (\<exists>i r ch. task_at s i (Waiting r key ch) \<and> ch \<in> rc_closed (fl_cache s) \<and> get (fl_now s) key (fl_cache s) = None)"

lemma computing_step:
  assumes "flow_step s s'" "flow_inv s"
  shows "computing key s' \<le> computing key s \<or> computing key s' = computing key s + 1 \<and> may_begin key s s'"
proof -
  have upd: "count_of P ((fl_tasks s)[i := u]) + (if P t then 1 else 0) = count_of P (fl_tasks s) + (if P u then 1 else 0)"
    if "task_at s i t" for P i t u
    using count_of_update [of i "fl_tasks s" P u] that by (auto simp: task_at_def)
  from assms(1) show ?thesis
  proof cases
    case (serve i r t spawned c)
    have ok: "entries_ok (fl_cache s)" using assms(2) by (simp add: flow_inv_alt)
    have "count_of P (fl_tasks s') = count_of P (fl_tasks s) + count_of P (t # spawned)"
      if "\<not> P (Arrived r)" for P
      using upd [OF serve(2), of P t] that serve(1) by simp
    then have "computing key s' = computing key s + owners key (t # spawned)"
      "fallen_through key s' = fallen_through key s"
      using serve_computes [OF serve(3), of key] by simp_all
    then show ?thesis
      using serve_claims [OF serve(3) ok, of key] serve(1) by (auto simp: may_begin_def)
  next
    case (wake i r k ch)
    show ?thesis
    proof (cases "k = key \<and> get (fl_now s) key (fl_cache s) = None")
      case True
      then have "may_begin key s s'" using wake(2,3) by (auto simp: may_begin_def)
      then show ?thesis using upd [OF wake(2), of "computes key"] wake(1) True
        by (simp add: set_task_def serve_woken_def)
    next
      case False
      then show ?thesis using upd [OF wake(2), of "computes key"] wake(1)
        by (auto simp: set_task_def serve_woken_def split: option.splits)
    qed
  next
    case (leave i r k ch)
    show ?thesis using upd [OF leave(2), of "computes key" "Finished Cancelled"] leave(1) by (simp add: set_task_def)
  next
    case (compute i r k claimed acts)
    show ?thesis using upd [OF compute(2), of "computes key" "after_store k claimed"] compute(1)
      by (simp add: set_task_def after_store_def split: if_splits)
  next
    case (panic i r k claimed)
    show ?thesis using upd [OF panic(2), of "computes key" "after_store k claimed"] panic(1)
      by (simp add: set_task_def after_store_def split: if_splits)
  next
    case (refresh i r k acts)
    show ?thesis using upd [OF refresh(2), of "computes key" "Releasing k"] refresh(1)
      by (simp add: set_task_def split: if_splits)
  next
    case (release i k)
    show ?thesis using upd [OF release(2), of "computes key" "Finished Background"] release(1) by (simp add: set_task_def)
  qed simp_all
qed

text \<open>
  C36. In every reachable state a key in flight is claimed by exactly one task, which has not
  released it yet, and a key that is not in flight by none. Besides that task a key is only
  computed by tasks that did not claim it, and a step sets at most one more task computing a
  key: either it claims the key, which was not in flight, or it waited for a claim that has
  been released since and finds nothing in the cache to be served. The table holds at most
  \<^verbatim>\<open>cacheMaxEntries\<close> entries.
\<close>

theorem one_computation_per_key:
  assumes "flow_reach s"
  shows "owners key (fl_tasks s) = (if rc_inflight (fl_cache s) key = None then 0 else 1) \<and>
    computing key s \<le> owners key (fl_tasks s) + fallen_through key s \<and>
    (\<forall>s'. flow_step s s' \<longrightarrow>
       computing key s' \<le> computing key s \<or> computing key s' = computing key s + 1 \<and> may_begin key s s') \<and>
    length (rc_entries (fl_cache s)) \<le> cacheMaxEntries"
proof -
  note inv = flow_reach_inv [OF assms]
  then show ?thesis
    using computing_owned [of key "fl_tasks s"] computing_step [of s _ key] unfolding flow_inv_def table_ok_def by blast
qed

text \<open>The steps an owner has left always end with its key released.\<close>

lemma release_closes:
  assumes "flow_inv s" "task_at s j (Releasing key)" "rc_inflight (fl_cache s) key = Some ch"
    "task_at s i t" "i \<noteq> j"
  shows "\<exists>s'. flow_step s s' \<and> task_at s' i t \<and> ch \<in> rc_closed (fl_cache s')"
proof -
  let ?s = "set_task j (Finished Background) (s\<lparr>fl_cache := done_key key (fl_cache s)\<rparr>)"
  have "flow_step s ?s" using assms(2) by (rule flow_step.release)
  moreover have "task_at ?s i t" using assms(4,5) by (simp add: task_at_def set_task_def)
  moreover have "ch \<in> rc_closed (fl_cache ?s)"
    using rcf.release_wakes [OF _ assms(3)] by (simp add: set_task_def done_from_def)
  ultimately show ?thesis by blast
qed

lemma owner_exists:
  assumes "flow_inv s" "rc_inflight (fl_cache s) key \<noteq> None"
  obtains j u where "task_at s j u" "owns key u"
proof -
  have "owners key (fl_tasks s) = 1" using assms by (simp add: flow_inv_def)
  then have "0 < count_of (owns key) (fl_tasks s)" by (simp add: owners_def)
  then obtain j where "j < length (fl_tasks s)" "owns key (fl_tasks s ! j)"
    using count_of_pos by blast
  then show ?thesis by (intro that [of j "fl_tasks s ! j"]) (simp_all add: task_at_def)
qed

text \<open>
  No waiter is ever stranded: from any reachable state in which a task waits for a
  key, steps of the task computing that key alone, even one whose handler panics,
  lead to a state where the channel it waits on is closed.
\<close>

theorem waiters_can_be_woken:
  assumes "flow_reach s" "task_at s i (Waiting r key ch)"
  shows "\<exists>s'. flow_step\<^sup>*\<^sup>* s s' \<and> task_at s' i (Waiting r key ch) \<and> ch \<in> rc_closed (fl_cache s')"
proof (cases "ch \<in> rc_closed (fl_cache s)")
  case True
  with assms(2) show ?thesis by blast
next
  case False
  have inv: "flow_inv s" using assms(1) by (rule flow_reach_inv)
  have "waits_ok (fl_cache s) (Waiting r key ch)"
    using inv assms(2) unfolding flow_inv_def task_at_def by (metis nth_mem)
  with False have inf: "rc_inflight (fl_cache s) key = Some ch" by (simp add: rcf.awaits_def)
  then obtain j u where j: "task_at s j u" "owns key u"
    by (metis owner_exists [OF inv] option.distinct(1))
  have ij: "i \<noteq> j" using j assms(2) by (auto simp: task_at_def)
  show ?thesis
  proof (cases "u = Releasing key")
    case True
    with release_closes [OF inv _ inf assms(2) ij] j show ?thesis by blast
  next
    case False
    let ?s = "set_task j (Releasing key) s"
    obtain s1 where s1: "flow_step s s1" "task_at s1 j (Releasing key)" "task_at s1 i (Waiting r key ch)"
      "rc_inflight (fl_cache s1) key = Some ch"
    proof (cases u)
      case (Computing r' k claimed)
      with j have "flow_step s (set_task j (after_store key True) s)"
        by (auto intro: flow_step.panic)
      then show ?thesis
        using that [of "set_task j (after_store key True) s"] j assms(2) ij inf
        by (simp add: task_at_def set_task_def after_store_def)
    next
      case (Refreshing r' k)
      with j have "flow_step s (set_task j (Releasing key)
          (s\<lparr>fl_cache := store (fl_now s) key r' (run_handler []) (fl_cache s)\<rparr>))"
        by (auto intro: flow_step.refresh)
      moreover have "store (fl_now s) key r' (run_handler []) (fl_cache s) = fl_cache s"
        by (simp add: store_def run_handler_def new_writer_def)
      ultimately show ?thesis
        using that [of ?s] j assms(2) ij inf by (simp add: task_at_def set_task_def)
    qed (use j False in auto)
    have inv1: "flow_inv s1" using s1(1) inv by (rule flow_inv_step)
    from release_closes [OF inv1 s1(2,4,3) ij] s1(1) show ?thesis
      by (meson converse_rtranclp_into_rtranclp r_into_rtranclp)
  qed
qed

text \<open>What a task served from the cache got.\<close>

fun served_ok :: "task \<Rightarrow> bool" where
  "served_ok (Finished (From_cache e a st)) \<longleftrightarrow>
     ce_body e \<noteq> None \<and> a \<le> ce_ttl e + CacheStaleGrace \<and>
     (st = ''HIT'' \<longrightarrow> a \<le> ce_ttl e) \<and> (st = ''STALE'' \<longrightarrow> ce_ttl e < a)"
| "served_ok _ \<longleftrightarrow> True"

lemma entry_body: "entries_ok c \<Longrightarrow> map_of (rc_entries c) key = Some e \<Longrightarrow> ce_body e \<noteq> None"
  by (auto simp: entries_ok_def dest!: map_of_SomeD)

lemma serve_arrival_served:
  assumes "serve_arrival now r c = (t, spawned, c')" "entries_ok c"
  shows "\<forall>u \<in> set (t # spawned). served_ok u"
proof (cases "cacheable r")
  case False
  with assms show ?thesis by (auto simp: serve_arrival_def)
next
  case True
  obtain e fresh claimed wait c1 where l: "lookup now (cacheKey r) c = ((e, fresh, claimed, wait), c1)"
    by (metis prod.collapse)
  note lc = lookup_cases [OF l]
  have zero: "e = zero_entry \<Longrightarrow> ce_body e = None" by (simp add: zero_entry_def)
  have "fresh \<Longrightarrow> ce_body e \<noteq> None" using lc entry_body [OF assms(2)] by blast
  with zero True assms l lc show ?thesis
    by (cases fresh; cases claimed; cases "ce_body e")
      (auto simp: serve_arrival_def Let_def usable_def entries_ok_def)
qed

lemma serve_woken_served:
  assumes "entries_ok c"
  shows "served_ok (serve_woken now r key c)"
  using entry_body [OF assms] assms
  by (auto simp: serve_woken_def get_def entries_ok_def split: option.splits)

lemma served_ok_step:
  assumes "flow_step s s'" "flow_inv s" "\<forall>t \<in> set (fl_tasks s). served_ok t"
  shows "\<forall>t \<in> set (fl_tasks s'). served_ok t"
proof -
  have ok: "entries_ok (fl_cache s)" using assms(2) by (simp add: flow_inv_alt)
  have upd: "\<forall>t \<in> set ((fl_tasks s)[i := u]). served_ok t" if "served_ok u" for i u
    using assms(3) that set_update_subset_insert [of "fl_tasks s" i u] by blast
  from assms(1) show ?thesis
  proof cases
    case (serve i r t spawned c)
    from serve_arrival_served [OF serve(3) ok] upd [of t i] serve(1) show ?thesis by auto
  next
    case (wake i r key ch)
    from upd [OF serve_woken_served [OF ok]] wake(1) show ?thesis by (simp add: set_task_def)
  next
    case (leave i r key ch)
    from upd [of "Finished Cancelled" i] leave(1) show ?thesis by (simp add: set_task_def)
  next
    case (compute i r key claimed acts)
    from upd [of "after_store key claimed" i] compute(1) show ?thesis
      by (simp add: set_task_def after_store_def)
  next
    case (panic i r key claimed)
    from upd [of "after_store key claimed" i] panic(1) show ?thesis
      by (simp add: set_task_def after_store_def)
  next
    case (refresh i r key acts)
    from upd [of "Releasing key" i] refresh(1) show ?thesis by (simp add: set_task_def)
  next
    case (release i key)
    from upd [of "Finished Background" i] release(1) show ?thesis by (simp add: set_task_def)
  qed (use assms(3) in auto)
qed

text \<open>
  Nobody is shown a response older than its freshness window plus the stale grace:
  a \<^verbatim>\<open>HIT\<close> is within the window, a \<^verbatim>\<open>STALE\<close> answer past it, and none is beyond the grace.
\<close>

theorem served_within_the_window:
  assumes "flow_reach s" "task_at s i (Finished (From_cache e a st))"
  shows "a \<le> ce_ttl e + CacheStaleGrace \<and> (st = ''HIT'' \<longrightarrow> a \<le> ce_ttl e) \<and>
    (st = ''STALE'' \<longrightarrow> ce_ttl e < a)"
proof -
  have "\<forall>t \<in> set (fl_tasks s). served_ok t"
    using assms(1)
  proof (induction rule: flow_reach.induct)
    case (init ttl now)
    then show ?case by (simp add: flow_init_def)
  next
    case (step s s')
    from served_ok_step [OF step(2) flow_reach_inv [OF step(1)] step.IH] show ?case .
  qed
  with assms(2) have "served_ok (Finished (From_cache e a st))"
    unfolding task_at_def by (metis nth_mem)
  then show ?thesis by simp
qed

section \<open>Witnesses\<close>

text \<open>Two requests for one cold key: the first computes, the second waits.\<close>

definition two_requests :: flow where
  "two_requests =
     (let c0 = NewResponseCache CacheTTL; k = cacheKey demo_request;
          (t1, _, c1) = serve_arrival 0 demo_request c0;
          (t2, _, c2) = serve_arrival 0 demo_request c1
      in \<lparr>fl_cache = c2, fl_now = 0, fl_tasks = [t1, t2]\<rparr>)"

lemma demo_miss:
  "serve_arrival 0 demo_request (NewResponseCache CacheTTL) =
     (Computing demo_request (cacheKey demo_request) True, [],
      (NewResponseCache CacheTTL)\<lparr>rc_inflight := [cacheKey demo_request \<mapsto> 0], rc_next := Suc 0, rc_misses := Suc 0\<rparr>)"
  by (simp add: serve_arrival_def cacheable_def demo_request_def PageViewPath_def BadgePrefix_def
      lookup_def claim_def NewResponseCache_def zero_entry_def has_prefix_def Let_def)

lemma demo_wait:
  "serve_arrival 0 demo_request
     ((NewResponseCache CacheTTL)\<lparr>rc_inflight := [cacheKey demo_request \<mapsto> 0], rc_next := Suc 0, rc_misses := Suc 0\<rparr>) =
     (Waiting demo_request (cacheKey demo_request) 0, [],
      (NewResponseCache CacheTTL)\<lparr>rc_inflight := [cacheKey demo_request \<mapsto> 0], rc_next := Suc 0,
        rc_misses := Suc (Suc 0), rc_coalesced := Suc 0\<rparr>)"
  by (simp add: serve_arrival_def cacheable_def demo_request_def PageViewPath_def BadgePrefix_def
      lookup_def claim_def NewResponseCache_def zero_entry_def has_prefix_def Let_def)

lemma two_requests_tasks:
  "fl_tasks two_requests =
     [Computing demo_request (cacheKey demo_request) True, Waiting demo_request (cacheKey demo_request) 0]"
  by (simp add: two_requests_def demo_miss demo_wait Let_def)

definition cold_cache :: response_cache where
  "cold_cache = (NewResponseCache CacheTTL)
     \<lparr>rc_inflight := [cacheKey demo_request \<mapsto> 0], rc_next := Suc 0, rc_misses := Suc 0\<rparr>"

abbreviation at_zero :: "response_cache \<Rightarrow> task list \<Rightarrow> flow" where
  "at_zero c ts \<equiv> \<lparr>fl_cache = c, fl_now = 0, fl_tasks = ts\<rparr>"

lemma reach_served:
  assumes "flow_reach (at_zero c ts)" "serve_arrival 0 demo_request c = (t, [], c')"
  shows "flow_reach (at_zero c' (ts @ [t]))"
proof -
  have "flow_step (at_zero c ts) (at_zero c (ts @ [Arrived demo_request]))"
    using flow_step.arrive [of "at_zero c ts" demo_request] by simp
  with assms(1) have "flow_reach (at_zero c (ts @ [Arrived demo_request]))" by (rule flow_reach.step)
  moreover have "flow_step (at_zero c (ts @ [Arrived demo_request])) (at_zero c' (ts @ [t]))"
    using flow_step.serve [of "at_zero c (ts @ [Arrived demo_request])" "length ts" demo_request t "[]" c']
      assms(2) by (simp add: task_at_def)
  ultimately show ?thesis by (rule flow_reach.step)
qed

lemma first_request_reachable:
  "flow_reach (at_zero cold_cache [Computing demo_request (cacheKey demo_request) True])"
proof -
  have "flow_reach (at_zero (NewResponseCache CacheTTL) [])"
    using flow_reach.init [of CacheTTL 0] by (simp add: flow_init_def CacheTTL_def seconds_def)
  from reach_served [OF this demo_miss] show ?thesis by (simp add: cold_cache_def)
qed

lemma two_requests_reachable: "flow_reach two_requests"
  using reach_served [OF first_request_reachable demo_wait [folded cold_cache_def]]
  by (simp add: two_requests_def demo_miss demo_wait Let_def cold_cache_def)

theorem one_computation_per_key_witness:
  "owners (cacheKey demo_request) (fl_tasks two_requests) = 1 \<and> computing (cacheKey demo_request) two_requests \<le> 1"
  using one_computation_per_key [OF two_requests_reachable, of "cacheKey demo_request"]
  by (simp add: two_requests_tasks)

theorem waiters_can_be_woken_witness:
  "\<exists>s'. flow_step\<^sup>*\<^sup>* two_requests s' \<and> 0 \<in> rc_closed (fl_cache s')"
  using waiters_can_be_woken [OF two_requests_reachable, of 1 demo_request "cacheKey demo_request" 0]
  by (auto simp: task_at_def two_requests_tasks)

text \<open>The first request completes, and a third one is served what it stored.\<close>

definition demo_entry :: cache_entry where
  "demo_entry = zero_entry\<lparr>ce_body := Some ''{}'', ce_ttl := CacheTTL\<rparr>"

definition warm_cache :: response_cache where
  "warm_cache = (NewResponseCache CacheTTL)\<lparr>rc_inflight := [cacheKey demo_request \<mapsto> 0],
     rc_next := Suc 0, rc_misses := Suc 0, rc_entries := [(cacheKey demo_request, demo_entry)]\<rparr>"

lemma demo_store:
  "store 0 (cacheKey demo_request) demo_request (run_handler [Send ''{}''])
     ((NewResponseCache CacheTTL)\<lparr>rc_inflight := [cacheKey demo_request \<mapsto> 0], rc_next := Suc 0, rc_misses := Suc 0\<rparr>)
   = warm_cache"
proof -
  have "endpointTTL ''/api/tx/a/b'' = None" by (simp add: endpointTTL_def CodeTreePath_def)
  then have "ttlForRequest ((NewResponseCache CacheTTL)\<lparr>rc_inflight := [cacheKey demo_request \<mapsto> 0],
      rc_next := Suc 0, rc_misses := Suc 0\<rparr>) demo_request = CacheTTL"
    by (simp add: ttlForRequest_def cacheTTLFor_def demo_request_def SourcePrefix_def has_prefix_def
        NewResponseCache_def)
  then show ?thesis
    by (simp add: store_def run_handler_def cw_Write_def new_writer_def cacheMaxBodyBytes_def put_def
        Let_def warm_cache_def demo_entry_def zero_entry_def NewResponseCache_def cacheMaxEntries_def)
qed

lemma demo_hit:
  "serve_arrival 0 demo_request warm_cache =
     (Finished (From_cache demo_entry 0 ''HIT''), [], warm_cache\<lparr>rc_hits := Suc 0\<rparr>)"
  by (simp add: serve_arrival_def cacheable_def demo_request_def PageViewPath_def BadgePrefix_def
      lookup_def claim_def NewResponseCache_def zero_entry_def has_prefix_def Let_def warm_cache_def
      demo_entry_def usable_def age_def CacheTTL_def CacheStaleGrace_def seconds_def minutes_def)

lemma third_request_reachable:
  "flow_reach (at_zero (warm_cache\<lparr>rc_hits := Suc 0\<rparr>)
     [Releasing (cacheKey demo_request), Finished (From_cache demo_entry 0 ''HIT'')])"
proof -
  let ?s = "at_zero cold_cache [Computing demo_request (cacheKey demo_request) True]"
  have "flow_step ?s (at_zero warm_cache [Releasing (cacheKey demo_request)])"
    using flow_step.compute [of ?s 0 demo_request "cacheKey demo_request" True "[Send ''{}'']"]
      demo_store by (simp add: task_at_def set_task_def after_store_def cold_cache_def)
  with first_request_reachable
  have "flow_reach (at_zero warm_cache [Releasing (cacheKey demo_request)])" by (rule flow_reach.step)
  from reach_served [OF this demo_hit] show ?thesis by simp
qed

theorem served_within_the_window_witness: "(0 :: int) \<le> ce_ttl demo_entry"
  using served_within_the_window [OF third_request_reachable, of 1 demo_entry 0 "''HIT''"]
  by (simp add: task_at_def)

end
