(* ===== verification/Memo_Cache.thy ===== *)
theory Memo_Cache
  imports Main Single_Flight
begin

text \<open>
  The value cache \<^verbatim>\<open>memo\<close> of \<^verbatim>\<open>pkg/httpapi/memo.go\<close>: successes are served for a time,
  failures hold retries off while the last good value is still served, and callers of
  one key share one fetch.

  \<open>memo_head\<close>, \<open>memo_woken\<close> and \<open>memo_land\<close> are the bodies of the three sections of
  \<^verbatim>\<open>get\<close> that run under the mutex. The mutex itself is in the model, because one path of
  \<^verbatim>\<open>get\<close> reaches the code after the first section without holding it. The type \<open>'v\<close> is
  the value type, \<open>z\<close> its zero value. A fetch returns a value and whether it is good; there
  is no step for one that panics, which would leave its key in flight for ever, since
  nothing of \<^verbatim>\<open>get\<close> is deferred.
\<close>

section \<open>State\<close>

record 'v memo_entry =
  me_val :: 'v
  me_good :: bool
  me_retry :: int

record 'v memo =
  m_entries :: "string \<rightharpoonup> 'v memo_entry"
  m_inflight :: "string \<rightharpoonup> nat"
  m_ttl :: int
  m_neg :: int
  m_closed :: "nat set"
  m_next :: nat
  m_locked :: bool
  m_crashed :: bool

definition newMemo :: "int \<Rightarrow> int \<Rightarrow> 'v memo" where
  "newMemo ttl neg =
     \<lparr>m_entries = Map.empty, m_inflight = Map.empty, m_ttl = ttl, m_neg = neg, m_closed = {},
      m_next = 0, m_locked = False, m_crashed = False\<rparr>"

definition zero_memo :: "'v \<Rightarrow> 'v memo_entry" where
  "zero_memo z = \<lparr>me_val = z, me_good = False, me_retry = 0\<rparr>"

text \<open>\<^verbatim>\<open>m.mu.Unlock()\<close>: unlocking a mutex that is not locked is a fatal error.\<close>

definition unlock :: "'v memo \<Rightarrow> 'v memo" where
  "unlock m = (if m_locked m then m\<lparr>m_locked := False\<rparr> else m\<lparr>m_crashed := True\<rparr>)"

section \<open>The sections of get\<close>

datatype 'v head_result =
    Serve 'v
  | Wait "'v memo_entry" nat
  | Lead "'v memo_entry" nat

definition claim_memo :: "string \<Rightarrow> 'v memo \<Rightarrow> 'v memo" where
  "claim_memo key m = m\<lparr>m_inflight := (m_inflight m)(key \<mapsto> m_next m), m_next := Suc (m_next m)\<rparr>"

definition memo_head :: "'v \<Rightarrow> int \<Rightarrow> string \<Rightarrow> 'v memo \<Rightarrow> 'v head_result \<times> 'v memo" where
  "memo_head z now key m =
     (let held = (m_entries m key \<noteq> None);
          entry = (case m_entries m key of Some e \<Rightarrow> e | None \<Rightarrow> zero_memo z)
      in if held \<and> now < me_retry entry then (Serve (me_val entry), m)
         else case m_inflight m key of
             Some ch \<Rightarrow> (Wait entry ch, m)
           | None \<Rightarrow> (Lead entry (m_next m), claim_memo key m))"

text \<open>After a wake-up: the value to return, or whether somebody is still running.\<close>

definition memo_woken :: "int \<Rightarrow> string \<Rightarrow> 'v memo \<Rightarrow> 'v + bool" where
  "memo_woken now key m =
     (case m_entries m key of
        Some next \<Rightarrow>
          if me_good next \<or> now < me_retry next then Inl (me_val next)
          else Inr (m_inflight m key \<noteq> None)
      | None \<Rightarrow> Inr (m_inflight m key \<noteq> None))"

definition landed :: "int \<Rightarrow> 'v \<Rightarrow> bool \<Rightarrow> 'v memo_entry \<Rightarrow> 'v memo \<Rightarrow> 'v memo_entry" where
  "landed now val ok entry m =
     (if ok then \<lparr>me_val = val, me_good = True, me_retry = now + m_ttl m\<rparr>
      else if me_good entry then entry\<lparr>me_retry := now + m_neg m\<rparr>
      else \<lparr>me_val = val, me_good = False, me_retry = now + m_neg m\<rparr>)"

definition release_memo :: "string \<Rightarrow> nat \<Rightarrow> 'v memo \<Rightarrow> 'v memo" where
  "release_memo key ch m =
     m\<lparr>m_inflight := (m_inflight m)(key := None), m_closed := insert ch (m_closed m)\<rparr>"

definition memo_land ::
  "int \<Rightarrow> string \<Rightarrow> nat \<Rightarrow> 'v \<Rightarrow> bool \<Rightarrow> 'v memo_entry \<Rightarrow> 'v memo \<Rightarrow> 'v \<times> 'v memo" where
  "memo_land now key ch val ok entry m =
     (let entry = landed now val ok entry m;
          m = m\<lparr>m_entries := (m_entries m)(key \<mapsto> entry)\<rparr>
      in (me_val entry, release_memo key ch m))"

definition memo_reset :: "'v memo \<Rightarrow> 'v memo" where
  "memo_reset m = m\<lparr>m_entries := Map.empty\<rparr>"

definition memo_expireAll :: "int \<Rightarrow> 'v memo \<Rightarrow> 'v memo" where
  "memo_expireAll now m =
     m\<lparr>m_entries := (\<lambda>k. map_option (\<lambda>e. e\<lparr>me_retry := now - 1000000000\<rparr>) (m_entries m k))\<rparr>"

definition memo_peek :: "'v \<Rightarrow> string \<Rightarrow> 'v memo \<Rightarrow> 'v \<times> bool" where
  "memo_peek z key m =
     (case m_entries m key of Some e \<Rightarrow> (me_val e, me_good e) | None \<Rightarrow> (z, False))"

section \<open>One caller at a time\<close>

text \<open>
  \<^verbatim>\<open>get\<close> with nobody else around: \<open>now\<close> and \<open>later\<close> are the times before and after the
  fetch, whose outcome is \<open>(val, ok)\<close>. The result says whether the fetch was run.
\<close>

definition memo_get :: "'v \<Rightarrow> int \<Rightarrow> int \<Rightarrow> string \<Rightarrow> 'v \<times> bool \<Rightarrow> 'v memo \<Rightarrow> 'v \<times> bool \<times> 'v memo" where
  "memo_get z now later key fetched m =
     (case memo_head z now key m of
        (Serve v, m) \<Rightarrow> (v, False, m)
      | (Wait e ch, m) \<Rightarrow> (me_val e, False, m)
      | (Lead e ch, m) \<Rightarrow>
          (case memo_land later key ch (fst fetched) (snd fetched) e m of (v, m) \<Rightarrow> (v, True, m)))"

lemma memo_get_lead:
  fixes z :: 'v and later :: int and fetched :: "'v \<times> bool"
  assumes "m_inflight m key = None" "\<forall>e. m_entries m key = Some e \<longrightarrow> me_retry e \<le> now"
  defines "e \<equiv> landed later (fst fetched) (snd fetched)
    (case m_entries m key of Some e \<Rightarrow> e | None \<Rightarrow> zero_memo z) m"
  shows "\<exists>m'. memo_get z now later key fetched m = (me_val e, True, m') \<and> m_entries m' key = Some e \<and>
    m_inflight m' key = None \<and> m_ttl m' = m_ttl m \<and> m_neg m' = m_neg m"
  using assms(1,2) unfolding e_def
  by (cases "m_entries m key")
    (auto simp: memo_get_def memo_head_def memo_land_def release_memo_def claim_memo_def Let_def
      landed_def)

lemma memo_get_served:
  "m_entries m key = Some e \<Longrightarrow> now < me_retry e \<Longrightarrow>
   memo_get z now later key fetched m = (me_val e, False, m)"
  by (simp add: memo_get_def memo_head_def)

text \<open>
  A successful fetch is returned, and then served without fetching until the
  success lifetime has passed.
\<close>

theorem memo_success_is_served:
  assumes "m_inflight m key = None" "\<forall>e. m_entries m key = Some e \<longrightarrow> me_retry e \<le> t0"
  shows "\<exists>m'. memo_get z t0 t1 key (v, True) m = (v, True, m') \<and>
    (\<forall>t2 t3 f. t2 < t1 + m_ttl m \<longrightarrow> memo_get z t2 t3 key f m' = (v, False, m'))"
proof -
  from memo_get_lead [OF assms, of z t1 "(v, True)"] obtain m' where
    "memo_get z t0 t1 key (v, True) m = (v, True, m')"
    "m_entries m' key = Some \<lparr>me_val = v, me_good = True, me_retry = t1 + m_ttl m\<rparr>"
    by (auto simp: landed_def)
  then show ?thesis using memo_get_served [of m' key _ _ z] by fastforce
qed

text \<open>
  A failed fetch neither blanks out the last good value nor is retried: the value
  is returned, and served without fetching until the failure lifetime has passed.
\<close>

theorem memo_failure_keeps_last_good:
  assumes "m_inflight m key = None" "m_entries m key = Some e" "me_good e" "me_retry e \<le> t0"
  shows "\<exists>m'. memo_get z t0 t1 key (bad, False) m = (me_val e, True, m') \<and>
    memo_peek z key m' = (me_val e, True) \<and>
    (\<forall>t2 t3 f. t2 < t1 + m_neg m \<longrightarrow> memo_get z t2 t3 key f m' = (me_val e, False, m'))"
proof -
  have "\<forall>e. m_entries m key = Some e \<longrightarrow> me_retry e \<le> t0" using assms(2,4) by simp
  from memo_get_lead [OF assms(1) this, of z t1 "(bad, False)"] assms(2,3) obtain m' where
    "memo_get z t0 t1 key (bad, False) m = (me_val e, True, m')"
    "m_entries m' key = Some (e\<lparr>me_retry := t1 + m_neg m\<rparr>)"
    by (auto simp: landed_def)
  with assms(3) show ?thesis using memo_get_served [of m' key _ _ z]
    by (fastforce simp: memo_peek_def)
qed

section \<open>Callers together\<close>

text \<open>
  Where a call of \<^verbatim>\<open>get\<close> stands. \<open>At\<close> states wait for the mutex, \<open>In\<close> states hold it.
  \<open>Fallen\<close> is the woken caller that leaves the \<^verbatim>\<open>select\<close> to run the code after it, as if it
  still held the mutex; \<open>Unlocking\<close> has written \<^verbatim>\<open>m.inflight\<close> and is about to unlock.
\<close>

datatype 'v caller =
    At_head
  | In_head
  | Blocked "'v memo_entry" nat
  | At_woken "'v memo_entry"
  | In_woken "'v memo_entry"
  | Fallen "'v memo_entry"
  | Unlocking "'v memo_entry" nat
  | Fetching "'v memo_entry" nat
  | At_land "'v memo_entry" nat 'v bool
  | In_land "'v memo_entry" nat 'v bool
  | Returned 'v

record 'v memo_sys =
  ms_memo :: "'v memo"
  ms_now :: int
  ms_calls :: "(string \<times> 'v caller) list"
  ms_fell :: bool

fun enter :: "'v caller \<Rightarrow> 'v caller option" where
  "enter At_head = Some In_head"
| "enter (At_woken e) = Some (In_woken e)"
| "enter (At_land e ch v ok) = Some (In_land e ch v ok)"
| "enter _ = None"

definition after_head :: "'v head_result \<Rightarrow> 'v caller" where
  "after_head r = (case r of Serve v \<Rightarrow> Returned v | Wait e ch \<Rightarrow> Blocked e ch | Lead e ch \<Rightarrow> Fetching e ch)"

definition after_woken :: "'v memo_entry \<Rightarrow> 'v + bool \<Rightarrow> 'v caller" where
  "after_woken e r = (case r of Inl v \<Rightarrow> Returned v | Inr running \<Rightarrow> if running then At_head else Fallen e)"

definition call_at :: "'v memo_sys \<Rightarrow> nat \<Rightarrow> string \<Rightarrow> 'v caller \<Rightarrow> bool" where
  "call_at s i key p \<longleftrightarrow> i < length (ms_calls s) \<and> ms_calls s ! i = (key, p)"

definition set_call :: "nat \<Rightarrow> string \<Rightarrow> 'v caller \<Rightarrow> 'v memo \<Rightarrow> 'v memo_sys \<Rightarrow> 'v memo_sys" where
  "set_call i key p m s = s\<lparr>ms_memo := m, ms_calls := (ms_calls s)[i := (key, p)]\<rparr>"

inductive memo_step :: "'v \<Rightarrow> 'v memo_sys \<Rightarrow> 'v memo_sys \<Rightarrow> bool" for z where
  tick: "0 \<le> d \<Longrightarrow> memo_step z s (s\<lparr>ms_now := ms_now s + d\<rparr>)"
| call: "memo_step z s (s\<lparr>ms_calls := ms_calls s @ [(key, At_head)]\<rparr>)"
| lock: "call_at s i key p \<Longrightarrow> enter p = Some q \<Longrightarrow> \<not> m_locked (ms_memo s) \<Longrightarrow>
    memo_step z s (set_call i key q ((ms_memo s)\<lparr>m_locked := True\<rparr>) s)"
| head: "call_at s i key In_head \<Longrightarrow> memo_head z (ms_now s) key (ms_memo s) = (r, m) \<Longrightarrow>
    memo_step z s (set_call i key (after_head r) (unlock m) s)"
| wake: "call_at s i key (Blocked e ch) \<Longrightarrow> ch \<in> m_closed (ms_memo s) \<Longrightarrow>
    memo_step z s (set_call i key (At_woken e) (ms_memo s) s)"
| leave: "call_at s i key (Blocked e ch) \<Longrightarrow>
    memo_step z s (set_call i key (Returned (me_val e)) (ms_memo s) s)"
| woken: "call_at s i key (In_woken e) \<Longrightarrow> memo_woken (ms_now s) key (ms_memo s) = r \<Longrightarrow>
    memo_step z s ((set_call i key (after_woken e r) (unlock (ms_memo s)) s)
      \<lparr>ms_fell := ms_fell s \<or> r = Inr False\<rparr>)"
| fall: "call_at s i key (Fallen e) \<Longrightarrow>
    memo_step z s (set_call i key (Unlocking e (m_next (ms_memo s))) (claim_memo key (ms_memo s)) s)"
| fall_unlock: "call_at s i key (Unlocking e ch) \<Longrightarrow>
    memo_step z s (set_call i key (Fetching e ch) (unlock (ms_memo s)) s)"
| fetch: "call_at s i key (Fetching e ch) \<Longrightarrow>
    memo_step z s (set_call i key (At_land e ch v ok) (ms_memo s) s)"
| land: "call_at s i key (In_land e ch v ok) \<Longrightarrow>
    memo_land (ms_now s) key ch v ok e (ms_memo s) = (v', m) \<Longrightarrow>
    memo_step z s (set_call i key (Returned v') (unlock m) s)"

inductive_cases memo_stepE: "memo_step z s s'"

text \<open>A process that has crashed takes no further step.\<close>

inductive memo_reach :: "'v \<Rightarrow> int \<Rightarrow> int \<Rightarrow> 'v memo_sys \<Rightarrow> bool" for z ttl neg where
  init: "memo_reach z ttl neg \<lparr>ms_memo = newMemo ttl neg, ms_now = 0, ms_calls = [], ms_fell = False\<rparr>"
| step: "memo_reach z ttl neg s \<Longrightarrow> \<not> m_crashed (ms_memo s) \<Longrightarrow> memo_step z s s' \<Longrightarrow>
    memo_reach z ttl neg s'"

section \<open>A run that crashes\<close>

text \<open>
  Two callers of one cold key. The first leads and its fetch fails; the second wakes
  when the failure's lifetime is over, finds nothing it may serve and nobody running,
  and runs on to unlock a mutex it does not hold.
\<close>

definition calls_sys :: "'v memo \<Rightarrow> int \<Rightarrow> 'v caller list \<Rightarrow> bool \<Rightarrow> 'v memo_sys" where
  "calls_sys m now ps b = \<lparr>ms_memo = m, ms_now = now, ms_calls = map (Pair ''k'') ps, ms_fell = b\<rparr>"

lemma reach_next:
  "memo_reach z ttl neg s \<Longrightarrow> memo_step z s s' \<Longrightarrow> \<not> m_crashed (ms_memo s) \<Longrightarrow> memo_reach z ttl neg s'"
  by (rule memo_reach.step)

lemma reach_head:
  assumes "memo_reach z ttl neg (calls_sys m now ps b)" "i < length ps" "ps ! i = At_head"
    and "\<not> m_locked m" "\<not> m_crashed m"
    and "memo_head z now ''k'' (m\<lparr>m_locked := True\<rparr>) = (r, m'\<lparr>m_locked := True\<rparr>)" "\<not> m_locked m'"
    "m_crashed m' = m_crashed m"
  shows "memo_reach z ttl neg (calls_sys m' now (ps[i := after_head r]) b)"
proof -
  let ?s = "calls_sys m now ps b"
  have "memo_step z ?s (calls_sys (m\<lparr>m_locked := True\<rparr>) now (ps[i := In_head]) b)"
    using memo_step.lock [of ?s i "''k''" At_head In_head z] assms(2-4)
    by (simp add: calls_sys_def call_at_def set_call_def map_update)
  with assms(1,5) have 1: "memo_reach z ttl neg (calls_sys (m\<lparr>m_locked := True\<rparr>) now (ps[i := In_head]) b)"
    by (auto simp: calls_sys_def intro: memo_reach.step)
  have "unlock (m'\<lparr>m_locked := True\<rparr>) = m'" using assms(7) by (simp add: unlock_def)
  then have "memo_step z (calls_sys (m\<lparr>m_locked := True\<rparr>) now (ps[i := In_head]) b)
      (calls_sys m' now (ps[i := after_head r]) b)"
    using memo_step.head [of "calls_sys (m\<lparr>m_locked := True\<rparr>) now (ps[i := In_head]) b" i "''k''" z r
        "m'\<lparr>m_locked := True\<rparr>"] assms(2,6)
    by (simp add: calls_sys_def call_at_def set_call_def map_update)
  with 1 assms(5) show ?thesis by (auto simp: calls_sys_def intro: memo_reach.step)
qed

text \<open>The three states of the memo along the run.\<close>

definition cold :: "int \<Rightarrow> int \<Rightarrow> 'v memo" where
  "cold ttl neg = claim_memo ''k'' (newMemo ttl neg)"

definition failed :: "'v \<Rightarrow> int \<Rightarrow> int \<Rightarrow> 'v memo" where
  "failed z ttl neg = (newMemo ttl neg)\<lparr>m_next := 1, m_closed := {0},
     m_entries := [''k'' \<mapsto> \<lparr>me_val = z, me_good = False, me_retry = neg\<rparr>]\<rparr>"

lemma reach_waiting:
  "memo_reach z ttl neg (calls_sys (cold ttl neg) 0 [Fetching (zero_memo z) 0, Blocked (zero_memo z) 0] False)"
proof -
  let ?m = "newMemo ttl neg"
  have "memo_reach z ttl neg (calls_sys ?m 0 [] False)"
    using memo_reach.init by (simp add: calls_sys_def)
  then have "memo_reach z ttl neg (calls_sys ?m 0 [At_head] False)"
    by (rule memo_reach.step)
      (use memo_step.call [of z "calls_sys ?m 0 [] False" "''k''"] in \<open>auto simp: calls_sys_def newMemo_def\<close>)
  then have "memo_reach z ttl neg (calls_sys ?m 0 [At_head, At_head] False)"
    by (rule memo_reach.step)
      (use memo_step.call [of z "calls_sys ?m 0 [At_head] False" "''k''"] in \<open>auto simp: calls_sys_def newMemo_def\<close>)
  from reach_head [OF this, of 0 "Lead (zero_memo z) 0" "cold ttl neg"]
  have "memo_reach z ttl neg (calls_sys (cold ttl neg) 0 [Fetching (zero_memo z) 0, At_head] False)"
    by (simp add: memo_head_def newMemo_def cold_def claim_memo_def after_head_def)
  from reach_head [OF this, of 1 "Wait (zero_memo z) 0" "cold ttl neg"]
  show ?thesis
    by (simp add: memo_head_def newMemo_def cold_def claim_memo_def after_head_def)
qed

lemma reach_failed:
  "memo_reach z ttl neg (calls_sys (failed z ttl neg) 0 [Returned z, Blocked (zero_memo z) 0] False)"
proof -
  let ?Z = "zero_memo z"
  let ?s = "\<lambda>m p. calls_sys m 0 [p, Blocked ?Z 0] False"
  let ?c = "cold ttl neg :: 'a memo"
  have "memo_step z (?s ?c (Fetching ?Z 0)) (?s ?c (At_land ?Z 0 z False))"
    using memo_step.fetch [of "?s ?c (Fetching ?Z 0)" 0 "''k''" ?Z 0 z z False]
    by (simp add: calls_sys_def call_at_def set_call_def)
  with reach_waiting have 1: "memo_reach z ttl neg (?s ?c (At_land ?Z 0 z False))"
    by (rule reach_next)
      (simp add: calls_sys_def cold_def claim_memo_def newMemo_def)
  let ?l = "?c\<lparr>m_locked := True\<rparr>"
  have "memo_step z (?s ?c (At_land ?Z 0 z False)) (?s ?l (In_land ?Z 0 z False))"
    using memo_step.lock [of "?s ?c (At_land ?Z 0 z False)" 0 "''k''" "At_land ?Z 0 z False" "In_land ?Z 0 z False" z]
    by (simp add: calls_sys_def call_at_def set_call_def cold_def claim_memo_def newMemo_def)
  with 1 have 2: "memo_reach z ttl neg (?s ?l (In_land ?Z 0 z False))"
    by (rule reach_next)
      (simp add: calls_sys_def cold_def claim_memo_def newMemo_def)
  have land: "memo_land 0 ''k'' 0 z False ?Z ?l = (z, (failed z ttl neg)\<lparr>m_locked := True\<rparr>)"
    by (simp add: memo_land_def landed_def zero_memo_def release_memo_def failed_def cold_def
        claim_memo_def newMemo_def Let_def)
  have "unlock ((failed z ttl neg)\<lparr>m_locked := True\<rparr>) = failed z ttl neg"
    by (simp add: unlock_def failed_def newMemo_def)
  then have "memo_step z (?s ?l (In_land ?Z 0 z False)) (?s (failed z ttl neg) (Returned z))"
    using memo_step.land [of "?s ?l (In_land ?Z 0 z False)" 0 "''k''" ?Z 0 z False z
        "(failed z ttl neg)\<lparr>m_locked := True\<rparr>" z] land
    by (simp add: calls_sys_def call_at_def set_call_def)
  with 2 show ?thesis
    by (rule reach_next)
      (simp add: calls_sys_def cold_def claim_memo_def newMemo_def)
qed

text \<open>
  C38. For any lifetimes, two callers of one cold key can crash the process: when the
  leader's fetch fails and the waiter gets to run only after the failure's lifetime,
  it unlocks a mutex that is not locked.
\<close>

theorem memo_get_can_crash:
  assumes "0 \<le> neg"
  shows "\<exists>s. memo_reach z ttl neg s \<and> m_crashed (ms_memo s)"
proof -
  let ?Z = "zero_memo z" and ?f = "failed z ttl neg :: 'a memo"
  let ?s = "\<lambda>m now p b. calls_sys m now [Returned z, p] b"
  let ?l = "?f\<lparr>m_locked := True\<rparr>"
  note [simp] = calls_sys_def call_at_def set_call_def
  have alive: "\<not> m_crashed ?f" "\<not> m_locked ?f" "0 \<in> m_closed ?f" by (simp_all add: failed_def newMemo_def)

  have "memo_step z (?s ?f 0 (Blocked ?Z 0) False) (?s ?f 0 (At_woken ?Z) False)"
    using memo_step.wake [of "?s ?f 0 (Blocked ?Z 0) False" 1 "''k''" ?Z 0 z] alive by simp
  with reach_failed have 1: "memo_reach z ttl neg (?s ?f 0 (At_woken ?Z) False)"
    by (rule reach_next) (simp add: alive)
  have "memo_step z (?s ?f 0 (At_woken ?Z) False) (?s ?f neg (At_woken ?Z) False)"
    using memo_step.tick [OF assms, of z "?s ?f 0 (At_woken ?Z) False"] by simp
  with 1 have 2: "memo_reach z ttl neg (?s ?f neg (At_woken ?Z) False)"
    by (rule reach_next) (simp add: alive)
  have "memo_step z (?s ?f neg (At_woken ?Z) False) (?s ?l neg (In_woken ?Z) False)"
    using memo_step.lock [of "?s ?f neg (At_woken ?Z) False" 1 "''k''" "At_woken ?Z" "In_woken ?Z" z] alive
    by simp
  with 2 have 3: "memo_reach z ttl neg (?s ?l neg (In_woken ?Z) False)"
    by (rule reach_next) (simp add: alive)
  have "memo_woken neg ''k'' ?l = Inr False" by (simp add: memo_woken_def failed_def newMemo_def)
  moreover have "unlock ?l = ?f" using alive(2) by (simp add: unlock_def)
  ultimately have "memo_step z (?s ?l neg (In_woken ?Z) False) (?s ?f neg (Fallen ?Z) True)"
    using memo_step.woken [of "?s ?l neg (In_woken ?Z) False" 1 "''k''" ?Z "Inr False" z]
    by (simp add: after_woken_def)
  with 3 have 4: "memo_reach z ttl neg (?s ?f neg (Fallen ?Z) True)"
    by (rule reach_next) (simp add: alive)
  let ?g = "claim_memo ''k'' ?f"
  have "memo_step z (?s ?f neg (Fallen ?Z) True) (?s ?g neg (Unlocking ?Z 1) True)"
    using memo_step.fall [of "?s ?f neg (Fallen ?Z) True" 1 "''k''" ?Z z] by (simp add: failed_def)
  with 4 have 5: "memo_reach z ttl neg (?s ?g neg (Unlocking ?Z 1) True)"
    by (rule reach_next) (simp add: alive)
  have "memo_step z (?s ?g neg (Unlocking ?Z 1) True) (?s (unlock ?g) neg (Fetching ?Z 1) True)"
    using memo_step.fall_unlock [of "?s ?g neg (Unlocking ?Z 1) True" 1 "''k''" ?Z 1 z] by simp
  with 5 have "memo_reach z ttl neg (?s (unlock ?g) neg (Fetching ?Z 1) True)"
    by (rule reach_next) (use alive in \<open>simp add: claim_memo_def\<close>)
  moreover have "m_crashed (unlock ?g)" using alive(2) by (simp add: unlock_def claim_memo_def)
  ultimately show ?thesis by fastforce
qed

theorem memo_get_can_crash_witness: "\<exists>s. memo_reach (0 :: nat) 60 10 s \<and> m_crashed (ms_memo s)"
  by (rule memo_get_can_crash) simp

section \<open>Until a caller falls through\<close>

definition memo_claimed :: "'v memo \<Rightarrow> 'v memo \<Rightarrow> string \<Rightarrow> bool" where
  "memo_claimed m m' key \<longleftrightarrow>
     m_inflight m key = None \<and> m_inflight m' = (m_inflight m)(key \<mapsto> m_next m) \<and>
     m_closed m' = m_closed m \<and> m_next m' = Suc (m_next m)"

definition memo_released :: "'v memo \<Rightarrow> 'v memo \<Rightarrow> string \<Rightarrow> bool" where
  "memo_released m m' key \<longleftrightarrow>
     (\<exists>ch. m_inflight m key = Some ch \<and> m_closed m' = insert ch (m_closed m)) \<and>
     m_inflight m' = (m_inflight m)(key := None) \<and> m_next m' = m_next m"

interpretation memo_flight: single_flight m_inflight m_closed m_next memo_claimed memo_released
  by unfold_locales (auto simp: memo_claimed_def memo_released_def)

fun holds_lock :: "'v caller \<Rightarrow> bool" where
  "holds_lock In_head \<longleftrightarrow> True"
| "holds_lock (In_woken e) \<longleftrightarrow> True"
| "holds_lock (In_land e ch v ok) \<longleftrightarrow> True"
| "holds_lock _ \<longleftrightarrow> False"

text \<open>The channel a caller is fetching for, and the state it must be in.\<close>

fun fetches_on :: "'v caller \<Rightarrow> nat option" where
  "fetches_on (Fetching e ch) = Some ch"
| "fetches_on (At_land e ch v ok) = Some ch"
| "fetches_on (In_land e ch v ok) = Some ch"
| "fetches_on _ = None"

fun calm :: "'v memo \<Rightarrow> string \<times> 'v caller \<Rightarrow> bool" where
  "calm m (key, Blocked e ch) \<longleftrightarrow> memo_flight.awaits m key ch"
| "calm m (key, Fallen e) \<longleftrightarrow> False"
| "calm m (key, Unlocking e ch) \<longleftrightarrow> False"
| "calm m (key, p) \<longleftrightarrow> (\<forall>ch. fetches_on p = Some ch \<longrightarrow> m_inflight m key = Some ch)"

definition fetchers :: "string \<Rightarrow> (string \<times> 'v caller) list \<Rightarrow> nat" where
  "fetchers key = count_of (\<lambda>c. fst c = key \<and> fetches_on (snd c) \<noteq> None)"

definition memo_inv :: "'v memo_sys \<Rightarrow> bool" where
  "memo_inv s \<longleftrightarrow>
     (let m = ms_memo s in
      \<not> m_crashed m \<and> memo_flight.ok m \<and>
      count_of (\<lambda>c. holds_lock (snd c)) (ms_calls s) = (if m_locked m then 1 else 0) \<and>
      (\<forall>key. fetchers key (ms_calls s) = (if m_inflight m key = None then 0 else 1)) \<and>
      (\<forall>c \<in> set (ms_calls s). calm m c))"

text \<open>
  One caller \<open>i\<close> moves from \<open>p\<close> to \<open>q\<close> and the memo from \<open>m\<close> to \<open>m'\<close>: what has to be
  checked for the invariant.
\<close>

lemma memo_inv_update:
  assumes inv: "memo_inv s" and at: "call_at s i key p"
    and m': "\<not> m_crashed m'" "memo_flight.ok m'"
    and lock: "(if holds_lock q then 1 else 0) + (if m_locked (ms_memo s) then 1 else 0)
      = (if holds_lock p then 1 else 0) + (if m_locked m' then 1 else (0 :: nat))"
    and fet: "\<And>k. (if k = key \<and> fetches_on q \<noteq> None then 1 else 0) + (if m_inflight (ms_memo s) k = None then 0 else 1)
      = (if k = key \<and> fetches_on p \<noteq> None then 1 else 0) + (if m_inflight m' k = None then 0 else (1 :: nat))"
    and calm_q: "calm m' (key, q)"
    and calm_old: "\<And>j k r. j \<noteq> i \<Longrightarrow> call_at s j k r \<Longrightarrow> calm (ms_memo s) (k, r) \<Longrightarrow> calm m' (k, r)"
  shows "memo_inv (set_call i key q m' s)"
proof -
  have i: "i < length (ms_calls s)" "ms_calls s ! i = (key, p)" using at by (simp_all add: call_at_def)
  note I = inv [unfolded memo_inv_def Let_def]
  have "count_of (\<lambda>c. holds_lock (snd c)) ((ms_calls s)[i := (key, q)]) = (if m_locked m' then 1 else 0)"
    using count_of_update [OF i(1), of "\<lambda>c. holds_lock (snd c)" "(key, q)"] I lock i(2)
    by (auto split: if_splits)
  moreover have "fetchers k ((ms_calls s)[i := (key, q)]) = (if m_inflight m' k = None then 0 else 1)" for k
    using count_of_update [OF i(1), of "\<lambda>c. fst c = k \<and> fetches_on (snd c) \<noteq> None" "(key, q)"] I fet [of k] i(2)
    unfolding fetchers_def by (auto split: if_splits)
  moreover have "calm m' c" if "c \<in> set ((ms_calls s)[i := (key, q)])" for c
  proof -
    from that obtain j where j: "j < length (ms_calls s)" "c = (ms_calls s)[i := (key, q)] ! j"
      by (auto simp: in_set_conv_nth)
    show ?thesis
    proof (cases "j = i")
      case True
      with j calm_q show ?thesis by simp
    next
      case False
      with j have c: "c = ms_calls s ! j" by simp
      then have "c \<in> set (ms_calls s)" using j(1) by simp
      with I have "calm (ms_memo s) c" by blast
      with calm_old [OF False, of "fst c" "snd c"] j c show ?thesis by (simp add: call_at_def)
    qed
  qed
  ultimately show ?thesis using m' by (simp add: memo_inv_def set_call_def Let_def)
qed

lemma calm_mono:
  assumes "\<And>ch. memo_flight.awaits m k ch \<Longrightarrow> memo_flight.awaits m' k ch"
    and "fetches_on r \<noteq> None \<Longrightarrow> m_inflight m' k = m_inflight m k"
    and "calm m (k, r)"
  shows "calm m' (k, r)"
  using assms by (cases r) auto

lemma calm_same:
  "m_inflight m' = m_inflight m \<Longrightarrow> m_closed m' = m_closed m \<Longrightarrow> calm m c \<Longrightarrow> calm m' c"
  by (cases c, cases "snd c") (auto simp: memo_flight.awaits_def)

lemma memo_inv_at:
  assumes "memo_inv s" "call_at s i key p"
  shows "calm (ms_memo s) (key, p)" "holds_lock p \<Longrightarrow> m_locked (ms_memo s)"
proof -
  have i: "i < length (ms_calls s)" "ms_calls s ! i = (key, p)" using assms(2) by (simp_all add: call_at_def)
  then have "(key, p) \<in> set (ms_calls s)" by (metis nth_mem)
  with assms(1) show "calm (ms_memo s) (key, p)" by (simp add: memo_inv_def Let_def)
  show "m_locked (ms_memo s)" if "holds_lock p"
    using assms(1) i that count_of_update [OF i(1), of "\<lambda>c. holds_lock (snd c)" "(key, At_head)"]
    by (auto simp: memo_inv_def Let_def split: if_splits)
qed

text \<open>Another caller of a key that somebody fetches for is not fetching for it.\<close>

lemma other_not_fetching:
  assumes "memo_inv s" "call_at s i key p" "fetches_on p \<noteq> None" "j \<noteq> i" "call_at s j key r"
  shows "fetches_on r = None"
proof (rule ccontr)
  assume r: "fetches_on r \<noteq> None"
  let ?P = "\<lambda>c. fst c = key \<and> fetches_on (snd c) \<noteq> None"
  have i: "i < length (ms_calls s)" "ms_calls s ! i = (key, p)" and j: "j < length (ms_calls s)" "ms_calls s ! j = (key, r)"
    using assms(2,5) by (simp_all add: call_at_def)
  have "fetchers key (ms_calls s) \<le> 1" using assms(1) by (simp add: memo_inv_def Let_def)
  then have "count_of ?P (ms_calls s) \<le> 1" by (simp add: fetchers_def)
  with count_of_update [OF i(1), of ?P "(key, At_head)"] i assms(3)
  have "count_of ?P ((ms_calls s)[i := (key, At_head)]) = 0" by simp
  moreover have "0 < count_of ?P ((ms_calls s)[i := (key, At_head)])"
  proof -
    have "(key, r) \<in> set ((ms_calls s)[i := (key, At_head)])"
      using j assms(4) by (metis length_list_update nth_list_update_neq nth_mem)
    then have "(key, r) \<in> set (filter ?P ((ms_calls s)[i := (key, At_head)]))"
      using r by (simp only: set_filter mem_Collect_eq fst_conv snd_conv simp_thms)
    then show ?thesis unfolding count_of_def by (rule length_pos_if_in_set)
  qed
  ultimately show False by simp
qed

lemma unlock_held: "m_locked m \<Longrightarrow> unlock m = m\<lparr>m_locked := False\<rparr>"
  by (simp add: unlock_def)

lemma memo_head_cases:
  assumes "memo_head z now key m = (r, m')"
  obtains v where "r = Serve v" "m' = m"
  | e ch where "r = Wait e ch" "m' = m" "m_inflight m key = Some ch"
  | e where "r = Lead e (m_next m)" "m' = claim_memo key m" "m_inflight m key = None"
proof -
  define e where "e = (case m_entries m key of Some e \<Rightarrow> e | None \<Rightarrow> zero_memo z)"
  have h: "memo_head z now key m =
      (if m_entries m key \<noteq> None \<and> now < me_retry e then (Serve (me_val e), m)
       else case m_inflight m key of
           Some ch \<Rightarrow> (Wait e ch, m)
         | None \<Rightarrow> (Lead e (m_next m), claim_memo key m))"
    unfolding memo_head_def e_def Let_def ..
  show ?thesis
  proof (cases "m_entries m key \<noteq> None \<and> now < me_retry e")
    case True
    with h assms that(1) [of "me_val e"] show ?thesis by simp
  next
    case False
    note h' = h [unfolded if_not_P [OF False]]
    show ?thesis
    proof (cases "m_inflight m key")
      case None
      with h' assms that(3) [of e] show ?thesis by simp
    next
      case (Some ch)
      with h' assms that(2) [of e ch] show ?thesis by simp
    qed
  qed
qed

lemma memo_claimed_claim: "m_inflight m key = None \<Longrightarrow> memo_claimed m (claim_memo key m) key"
  by (simp add: memo_claimed_def claim_memo_def)

lemma memo_inv_head:
  assumes "memo_inv s" "call_at s i key In_head" "memo_head z (ms_now s) key (ms_memo s) = (r, m)"
  shows "memo_inv (set_call i key (after_head r) (unlock m) s)"
proof -
  let ?m = "ms_memo s"
  have lk: "m_locked ?m" using memo_inv_at(2) [OF assms(1,2)] by simp
  have ok: "\<not> m_crashed ?m" "memo_flight.ok ?m" using assms(1) by (simp_all add: memo_inv_def Let_def)
  from assms(3) show ?thesis
  proof (cases rule: memo_head_cases)
    case (1 v)
    show ?thesis unfolding 1 unlock_held [OF lk]
      by (rule memo_inv_update [OF assms(1,2)])
        (use lk ok in \<open>auto simp: after_head_def intro: calm_same\<close>)
  next
    case (2 e ch)
    show ?thesis unfolding 2(1,2) unlock_held [OF lk]
      by (rule memo_inv_update [OF assms(1,2)])
        (use lk ok 2(3) in \<open>auto simp: after_head_def memo_flight.awaits_def intro: calm_same\<close>)
  next
    case (3 e)
    let ?c = "(claim_memo key ?m)\<lparr>m_locked := False\<rparr>"
    have cl: "memo_claimed ?m ?c key" using memo_claimed_claim [OF 3(3)] by (simp add: memo_claimed_def)
    have "unlock m = ?c" using lk by (simp add: 3(2) unlock_def claim_memo_def)
    then show ?thesis unfolding 3(1)
    proof (rule ssubst, intro memo_inv_update [OF assms(1,2)])
      show "\<not> m_crashed ?c" using ok by (simp add: claim_memo_def)
      show "memo_flight.ok ?c" using cl ok(2) by (rule memo_flight.claimed_ok)
      show "calm ?c (key, after_head (Lead e (m_next ?m)))" by (simp add: after_head_def claim_memo_def)
      fix j k r'
      assume "calm ?m (k, r')"
      then show "calm ?c (k, r')"
      proof (rule calm_mono [rotated 2])
        show "memo_flight.awaits ?m k ch \<Longrightarrow> memo_flight.awaits ?c k ch" for ch
          using cl by (rule memo_flight.awaits_claimed)
        assume "fetches_on r' \<noteq> None"
        then obtain ch where "fetches_on r' = Some ch" by blast
        with \<open>calm ?m (k, r')\<close> have "m_inflight ?m k \<noteq> None" by (cases r') auto
        then have "k \<noteq> key" using 3(3) by blast
        then show "m_inflight ?c k = m_inflight ?m k" by (simp add: claim_memo_def)
      qed
    qed (use lk 3(3) in \<open>auto simp: after_head_def claim_memo_def\<close>)
  qed
qed

lemma memo_inv_land:
  assumes "memo_inv s" "call_at s i key (In_land e ch v ok)"
    "memo_land (ms_now s) key ch v ok e (ms_memo s) = (v', m)"
  shows "memo_inv (set_call i key (Returned v') (unlock m) s)"
proof -
  let ?m = "ms_memo s"
  have lk: "m_locked ?m" using memo_inv_at(2) [OF assms(1,2)] by simp
  have fine: "\<not> m_crashed ?m" "memo_flight.ok ?m" using assms(1) by (simp_all add: memo_inv_def Let_def)
  have ch: "m_inflight ?m key = Some ch" using memo_inv_at(1) [OF assms(1,2)] by simp
  let ?r = "unlock m"
  have r: "m_inflight ?r = (m_inflight ?m)(key := None)" "m_closed ?r = insert ch (m_closed ?m)"
    "m_next ?r = m_next ?m" "\<not> m_crashed ?r" "\<not> m_locked ?r"
    using assms(3) lk fine(1) by (auto simp: memo_land_def release_memo_def unlock_def Let_def)
  have rel: "memo_released ?m ?r key" using r ch by (simp add: memo_released_def)
  show ?thesis
  proof (rule memo_inv_update [OF assms(1,2)])
    show "memo_flight.ok ?r" using rel fine(2) ch by (rule memo_flight.released_ok)
    show "(if k = key \<and> fetches_on (Returned v') \<noteq> None then 1 else 0) + (if m_inflight ?m k = None then 0 else 1)
      = (if k = key \<and> fetches_on (In_land e ch v ok) \<noteq> None then 1 else 0) +
        (if m_inflight ?r k = None then 0 else (1 :: nat))" for k
      using ch by (simp add: r(1))
    fix j k r'
    assume j: "j \<noteq> i" "call_at s j k r'" "calm ?m (k, r')"
    from j(3) show "calm ?r (k, r')"
    proof (rule calm_mono [rotated 2])
      show "memo_flight.awaits ?m k c \<Longrightarrow> memo_flight.awaits ?r k c" for c
        using rel _ ch by (rule memo_flight.awaits_released)
      assume f: "fetches_on r' \<noteq> None"
      have "k \<noteq> key"
      proof
        assume "k = key"
        with other_not_fetching [OF assms(1,2) _ j(1)] j(2) f show False by simp
      qed
      then show "m_inflight ?r k = m_inflight ?m k" by (simp add: r(1))
    qed
  qed (use lk r in simp_all)
qed

lemma memo_inv_step:
  assumes "memo_step z s s'" "memo_inv s" "\<not> ms_fell s'"
  shows "memo_inv s'"
  using assms(1)
proof cases
  case (tick d)
  with assms(2) show ?thesis by (simp add: memo_inv_def)
next
  case (call key)
  with assms(2) show ?thesis by (simp add: memo_inv_def fetchers_def Let_def)
next
  case (lock i key p q)
  have "holds_lock q \<and> \<not> holds_lock p \<and> fetches_on q = fetches_on p" using lock(3) by (cases p) auto
  moreover have "calm (ms_memo s) (key, q)" using lock(3) memo_inv_at(1) [OF assms(2) lock(2)]
    by (cases p) auto
  ultimately show ?thesis unfolding lock(1)
    by (intro memo_inv_update [OF assms(2) lock(2)])
      (use assms(2) lock(4) in \<open>auto simp: memo_inv_def Let_def intro: calm_same\<close>)
next
  case (head i key r m)
  show ?thesis unfolding head(1) using assms(2) head(2,3) by (rule memo_inv_head)
next
  case (wake i key e ch)
  show ?thesis unfolding wake(1)
    by (rule memo_inv_update [OF assms(2) wake(2)])
      (use assms(2) in \<open>auto simp: memo_inv_def Let_def\<close>)
next
  case (leave i key e ch)
  show ?thesis unfolding leave(1)
    by (rule memo_inv_update [OF assms(2) leave(2)])
      (use assms(2) in \<open>auto simp: memo_inv_def Let_def\<close>)
next
  case (woken i key e r)
  have lk: "m_locked (ms_memo s)" using memo_inv_at(2) [OF assms(2) woken(2)] by simp
  have "r \<noteq> Inr False" using woken(1) assms(3) by auto
  then have q: "\<not> holds_lock (after_woken e r) \<and> fetches_on (after_woken e r) = None \<and>
      calm ((ms_memo s)\<lparr>m_locked := False\<rparr>) (key, after_woken e r)"
    by (auto simp: after_woken_def split: sum.splits)
  have "memo_inv (set_call i key (after_woken e r) (unlock (ms_memo s)) s)"
    unfolding unlock_held [OF lk]
    by (rule memo_inv_update [OF assms(2) woken(2)])
      (use assms(2) lk q in \<open>auto simp: memo_inv_def Let_def intro: calm_same\<close>)
  then show ?thesis unfolding woken(1) by (simp add: memo_inv_def)
next
  case (fall i key e)
  with memo_inv_at(1) [OF assms(2) fall(2)] show ?thesis by simp
next
  case (fall_unlock i key e ch)
  with memo_inv_at(1) [OF assms(2) fall_unlock(2)] show ?thesis by simp
next
  case (fetch i key e ch v ok)
  show ?thesis unfolding fetch(1)
    by (rule memo_inv_update [OF assms(2) fetch(2)])
      (use assms(2) memo_inv_at(1) [OF assms(2) fetch(2)] in \<open>auto simp: memo_inv_def Let_def\<close>)
next
  case (land i key e ch v ok v' m)
  show ?thesis unfolding land(1) using assms(2) land(2,3) by (rule memo_inv_land)
qed

lemma memo_fell_mono: "memo_step z s s' \<Longrightarrow> \<not> ms_fell s' \<Longrightarrow> \<not> ms_fell s"
  by (induction rule: memo_step.induct) (auto simp: set_call_def)

text \<open>
  C37. As long as no woken caller has fallen through, the mutex is held by at most one
  caller, nothing crashes, and a key is fetched by exactly one caller while it is in
  flight and by none otherwise.
\<close>

theorem memo_one_fetch_per_key:
  assumes "memo_reach z ttl neg s" "\<not> ms_fell s"
  shows "\<not> m_crashed (ms_memo s) \<and> count_of (\<lambda>c. holds_lock (snd c)) (ms_calls s) \<le> 1 \<and>
    fetchers key (ms_calls s) = (if m_inflight (ms_memo s) key = None then 0 else 1)"
proof -
  have "memo_inv s"
    using assms
  proof (induction rule: memo_reach.induct)
    case init
    then show ?case by (auto simp: memo_inv_def newMemo_def fetchers_def chans_ok_def Let_def)
  next
    case (step s s')
    from step.IH [OF memo_fell_mono [OF step.hyps(3) step.prems]] show ?case
      by (rule memo_inv_step [OF step.hyps(3) _ step.prems])
  qed
  then show ?thesis by (simp add: memo_inv_def Let_def)
qed

theorem memo_one_fetch_per_key_witness:
  "fetchers ''k'' [(''k'', Fetching (zero_memo (0 :: nat)) 0), (''k'', Blocked (zero_memo 0) 0)] = 1"
  using memo_one_fetch_per_key [OF reach_waiting [of 0 60 10], of "''k''"]
  by (simp add: calls_sys_def cold_def claim_memo_def newMemo_def)

theorem memo_success_is_served_witness:
  "\<exists>m'. memo_get (0 :: nat) 5 6 ''k'' (7, True) (newMemo 60 10) = (7, True, m') \<and>
    memo_get 0 20 21 ''k'' (9, True) m' = (7, False, m')"
  using memo_success_is_served [of "newMemo 60 10" "''k''" 5 0 6 7] by (force simp: newMemo_def)

theorem memo_failure_keeps_last_good_witness:
  "\<exists>m'. memo_get (0 :: nat) 5 6 ''k'' (9, False)
     ((newMemo 60 10)\<lparr>m_entries := [''k'' \<mapsto> \<lparr>me_val = 3, me_good = True, me_retry = 4\<rparr>]\<rparr>) = (3, True, m') \<and>
    memo_get 0 8 9 ''k'' (1, True) m' = (3, False, m')"
  using memo_failure_keeps_last_good
    [of "(newMemo 60 10)\<lparr>m_entries := [''k'' \<mapsto> \<lparr>me_val = 3, me_good = True, me_retry = 4\<rparr>]\<rparr>" "''k''"
      "\<lparr>me_val = 3, me_good = True, me_retry = 4\<rparr>" 5 0 6 9]
  by (force simp: newMemo_def)

end
