(* ===== verification/Go_Utf8.thy ===== *)
theory Go_Utf8
  imports Go_Prelude
begin

text \<open>
  Strings as sequences of runes: what \<^verbatim>\<open>[]rune(s)\<close> and \<^verbatim>\<open>string(rs)\<close> do. A rune is kept as
  its UTF-8 bytes; a byte that starts no valid sequence becomes U+FFFD, as in Go.
\<close>

definition in_range :: "nat \<Rightarrow> nat \<Rightarrow> char \<Rightarrow> bool" where
  "in_range lo hi c \<longleftrightarrow> lo \<le> of_char c \<and> of_char c \<le> hi"

abbreviation cont_byte :: "char \<Rightarrow> bool" where
  "cont_byte \<equiv> in_range 0x80 0xBF"

text \<open>The bytes of the rune a string starts with, when it starts with a valid one.\<close>

fun rune_at :: "string \<Rightarrow> string option" where
  "rune_at [] = None"
| "rune_at (a # s) =
     (if of_char a < (0x80 :: nat) then Some [a]
      else case s of [] \<Rightarrow> None
      | b # s \<Rightarrow>
        if in_range 0xC2 0xDF a \<and> cont_byte b then Some [a, b]
        else case s of [] \<Rightarrow> None
        | c # s \<Rightarrow>
          if cont_byte c \<and>
             (of_char a = (0xE0 :: nat) \<and> in_range 0xA0 0xBF b \<or>
              of_char a = (0xED :: nat) \<and> in_range 0x80 0x9F b \<or>
              in_range 0xE1 0xEF a \<and> of_char a \<noteq> (0xED :: nat) \<and> cont_byte b)
          then Some [a, b, c]
          else case s of [] \<Rightarrow> None
          | d # s \<Rightarrow>
            if cont_byte c \<and> cont_byte d \<and>
               (of_char a = (0xF0 :: nat) \<and> in_range 0x90 0xBF b \<or>
                of_char a = (0xF4 :: nat) \<and> in_range 0x80 0x8F b \<or>
                in_range 0xF1 0xF3 a \<and> cont_byte b)
            then Some [a, b, c, d] else None)"

definition replacement :: string where
  "replacement = [CHR 0xEF, CHR 0xBF, CHR 0xBD]"

lemma rune_at_prefix: "rune_at s = Some r \<Longrightarrow> r \<noteq> [] \<and> (\<exists>t. s = r @ t)"
  by (cases s) (auto split: if_splits list.splits)

function runes :: "string \<Rightarrow> string list" where
  "runes s =
     (if s = [] then []
      else case rune_at s of
          Some r \<Rightarrow> r # runes (drop (length r) s)
        | None \<Rightarrow> replacement # runes (tl s))"
  by pat_completeness auto
termination
proof (relation "measure length")
  fix s r assume "s \<noteq> []" "rune_at s = Some (r :: string)"
  then have "r \<noteq> []" using rune_at_prefix by blast
  with \<open>s \<noteq> []\<close> show "(drop (length r) s, s) \<in> measure length" by simp
qed auto

declare runes.simps [simp del]

lemma runes_Nil [simp]: "runes [] = []"
  by (simp add: runes.simps)

text \<open>A rune is self-delimiting: what follows does not change how it is read.\<close>

definition is_rune :: "string \<Rightarrow> bool" where
  "is_rune r \<longleftrightarrow> rune_at r = Some r"

lemma string_cases4:
  obtains "s = []" | a where "s = [a]" | a b where "s = [a, b]" | a b c where "s = [a, b, c]"
    | a b c d v where "s = a # b # c # d # v"
  by (metis list.exhaust)

lemma rune_at_append: "rune_at s = Some r \<Longrightarrow> rune_at (s @ t) = Some r"
  by (cases s rule: string_cases4) (auto split: if_splits)

lemma rune_at_is_rune: "rune_at s = Some r \<Longrightarrow> is_rune r"
  by (cases s rule: string_cases4) (auto simp: is_rune_def split: if_splits)

lemma is_rune_replacement [simp]: "is_rune replacement"
  by (simp add: is_rune_def replacement_def in_range_def)

lemma runes_are_runes: "r \<in> set (runes s) \<Longrightarrow> is_rune r"
proof (induction s rule: runes.induct)
  case (1 s)
  from 1(3) show ?case
    by (subst (asm) runes.simps)
      (auto dest: rune_at_is_rune 1(1) 1(2) split: if_splits option.splits)
qed

lemma runes_cons: "is_rune r \<Longrightarrow> runes (r @ s) = r # runes s"
  by (subst runes.simps) (auto simp: is_rune_def rune_at_append dest: rune_at_prefix)

text \<open>\<^verbatim>\<open>[]rune(string(rs))\<close> is \<^verbatim>\<open>rs\<close>.\<close>

lemma runes_concat: "\<forall>r \<in> set rs. is_rune r \<Longrightarrow> runes (concat rs) = rs"
  by (induction rs) (auto simp: runes_cons)

lemma runes_append: "\<forall>r \<in> set rs. is_rune r \<Longrightarrow> runes (concat rs @ s) = rs @ runes s"
  by (induction rs) (auto simp: runes_cons)

end
