(* ===== verification/Discover_Verdict.thy ===== *)
theory Discover_Verdict
  imports Go_Utf8 Go_Json
begin

text \<open>
  The verdict of the discovery feed (\<^verbatim>\<open>pkg/discover/verdict.go\<close>): whose event it is, what
  that and its interest amount to, and the sentence that says why. \<^verbatim>\<open>Verdict\<close>,
  \<^verbatim>\<open>Interest\<close> and \<^verbatim>\<open>Clearance\<close> are string types in the code and so here: the closed
  enum is something the code has to enforce.
\<close>

section \<open>The code\<close>

type_synonym verdict = string

definition VerdictShare :: verdict where "VerdictShare = ''share''"
definition VerdictMaybe :: verdict where "VerdictMaybe = ''maybe''"
definition VerdictHold :: verdict where "VerdictHold = ''hold''"

definition valid_verdict :: "verdict \<Rightarrow> bool" where
  "valid_verdict v \<longleftrightarrow> v = VerdictShare \<or> v = VerdictMaybe \<or> v = VerdictHold"

text \<open>\<^verbatim>\<open>MarshalJSON\<close>: \<^term>\<open>Inl\<close> is the error and names the value.\<close>

definition marshal_verdict :: "verdict \<Rightarrow> string + json" where
  "marshal_verdict v = (if \<not> valid_verdict v then Inl v else Inr (JStr v))"

text \<open>
  \<^verbatim>\<open>UnmarshalJSON\<close> on a parsed message, \<^term>\<open>None\<close> standing for one that is not JSON.
  Decoding \<^verbatim>\<open>null\<close> into a string leaves it empty without an error.
\<close>

definition unmarshal_verdict :: "json option \<Rightarrow> verdict" where
  "unmarshal_verdict b =
     (case b of
        Some (JStr s) \<Rightarrow> if valid_verdict s then s else VerdictHold
      | Some JNull \<Rightarrow> if valid_verdict '''' then '''' else VerdictHold
      | _ \<Rightarrow> VerdictHold)"

definition InterestLow :: string where "InterestLow = ''low''"
definition InterestMedium :: string where "InterestMedium = ''medium''"
definition InterestHigh :: string where "InterestHigh = ''high''"

definition ClearanceOurs :: string where "ClearanceOurs = ''ours''"
definition ClearanceUnclear :: string where "ClearanceUnclear = ''unclear''"
definition ClearanceTheirs :: string where "ClearanceTheirs = ''theirs''"
definition ClearanceSensitive :: string where "ClearanceSensitive = ''sensitive''"

record axis =
  ax_level :: string
  ax_why :: string

record judgement =
  j_interest :: axis
  j_clearance :: axis
  j_blocking :: string

record clearance_config =
  cfg_accounts :: "string list"
  cfg_other_teams :: "string list"
  cfg_treasury :: "string list"
  cfg_deny :: "string list"

definition Configured :: "clearance_config \<Rightarrow> bool" where
  "Configured cfg \<longleftrightarrow>
     0 < length (cfg_accounts cfg) \<or> 0 < length (cfg_other_teams cfg) \<or>
     0 < length (cfg_treasury cfg) \<or> 0 < length (cfg_deny cfg)"

definition chainLevelKinds :: "string \<Rightarrow> bool" where
  "chainLevelKinds k \<longleftrightarrow>
     k \<in> {''chain.spike'', ''chain.milestone'', ''proposal.opened'', ''proposal.closed'',
          ''validator.registered''}"

record subject =
  su_kind :: string
  su_namespace :: string
  su_actor :: string
  su_parties :: "string list"

definition contains :: "string list \<Rightarrow> string \<Rightarrow> bool" where
  "contains xs want = (if want = '''' then False else list_ex (\<lambda>s. equal_fold s want) xs)"

definition looksLikeBareAddress :: "string \<Rightarrow> bool" where
  "looksLikeBareAddress s \<longleftrightarrow> has_prefix s ''g1'' \<and> 38 \<le> length s"

text \<open>The loop over the parties: the first one that makes the event sensitive.\<close>

fun clear_parties :: "clearance_config \<Rightarrow> string \<Rightarrow> string list \<Rightarrow> axis option" where
  "clear_parties cfg kind [] = None"
| "clear_parties cfg kind (addr # rest) =
     (if contains (cfg_deny cfg) addr
      then Some \<lparr>ax_level = ClearanceSensitive, ax_why = ''an address here is on the operator's denylist''\<rparr>
      else if kind = ''transfer.large'' \<and> contains (cfg_treasury cfg) addr
      then Some \<lparr>ax_level = ClearanceSensitive,
        ax_why = ''fund movements are legible to anyone watching, and narrating them is not neutral''\<rparr>
      else clear_parties cfg kind rest)"

definition Clear :: "clearance_config \<Rightarrow> subject \<Rightarrow> axis" where
  "Clear cfg s =
     (if su_kind s = ''package.rejected''
      then \<lparr>ax_level = ClearanceSensitive,
        ax_why = ''naming a rejected submission is criticising somebody's code in public before speaking to them''\<rparr>
      else case clear_parties cfg (su_kind s) (su_parties s) of Some a \<Rightarrow> a
      | None \<Rightarrow>
        if contains (cfg_deny cfg) (su_namespace s) \<or> contains (cfg_deny cfg) (su_actor s)
        then \<lparr>ax_level = ClearanceSensitive, ax_why = ''this namespace is on the operator's denylist''\<rparr>
        else if chainLevelKinds (su_kind s)
        then \<lparr>ax_level = ClearanceOurs, ax_why = ''a chain-wide fact belongs to nobody in particular''\<rparr>
        else if su_namespace s \<noteq> '''' \<and> contains (cfg_accounts cfg) (su_namespace s)
        then \<lparr>ax_level = ClearanceOurs, ax_why = ''the namespace is on the operator's accounts list''\<rparr>
        else if su_namespace s \<noteq> '''' \<and> contains (cfg_other_teams cfg) (su_namespace s)
        then \<lparr>ax_level = ClearanceTheirs, ax_why = ''the namespace belongs to another team''\<rparr>
        else if su_namespace s = ''''
        then \<lparr>ax_level = ClearanceUnclear,
          ax_why = ''nothing here belongs to a namespace, so there is nothing to clear it against''\<rparr>
        else if looksLikeBareAddress (su_namespace s)
        then \<lparr>ax_level = ClearanceUnclear, ax_why = ''the namespace is a bare address with no registered name''\<rparr>
        else \<lparr>ax_level = ClearanceUnclear, ax_why = ''no clearance is configured for this namespace''\<rparr>)"

text \<open>\<^verbatim>\<open>Bucket\<close> compares floats; \<open>ge\<close> is their \<^verbatim>\<open>>=\<close>, which is false at a NaN.\<close>

definition Bucket :: "('f \<Rightarrow> 'f \<Rightarrow> bool) \<Rightarrow> 'f \<Rightarrow> 'f \<Rightarrow> 'f \<Rightarrow> string" where
  "Bucket ge score p90 p60 =
     (if ge score p90 then InterestHigh else if ge score p60 then InterestMedium else InterestLow)"

definition blockingFor :: "string \<Rightarrow> string" where
  "blockingFor level =
     (if level = ClearanceOurs then ''interesting enough to mention, not big enough to lead with''
      else ''confirm with whoever owns this namespace before posting'')"

definition Decide :: "string \<Rightarrow> axis \<Rightarrow> string \<Rightarrow> verdict \<times> judgement" where
  "Decide interest clearance reasonInterest =
     (let j = \<lparr>j_interest = \<lparr>ax_level = interest, ax_why = reasonInterest\<rparr>,
               j_clearance = clearance, j_blocking = ''''\<rparr>;
          level = ax_level clearance
      in if level = ClearanceSensitive \<or> level = ClearanceTheirs then (VerdictHold, j)
         else if interest = InterestLow then (VerdictHold, j)
         else if interest = InterestHigh \<and> level = ClearanceOurs then (VerdictShare, j)
         else (VerdictMaybe, j\<lparr>j_blocking := blockingFor level\<rparr>))"

definition capitalise :: "string \<Rightarrow> string" where
  "capitalise s =
     (if s = '''' then ''''
      else case runes s of [] \<Rightarrow> ''''
        | r # rs \<Rightarrow>
            (case r of
               [c] \<Rightarrow> if 97 \<le> (of_char c :: nat) \<and> (of_char c :: nat) \<le> 122
                     then [char_of ((of_char c :: nat) - 97 + 65)] else r
             | _ \<Rightarrow> r) @ concat rs)"

text \<open>\<^verbatim>\<open>strings.ReplaceAll(s, "..", ".")\<close>.\<close>

fun dots_to_dot :: "string \<Rightarrow> string" where
  "dots_to_dot (a # b # s) =
     (if a = CHR ''.'' \<and> b = CHR ''.'' then CHR ''.'' # dots_to_dot s else a # dots_to_dot (b # s))"
| "dots_to_dot s = s"

definition MaxVerdictReason :: nat where "MaxVerdictReason = 160"

definition dots3 :: string where "dots3 = [CHR 0xE2, CHR 0x80, CHR 0xA6]"

definition clip_reason :: "string \<Rightarrow> string" where
  "clip_reason s =
     (if MaxVerdictReason < length (runes s)
      then concat (take (MaxVerdictReason - 1) (runes s)) @ dots3 else s)"

definition Reason :: "verdict \<Rightarrow> judgement \<Rightarrow> string" where
  "Reason v j =
     (let s = (if v = VerdictShare
               then capitalise (ax_why (j_interest j)) @ '', and it is ours to talk about.''
               else if v = VerdictMaybe
               then capitalise (ax_why (j_interest j)) @ '', but '' @ ax_why (j_clearance j) @ ''.''
               else if ax_level (j_clearance j) = ClearanceSensitive \<or>
                       ax_level (j_clearance j) = ClearanceTheirs
               then capitalise (ax_why (j_clearance j)) @ ''.''
               else capitalise (ax_why (j_interest j)) @ ''.'')
      in clip_reason (dots_to_dot s))"

section \<open>Clearance\<close>

lemmas verdict_values =
  VerdictShare_def VerdictMaybe_def VerdictHold_def InterestLow_def InterestMedium_def
  InterestHigh_def ClearanceOurs_def ClearanceUnclear_def ClearanceTheirs_def ClearanceSensitive_def

text \<open>What makes an event one the operator must not narrate.\<close>

definition must_not_narrate :: "clearance_config \<Rightarrow> subject \<Rightarrow> bool" where
  "must_not_narrate cfg s \<longleftrightarrow>
     su_kind s = ''package.rejected'' \<or>
     (\<exists>a \<in> set (su_parties s) \<union> {su_namespace s, su_actor s}. contains (cfg_deny cfg) a) \<or>
     su_kind s = ''transfer.large'' \<and> (\<exists>a \<in> set (su_parties s). contains (cfg_treasury cfg) a)"

lemma clear_parties_level:
  "clear_parties cfg kind ps = Some a \<Longrightarrow> ax_level a = ClearanceSensitive"
  by (induction ps) (auto split: if_splits)

lemma clear_parties_None:
  "clear_parties cfg kind ps = None \<longleftrightarrow>
   (\<forall>a \<in> set ps. \<not> contains (cfg_deny cfg) a \<and>
      \<not> (kind = ''transfer.large'' \<and> contains (cfg_treasury cfg) a))"
  by (induction ps) auto

lemma Clear_sensitive: "ax_level (Clear cfg s) = ClearanceSensitive \<longleftrightarrow> must_not_narrate cfg s"
proof (cases "clear_parties cfg (su_kind s) (su_parties s)")
  case None
  then have p: "\<forall>a \<in> set (su_parties s). \<not> contains (cfg_deny cfg) a \<and>
      \<not> (su_kind s = ''transfer.large'' \<and> contains (cfg_treasury cfg) a)"
    by (simp add: clear_parties_None)
  with None show ?thesis
    by (auto simp: Clear_def must_not_narrate_def verdict_values)
next
  case (Some a)
  then have "must_not_narrate cfg s"
    using clear_parties_None [of cfg "su_kind s" "su_parties s"] by (auto simp: must_not_narrate_def)
  with Some clear_parties_level [OF Some] show ?thesis by (simp add: Clear_def)
qed

lemma Clear_ours:
  "ax_level (Clear cfg s) = ClearanceOurs \<longleftrightarrow>
   \<not> must_not_narrate cfg s \<and>
   (chainLevelKinds (su_kind s) \<or> contains (cfg_accounts cfg) (su_namespace s))"
proof (cases "must_not_narrate cfg s")
  case True
  then show ?thesis using Clear_sensitive [of cfg s] by (simp add: verdict_values)
next
  case False
  then have n: "su_kind s \<noteq> ''package.rejected''" "clear_parties cfg (su_kind s) (su_parties s) = None"
    "\<not> contains (cfg_deny cfg) (su_namespace s)" "\<not> contains (cfg_deny cfg) (su_actor s)"
    by (auto simp: must_not_narrate_def clear_parties_None)
  have "contains (cfg_accounts cfg) (su_namespace s) \<Longrightarrow> su_namespace s \<noteq> ''''"
    by (auto simp: contains_def)
  with n False show ?thesis by (auto simp: Clear_def verdict_values)
qed

lemma Decide_share:
  "fst (Decide i c r) = VerdictShare \<longleftrightarrow> i = InterestHigh \<and> ax_level c = ClearanceOurs"
  by (auto simp: Decide_def Let_def verdict_values)

text \<open>
  An event is recommended for sharing exactly when its interest is high, nothing
  about it is sensitive, and it is a chain-wide fact or its namespace is on the
  operator's accounts list: no interest, however high, shares what is not ours.
\<close>

theorem share_only_what_is_ours:
  "fst (Decide interest (Clear cfg s) why) = VerdictShare \<longleftrightarrow>
   interest = InterestHigh \<and> \<not> must_not_narrate cfg s \<and>
   (chainLevelKinds (su_kind s) \<or> contains (cfg_accounts cfg) (su_namespace s))"
  by (simp add: Decide_share Clear_ours)

text \<open>
  A sensitive event is held whatever its interest and whoever it belongs to: a
  rejected submission, anything the denylist names, a large transfer that touches the
  treasury.
\<close>

theorem sensitive_is_always_held:
  assumes "must_not_narrate cfg s"
  shows "fst (Decide interest (Clear cfg s) why) = VerdictHold"
  using assms Clear_sensitive [of cfg s] by (simp add: Decide_def Let_def)

text \<open>
  A fresh deployment recommends nothing it has not been told it may: with no
  configuration, an event that is not a chain-wide fact is never shared, and one that
  is neither rejected nor of low interest is a maybe that names what would settle it.
\<close>

theorem unconfigured_never_shares:
  assumes "\<not> Configured cfg" "\<not> chainLevelKinds (su_kind s)" "su_kind s \<noteq> ''package.rejected''"
    "interest \<noteq> InterestLow"
  shows "\<exists>j. Decide interest (Clear cfg s) why = (VerdictMaybe, j) \<and>
    j_blocking j = ''confirm with whoever owns this namespace before posting''"
proof -
  have none: "\<not> contains (cfg_deny cfg) a" "\<not> contains (cfg_treasury cfg) a"
    "\<not> contains (cfg_accounts cfg) a" "\<not> contains (cfg_other_teams cfg) a" for a
    using assms(1) by (simp_all add: Configured_def contains_def)
  then have "clear_parties cfg (su_kind s) (su_parties s) = None" by (simp add: clear_parties_None)
  with none assms(2,3) have "ax_level (Clear cfg s) = ClearanceUnclear"
    by (simp add: Clear_def)
  with assms(4) show ?thesis by (simp add: Decide_def blockingFor_def verdict_values)
qed

text \<open>
  Reading a verdict fails closed: whatever the message, the result is one of the
  three values, it is \<^verbatim>\<open>share\<close> only for a message that says so, and every verdict that can
  be written is read back.
\<close>

theorem verdict_reading_fails_closed:
  "valid_verdict (unmarshal_verdict b) \<and>
   (unmarshal_verdict b = VerdictShare \<longleftrightarrow> b = Some (JStr VerdictShare)) \<and>
   (marshal_verdict v = Inr m \<longrightarrow> unmarshal_verdict (Some m) = v)"
  by (auto simp: unmarshal_verdict_def marshal_verdict_def valid_verdict_def verdict_values
      split: option.split json.split if_splits)

section \<open>The reason\<close>

lemma is_rune_dots3 [simp]: "is_rune dots3"
  by (simp add: is_rune_def dots3_def in_range_def)

lemma clip_reason_length: "length (runes (clip_reason s)) \<le> MaxVerdictReason"
proof (cases "MaxVerdictReason < length (runes s)")
  case True
  let ?rs = "take (MaxVerdictReason - 1) (runes s)"
  have "\<forall>r \<in> set ?rs. is_rune r" using runes_are_runes by (blast dest: in_set_takeD)
  then have "runes (concat ?rs @ dots3) = ?rs @ runes (dots3 @ [])" by (simp add: runes_append)
  also have "runes (dots3 @ []) = [dots3]" by (subst runes_cons) simp_all
  finally show ?thesis using True by (simp add: clip_reason_def MaxVerdictReason_def)
qed (simp add: clip_reason_def)

lemma dots_to_dot_nonempty: "dots_to_dot s = [] \<longleftrightarrow> s = []"
  by (cases s rule: dots_to_dot.cases) auto

text \<open>
  Every verdict comes with a reason: one that is not empty and is at most
  \<^verbatim>\<open>MaxVerdictReason\<close> runes long, the ellipsis of a cut one included.
\<close>

theorem reason_fits_its_budget:
  "Reason v j \<noteq> '''' \<and> length (runes (Reason v j)) \<le> MaxVerdictReason"
proof
  have "clip_reason s \<noteq> ''''" if "s \<noteq> ''''" for s
    using that by (simp add: clip_reason_def dots3_def)
  then show "Reason v j \<noteq> ''''" by (simp add: Reason_def Let_def dots_to_dot_nonempty)
  show "length (runes (Reason v j)) \<le> MaxVerdictReason"
    by (simp only: Reason_def Let_def clip_reason_length)
qed

section \<open>Witnesses\<close>

definition nobody :: clearance_config where
  "nobody = \<lparr>cfg_accounts = [], cfg_other_teams = [], cfg_treasury = [], cfg_deny = []\<rparr>"

definition a_deploy :: subject where
  "a_deploy = \<lparr>su_kind = ''package.deployed'', su_namespace = ''moul'', su_actor = ''g1x'', su_parties = [''g1x'']\<rparr>"

theorem unconfigured_never_shares_witness:
  "fst (Decide InterestHigh (Clear nobody a_deploy) ''why'') = VerdictMaybe"
proof -
  have "\<not> Configured nobody" "\<not> chainLevelKinds (su_kind a_deploy)"
    "su_kind a_deploy \<noteq> ''package.rejected''" "InterestHigh \<noteq> InterestLow"
    by (simp_all add: nobody_def a_deploy_def Configured_def chainLevelKinds_def verdict_values)
  from unconfigured_never_shares [OF this, of "''why''"] show ?thesis by auto
qed

theorem sensitive_is_always_held_witness:
  "fst (Decide InterestHigh (Clear (nobody\<lparr>cfg_deny := [''G1X''], cfg_accounts := [''moul'']\<rparr>) a_deploy) ''why'')
     = VerdictHold"
  by (rule sensitive_is_always_held) code_simp

theorem verdict_reading_fails_closed_witness:
  "marshal_verdict VerdictMaybe = Inr (JStr ''maybe'') \<and> unmarshal_verdict (Some (JStr ''maybe'')) = VerdictMaybe"
proof -
  have "marshal_verdict VerdictMaybe = Inr (JStr ''maybe'')" by code_simp
  with verdict_reading_fails_closed show ?thesis by blast
qed

end
