(* ===== verification/Discover_Generation.thy ===== *)
theory Discover_Generation
  imports Go_Prelude
begin

text \<open>
  Generations of an app (\<^verbatim>\<open>pkg/discover/generation.go\<close>): which family a package path
  belongs to, which generation of it the path is, and how generations are ordered.
\<close>

section \<open>The code\<close>

definition genMaxSegmentDigits :: nat where "genMaxSegmentDigits = 2"

definition splitGeneration :: "string \<Rightarrow> string \<times> int" where
  "splitGeneration seg =
     (let digits = rev (takeWhile is_digit (rev seg)); i = length seg - length digits
      in if digits = '''' \<or> genMaxSegmentDigits < length digits then (seg, 0)
         else let (n, ok) = parse_int digits
              in if \<not> ok then (seg, 0) else (trim_suffix (take i seg) ''v'', n))"

fun generation_segments :: "string list \<Rightarrow> string list \<times> int list" where
  "generation_segments [] = ([], [])"
| "generation_segments (seg # segs) =
     (let (stem, n) = splitGeneration seg; (keep, gen) = generation_segments segs
      in (if stem \<noteq> '''' then stem # keep else keep, n # gen))"

definition Generation :: "string \<Rightarrow> (string \<times> int list) option" where
  "Generation path =
     (let segs = split_on (CHR ''/'') (trim_by (\<lambda>c. c = CHR ''/'') path)
      in if length segs < 4 \<or> (segs ! 1 \<noteq> ''r'' \<and> segs ! 1 \<noteq> ''p'') then None
         else let (keep, gen) = generation_segments (drop 3 segs)
              in Some (join_with ''/'' (take 3 segs @ keep), gen))"

text \<open>The loop over the positions of the longer vector, the shorter one padded with zeros.\<close>

fun GenerationLess :: "int list \<Rightarrow> int list \<Rightarrow> bool" where
  "GenerationLess [] [] = False"
| "GenerationLess (x # a) [] = (if x \<noteq> 0 then x < 0 else GenerationLess a [])"
| "GenerationLess [] (y # b) = (if 0 \<noteq> y then 0 < y else GenerationLess [] b)"
| "GenerationLess (x # a) (y # b) = (if x \<noteq> y then x < y else GenerationLess a b)"

section \<open>The order\<close>

text \<open>A generation vector read with zeros past its end: what the order compares.\<close>

definition padded :: "int list \<Rightarrow> nat \<Rightarrow> int" where
  "padded a i = (if i < length a then a ! i else 0)"

lemma padded_simps [simp]:
  "padded (x # a) 0 = x" "padded (x # a) (Suc i) = padded a i" "padded [] i = 0"
  by (simp_all add: padded_def)

definition first_less :: "(nat \<Rightarrow> int) \<Rightarrow> (nat \<Rightarrow> int) \<Rightarrow> bool" where
  "first_less f g \<longleftrightarrow> (\<exists>i. f i < g i \<and> (\<forall>j < i. f j = g j))"

lemma first_less_step:
  "first_less f g \<longleftrightarrow>
   (if f 0 \<noteq> g 0 then f 0 < g 0 else first_less (\<lambda>i. f (Suc i)) (\<lambda>i. g (Suc i)))"
proof (cases "f 0 = g 0")
  case True
    have "f i < g i \<and> (\<forall>j < i. f j = g j) \<longleftrightarrow>
      (\<exists>k. i = Suc k \<and> f (Suc k) < g (Suc k) \<and> (\<forall>j < k. f (Suc j) = g (Suc j)))" for i
      using True by (cases i) (auto simp: All_less_Suc2)
    with True show ?thesis by (simp add: first_less_def)
next
  case False
  have "f i < g i \<and> (\<forall>j < i. f j = g j) \<longleftrightarrow> i = 0 \<and> f 0 < g 0" for i
    using False by (cases i) (auto simp: All_less_Suc2)
  with False show ?thesis by (simp add: first_less_def)
qed

lemma GenerationLess_first: "GenerationLess a b \<longleftrightarrow> first_less (padded a) (padded b)"
proof (induction a b rule: GenerationLess.induct)
  case 1
  show ?case by (simp add: first_less_def)
next
  case (2 x a)
  then show ?case by (subst first_less_step) simp
next
  case (3 y b)
  then show ?case by (subst first_less_step) simp
next
  case (4 x a y b)
  then show ?case by (subst first_less_step) simp
qed

lemma first_less_trans:
  assumes "first_less f g" "first_less g h"
  shows "first_less f h"
proof -
  obtain i j where i: "f i < g i" "\<forall>k < i. f k = g k" and j: "g j < h j" "\<forall>k < j. g k = h k"
    using assms by (auto simp: first_less_def)
  have "f (min i j) < h (min i j) \<and> (\<forall>k < min i j. f k = h k)"
    using i j by (cases i j rule: linorder_cases) (auto simp: min_def)
  then show ?thesis by (auto simp: first_less_def)
qed

lemma first_lessI: "f i < g i \<Longrightarrow> (\<And>j. j < i \<Longrightarrow> f j = g j) \<Longrightarrow> first_less f g"
  by (auto simp: first_less_def)

lemma first_less_linear: "first_less f g \<or> first_less g f \<or> f = g"
proof (cases "f = g")
  case False
  then obtain i where "f i \<noteq> g i" by blast
  then obtain k where at: "f k \<noteq> g k" and below: "\<And>j. j < k \<Longrightarrow> f j = g j"
    using exists_least_iff [of "\<lambda>i. f i \<noteq> g i"] by blast
  show ?thesis
  proof (cases "f k < g k")
    case True
    then have "first_less f g" by (rule first_lessI) (rule below)
    then show ?thesis by simp
  next
    case False
    with at have "g k < f k" by simp
    then have "first_less g f" by (rule first_lessI) (simp add: below)
    then show ?thesis by simp
  qed
qed simp

lemma first_less_irrefl: "\<not> first_less f f"
  by (simp add: first_less_def)

text \<open>
  \<^verbatim>\<open>GenerationLess\<close> is a strict weak order, so sorting by it is well defined, and two
  generations tie exactly when they are the same vector once the shorter is padded
  with zeros.
\<close>

theorem GenerationLess_strict_weak_order:
  "\<not> GenerationLess a a \<and>
   (GenerationLess a b \<and> GenerationLess b c \<longrightarrow> GenerationLess a c) \<and>
   (\<not> GenerationLess a b \<and> \<not> GenerationLess b a \<longleftrightarrow> (\<forall>i. padded a i = padded b i))"
proof (intro conjI impI)
  show "\<not> GenerationLess a a" by (simp add: GenerationLess_first first_less_irrefl)
  show "GenerationLess a c" if "GenerationLess a b \<and> GenerationLess b c"
    using that first_less_trans unfolding GenerationLess_first by blast
  show "\<not> GenerationLess a b \<and> \<not> GenerationLess b a \<longleftrightarrow> (\<forall>i. padded a i = padded b i)"
    using first_less_linear [of "padded a" "padded b"] first_less_irrefl [of "padded a"]
    unfolding GenerationLess_first by (auto simp: fun_eq_iff first_less_def)
qed

theorem GenerationLess_strict_weak_order_witness:
  "GenerationLess [0, 9] [1] \<and> GenerationLess [1] [1, 0, 2] \<and> GenerationLess [0, 9] [1, 0, 2]"
  using GenerationLess_strict_weak_order [of "[0, 9]" "[1]" "[1, 0, 2]"] by simp

section \<open>Families\<close>

lemma is_digit_digit_char: "d < 10 \<Longrightarrow> is_digit (digit_char d)"
  using digit_char_all [of d] by (auto simp: digit_val_def is_digit_def split: if_splits)

lemma nat_digits_all: "c \<in> set (nat_digits n) \<Longrightarrow> is_digit c"
proof (induction n rule: nat_digits.induct)
  case (1 n)
  then show ?case by (subst (asm) nat_digits.simps) (auto simp: is_digit_digit_char split: if_splits)
qed

lemma nat_digits_two: "n < 100 \<Longrightarrow> length (nat_digits n) \<le> 2"
proof -
  assume "n < 100"
  then have "n div 10 < 10" by (simp add: div_less_iff_less_mult)
  then show ?thesis by (subst nat_digits.simps) (simp add: nat_digits.simps [of "n div 10"])
qed

lemma takeWhile_digits:
  assumes "st = [] \<or> \<not> is_digit (last st)"
  shows "rev (takeWhile is_digit (rev (st @ nat_digits n))) = nat_digits n"
proof -
  have all: "\<forall>c \<in> set (rev (nat_digits n)). is_digit c" using nat_digits_all by simp
  have "takeWhile is_digit (rev st) = []"
    using assms by (cases st rule: rev_cases) auto
  with all have "takeWhile is_digit (rev (nat_digits n) @ rev st) = rev (nat_digits n)"
    by (subst takeWhile_append2) auto
  then show ?thesis by simp
qed

lemma splitGeneration_digits:
  assumes "st = [] \<or> \<not> is_digit (last st)" "n < 100"
  shows "splitGeneration (st @ nat_digits n) = (trim_suffix st ''v'', int n)"
proof -
  have "parse_int (itoa (int n)) = (int n, True)"
    by (rule parse_itoa) (use assms(2) in \<open>simp_all add: min_int64_def max_int64_def\<close>)
  then have "parse_int (nat_digits n) = (int n, True)" by (simp add: itoa_def)
  with takeWhile_digits [OF assms(1)] nat_digits_two [OF assms(2)] show ?thesis
    by (simp add: splitGeneration_def Let_def genMaxSegmentDigits_def)
qed

text \<open>The four-segment path of a package directly under a namespace.\<close>

definition package_path :: "string \<Rightarrow> string \<Rightarrow> string \<Rightarrow> string \<Rightarrow> string" where
  "package_path host kind ns seg = join_with ''/'' [host, kind, ns, seg]"

lemma Generation_package_path:
  assumes "\<forall>s \<in> {host, kind, ns, seg}. s \<noteq> '''' \<and> CHR ''/'' \<notin> set s" "kind = ''r'' \<or> kind = ''p''"
  shows "Generation (package_path host kind ns seg) =
    (let (stem, n) = splitGeneration seg
     in Some (join_with ''/'' ([host, kind, ns] @ (if stem \<noteq> '''' then [stem] else [])), [n]))"
proof -
  let ?p = "package_path host kind ns seg"
  have ends: "hd ?p = hd host" "last ?p = last seg" "?p \<noteq> ''''"
    using assms(1) by (auto simp: package_path_def)
  have "hd host \<in> set host" "last seg \<in> set seg" using assms(1) by auto
  then have "hd ?p \<noteq> CHR ''/''" "last ?p \<noteq> CHR ''/''" using assms(1) ends by fastforce+
  then have "trim_by (\<lambda>c. c = CHR ''/'') ?p = ?p" by (intro trim_by_id) auto
  moreover have "split_on (CHR ''/'') ?p = [host, kind, ns, seg]"
    unfolding package_path_def by (rule split_join) (use assms(1) in auto)
  ultimately show ?thesis using assms(2)
    by (auto simp: Generation_def Let_def split: prod.splits)
qed

text \<open>
  Bumping the number of a package keeps its family and moves it up the order: two
  packages of one namespace whose names differ only in a trailing number below 100,
  with or without a \<^verbatim>\<open>v\<close> before it, are generations of one app, the larger number being
  the later one. The name before the number may not itself end in a digit or a \<^verbatim>\<open>v\<close>.
\<close>

theorem Generation_bump_keeps_the_family:
  assumes "\<forall>s \<in> {host, kind, ns, st}. s \<noteq> '''' \<and> CHR ''/'' \<notin> set s" "kind = ''r'' \<or> kind = ''p''"
    and "\<not> is_digit (last st)" "last st \<noteq> CHR ''v''" "m < 100" "n < 100"
  shows "\<exists>g h. Generation (package_path host kind ns (st @ nat_digits m)) = Some (package_path host kind ns st, g) \<and>
    Generation (package_path host kind ns (st @ ''v'' @ nat_digits n)) = Some (package_path host kind ns st, h) \<and>
    (GenerationLess g h \<longleftrightarrow> m < n)"
proof -
  have "CHR ''/'' \<notin> set (nat_digits k)" for k
    using nat_digits_all [of "CHR ''/''" k] by (auto simp: is_digit_def)
  then have ok: "\<forall>s \<in> {host, kind, ns, st @ nat_digits m}. s \<noteq> '''' \<and> CHR ''/'' \<notin> set s"
    "\<forall>s \<in> {host, kind, ns, (st @ ''v'') @ nat_digits n}. s \<noteq> '''' \<and> CHR ''/'' \<notin> set s"
    using assms(1) by auto
  have "trim_suffix st ''v'' = st"
    using assms(1,4) by (cases st rule: rev_cases) (auto simp: trim_suffix_def has_suffix_iff)
  then have "splitGeneration (st @ nat_digits m) = (st, int m)"
    using splitGeneration_digits [of st m] assms(3,5) by simp
  moreover have "trim_suffix (st @ ''v'') ''v'' = st"
    by (auto simp: trim_suffix_def has_suffix_def)
  then have "splitGeneration ((st @ ''v'') @ nat_digits n) = (st, int n)"
    using splitGeneration_digits [of "st @ ''v''" n] assms(6) by (simp add: is_digit_def)
  ultimately show ?thesis
    using Generation_package_path [OF ok(1) assms(2)] Generation_package_path [OF ok(2) assms(2)] assms(1)
    by (simp add: package_path_def)
qed

theorem Generation_bump_keeps_the_family_witness:
  "\<exists>g h. Generation ''gno.land/r/ns/app4'' = Some (''gno.land/r/ns/app'', g) \<and>
    Generation ''gno.land/r/ns/appv12'' = Some (''gno.land/r/ns/app'', h) \<and> GenerationLess g h"
  using Generation_bump_keeps_the_family [of "''gno.land''" "''r''" "''ns''" "''app''" 4 12]
  by (simp add: package_path_def nat_digits.simps digit_char_def is_digit_def)

text \<open>
  A name that ends in \<^verbatim>\<open>v\<close> loses that letter when it carries a number: \<^verbatim>\<open>dev2\<close> is put in
  the family of \<^verbatim>\<open>de\<close>, an unrelated name, and not in that of \<^verbatim>\<open>dev\<close>.
\<close>

theorem Generation_folds_dev2_into_de:
  "Generation ''gno.land/r/ns/dev2'' = Some (''gno.land/r/ns/de'', [2]) \<and>
   Generation ''gno.land/r/ns/de'' = Some (''gno.land/r/ns/de'', [0]) \<and>
   Generation ''gno.land/r/ns/dev'' = Some (''gno.land/r/ns/dev'', [0])"
  by code_simp

end
