(* ===== verification/Net_Config.thy ===== *)
theory Net_Config
  imports Go_Json
begin

text \<open>
  Which networks the server runs against (\<^verbatim>\<open>pkg/config/config.go\<close>): the endpoints of a
  network, where the configuration comes from, and what makes it acceptable. The file
  system is a parameter: what \<^verbatim>\<open>os.Stat\<close> and \<^verbatim>\<open>os.ReadFile\<close> answer for a path.
\<close>

section \<open>The code\<close>

record network_config =
  nw_id :: string
  nw_indexer :: string
  nw_rpc :: string
  nw_indexers :: "string list"
  nw_rpcs :: "string list"
  nw_gnoweb :: string

text \<open>The loop of \<^verbatim>\<open>mergeEndpoints\<close>: what was seen, and what was kept so far.\<close>

fun merge_loop :: "string set \<Rightarrow> string list \<Rightarrow> string list \<Rightarrow> string list" where
  "merge_loop seen out [] = out"
| "merge_loop seen out (u # us) =
     (if u = '''' \<or> u \<in> seen then merge_loop seen out us
      else merge_loop (insert u seen) (out @ [u]) us)"

definition mergeEndpoints :: "string \<Rightarrow> string list \<Rightarrow> string list" where
  "mergeEndpoints single list = merge_loop {} [] (single # list)"

definition Indexers :: "network_config \<Rightarrow> string list" where
  "Indexers n = mergeEndpoints (nw_indexer n) (nw_indexers n)"

definition RPCs :: "network_config \<Rightarrow> string list" where
  "RPCs n = mergeEndpoints (nw_rpc n) (nw_rpcs n)"

type_synonym app_config = "network_config list"

definition implicitConfigFile :: string where "implicitConfigFile = ''networks.json''"
definition defaultNetworkID :: string where "defaultNetworkID = ''default''"

definition network :: "string \<Rightarrow> string \<Rightarrow> string \<Rightarrow> network_config" where
  "network i ix rpc = \<lparr>nw_id = i, nw_indexer = ix, nw_rpc = rpc, nw_indexers = [], nw_rpcs = [], nw_gnoweb = ''''\<rparr>"

definition defaultConfig :: app_config where
  "defaultConfig =
     [(network ''gnoland1'' ''https://indexer.gno.land/graphql/query'' ''https://rpc.gno.land'')
        \<lparr>nw_gnoweb := ''https://gno.land''\<rparr>,
      (network ''onyx'' ''https://indexer.onyx.testnets.gno.land/graphql/query''
         ''https://rpc.onyx.testnets.gno.land'')\<lparr>nw_gnoweb := ''https://onyx.testnets.gno.land''\<rparr>]"

datatype config_source = SourceFile | SourceFlags | SourceImplicit | SourceDefault

datatype config_error =
    ReadConfig string
  | ParseConfig
  | ConfigWithFlags
  | FlagsWithoutIndexer
  | NoNetworks
  | MissingID nat
  | MissingIndexer string
  | DuplicateID string

text \<open>A file system: does the path exist, and its contents, \<^term>\<open>Inr None\<close> when not JSON.\<close>

record file_system =
  fs_stat :: "string \<Rightarrow> bool"
  fs_read :: "string \<Rightarrow> string + json option"

definition strings_ok :: "json option \<Rightarrow> bool" where
  "strings_ok r \<longleftrightarrow> slice_ok r \<and> list_all (\<lambda>x. str_ok (Some x)) (jelems r)"

definition strings_of :: "json option \<Rightarrow> string list" where
  "strings_of r = map (\<lambda>x. case x of JStr s \<Rightarrow> s | _ \<Rightarrow> '''') (jelems r)"

definition network_ok :: "json \<Rightarrow> bool" where
  "network_ok j \<longleftrightarrow> struct_ok j \<and>
     list_all (\<lambda>k. str_ok (jfield k j)) [''id'', ''indexer'', ''rpc'', ''gnoweb''] \<and>
     list_all (\<lambda>k. strings_ok (jfield k j)) [''indexers'', ''rpcs'']"

definition decode_network :: "json \<Rightarrow> network_config" where
  "decode_network j =
     \<lparr>nw_id = jstr ''id'' j, nw_indexer = jstr ''indexer'' j, nw_rpc = jstr ''rpc'' j,
      nw_indexers = strings_of (jfield ''indexers'' j), nw_rpcs = strings_of (jfield ''rpcs'' j),
      nw_gnoweb = jstr ''gnoweb'' j\<rparr>"

definition LoadConfig :: "file_system \<Rightarrow> string \<Rightarrow> config_error + app_config" where
  "LoadConfig fs path =
     (case fs_read fs path of
        Inl e \<Rightarrow> Inl (ReadConfig path)
      | Inr None \<Rightarrow> Inl ParseConfig
      | Inr (Some j) \<Rightarrow>
          if \<not> (struct_ok j \<and> slice_ok (jfield ''networks'' j) \<and>
                list_all network_ok (jelems (jfield ''networks'' j)))
          then Inl ParseConfig
          else Inr (map decode_network (jelems (jfield ''networks'' j))))"

definition resolveConfig ::
  "file_system \<Rightarrow> string \<Rightarrow> string \<Rightarrow> string \<Rightarrow> string \<Rightarrow> config_error + app_config \<times> config_source" where
  "resolveConfig fs configPath networkID indexerURL rpcURL =
     (let single = (networkID \<noteq> '''' \<or> indexerURL \<noteq> '''' \<or> rpcURL \<noteq> '''')
      in if configPath \<noteq> '''' \<and> single then Inl ConfigWithFlags
         else if configPath \<noteq> '''' then
           (case LoadConfig fs configPath of Inl e \<Rightarrow> Inl e | Inr cfg \<Rightarrow> Inr (cfg, SourceFile))
         else if single then
           (if indexerURL = '''' then Inl FlagsWithoutIndexer
            else Inr ([network (if networkID = '''' then defaultNetworkID else networkID) indexerURL rpcURL],
                      SourceFlags))
         else if fs_stat fs implicitConfigFile then
           (case LoadConfig fs implicitConfigFile of Inl e \<Rightarrow> Inl e | Inr cfg \<Rightarrow> Inr (cfg, SourceImplicit))
         else Inr (defaultConfig, SourceDefault))"

fun validate_loop :: "nat \<Rightarrow> string set \<Rightarrow> app_config \<Rightarrow> config_error option" where
  "validate_loop i seen [] = None"
| "validate_loop i seen (n # ns) =
     (if nw_id n = '''' then Some (MissingID i)
      else if length (Indexers n) = 0 then Some (MissingIndexer (nw_id n))
      else if nw_id n \<in> seen then Some (DuplicateID (nw_id n))
      else validate_loop (Suc i) (insert (nw_id n) seen) ns)"

definition validate :: "app_config \<Rightarrow> config_error option" where
  "validate c = (if length c = 0 then Some NoNetworks else validate_loop 0 {} c)"

definition ResolveConfig ::
  "file_system \<Rightarrow> string \<Rightarrow> string \<Rightarrow> string \<Rightarrow> string \<Rightarrow> config_error + app_config \<times> config_source" where
  "ResolveConfig fs configPath networkID indexerURL rpcURL =
     (case resolveConfig fs configPath networkID indexerURL rpcURL of
        Inl e \<Rightarrow> Inl e
      | Inr (cfg, source) \<Rightarrow> (case validate cfg of Some e \<Rightarrow> Inl e | None \<Rightarrow> Inr (cfg, source)))"

definition IDs :: "app_config \<Rightarrow> string list" where
  "IDs c = map nw_id c"

section \<open>Endpoints\<close>

lemma merge_loop_spec:
  assumes "seen = set out" "distinct out" "'''' \<notin> set out"
  shows "distinct (merge_loop seen out us) \<and>
    set (merge_loop seen out us) = set out \<union> (set us - {''''}) \<and>
    (\<exists>ws. merge_loop seen out us = out @ ws)"
  using assms
proof (induction us arbitrary: seen out)
  case (Cons u us)
  show ?case
  proof (cases "u = '''' \<or> u \<in> seen")
    case True
    with Cons.IH [OF Cons.prems] Cons.prems(1) show ?thesis by auto
  next
    case False
    have "distinct (out @ [u])" "'''' \<notin> set (out @ [u])" "insert u seen = set (out @ [u])"
      using False Cons.prems by auto
    from Cons.IH [OF this(3,1,2)] False show ?thesis by auto
  qed
qed auto

text \<open>
  The endpoints of a network are the configured ones without blanks and without
  repetitions, the singular spelling first.
\<close>

theorem mergeEndpoints_no_duplicates:
  "distinct (mergeEndpoints single us) \<and> set (mergeEndpoints single us) = set (single # us) - {''''} \<and>
   (single \<noteq> '''' \<longrightarrow> hd (mergeEndpoints single us) = single)"
proof (intro conjI impI)
  have all: "distinct (merge_loop {} [] (single # us))"
    "set (merge_loop {} [] (single # us)) = set (single # us) - {''''}"
    using merge_loop_spec [of "{}" "[]" "single # us"] by simp_all
  show "distinct (mergeEndpoints single us)"
    "set (mergeEndpoints single us) = set (single # us) - {''''}"
    unfolding mergeEndpoints_def by (rule all)+
  show "hd (mergeEndpoints single us) = single" if "single \<noteq> ''''"
  proof -
    have "'''' \<notin> set [single]" using that by simp
    from merge_loop_spec [OF _ _ this, of "{single}" us]
    obtain ws where "merge_loop {single} [single] us = [single] @ ws" by auto
    with that show ?thesis by (simp add: mergeEndpoints_def)
  qed
qed

section \<open>Validation\<close>

definition config_ok :: "app_config \<Rightarrow> bool" where
  "config_ok c \<longleftrightarrow> c \<noteq> [] \<and> distinct (IDs c) \<and> (\<forall>n \<in> set c. nw_id n \<noteq> '''' \<and> Indexers n \<noteq> [])"

lemma validate_loop_ok:
  "validate_loop i seen c = None \<longleftrightarrow>
   distinct (IDs c) \<and> set (IDs c) \<inter> seen = {} \<and> (\<forall>n \<in> set c. nw_id n \<noteq> '''' \<and> Indexers n \<noteq> [])"
  by (induction i seen c rule: validate_loop.induct) (auto simp: IDs_def)

lemma validate_ok: "validate c = None \<longleftrightarrow> config_ok c"
  by (simp add: validate_def config_ok_def validate_loop_ok)

lemma ResolveConfig_Inr:
  "ResolveConfig fs p i x r = Inr (cfg, src) \<longleftrightarrow>
   resolveConfig fs p i x r = Inr (cfg, src) \<and> config_ok cfg"
  by (auto simp: ResolveConfig_def validate_ok [symmetric] split: sum.splits prod.splits option.splits)

text \<open>
  A configuration the server starts with names at least one network, no two with the
  same identifier, which would give two syncers the same rows, and each with an
  identifier and an indexer.
\<close>

theorem ResolveConfig_accepts_only_valid:
  assumes "ResolveConfig fs p i x r = Inr (cfg, src)"
  shows "cfg \<noteq> [] \<and> distinct (IDs cfg) \<and> (\<forall>n \<in> set cfg. nw_id n \<noteq> '''' \<and> Indexers n \<noteq> [])"
  using assms by (simp add: ResolveConfig_Inr config_ok_def)

text \<open>
  A flag is honoured or reported, never dropped: when the server starts with any of
  the single-network flags set, it runs exactly the network they describe, and when a
  configuration file is named, exactly what that file says; the two never mix.
\<close>

theorem flags_are_never_dropped:
  assumes "ResolveConfig fs p i x r = Inr (cfg, src)"
  shows "(i \<noteq> '''' \<or> x \<noteq> '''' \<or> r \<noteq> '''' \<longrightarrow>
      p = '''' \<and> src = SourceFlags \<and> cfg = [network (if i = '''' then defaultNetworkID else i) x r]) \<and>
    (p \<noteq> '''' \<longrightarrow> src = SourceFile \<and> LoadConfig fs p = Inr cfg)"
proof -
  have res: "resolveConfig fs p i x r = Inr (cfg, src)" using assms by (simp add: ResolveConfig_Inr)
  show ?thesis
  proof (cases "i \<noteq> '''' \<or> x \<noteq> '''' \<or> r \<noteq> ''''")
    case True
    with res have "p = ''''" "x \<noteq> ''''" by (auto simp: resolveConfig_def Let_def split: if_splits)
    with res True show ?thesis by (simp add: resolveConfig_def)
  next
    case False
    with res show ?thesis
      by (cases "p = ''''") (auto simp: resolveConfig_def split: sum.splits)
  qed
qed

section \<open>Witnesses\<close>

definition no_files :: file_system where
  "no_files = \<lparr>fs_stat = (\<lambda>_. False), fs_read = (\<lambda>_. Inl ''no such file'')\<rparr>"

lemma flags_resolve:
  "ResolveConfig no_files '''' '''' ''http://ix'' '''' = Inr ([network ''default'' ''http://ix'' ''''], SourceFlags)"
  by code_simp

lemma defaults_resolve:
  "ResolveConfig no_files '''' '''' '''' '''' = Inr (defaultConfig, SourceDefault)"
  by code_simp

theorem mergeEndpoints_no_duplicates_witness:
  "hd (mergeEndpoints ''a'' [''b'', ''a'', '''']) = ''a''"
  using mergeEndpoints_no_duplicates [of "''a''" "[''b'', ''a'', '''']"] by simp

theorem ResolveConfig_accepts_only_valid_witness: "distinct (IDs defaultConfig)"
  using ResolveConfig_accepts_only_valid [OF defaults_resolve] by simp

theorem flags_are_never_dropped_witness:
  "[network ''default'' ''http://ix'' ''''] = [network defaultNetworkID ''http://ix'' '''']"
  using flags_are_never_dropped [OF flags_resolve] by simp

end
