(* ===== verification/Go_State.thy ===== *)
theory Go_State
  imports "HOL-Library.State_Monad"
begin

text \<open>
  Code that works on a shared state, as programs of the library's state monad, and what
  is used to reason about them: the postcondition a program establishes from a state.
\<close>

section \<open>Programs\<close>

definition gets :: "('s \<Rightarrow> 'a) \<Rightarrow> ('s, 'a) state" where
  "gets f = State (\<lambda>s. (f s, s))"

definition modifies :: "('s \<Rightarrow> 's) \<Rightarrow> ('s, unit) state" where
  "modifies f = State (\<lambda>s. ((), f s))"

text \<open>A step of one part of the state, read and written back by \<open>g\<close> and \<open>p\<close>.\<close>

definition zoom :: "('s \<Rightarrow> 'w) \<Rightarrow> ('w \<Rightarrow> 's \<Rightarrow> 's) \<Rightarrow> ('w \<Rightarrow> 'a \<times> 'w) \<Rightarrow> ('s, 'a) state" where
  "zoom g p f = State (\<lambda>s. case f (g s) of (a, w) \<Rightarrow> (a, p w s))"

section \<open>Postconditions\<close>

definition wp :: "('s, 'a) state \<Rightarrow> ('a \<Rightarrow> 's \<Rightarrow> bool) \<Rightarrow> 's \<Rightarrow> bool" where
  "wp m Q s = (case run_state m s of (a, t) \<Rightarrow> Q a t)"

lemma wp_run: "wp m Q s \<longleftrightarrow> (\<forall>a t. run_state m s = (a, t) \<longrightarrow> Q a t)"
  by (auto simp: wp_def split: prod.splits)

lemma wp_of_run: "run_state m s = (a, t) \<Longrightarrow> wp m Q s = Q a t"
  by (simp add: wp_def)

lemma wp_fst_snd: "wp m Q s = Q (fst (run_state m s)) (snd (run_state m s))"
  by (simp add: wp_def case_prod_beta)

lemma wp_mono:
  assumes "wp m Q s" "\<And>a t. Q a t \<Longrightarrow> R a t"
  shows "wp m R s"
  using assms by (auto simp: wp_def split: prod.splits)

lemma wp_conj: "wp m (\<lambda>a t. Q a t \<and> R a t) s \<longleftrightarrow> wp m Q s \<and> wp m R s"
  by (simp add: wp_fst_snd)

lemma wp_return [simp]: "wp (State_Monad.return a) Q = Q a"
  by (rule ext) (simp add: wp_def)

lemma wp_bind [simp]: "wp (State_Monad.bind m f) Q = wp m (\<lambda>a. wp (f a) Q)"
  by (rule ext) (simp add: wp_def split: prod.splits)

lemma wp_gets [simp]: "wp (gets f) Q s = Q (f s) s"
  by (simp add: wp_def gets_def)

lemma wp_modifies [simp]: "wp (modifies f) Q s = Q () (f s)"
  by (simp add: wp_def modifies_def)

lemma wp_zoom: "wp (zoom g p f) Q s = (case f (g s) of (a, w) \<Rightarrow> Q a (p w s))"
  by (simp add: wp_def zoom_def split: prod.splits)

lemma wp_if [simp]: "wp (if b then m else m') Q = (if b then wp m Q else wp m' Q)"
  by simp

lemma wp_case_option:
  "wp (case x of None \<Rightarrow> m | Some a \<Rightarrow> f a) Q s = (case x of None \<Rightarrow> wp m Q s | Some a \<Rightarrow> wp (f a) Q s)"
  by (simp split: option.splits)

lemma wp_case_prod: "wp (case p of (a, b) \<Rightarrow> f a b) Q s = (case p of (a, b) \<Rightarrow> wp (f a b) Q s)"
  by (simp split: prod.splits)

lemma run_gets [simp]: "run_state (gets f) s = (f s, s)"
  by (simp add: gets_def)

lemma run_modifies [simp]: "run_state (modifies f) s = ((), f s)"
  by (simp add: modifies_def)

lemma run_zoom [simp]: "run_state (zoom g p f) s = (case f (g s) of (a, w) \<Rightarrow> (a, p w s))"
  by (simp add: zoom_def)

section \<open>Relations every run keeps\<close>

text \<open>A program keeps \<open>R\<close> between the state it starts from and the one it ends in.\<close>

definition keeps :: "('s \<Rightarrow> 's \<Rightarrow> bool) \<Rightarrow> ('s, 'a) state \<Rightarrow> bool" where
  "keeps R m \<longleftrightarrow> (\<forall>s. wp m (\<lambda>_ t. R s t) s)"

lemma keepsI: "(\<And>s. wp m (\<lambda>_ t. R s t) s) \<Longrightarrow> keeps R m"
  by (simp add: keeps_def)

lemma keepsD: "keeps R m \<Longrightarrow> run_state m s = (a, t) \<Longrightarrow> R s t"
  by (simp add: keeps_def wp_def) (metis case_prod_conv)

lemma keeps_wp: "keeps R m \<Longrightarrow> wp m (\<lambda>_ t. R s t) s"
  by (simp add: keeps_def)

lemma keeps_mono: "keeps R m \<Longrightarrow> (\<And>s t. R s t \<Longrightarrow> S s t) \<Longrightarrow> keeps S m"
  by (metis keepsI keeps_wp wp_mono)

text \<open>A reflexive and transitive relation is kept by a composition of programs that keep it.\<close>

locale kept =
  fixes R :: "'s \<Rightarrow> 's \<Rightarrow> bool"
  assumes refl: "R s s" and trans: "R s t \<Longrightarrow> R t u \<Longrightarrow> R s u"
begin

lemma return: "keeps R (State_Monad.return a)"
  by (rule keepsI) (simp add: refl)

lemma gets: "keeps R (gets f)"
  by (rule keepsI) (simp add: refl)

lemma bind:
  assumes "keeps R m" "\<And>a. keeps R (f a)"
  shows "keeps R (State_Monad.bind m f)"
proof (rule keepsI)
  fix s
  have "wp m (\<lambda>a t. R s t) s" using assms(1) by (rule keeps_wp)
  then show "wp (State_Monad.bind m f) (\<lambda>_ t. R s t) s"
    unfolding wp_bind
  proof (rule wp_mono)
    fix a t assume "R s t"
    have "wp (f a) (\<lambda>_ u. R t u) t" using assms(2) by (rule keeps_wp)
    then show "wp (f a) (\<lambda>_ u. R s u) t" by (rule wp_mono) (rule trans [OF \<open>R s t\<close>])
  qed
qed

lemma cond: "keeps R m \<Longrightarrow> keeps R m' \<Longrightarrow> keeps R (if b then m else m')"
  by simp

lemma opt: "keeps R m \<Longrightarrow> (\<And>a. keeps R (f a)) \<Longrightarrow> keeps R (case x of None \<Rightarrow> m | Some a \<Rightarrow> f a)"
  by (simp split: option.splits)

lemma pair: "(\<And>a b. keeps R (f a b)) \<Longrightarrow> keeps R (case p of (a, b) \<Rightarrow> f a b)"
  by (simp split: prod.splits)

lemmas rules = return gets bind cond opt pair

end

text \<open>The relation \<^term>\<open>\<lambda>s t. part s = part t\<close>: a part of the state is not changed.\<close>

interpretation same: kept "\<lambda>s t. part s = part t" for part :: "'s \<Rightarrow> 'b"
  by unfold_locales auto

end
