(* ===== verification/Sync_Store.thy ===== *)
theory Sync_Store
  imports Go_Prelude Go_State "HOL-Library.AList"
begin

text \<open>
  What the syncer keeps and what it asks (\<^verbatim>\<open>pkg/store\<close>, \<^verbatim>\<open>pkg/indexer\<close>): the tables of
  the database it reads its cursors from, their operations as the SQL states them, and
  the queries of the indexer client. The database engine and the indexer are not part of
  the program: that a statement fails, and what the indexer answers, are decided by an
  outside world whose state every query may change.
\<close>

section \<open>The tables\<close>

record block_row =
  row_height :: int
  row_time :: string
  row_proposer :: int
  row_txs :: int

record token_transfer =
  tt_token :: string
  tt_pkg :: string
  tt_from :: string
  tt_to :: string
  tt_value :: int
  tt_height :: int
  tt_time :: string

record coin_transfer =
  ct_from :: string
  ct_to :: string
  ct_coins :: string
  ct_ugnot :: int
  ct_height :: int
  ct_time :: string

text \<open>
  \<open>db_rows\<close> are the tables the syncer reads nothing of but a network and a height: for
  each table the network and \<^verbatim>\<open>block_height\<close> of its rows.
\<close>

record db =
  db_state :: "string \<Rightarrow> string option"
  db_blocks :: "((string \<times> int) \<times> block_row) list"
  db_proposers :: "((string \<times> string) \<times> int) list"
  db_tokens :: "((string \<times> string \<times> nat) \<times> token_transfer) list"
  db_coins :: "((string \<times> string \<times> nat) \<times> coin_transfer) list"
  db_rows :: "string \<Rightarrow> (string \<times> int) list"

section \<open>What the indexer answers\<close>

record block =
  blk_hash :: string
  blk_height :: int
  blk_chain :: string
  blk_time :: string
  blk_txs :: int
  blk_proposer :: string

record tx_event =
  ev_typename :: string
  ev_type :: string
  ev_attrs :: "(string \<times> string) list"
  ev_from :: string
  ev_to :: string
  ev_coins :: string

record transaction =
  tx_hash :: string
  tx_success :: bool
  tx_height :: int
  tx_events :: "tx_event list option"

text \<open>
  The answer to a transaction query: a failure, a page, or the error that says the
  result was cut at the element cap, which comes with the rows before the cut.
\<close>

datatype 'a reply = Failed | Too_large 'a | Page 'a

text \<open>
  The world: does the next statement fail, the clock, the indexer's tip, its blocks
  strictly between two heights and at a height, its transactions, all those above a
  height, those at one and those strictly between two, and whether it defines the type \<^verbatim>\<open>TransferEvent\<close>.
\<close>

record 'w env =
  e_net :: string
  e_page :: int
  e_pages :: int
  e_days :: int
  x_fails :: "'w \<Rightarrow> bool \<times> 'w"
  x_now :: "'w \<Rightarrow> int \<times> 'w"
  x_rfc3339 :: "string \<Rightarrow> int option"
  x_tip :: "'w \<Rightarrow> int option \<times> 'w"
  x_blocks :: "int \<Rightarrow> int \<Rightarrow> 'w \<Rightarrow> block list option \<times> 'w"
  x_block_at :: "int \<Rightarrow> 'w \<Rightarrow> block list option \<times> 'w"
  x_txs_above :: "int option \<Rightarrow> 'w \<Rightarrow> transaction list reply \<times> 'w"
  x_txs_at :: "int \<Rightarrow> 'w \<Rightarrow> transaction list reply \<times> 'w"
  x_txs_between :: "int \<Rightarrow> int \<Rightarrow> 'w \<Rightarrow> transaction list reply \<times> 'w"
  x_transfers_between :: "int \<Rightarrow> int \<Rightarrow> 'w \<Rightarrow> transaction list reply \<times> 'w"
  x_has_transfers :: "'w \<Rightarrow> bool \<times> 'w"

record 'w sync =
  sy_db :: db
  sy_world :: 'w
  sy_proposers :: "string \<Rightarrow> int option"

type_synonym ('w, 'a) io = "('w sync, 'a) state"

definition ask :: "('w \<Rightarrow> 'a \<times> 'w) \<Rightarrow> ('w, 'a) io" where
  "ask f = zoom sy_world (\<lambda>w s. s\<lparr>sy_world := w\<rparr>) f"

text \<open>A question to a world that also counts, and one that is not counted.\<close>

definition counted :: "('w \<Rightarrow> 'a \<times> 'w) \<Rightarrow> 'w \<times> nat \<Rightarrow> 'a \<times> 'w \<times> nat" where
  "counted f = (\<lambda>(w, n). case f w of (a, w) \<Rightarrow> (a, w, n))"

lemma fst_counted [simp]: "fst (counted f w) = fst (f (fst w))"
  by (simp add: counted_def case_prod_beta)

lemma snd_counted [simp]: "snd (snd (counted f w)) = snd w"
  by (simp add: counted_def case_prod_beta)

text \<open>A statement, or a transaction of statements: it fails and changes nothing, or it runs.\<close>

definition sql :: "'w env \<Rightarrow> (db \<Rightarrow> 'a \<times> db) \<Rightarrow> ('w, 'a option) io" where
  "sql E f = do {
     bad \<leftarrow> ask (x_fails E);
     if bad then State_Monad.return None
     else zoom sy_db (\<lambda>d s. s\<lparr>sy_db := d\<rparr>) (\<lambda>d. case f d of (a, d) \<Rightarrow> (Some a, d))
   }"

section \<open>The statements\<close>

definition GetSyncState :: "'w env \<Rightarrow> string \<Rightarrow> ('w, string option) io" where
  "GetSyncState E key = sql E (\<lambda>d. (case db_state d key of Some v \<Rightarrow> v | None \<Rightarrow> '''', d))"

definition SetSyncState :: "'w env \<Rightarrow> string \<Rightarrow> string \<Rightarrow> ('w, unit option) io" where
  "SetSyncState E key v = sql E (\<lambda>d. ((), d\<lparr>db_state := (db_state d)(key \<mapsto> v)\<rparr>))"

definition heights_of :: "string \<Rightarrow> db \<Rightarrow> int list" where
  "heights_of net d = map (snd \<circ> fst) (filter (\<lambda>r. fst (fst r) = net) (db_blocks d))"

definition min_of :: "int list \<Rightarrow> int option" where
  "min_of xs = (case xs of [] \<Rightarrow> None | x # xs \<Rightarrow> Some (fold min xs x))"

definition max_of :: "int list \<Rightarrow> int option" where
  "max_of xs = (case xs of [] \<Rightarrow> None | x # xs \<Rightarrow> Some (fold max xs x))"

definition bounds_of :: "string \<Rightarrow> db \<Rightarrow> (int \<times> int) option" where
  "bounds_of net d =
     (case (min_of (heights_of net d), max_of (heights_of net d)) of
        (Some lo, Some hi) \<Rightarrow> Some (lo, hi) | _ \<Rightarrow> None)"

definition BlockHeightBounds :: "'w env \<Rightarrow> ('w, (int \<times> int) option option) io" where
  "BlockHeightBounds E = sql E (\<lambda>d. (bounds_of (e_net E) d, d))"

definition upsert_row :: "string \<Rightarrow> block_row \<Rightarrow> db \<Rightarrow> db" where
  "upsert_row net r d = d\<lparr>db_blocks := AList.update (net, row_height r) r (db_blocks d)\<rparr>"

definition UpsertBlocks :: "'w env \<Rightarrow> block_row list \<Rightarrow> ('w, unit option) io" where
  "UpsertBlocks E rows =
     (if rows = [] then State_Monad.return (Some ())
      else sql E (\<lambda>d. ((), fold (upsert_row (e_net E)) rows d)))"

text \<open>The least string of a column, in the byte order SQLite compares texts by.\<close>

definition min_string :: "string list \<Rightarrow> string option" where
  "min_string xs = (case sort_strings xs of [] \<Rightarrow> None | x # _ \<Rightarrow> Some x)"

definition times_of :: "string \<Rightarrow> db \<Rightarrow> string list" where
  "times_of net d = map (row_time \<circ> snd) (filter (\<lambda>r. fst (fst r) = net) (db_blocks d))"

definition oldest_of :: "'w env \<Rightarrow> db \<Rightarrow> int option" where
  "oldest_of E d =
     (case min_string (times_of (e_net E) d) of
        None \<Rightarrow> None
      | Some t \<Rightarrow> if t = '''' then None else x_rfc3339 E t)"

definition OldestBlockTime :: "'w env \<Rightarrow> ('w, int option option) io" where
  "OldestBlockTime E = sql E (\<lambda>d. (oldest_of E d, d))"

text \<open>An \<^verbatim>\<open>INTEGER PRIMARY KEY\<close> left out of an insert is one above the greatest in the table.\<close>

definition next_id :: "db \<Rightarrow> int" where
  "next_id d = (case max_of (map snd (db_proposers d)) of Some i \<Rightarrow> i + 1 | None \<Rightarrow> 1)"

definition insert_proposer :: "string \<Rightarrow> string \<Rightarrow> db \<Rightarrow> db" where
  "insert_proposer net a d =
     (case map_of (db_proposers d) (net, a) of
        Some i \<Rightarrow> d
      | None \<Rightarrow> d\<lparr>db_proposers := db_proposers d @ [((net, a), next_id d)]\<rparr>)"

definition InternProposer :: "'w env \<Rightarrow> string \<Rightarrow> ('w, int option) io" where
  "InternProposer E a = do {
     ok \<leftarrow> sql E (\<lambda>d. ((), insert_proposer (e_net E) a d));
     case ok of
       None \<Rightarrow> State_Monad.return None
     | Some _ \<Rightarrow> do {
         r \<leftarrow> sql E (\<lambda>d. (map_of (db_proposers d) (e_net E, a), d));
         State_Monad.return (case r of Some (Some i) \<Rightarrow> Some i | _ \<Rightarrow> None)
       }
   }"

definition insert_ignore :: "'k \<Rightarrow> 'v \<Rightarrow> ('k \<times> 'v) list \<Rightarrow> ('k \<times> 'v) list" where
  "insert_ignore k v t = (case map_of t k of Some _ \<Rightarrow> t | None \<Rightarrow> t @ [(k, v)])"

text \<open>\<^verbatim>\<open>strings.LastIndex(s, c)\<close>, as the text up to and with the last \<open>c\<close> and the text after it.\<close>

definition cut_last :: "char \<Rightarrow> string \<Rightarrow> (string \<times> string) option" where
  "cut_last c s =
     (if c \<in> set s
      then let tail = rev (takeWhile (\<lambda>x. x \<noteq> c) (rev s)) in Some (take (length s - length tail) s, tail)
      else None)"

definition TokenKeyParts :: "string \<Rightarrow> string \<times> string" where
  "TokenKeyParts key =
     (case cut_last (CHR ''/'') key of
        None \<Rightarrow> ('''', key)
      | Some (front, tail) \<Rightarrow>
          let parts = split_on (CHR ''.'') tail
          in if length parts < 2 \<or> parts ! 0 = '''' \<or> parts ! 1 = '''' then ('''', key)
             else (front @ parts ! 0, parts ! 1))"

definition InsertTokenTransfer :: "'w env \<Rightarrow> string \<Rightarrow> nat \<Rightarrow> token_transfer \<Rightarrow> ('w, unit option) io" where
  "InsertTokenTransfer E hash i t =
     (let t = t\<lparr>tt_pkg := fst (TokenKeyParts (tt_token t))\<rparr>
      in sql E (\<lambda>d. ((), d\<lparr>db_tokens := insert_ignore (e_net E, hash, i) t (db_tokens d)\<rparr>)))"

definition InsertCoinTransfer :: "'w env \<Rightarrow> string \<Rightarrow> nat \<Rightarrow> coin_transfer \<Rightarrow> ('w, unit option) io" where
  "InsertCoinTransfer E hash i t =
     sql E (\<lambda>d. ((), d\<lparr>db_coins := insert_ignore (e_net E, hash, i) t (db_coins d)\<rparr>))"

definition heights_in :: "string \<Rightarrow> string \<Rightarrow> db \<Rightarrow> int list" where
  "heights_in table net d = map snd (filter (\<lambda>r. fst r = net) (db_rows d table))"

definition LastBlockHeight :: "'w env \<Rightarrow> string \<Rightarrow> ('w, int option option) io" where
  "LastBlockHeight E table = sql E (\<lambda>d. (max_of (heights_in table (e_net E) d), d))"

definition LastCallOrSendHeight :: "'w env \<Rightarrow> ('w, int option option) io" where
  "LastCallOrSendHeight E =
     sql E (\<lambda>d. (max_of (heights_in ''calls'' (e_net E) d @ heights_in ''bank_sends'' (e_net E) d), d))"

section \<open>The client\<close>

definition LatestBlockHeight :: "'w env \<Rightarrow> ('w, int option) io" where
  "LatestBlockHeight E = ask (x_tip E)"

definition GetBlocksInRange :: "'w env \<Rightarrow> int \<Rightarrow> int \<Rightarrow> ('w, block list option) io" where
  "GetBlocksInRange E lo hi = ask (x_blocks E (lo - 1) (hi + 1))"

text \<open>The block at a height: \<^term>\<open>None\<close> is an error, \<^term>\<open>Some None\<close> a height the indexer lacks.\<close>

definition GetBlock :: "'w env \<Rightarrow> int \<Rightarrow> ('w, block option option) io" where
  "GetBlock E h = do {
     r \<leftarrow> ask (x_block_at E h);
     State_Monad.return
       (case r of None \<Rightarrow> None | Some [] \<Rightarrow> Some None | Some (b # _) \<Rightarrow> Some (Some b))
   }"

section \<open>Lemmas\<close>

lemma run_ask [simp]: "run_state (ask f) s = (case f (sy_world s) of (a, w) \<Rightarrow> (a, s\<lparr>sy_world := w\<rparr>))"
  by (simp add: ask_def)

lemma wp_ask: "wp (ask f) Q s = (case f (sy_world s) of (a, w) \<Rightarrow> Q a (s\<lparr>sy_world := w\<rparr>))"
  by (simp add: ask_def wp_zoom)

text \<open>
  What a statement establishes, with the world it leaves unknown: \<^term>\<open>None\<close> without a
  change, or the statement's result.
\<close>

lemma wp_sql:
  assumes "\<And>w. Q None (s\<lparr>sy_world := w\<rparr>)"
    and "\<And>w. Q (Some (fst (f (sy_db s)))) (s\<lparr>sy_world := w, sy_db := snd (f (sy_db s))\<rparr>)"
  shows "wp (sql E f) Q s"
  using assms by (simp add: sql_def wp_ask wp_zoom case_prod_beta)

lemma wp_ask_any: "(\<And>a w. f (sy_world s) = (a, w) \<Longrightarrow> Q a (s\<lparr>sy_world := w\<rparr>)) \<Longrightarrow> wp (ask f) Q s"
  by (simp add: wp_ask split: prod.splits)

text \<open>A program that keeps a relation between databases, whatever the world does.\<close>

definition keeps_db :: "(db \<Rightarrow> db \<Rightarrow> bool) \<Rightarrow> ('w, 'a) io \<Rightarrow> bool" where
  "keeps_db R m = keeps (\<lambda>s t. R (sy_db s) (sy_db t)) m"

lemma min_of_set: "xs \<noteq> [] \<Longrightarrow> min_of xs = Some (Min (set xs))"
proof (cases xs)
  case (Cons y ys)
  then show ?thesis by (simp only: min_of_def list.case Min.set_eq_fold)
qed simp

lemma max_of_set: "xs \<noteq> [] \<Longrightarrow> max_of xs = Some (Max (set xs))"
proof (cases xs)
  case (Cons y ys)
  then show ?thesis by (simp only: max_of_def list.case Max.set_eq_fold)
qed simp

lemma min_of_Nil [simp]: "min_of [] = None" "max_of [] = None"
  by (simp_all add: min_of_def max_of_def)

lemma min_of_None [simp]: "min_of xs = None \<longleftrightarrow> xs = []" "max_of xs = None \<longleftrightarrow> xs = []"
  by (cases xs; simp add: min_of_def max_of_def)+

lemma bounds_of_eq:
  "bounds_of net d =
   (if heights_of net d = [] then None
    else Some (Min (set (heights_of net d)), Max (set (heights_of net d))))"
  by (simp add: bounds_of_def min_of_set max_of_set)

lemma heights_of_set: "set (heights_of net d) = {h. (net, h) \<in> fst ` set (db_blocks d)}"
  by (force simp: heights_of_def)

lemma heights_of_upsert:
  "set (heights_of net (upsert_row net r d)) = insert (row_height r) (set (heights_of net d))"
  "net' \<noteq> net \<Longrightarrow> set (heights_of net' (upsert_row net r d)) = set (heights_of net' d)"
  by (auto simp: heights_of_set upsert_row_def dom_update)

lemma heights_of_upserts:
  "set (heights_of net (fold (upsert_row net) rows d)) = row_height ` set rows \<union> set (heights_of net d)"
  by (induction rows arbitrary: d) (auto simp: heights_of_upsert)

end
