(* ===== verification/Sync_Blocks.thy ===== *)
theory Sync_Blocks
  imports Sync_Store
begin

text \<open>
  The blocks table (\<^verbatim>\<open>pkg/syncer/syncer.go\<close>): one pass of \<^verbatim>\<open>syncBlocks\<close>, which seeds the
  table at the tip, extends it upwards to the tip and backfills it downwards, both
  cursors being the bounds of the table itself. Heights are \<^typ>\<open>int\<close>: the code's are 64
  bits wide and a chain's are far below.
\<close>

section \<open>The code\<close>

definition defaultBlockPageSize :: int where "defaultBlockPageSize = 5000"
definition defaultBlockPagesPerPass :: int where "defaultBlockPagesPerPass = 20"

definition BlocksBackfillDoneKey :: "string \<Rightarrow> string" where
  "BlocksBackfillDoneKey net = ''blocks_backfill_done:'' @ net"

definition blocksBackfillDepthKey :: "string \<Rightarrow> string" where
  "blocksBackfillDepthKey net = ''blocks_backfill_depth:'' @ net"

definition day_ns :: int where "day_ns = 86400000000000"

text \<open>
  The oldest time worth backfilling. Days of UTC are all of one length, so \<^verbatim>\<open>AddDate\<close> is a
  subtraction; the clock is read only where a cutoff applies.
\<close>

definition blockHistoryCutoff :: "'w env \<Rightarrow> ('w, int option) io" where
  "blockHistoryCutoff E =
     (if e_days E \<le> 0 then State_Monad.return None
      else do { now \<leftarrow> ask (x_now E); State_Monad.return (Some (now - e_days E * day_ns)) })"

definition proposerID :: "'w env \<Rightarrow> string \<Rightarrow> ('w, int option) io" where
  "proposerID E a = do {
     memo \<leftarrow> gets sy_proposers;
     case memo a of
       Some i \<Rightarrow> State_Monad.return (Some i)
     | None \<Rightarrow> do {
         r \<leftarrow> InternProposer E a;
         case r of
           None \<Rightarrow> State_Monad.return None
         | Some i \<Rightarrow> do {
             modifies (\<lambda>s. s\<lparr>sy_proposers := (sy_proposers s)(a \<mapsto> i)\<rparr>);
             State_Monad.return (Some i)
           }
       }
   }"

primrec block_rows :: "'w env \<Rightarrow> block list \<Rightarrow> ('w, block_row list option) io" where
  "block_rows E [] = State_Monad.return (Some [])"
| "block_rows E (b # bs) = do {
     pid \<leftarrow> (if blk_proposer b \<noteq> '''' then proposerID E (blk_proposer b)
            else State_Monad.return (Some 0));
     case pid of
       None \<Rightarrow> State_Monad.return None
     | Some i \<Rightarrow> do {
         rest \<leftarrow> block_rows E bs;
         State_Monad.return (map_option ((#)
           \<lparr>row_height = blk_height b, row_time = blk_time b, row_proposer = i, row_txs = blk_txs b\<rparr>) rest)
       }
   }"

definition fetchBlockPage :: "'w env \<Rightarrow> int \<Rightarrow> int \<Rightarrow> ('w, bool) io" where
  "fetchBlockPage E lo hi = do {
     got \<leftarrow> GetBlocksInRange E lo hi;
     case got of
       None \<Rightarrow> State_Monad.return False
     | Some blocks \<Rightarrow>
         if blocks = [] then State_Monad.return True
         else do {
           rows \<leftarrow> block_rows E blocks;
           case rows of
             None \<Rightarrow> State_Monad.return False
           | Some rows \<Rightarrow> do {
               r \<leftarrow> UpsertBlocks E rows;
               State_Monad.return (r \<noteq> None)
             }
         }
   }"

definition markBackfillDone :: "'w env \<Rightarrow> int \<Rightarrow> ('w, unit) io" where
  "markBackfillDone E depth = do {
     r \<leftarrow> SetSyncState E (BlocksBackfillDoneKey (e_net E)) ''1'';
     case r of
       None \<Rightarrow> State_Monad.return ()
     | Some _ \<Rightarrow> do {
         _ \<leftarrow> SetSyncState E (blocksBackfillDepthKey (e_net E)) (if depth > 0 then itoa depth else '''');
         State_Monad.return ()
       }
   }"

definition resume_for :: "int \<Rightarrow> string \<Rightarrow> bool" where
  "resume_for days recorded =
     (if recorded = '''' then False
      else let (depth, ok) = parse_int recorded
           in if \<not> ok \<or> depth \<le> 0 then False
              else if days = 0 then True
              else days > depth)"

definition shouldResumeBackfill :: "'w env \<Rightarrow> ('w, bool) io" where
  "shouldResumeBackfill E = do {
     r \<leftarrow> GetSyncState E (blocksBackfillDepthKey (e_net E));
     State_Monad.return (case r of None \<Rightarrow> False | Some recorded \<Rightarrow> resume_for (e_days E) recorded)
   }"

text \<open>Is the oldest stored block before the cutoff? An error of the query counts as no.\<close>

definition past_cutoff :: "'w env \<Rightarrow> int option \<Rightarrow> ('w, bool) io" where
  "past_cutoff E cutoff =
     (case cutoff of
        None \<Rightarrow> State_Monad.return False
      | Some c \<Rightarrow> do {
          r \<leftarrow> OldestBlockTime E;
          State_Monad.return (case r of Some (Some oldest) \<Rightarrow> oldest < c | _ \<Rightarrow> False)
        })"

text \<open>
  The backfill loop with the pages left. It gives up the pass, or stops at the lowest
  height reached, having met a floor or the cap, or neither.
\<close>

datatype stop = Given_up | Stopped int bool bool

text \<open>
  The page below \<open>minH\<close> held nothing: a floor is confirmed by asking for the one block
  under it.
\<close>

definition probe_floor :: "'w env \<Rightarrow> int \<Rightarrow> ('w, stop) io" where
  "probe_floor E minH = do {
     probe \<leftarrow> GetBlock E (minH - 1);
     State_Monad.return (case probe of Some None \<Rightarrow> Stopped minH True False | _ \<Rightarrow> Given_up)
   }"

primrec backfill_loop :: "'w env \<Rightarrow> int option \<Rightarrow> nat \<Rightarrow> int \<Rightarrow> ('w, stop) io" where
  "backfill_loop E cutoff 0 minH = State_Monad.return (Stopped minH False False)"
| "backfill_loop E cutoff (Suc n) minH =
     (if minH \<le> 1 then State_Monad.return (Stopped minH False False)
      else do {
        ok \<leftarrow> fetchBlockPage E (max 1 (minH - 1 - e_page E + 1)) (minH - 1);
        if \<not> ok then State_Monad.return Given_up
        else do {
          b \<leftarrow> BlockHeightBounds E;
          case b of
            Some (Some (newMin, _)) \<Rightarrow>
              if minH \<le> newMin then probe_floor E minH
              else do {
                capped \<leftarrow> past_cutoff E cutoff;
                if capped then State_Monad.return (Stopped newMin False True)
                else backfill_loop E cutoff n newMin
              }
          | _ \<Rightarrow> State_Monad.return Given_up
        }
      })"

definition finish_backfill :: "'w env \<Rightarrow> stop \<Rightarrow> ('w, unit) io" where
  "finish_backfill E st =
     (case st of
        Given_up \<Rightarrow> State_Monad.return ()
      | Stopped minH floor cap \<Rightarrow>
          if cap then markBackfillDone E (e_days E)
          else if floor then markBackfillDone E 0
          else if minH \<le> 1 then markBackfillDone E 0
          else State_Monad.return ())"

text \<open>Is there backfilling to do: not marked done, or marked at a cap that was raised since?\<close>

definition backfill_due :: "'w env \<Rightarrow> ('w, bool) io" where
  "backfill_due E = do {
     done \<leftarrow> GetSyncState E (BlocksBackfillDoneKey (e_net E));
     if done = Some ''1'' then do {
       resume \<leftarrow> shouldResumeBackfill E;
       if \<not> resume then State_Monad.return False
       else do {
         r \<leftarrow> SetSyncState E (BlocksBackfillDoneKey (e_net E)) '''';
         State_Monad.return (r \<noteq> None)
       }
     }
     else State_Monad.return True
   }"

definition backfill :: "'w env \<Rightarrow> int \<Rightarrow> int \<Rightarrow> ('w, unit) io" where
  "backfill E pagesLeft minH = do {
     go \<leftarrow> backfill_due E;
     if \<not> go then State_Monad.return ()
     else do {
       cutoff \<leftarrow> blockHistoryCutoff E;
       capped \<leftarrow> past_cutoff E cutoff;
       if capped then markBackfillDone E (e_days E)
       else do {
         st \<leftarrow> backfill_loop E cutoff (nat pagesLeft) minH;
         finish_backfill E st
       }
     }
   }"

definition seed :: "'w env \<Rightarrow> int \<Rightarrow> ('w, (int \<times> int) option) io" where
  "seed E tip = do {
     ok \<leftarrow> fetchBlockPage E (max 1 (tip - e_page E + 1)) tip;
     if \<not> ok then State_Monad.return None
     else do {
       b \<leftarrow> BlockHeightBounds E;
       State_Monad.return (case b of Some (Some p) \<Rightarrow> Some p | _ \<Rightarrow> None)
     }
   }"

definition head_sync :: "'w env \<Rightarrow> int \<Rightarrow> int \<Rightarrow> int \<Rightarrow> ('w, int) io" where
  "head_sync E tip maxH pagesLeft =
     (if maxH < tip \<and> pagesLeft > 0 then do {
        _ \<leftarrow> fetchBlockPage E (maxH + 1) (min tip (maxH + e_page E));
        State_Monad.return (pagesLeft - 1)
      }
      else State_Monad.return pagesLeft)"

definition syncBlocks :: "'w env \<Rightarrow> ('w, unit) io" where
  "syncBlocks E =
     (if e_days E < 0 then State_Monad.return ()
      else do {
        tip \<leftarrow> LatestBlockHeight E;
        case tip of
          None \<Rightarrow> State_Monad.return ()
        | Some tip \<Rightarrow> do {
            b \<leftarrow> BlockHeightBounds E;
            case b of
              None \<Rightarrow> State_Monad.return ()
            | Some b \<Rightarrow> do {
                start \<leftarrow> (case b of
                   Some (minH, maxH) \<Rightarrow> State_Monad.return (Some (minH, maxH, e_pages E))
                 | None \<Rightarrow> do {
                     p \<leftarrow> seed E tip;
                     State_Monad.return (map_option (\<lambda>(minH, maxH). (minH, maxH, e_pages E - 1)) p)
                   });
                case start of
                  None \<Rightarrow> State_Monad.return ()
                | Some (minH, maxH, pagesLeft) \<Rightarrow> do {
                    pagesLeft \<leftarrow> head_sync E tip maxH pagesLeft;
                    backfill E pagesLeft minH
                  }
              }
          }
      })"

end
