(* ===== verification/Sync_Range.thy ===== *)
theory Sync_Range
  imports Sync_Blocks
begin

text \<open>
  The range of stored blocks over a pass of \<^verbatim>\<open>syncBlocks\<close>: it stays one interval, which
  both cursors rest on, and the backfill is marked done only when it is.
\<close>

section \<open>A table of heights\<close>

text \<open>
  What the syncer relies on in a table of blocks: a write adds the heights written, and
  the bounds are those of the heights stored.
\<close>

locale height_table =
  fixes heights :: "'s \<Rightarrow> int set" and put_rows :: "'r list \<Rightarrow> 's \<Rightarrow> 's"
    and key :: "'r \<Rightarrow> int" and bounds :: "'s \<Rightarrow> (int \<times> int) option"
  assumes heights_put: "heights (put_rows rs s) = key ` set rs \<union> heights s"
    and bounds_heights: "bounds s = (if heights s = {} then None else Some (Min (heights s), Max (heights s)))"
    and finite_heights: "finite (heights s)"
begin

lemma bounds_interval: "heights s = {lo..hi} \<Longrightarrow> lo \<le> hi \<Longrightarrow> bounds s = Some (lo, hi)"
  using cSup_atLeastAtMost [of lo hi] cInf_atLeastAtMost [of lo hi]
  by (simp add: bounds_heights Min_Inf [symmetric] cInf_eq_Min cSup_eq_Max)

lemma bounds_empty: "bounds s = None \<longleftrightarrow> heights s = {}"
  by (simp add: bounds_heights)

text \<open>A page that meets the range extends it.\<close>

lemma put_adjacent:
  assumes "heights s = {lo..hi}" "lo \<le> C" "C \<le> hi" "key ` set rs = {max a l..min b h}"
    and "l \<le> C" "C \<le> h" "a \<le> hi + 1" "lo \<le> b + 1"
  shows "\<exists>lo' hi'. heights (put_rows rs s) = {lo'..hi'} \<and> lo' \<le> C \<and> C \<le> hi' \<and> lo' \<le> lo \<and> hi \<le> hi'"
proof (cases "max a l \<le> min b h")
  case True
  have "{max a l..min b h} \<union> {lo..hi} = {min (max a l) lo..max (min b h) hi}"
    using assms True by auto
  with assms show ?thesis
    by (intro exI [of _ "min (max a l) lo"] exI [of _ "max (min b h) hi"]) (auto simp: heights_put)
next
  case False
  then have "{max a l..min b h} = {}" by auto
  with assms show ?thesis by (intro exI [of _ lo] exI [of _ hi]) (simp add: heights_put)
qed

end

interpretation stored: height_table "\<lambda>d. set (heights_of net d)" "fold (upsert_row net)" row_height
    "bounds_of net" for net
proof unfold_locales
  show "bounds_of net d = (if set (heights_of net d) = {} then None
      else Some (Min (set (heights_of net d)), Max (set (heights_of net d))))" for d
    by (simp add: bounds_of_eq)
qed (simp_all add: heights_of_upserts)

section \<open>What leaves the table alone\<close>

definition tbl :: "'w env \<Rightarrow> 'w sync \<Rightarrow> int set" where
  "tbl E s = set (heights_of (e_net E) (sy_db s))"

abbreviation same_blocks :: "('w, 'a) io \<Rightarrow> bool" where
  "same_blocks \<equiv> keeps (\<lambda>s t. db_blocks (sy_db s) = db_blocks (sy_db t))"


lemma tbl_blocks: "db_blocks (sy_db s) = db_blocks (sy_db t) \<Longrightarrow> tbl E s = tbl E t"
  by (simp add: tbl_def heights_of_def)

lemma oldest_blocks: "db_blocks (sy_db s) = db_blocks (sy_db t) \<Longrightarrow> oldest_of E (sy_db s) = oldest_of E (sy_db t)"
  by (simp add: oldest_of_def times_of_def)

lemma same_ask: "same_blocks (ask f)"
  by (rule keepsI) (simp add: wp_ask split: prod.splits)

lemma same_sql: "(\<And>d. db_blocks (snd (f d)) = db_blocks d) \<Longrightarrow> same_blocks (sql E f)"
  by (rule keepsI, rule wp_sql) simp_all

lemma same_modifies: "(\<And>s. db_blocks (sy_db (f s)) = db_blocks (sy_db s)) \<Longrightarrow> same_blocks (modifies f)"
  by (rule keepsI) simp

lemmas same_rules = same.rules [where part = "\<lambda>s. db_blocks (sy_db s)"] same_ask same_sql same_modifies

lemma same_state: "same_blocks (GetSyncState E k)" "same_blocks (SetSyncState E k v)"
  unfolding GetSyncState_def SetSyncState_def by (rule same_sql; simp)+

lemma same_bounds: "same_blocks (BlockHeightBounds E)"
  unfolding BlockHeightBounds_def by (rule same_sql) simp

lemma same_oldest: "same_blocks (OldestBlockTime E)"
  unfolding OldestBlockTime_def by (rule same_sql) simp

lemma same_intern: "same_blocks (InternProposer E a)"
  unfolding InternProposer_def
  by (intro same_rules) (simp_all add: insert_proposer_def split: option.splits)

lemma same_proposerID: "same_blocks (proposerID E a)"
  unfolding proposerID_def by (intro same_rules same_intern) simp

lemma same_block_rows: "same_blocks (block_rows E bs)"
proof (induction bs)
  case Nil
  show ?case by (simp add: same.return)
next
  case (Cons b bs)
  then show ?case unfolding block_rows.simps by (intro same_rules same_proposerID)
qed

lemma same_mark: "same_blocks (markBackfillDone E n)"
  unfolding markBackfillDone_def by (intro same_rules same_state)

lemma same_cutoff: "same_blocks (blockHistoryCutoff E)"
  unfolding blockHistoryCutoff_def by (intro same_rules)

lemma same_past: "same_blocks (past_cutoff E c)"
  unfolding past_cutoff_def by (intro same_rules same_oldest)

lemma same_block: "same_blocks (GetBlock E h)"
  unfolding GetBlock_def by (intro same_rules)

lemma same_tip: "same_blocks (LatestBlockHeight E)"
  unfolding LatestBlockHeight_def by (rule same_ask)

lemma same_resume: "same_blocks (shouldResumeBackfill E)"
  unfolding shouldResumeBackfill_def by (intro same_rules same_state)

section \<open>A page\<close>

lemma block_rows_heights:
  "run_state (block_rows E bs) s = (Some rows, t) \<Longrightarrow> map row_height rows = map blk_height bs"
proof (induction bs arbitrary: rows s t)
  case (Cons b bs)
  then show ?case by (auto split: prod.splits option.splits if_splits)
qed simp

text \<open>A page is written as a whole or not at all, and the result says which.\<close>

lemma fetchBlockPage_all_or_nothing:
  assumes "run_state (fetchBlockPage E lo hi) s = (ok, t)"
  shows "if ok then (\<exists>bs w. x_blocks E (lo - 1) (hi + 1) (sy_world s) = (Some bs, w) \<and>
      tbl E t = blk_height ` set bs \<union> tbl E s)
    else db_blocks (sy_db t) = db_blocks (sy_db s)"
proof (cases "x_blocks E (lo - 1) (hi + 1) (sy_world s)")
  case (Pair got w)
  let ?s = "s\<lparr>sy_world := w\<rparr>"
  show ?thesis
  proof (cases got)
    case None
    with assms Pair show ?thesis by (auto simp: fetchBlockPage_def GetBlocksInRange_def)
  next
    case [simp]: (Some bs)
    show ?thesis
    proof (cases "bs = []")
      case True
      with assms Pair show ?thesis
        by (auto simp: fetchBlockPage_def GetBlocksInRange_def tbl_def)
    next
      case False
      obtain r u where rows: "run_state (block_rows E bs) ?s = (r, u)" by fastforce
      have same: "db_blocks (sy_db u) = db_blocks (sy_db s)"
        using keepsD [OF same_block_rows rows] by simp
      show ?thesis
      proof (cases r)
        case None
        with assms Pair False rows same show ?thesis
          by (auto simp: fetchBlockPage_def GetBlocksInRange_def)
      next
        case (Some rs)
        have hs: "row_height ` set rs = blk_height ` set bs"
          using block_rows_heights rows Some by (metis list.set_map)
        have "wp (UpsertBlocks E rs) (\<lambda>a t. if a = None then db_blocks (sy_db t) = db_blocks (sy_db s)
            else tbl E t = blk_height ` set bs \<union> tbl E s) u"
        proof (cases "rs = []")
          case True
          with hs same show ?thesis by (simp add: UpsertBlocks_def tbl_def heights_of_def)
        next
          case False
          with hs same tbl_blocks [OF same, of E] show ?thesis unfolding UpsertBlocks_def
            by (simp, intro wp_sql) (simp_all add: tbl_def heights_of_upserts)
        qed
        with assms Pair False rows Some show ?thesis
          by (auto simp: fetchBlockPage_def GetBlocksInRange_def wp_def split: prod.splits if_splits)
      qed
    qed
  qed
qed

section \<open>Replicas\<close>

text \<open>
  What the indexers of a pool promise: each holds one interval of blocks, given by \<open>view\<close>
  and different from query to query, answers a range with exactly the blocks it holds
  there, in ascending order, and has a block at a height if it holds it. \<open>C\<close> is a height
  all of them hold.
\<close>

definition replicas_serve :: "'w env \<Rightarrow> ('w \<Rightarrow> int \<times> int) \<Rightarrow> int \<Rightarrow> bool" where
  "replicas_serve E view C \<longleftrightarrow>
     1 \<le> C \<and> 0 \<le> e_page E \<and>
     (\<forall>w. fst (view w) \<le> C \<and> C \<le> snd (view w)) \<and>
     (\<forall>w gt lt bs w'. x_blocks E gt lt w = (Some bs, w') \<longrightarrow>
        map blk_height bs = [max (gt + 1) (fst (view w))..min (lt - 1) (snd (view w))]) \<and>
     (\<forall>w h bs w'. x_block_at E h w = (Some bs, w') \<longrightarrow>
        (bs = [] \<longleftrightarrow> h < fst (view w) \<or> snd (view w) < h))"

lemma replicas_page:
  assumes "replicas_serve E view C" "x_blocks E (a - 1) (b + 1) w = (Some bs, w')"
  shows "blk_height ` set bs = {max a (fst (view w))..min b (snd (view w))}"
proof -
  have "map blk_height bs = [max a (fst (view w))..min b (snd (view w))]"
    using assms unfolding replicas_serve_def by fastforce
  then have "set (map blk_height bs) = {max a (fst (view w))..min b (snd (view w))}" by simp
  then show ?thesis by simp
qed

definition range_ok :: "'w env \<Rightarrow> int \<Rightarrow> int set \<Rightarrow> 'w sync \<Rightarrow> bool" where
  "range_ok E C B s \<longleftrightarrow> B \<subseteq> tbl E s \<and> (\<exists>lo hi. tbl E s = {lo..hi} \<and> lo \<le> C \<and> C \<le> hi)"

definition least :: "'w env \<Rightarrow> int \<Rightarrow> 'w sync \<Rightarrow> bool" where
  "least E m s \<longleftrightarrow> m \<in> tbl E s \<and> (\<forall>h \<in> tbl E s. m \<le> h)"

lemma range_ok_blocks:
  "db_blocks (sy_db s) = db_blocks (sy_db t) \<Longrightarrow> range_ok E C B s = range_ok E C B t"
  "db_blocks (sy_db s) = db_blocks (sy_db t) \<Longrightarrow> least E m s = least E m t"
  using tbl_blocks [of s t E] by (simp_all add: range_ok_def least_def)

lemma range_ok_bounds:
  assumes "range_ok E C B s" "bounds_of (e_net E) (sy_db s) = Some (lo, hi)"
  shows "tbl E s = {lo..hi}" "lo \<le> C" "C \<le> hi" "least E lo s"
proof -
  obtain a b where ab: "tbl E s = {a..b}" "a \<le> C" "C \<le> b" using assms(1) by (auto simp: range_ok_def)
  with stored.bounds_interval [of "e_net E" "sy_db s" a b] assms(2)
  show "tbl E s = {lo..hi}" "lo \<le> C" "C \<le> hi" "least E lo s" by (auto simp: tbl_def least_def)
qed

text \<open>A page that starts by the range, at \<open>x\<close>, leaves it an interval.\<close>

lemma page_range_ok:
  assumes "replicas_serve E view C" "range_ok E C B s" "x \<in> tbl E s" "a \<le> max x C + 1" "x \<le> b + 1"
    and "run_state (fetchBlockPage E a b) s = (r, t)"
  shows "range_ok E C B t \<and> tbl E s \<subseteq> tbl E t \<and> tbl E t \<subseteq> tbl E s \<union> {a..b}"
proof (cases r)
  case False
  with fetchBlockPage_all_or_nothing [OF assms(6)] have "db_blocks (sy_db t) = db_blocks (sy_db s)" by simp
  then show ?thesis using assms(2) tbl_blocks [of t s E] range_ok_blocks(1) [of t s E C B] by simp
next
  case True
  with fetchBlockPage_all_or_nothing [OF assms(6)] obtain bs w where
    ans: "x_blocks E (a - 1) (b + 1) (sy_world s) = (Some bs, w)"
    and t: "tbl E t = blk_height ` set bs \<union> tbl E s" by auto
  let ?v = "view (sy_world s)"
  let ?rows = "map (\<lambda>h. \<lparr>row_height = h, row_time = '''', row_proposer = 0, row_txs = 0\<rparr>)
    [max a (fst ?v)..min b (snd ?v)]"
  obtain lo hi where r: "tbl E s = {lo..hi}" "lo \<le> C" "C \<le> hi" and B: "B \<subseteq> tbl E s"
    using assms(2) by (auto simp: range_ok_def)
  have view: "fst ?v \<le> C" "C \<le> snd ?v" using assms(1) by (simp_all add: replicas_serve_def)
  have page: "blk_height ` set bs = {max a (fst ?v)..min b (snd ?v)}"
    by (rule replicas_page [OF assms(1) ans])
  have rows: "row_height ` set ?rows = {max a (fst ?v)..min b (snd ?v)}" by force
  have "tbl E t = set (heights_of (e_net E) (fold (upsert_row (e_net E)) ?rows (sy_db s)))"
    using t page rows by (simp add: tbl_def heights_of_upserts)
  moreover have "lo \<le> b + 1" "a \<le> hi + 1" using assms(3,4,5) r by auto
  ultimately obtain lo' hi' where "tbl E t = {lo'..hi'}" "lo' \<le> C" "C \<le> hi'"
    using stored.put_adjacent [of "e_net E" "sy_db s" lo hi C ?rows a "fst ?v" b "snd ?v"] r view rows
    by (auto simp: tbl_def)
  with B t page show ?thesis by (auto simp: range_ok_def)
qed

section \<open>The backfill\<close>

lemma wp_keep: "keeps R m \<Longrightarrow> (\<And>a t. R s t \<Longrightarrow> Q a t) \<Longrightarrow> wp m Q s"
  by (auto simp: keeps_def wp_def split: prod.splits)

lemma wp_bounds:
  assumes "\<And>t. db_blocks (sy_db s) = db_blocks (sy_db t) \<Longrightarrow> Q None t"
    and "\<And>t. db_blocks (sy_db s) = db_blocks (sy_db t) \<Longrightarrow> Q (Some (bounds_of (e_net E) (sy_db s))) t"
  shows "wp (BlockHeightBounds E) Q s"
  unfolding BlockHeightBounds_def by (rule wp_sql) (simp_all add: assms)

lemma wp_bounds_same:
  assumes "\<And>w. Q None (s\<lparr>sy_world := w\<rparr>)"
    and "\<And>w. Q (Some (bounds_of (e_net E) (sy_db s))) (s\<lparr>sy_world := w\<rparr>)"
  shows "wp (BlockHeightBounds E) Q s"
  unfolding BlockHeightBounds_def by (rule wp_sql) (simp_all add: assms)

definition past :: "'w env \<Rightarrow> int option \<Rightarrow> 'w sync \<Rightarrow> bool" where
  "past E cutoff s \<longleftrightarrow>
     (\<exists>c old. cutoff = Some c \<and> oldest_of E (sy_db s) = Some old \<and> old < c)"

lemma past_blocks: "db_blocks (sy_db s) = db_blocks (sy_db t) \<Longrightarrow> past E c s = past E c t"
  using oldest_blocks [of s t E] by (simp add: past_def)

lemma wp_past:
  assumes "\<And>t. db_blocks (sy_db s) = db_blocks (sy_db t) \<Longrightarrow> Q False t"
    and "\<And>t. db_blocks (sy_db s) = db_blocks (sy_db t) \<Longrightarrow> past E cutoff t \<Longrightarrow> Q True t"
  shows "wp (past_cutoff E cutoff) Q s"
proof (cases cutoff)
  case None
  then show ?thesis by (simp add: past_cutoff_def assms(1))
next
  case (Some c)
  let ?test = "\<lambda>r. case r of Some (Some oldest) \<Rightarrow> oldest < c | _ \<Rightarrow> False"
  have val: "?test (Some (oldest_of E (sy_db s))) = past E cutoff s"
    by (auto simp: past_def Some split: option.splits)
  have "Q (past E cutoff s) t" if "db_blocks (sy_db s) = db_blocks (sy_db t)" for t
    using assms that past_blocks [OF that, of E cutoff] by (cases "past E cutoff s") auto
  then have "wp (OldestBlockTime E) (\<lambda>r. Q (?test r)) s"
    unfolding OldestBlockTime_def by (intro wp_sql) (simp_all only: fst_conv snd_conv val, simp_all add: assms(1))
  then show ?thesis by (simp only: past_cutoff_def Some option.case wp_bind wp_return)
qed

text \<open>Why the loop stopped: no lower block is stored, and what ruled out fetching one.\<close>

definition stop_ok :: "'w env \<Rightarrow> ('w \<Rightarrow> int \<times> int) \<Rightarrow> int option \<Rightarrow> stop \<Rightarrow> 'w sync \<Rightarrow> bool" where
  "stop_ok E view cutoff st s =
     (case st of
        Given_up \<Rightarrow> True
      | Stopped m floor cap \<Rightarrow>
          least E m s \<and> (floor \<longrightarrow> (\<exists>w. m \<le> fst (view w))) \<and> (cap \<longrightarrow> past E cutoff s))"

lemma probe_floor_ok:
  assumes "replicas_serve E view C" "range_ok E C B s" "least E minH s"
  shows "wp (probe_floor E minH) (\<lambda>st t. range_ok E C B t \<and> stop_ok E view cutoff st t) s"
proof -
  obtain r w where r: "x_block_at E (minH - 1) (sy_world s) = (r, w)" by fastforce
  let ?t = "s\<lparr>sy_world := w\<rparr>"
  have t: "range_ok E C B ?t" "least E minH ?t"
    using assms(2,3) range_ok_blocks [of s ?t] by simp_all
  have "minH \<le> fst (view (sy_world s))" if "r = Some []"
  proof -
    have "minH - 1 < fst (view (sy_world s)) \<or> snd (view (sy_world s)) < minH - 1"
      "C \<le> snd (view (sy_world s))"
      using assms(1) r that unfolding replicas_serve_def by fastforce+
    moreover have "minH \<le> C" using assms(2,3) by (auto simp: least_def range_ok_def)
    ultimately show ?thesis by linarith
  qed
  with t show ?thesis
    by (cases r) (auto simp: probe_floor_def GetBlock_def wp_ask r stop_ok_def split: list.splits)
qed

lemma backfill_loop_ok:
  fixes E :: "'w env"
  assumes "replicas_serve E view C" "range_ok E C B s" "least E minH s"
  shows "wp (backfill_loop E cutoff n minH) (\<lambda>st t. range_ok E C B t \<and> stop_ok E view cutoff st t) s"
  using assms(2,3)
proof (induction n arbitrary: minH s)
  case 0
  then show ?case by (simp add: stop_ok_def)
next
  case (Suc n)
  let ?Q = "\<lambda>st t. range_ok E C B t \<and> stop_ok E view cutoff st t"
  let ?a = "max 1 (minH - 1 - e_page E + 1)"
  let ?next = "\<lambda>m. if minH \<le> m then probe_floor E minH else do {
      capped \<leftarrow> past_cutoff E cutoff;
      if capped then State_Monad.return (Stopped m False True) else backfill_loop E cutoff n m
    }"
  let ?cont = "\<lambda>b. case b of Some (Some (m, _)) \<Rightarrow> ?next m | _ \<Rightarrow> State_Monad.return Given_up"
  obtain ok t where page: "run_state (fetchBlockPage E ?a (minH - 1)) s = (ok, t)" by fastforce
  have pre: "minH \<in> tbl E s" "?a \<le> max minH C + 1"
    using Suc.prems(2) assms(1) by (auto simp: least_def replicas_serve_def)
  have t: "range_ok E C B t" "tbl E s \<subseteq> tbl E t"
    using page_range_ok [OF assms(1) Suc.prems(1) pre _ page] by simp_all
  have step: "wp (?next m) ?Q u"
    if m: "least E m u" and u: "range_ok E C B u" and sub: "minH \<in> tbl E u" for m u
  proof (cases "minH \<le> m")
    case True
    with m sub have "m = minH" by (force simp: least_def)
    with m u probe_floor_ok [OF assms(1)] show ?thesis by simp
  next
    case False
    have both: "wp (if capped then State_Monad.return (Stopped m False True) else backfill_loop E cutoff n m) ?Q v"
      if "db_blocks (sy_db u) = db_blocks (sy_db v)" "capped \<longrightarrow> past E cutoff v" for capped v
      using that m u Suc.IH [of v m] range_ok_blocks [OF that(1)] by (simp add: stop_ok_def)
    have "wp (past_cutoff E cutoff) (\<lambda>capped. wp (if capped
        then State_Monad.return (Stopped m False True) else backfill_loop E cutoff n m) ?Q) u"
    proof (rule wp_past)
      fix v :: "'w sync" assume v: "db_blocks (sy_db u) = db_blocks (sy_db v)"
      show "wp (if False then State_Monad.return (Stopped m False True) else backfill_loop E cutoff n m) ?Q v"
        by (rule both [OF v]) simp
      assume p: "past E cutoff v"
      show "wp (if True then State_Monad.return (Stopped m False True) else backfill_loop E cutoff n m) ?Q v"
        by (rule both [OF v]) (simp add: p)
    qed
    with False show ?thesis by (simp only: if_False wp_bind)
  qed
  have "wp (BlockHeightBounds E) (\<lambda>b. wp (?cont b) ?Q) t"
  proof (rule wp_bounds)
    fix u :: "'w sync" assume u: "db_blocks (sy_db t) = db_blocks (sy_db u)"
    note same = range_ok_blocks [OF u] tbl_blocks [OF u, of E]
    show "wp (?cont None) ?Q u" using t(1) same by (simp add: stop_ok_def)
    show "wp (?cont (Some (bounds_of (e_net E) (sy_db t)))) ?Q u"
    proof (cases "bounds_of (e_net E) (sy_db t)")
      case None
      with t(1) same show ?thesis by (simp add: stop_ok_def)
    next
      case (Some p)
      obtain lo hi where p: "p = (lo, hi)" by fastforce
      have "least E lo t" using range_ok_bounds(4) [OF t(1)] Some p by simp
      then have "wp (?next lo) ?Q u" using t pre(1) same by (intro step) auto
      then show ?thesis by (simp only: Some p option.case prod.case)
    qed
  qed
  moreover have "wp (backfill_loop E cutoff (Suc n) minH) ?Q s =
      (if minH \<le> 1 then ?Q (Stopped minH False False) s
       else if \<not> ok then ?Q Given_up t else wp (BlockHeightBounds E) (\<lambda>b. wp (?cont b) ?Q) t)"
    by (simp only: backfill_loop.simps wp_if wp_bind wp_return wp_of_run [OF page] if_distribR)
  ultimately show ?case using Suc.prems t(1) by (simp only: stop_ok_def stop.case) simp
qed

section \<open>The marker\<close>

abbreviation same_state :: "('w, 'a) io \<Rightarrow> bool" where
  "same_state \<equiv> keeps (\<lambda>s t. db_state (sy_db s) = db_state (sy_db t))"

lemma state_ask: "same_state (ask f)"
  by (rule keepsI) (simp add: wp_ask split: prod.splits)

lemma state_sql: "(\<And>d. db_state (snd (f d)) = db_state d) \<Longrightarrow> same_state (sql E f)"
  by (rule keepsI, rule wp_sql) simp_all

lemma state_modifies: "(\<And>s. db_state (sy_db (f s)) = db_state (sy_db s)) \<Longrightarrow> same_state (modifies f)"
  by (rule keepsI) simp

lemmas state_rules = same.rules [where part = "\<lambda>s. db_state (sy_db s)"] state_ask state_sql state_modifies

lemma state_upserts: "db_state (fold (upsert_row net) rows d) = db_state d"
  by (induction rows arbitrary: d) (simp_all add: upsert_row_def)

lemma state_UpsertBlocks: "same_state (UpsertBlocks E rows)"
  unfolding UpsertBlocks_def by (intro state_rules) (simp add: state_upserts)

lemma state_intern: "same_state (InternProposer E a)"
  unfolding InternProposer_def
  by (intro state_rules) (simp_all add: insert_proposer_def split: option.splits)

lemma state_proposerID: "same_state (proposerID E a)"
  unfolding proposerID_def by (intro state_rules state_intern) simp

lemma state_block_rows: "same_state (block_rows E bs)"
proof (induction bs)
  case Nil
  show ?case by (simp add: same.return)
next
  case (Cons b bs)
  then show ?case unfolding block_rows.simps by (intro state_rules state_proposerID)
qed

lemma state_fetch: "same_state (fetchBlockPage E a b)"
  unfolding fetchBlockPage_def GetBlocksInRange_def
  by (intro state_rules state_block_rows state_UpsertBlocks)

lemma state_bounds: "same_state (BlockHeightBounds E)"
  unfolding BlockHeightBounds_def by (rule state_sql) simp

lemma state_past: "same_state (past_cutoff E c)"
  unfolding past_cutoff_def OldestBlockTime_def by (intro state_rules) simp

lemma state_probe: "same_state (probe_floor E m)"
  unfolding probe_floor_def GetBlock_def by (intro state_rules)

lemma state_cutoff: "same_state (blockHistoryCutoff E)"
  unfolding blockHistoryCutoff_def by (intro state_rules)

lemma state_loop: "same_state (backfill_loop E c n m)"
proof (induction n arbitrary: m)
  case 0
  show ?case by (simp add: same.return)
next
  case (Suc n)
  then show ?case unfolding backfill_loop.simps
    by (intro state_rules state_fetch state_bounds state_probe state_past)
qed

lemma state_get: "same_state (GetSyncState E k)"
  unfolding GetSyncState_def by (rule state_sql) simp

lemma state_head: "same_state (head_sync E tip m n)"
  unfolding head_sync_def by (intro state_rules state_fetch)

lemma state_seed: "same_state (seed E tip)"
  unfolding seed_def by (intro state_rules state_fetch state_bounds)

definition flag :: "'w env \<Rightarrow> 'w sync \<Rightarrow> bool" where
  "flag E s \<longleftrightarrow> db_state (sy_db s) (BlocksBackfillDoneKey (e_net E)) = Some ''1''"

text \<open>There is nothing left to backfill, and why.\<close>

definition finished :: "'w env \<Rightarrow> ('w \<Rightarrow> int \<times> int) \<Rightarrow> 'w sync \<Rightarrow> bool" where
  "finished E view s \<longleftrightarrow>
     (\<exists>m. least E m s \<and>
        (m \<le> 1 \<or> (\<exists>w. m \<le> fst (view w)) \<or>
         (\<exists>w. past E (Some (fst (x_now E w) - e_days E * day_ns)) s)))"

lemma finished_blocks: "db_blocks (sy_db s) = db_blocks (sy_db t) \<Longrightarrow> finished E view s = finished E view t"
  using range_ok_blocks(2) [of s t E] past_blocks [of s t E] by (simp add: finished_def)

definition cutoff_ok :: "'w env \<Rightarrow> int option \<Rightarrow> bool" where
  "cutoff_ok E cutoff \<longleftrightarrow> (\<forall>c. cutoff = Some c \<longrightarrow> (\<exists>w. c = fst (x_now E w) - e_days E * day_ns))"

lemma wp_cutoff:
  assumes "\<And>c t. db_blocks (sy_db s) = db_blocks (sy_db t) \<Longrightarrow> db_state (sy_db s) = db_state (sy_db t) \<Longrightarrow>
    cutoff_ok E c \<Longrightarrow> Q c t"
  shows "wp (blockHistoryCutoff E) Q s"
proof (cases "e_days E \<le> 0")
  case True
  then show ?thesis by (simp add: blockHistoryCutoff_def assms cutoff_ok_def)
next
  case False
  obtain now w where now: "x_now E (sy_world s) = (now, w)" by fastforce
  have "cutoff_ok E (Some (now - e_days E * day_ns))"
    unfolding cutoff_ok_def using now by (metis fst_conv option.inject)
  with False now show ?thesis by (simp add: blockHistoryCutoff_def wp_ask assms)
qed

lemma past_finished:
  assumes "past E cutoff s" "cutoff_ok E cutoff" "least E m s"
  shows "finished E view s"
  using assms unfolding finished_def past_def cutoff_ok_def by (metis option.inject)

lemma stop_finished:
  assumes "stop_ok E view cutoff (Stopped m floor cap) s" "cutoff_ok E cutoff" "cap \<or> floor \<or> m \<le> 1"
  shows "finished E view s"
  using assms past_finished [of E cutoff s m view] unfolding stop_ok_def stop.case
  by (auto simp: finished_def)

lemma finish_ok:
  fixes E :: "'w env"
  assumes "stop_ok E view cutoff st s" "cutoff_ok E cutoff" "range_ok E C B s"
  shows "wp (finish_backfill E st) (\<lambda>_ t. range_ok E C B t \<and> (flag E t \<longrightarrow> flag E s \<or> finished E view t)) s"
proof -
  have mark: "wp (markBackfillDone E d) (\<lambda>_ t. range_ok E C B t \<and> (flag E t \<longrightarrow> flag E s \<or> finished E view t)) s"
    if "finished E view s" for d
  proof (rule wp_keep [OF same_mark])
    fix t :: "'w sync" assume t: "db_blocks (sy_db s) = db_blocks (sy_db t)"
    then show "range_ok E C B t \<and> (flag E t \<longrightarrow> flag E s \<or> finished E view t)"
      using that assms(3) range_ok_blocks(1) [OF t] finished_blocks [OF t] by simp
  qed
  show ?thesis
  proof (cases st)
    case Given_up
    then show ?thesis using assms(3) by (simp add: finish_backfill_def)
  next
    case (Stopped m floor cap)
    show ?thesis
    proof (cases "cap \<or> floor \<or> m \<le> 1")
      case True
      then have "finished E view s" using stop_finished assms(1,2) Stopped by blast
      with True mark Stopped show ?thesis by (auto simp: finish_backfill_def)
    next
      case False
      with Stopped assms(3) show ?thesis by (simp add: finish_backfill_def)
    qed
  qed
qed

section \<open>A pass\<close>

definition done_ok :: "'w env \<Rightarrow> ('w \<Rightarrow> int \<times> int) \<Rightarrow> int \<Rightarrow> int set \<Rightarrow> bool \<Rightarrow> 'w sync \<Rightarrow> bool" where
  "done_ok E view C B old t \<longleftrightarrow> range_ok E C B t \<and> (flag E t \<longrightarrow> old \<or> finished E view t)"

interpretation unflagged: kept "\<lambda>s t. flag E t \<longrightarrow> flag E s" for E :: "'w env"
  by unfold_locales auto

lemma flag_state: "same_state m \<Longrightarrow> keeps (\<lambda>s t. flag E t \<longrightarrow> flag E s) m"
  by (erule keeps_mono) (simp add: flag_def)

lemma due_flag: "keeps (\<lambda>s t. flag E t \<longrightarrow> flag E s) (backfill_due E)"
proof -
  have "keeps (\<lambda>s t. flag E t \<longrightarrow> flag E s) (SetSyncState E (BlocksBackfillDoneKey (e_net E)) '''')"
    unfolding SetSyncState_def by (rule keepsI, rule wp_sql) (simp_all add: flag_def)
  then show ?thesis unfolding backfill_due_def shouldResumeBackfill_def
    by (intro unflagged.rules flag_state [OF state_get])
qed

lemma same_due: "same_blocks (backfill_due E)"
  unfolding backfill_due_def by (intro same_rules same_state same_resume)

lemma run_loop_ok:
  fixes E :: "'w env"
  assumes serve: "replicas_serve E view C" and ok: "range_ok E C B t" and least: "least E minH t"
    and "flag E t \<longrightarrow> old" "cutoff_ok E c"
  shows "wp (backfill_loop E c n minH) (\<lambda>st. wp (finish_backfill E st) (\<lambda>_. done_ok E view C B old)) t"
proof -
  have "wp (backfill_loop E c n minH)
      (\<lambda>st u. (range_ok E C B u \<and> stop_ok E view c st u) \<and> db_state (sy_db t) = db_state (sy_db u)) t"
    unfolding wp_conj [of _ "\<lambda>st u. range_ok E C B u \<and> stop_ok E view c st u"]
    using backfill_loop_ok [OF serve ok least] keeps_wp [OF state_loop] by blast
  then show ?thesis
  proof (rule wp_mono)
    fix st and u :: "'w sync"
    assume u: "(range_ok E C B u \<and> stop_ok E view c st u) \<and> db_state (sy_db t) = db_state (sy_db u)"
    then have "flag E u \<longrightarrow> old" using assms(4) by (simp add: flag_def)
    moreover have "wp (finish_backfill E st)
        (\<lambda>_ t. range_ok E C B t \<and> (flag E t \<longrightarrow> flag E u \<or> finished E view t)) u"
      using u assms(5) by (intro finish_ok [of E view c]) simp_all
    ultimately show "wp (finish_backfill E st) (\<lambda>_. done_ok E view C B old) u"
      by (elim wp_mono) (auto simp: done_ok_def)
  qed
qed

lemma capped_ok:
  fixes E :: "'w env"
  assumes "range_ok E C B t" "least E minH t" "past E c t" "cutoff_ok E c"
  shows "wp (markBackfillDone E d) (\<lambda>_. done_ok E view C B old) t"
proof (rule wp_keep [OF same_mark])
  fix u :: "'w sync" assume u: "db_blocks (sy_db t) = db_blocks (sy_db u)"
  have "finished E view t" by (rule past_finished [OF assms(3,4,2)])
  with assms(1) show "done_ok E view C B old u"
    using range_ok_blocks(1) [OF u] finished_blocks [OF u] by (simp add: done_ok_def)
qed

text \<open>The backfill, once it is due, with the cutoff \<open>c\<close>.\<close>

lemma backfill_from_ok:
  fixes E :: "'w env"
  assumes "replicas_serve E view C" "range_ok E C B t" "least E minH t" "flag E t \<longrightarrow> old" "cutoff_ok E c"
  shows "wp (past_cutoff E c) (\<lambda>capped. wp (if capped then markBackfillDone E (e_days E)
    else backfill_loop E c n minH \<bind> finish_backfill E) (\<lambda>_. done_ok E view C B old)) t"
proof -
  have "wp (past_cutoff E c) (\<lambda>r v. ((r \<longrightarrow> past E c v) \<and> db_blocks (sy_db t) = db_blocks (sy_db v)) \<and>
      db_state (sy_db t) = db_state (sy_db v)) t"
    unfolding wp_conj [of _ "\<lambda>r v. (r \<longrightarrow> past E c v) \<and> db_blocks (sy_db t) = db_blocks (sy_db v)"]
  proof
    show "wp (past_cutoff E c) (\<lambda>_ v. db_state (sy_db t) = db_state (sy_db v)) t"
      by (rule keeps_wp [OF state_past])
  qed (rule wp_past; simp)
  then show ?thesis
  proof (rule wp_mono)
    fix r and v :: "'w sync"
    assume v: "((r \<longrightarrow> past E c v) \<and> db_blocks (sy_db t) = db_blocks (sy_db v)) \<and>
      db_state (sy_db t) = db_state (sy_db v)"
    then have "range_ok E C B v" "least E minH v" "flag E v \<longrightarrow> old"
      using assms range_ok_blocks [of t v] by (simp_all add: flag_def)
    with v assms(1,5) show "wp (if r then markBackfillDone E (e_days E)
        else backfill_loop E c n minH \<bind> finish_backfill E) (\<lambda>_. done_ok E view C B old) v"
      using run_loop_ok [of E view C B v minH old c n] capped_ok [of E C B v minH c] by simp
  qed
qed

lemma backfill_ok:
  fixes E :: "'w env"
  assumes serve: "replicas_serve E view C" and ok: "range_ok E C B s" and least: "least E minH s"
    and old: "flag E s \<longrightarrow> old"
  shows "wp (backfill E p minH) (\<lambda>_. done_ok E view C B old) s"
proof -
  have "wp (backfill_due E) (\<lambda>go t. db_blocks (sy_db s) = db_blocks (sy_db t) \<and> (flag E t \<longrightarrow> flag E s)) s"
    unfolding wp_conj using keeps_wp [OF same_due] keeps_wp [OF due_flag] by blast
  then show ?thesis unfolding backfill_def wp_bind
  proof (rule wp_mono)
    fix go and t :: "'w sync"
    assume t: "db_blocks (sy_db s) = db_blocks (sy_db t) \<and> (flag E t \<longrightarrow> flag E s)"
    have main: "wp (blockHistoryCutoff E) (\<lambda>c. wp (past_cutoff E c) (\<lambda>capped. wp (if capped
        then markBackfillDone E (e_days E)
        else backfill_loop E c (nat p) minH \<bind> finish_backfill E) (\<lambda>_. done_ok E view C B old))) t"
    proof (rule wp_cutoff)
      fix c and u :: "'w sync"
      assume u: "db_blocks (sy_db t) = db_blocks (sy_db u)" "db_state (sy_db t) = db_state (sy_db u)" "cutoff_ok E c"
      have "range_ok E C B u" "least E minH u" "flag E u \<longrightarrow> old"
        using t u ok least old range_ok_blocks [of s u] by (simp_all add: flag_def)
      then show "wp (past_cutoff E c) (\<lambda>capped. wp (if capped then markBackfillDone E (e_days E)
          else backfill_loop E c (nat p) minH \<bind> finish_backfill E) (\<lambda>_. done_ok E view C B old)) u"
        using serve u(3) by (intro backfill_from_ok)
    qed
    show "wp (if \<not> go then State_Monad.return () else do {
        cutoff \<leftarrow> blockHistoryCutoff E;
        capped \<leftarrow> past_cutoff E cutoff;
        if capped then markBackfillDone E (e_days E)
        else backfill_loop E cutoff (nat p) minH \<bind> finish_backfill E
      }) (\<lambda>_. done_ok E view C B old) t"
      using t old main ok range_ok_blocks(1) [of s t] by (simp add: done_ok_def)
  qed
qed

lemma head_ok:
  fixes E :: "'w env"
  assumes serve: "replicas_serve E view C" and ok: "range_ok E C B s" and least: "least E minH s"
    and max: "maxH \<in> tbl E s"
  shows "wp (head_sync E tip maxH p) (\<lambda>_ t. range_ok E C B t \<and> least E minH t \<and>
    db_state (sy_db s) = db_state (sy_db t)) s"
proof (cases "maxH < tip \<and> p > 0")
  case True
  obtain r t where page: "run_state (fetchBlockPage E (maxH + 1) (min tip (maxH + e_page E))) s = (r, t)"
    by fastforce
  have "maxH \<le> min tip (maxH + e_page E) + 1"
    using True serve by (auto simp: replicas_serve_def)
  with page_range_ok [OF serve ok max _ _ page]
  have "range_ok E C B t" "tbl E s \<subseteq> tbl E t" "tbl E t \<subseteq> tbl E s \<union> {maxH + 1..min tip (maxH + e_page E)}"
    by simp_all
  moreover have "minH \<le> maxH" using least max by (simp add: least_def)
  ultimately have "least E minH t" using least by (fastforce simp: least_def)
  with \<open>range_ok E C B t\<close> keepsD [OF state_fetch page] show ?thesis
    using True by (simp add: head_sync_def wp_of_run [OF page])
next
  case False
  then have "head_sync E tip maxH p = State_Monad.return p" unfolding head_sync_def by (rule if_not_P)
  with ok least show ?thesis by simp
qed

lemma seed_ok:
  fixes E :: "'w env"
  assumes serve: "replicas_serve E view C" and empty: "tbl E s = {}" and near: "C \<le> tip" "tip < C + e_page E"
  shows "wp (seed E tip) (\<lambda>p t. db_state (sy_db s) = db_state (sy_db t) \<and>
    (tbl E t = {} \<or> range_ok E C {} t) \<and>
    (\<forall>lo hi. p = Some (lo, hi) \<longrightarrow> range_ok E C {} t \<and> least E lo t \<and> hi \<in> tbl E t)) s"
proof -
  let ?a = "max 1 (tip - e_page E + 1)"
  obtain ok t where page: "run_state (fetchBlockPage E ?a tip) s = (ok, t)" by fastforce
  have st: "db_state (sy_db s) = db_state (sy_db t)" by (rule keepsD [OF state_fetch page])
  show ?thesis
  proof (cases ok)
    case False
    with fetchBlockPage_all_or_nothing [OF page] have "db_blocks (sy_db t) = db_blocks (sy_db s)" by simp
    with False st empty tbl_blocks [of t s E] show ?thesis
      by (simp add: seed_def wp_of_run [OF page])
  next
    case True
    with fetchBlockPage_all_or_nothing [OF page] empty obtain bs w where
      ans: "x_blocks E (?a - 1) (tip + 1) (sy_world s) = (Some bs, w)"
      and t: "tbl E t = blk_height ` set bs" by auto
    have "fst (view (sy_world s)) \<le> C" "C \<le> snd (view (sy_world s))" "1 \<le> C"
      using serve by (simp_all add: replicas_serve_def)
    with t replicas_page [OF serve ans] near have ok: "range_ok E C {} t"
      unfolding range_ok_def by (intro conjI exI) (assumption | simp)+
    have "wp (BlockHeightBounds E) (\<lambda>b u. (\<forall>lo hi. b = Some (Some (lo, hi)) \<longrightarrow>
        range_ok E C {} u \<and> least E lo u \<and> hi \<in> tbl E u) \<and> range_ok E C {} u \<and>
        db_state (sy_db t) = db_state (sy_db u)) t"
      unfolding BlockHeightBounds_def
    proof (rule wp_sql)
      fix w'
      let ?u = "t\<lparr>sy_world := w', sy_db := snd (bounds_of (e_net E) (sy_db t), sy_db t)\<rparr>"
      have same: "db_blocks (sy_db t) = db_blocks (sy_db ?u)" by simp
      show "(\<forall>lo hi. Some (fst (bounds_of (e_net E) (sy_db t), sy_db t)) = Some (Some (lo, hi)) \<longrightarrow>
          range_ok E C {} ?u \<and> least E lo ?u \<and> hi \<in> tbl E ?u) \<and> range_ok E C {} ?u \<and>
          db_state (sy_db t) = db_state (sy_db ?u)"
        using ok range_ok_bounds [OF ok] range_ok_blocks [OF same] tbl_blocks [OF same, of E] by force
      show "(\<forall>lo hi. None = Some (Some (lo, hi)) \<longrightarrow> range_ok E C {} (t\<lparr>sy_world := w'\<rparr>) \<and>
          least E lo (t\<lparr>sy_world := w'\<rparr>) \<and> hi \<in> tbl E (t\<lparr>sy_world := w'\<rparr>)) \<and>
          range_ok E C {} (t\<lparr>sy_world := w'\<rparr>) \<and>
          db_state (sy_db t) = db_state (sy_db (t\<lparr>sy_world := w'\<rparr>))"
        using ok range_ok_blocks(1) [of t "t\<lparr>sy_world := w'\<rparr>"] by simp
    qed
    with True st show ?thesis
      by (auto simp: seed_def wp_of_run [OF page] elim!: wp_mono split: option.splits)
  qed
qed

lemma syncBlocks_ok:
  fixes E :: "'w env"
  assumes serve: "replicas_serve E view C" and start: "tbl E s = {} \<or> range_ok E C {} s"
    and near: "\<And>tip w. tbl E s = {} \<Longrightarrow> x_tip E (sy_world s) = (Some tip, w) \<Longrightarrow> C \<le> tip \<and> tip < C + e_page E"
  shows "wp (syncBlocks E) (\<lambda>_ t. tbl E t = {} \<and> tbl E s = {} \<and> db_state (sy_db s) = db_state (sy_db t) \<or>
    done_ok E view C (tbl E s) (flag E s) t) s"
proof -
  let ?Q = "\<lambda>_ t. tbl E t = {} \<and> tbl E s = {} \<and> db_state (sy_db s) = db_state (sy_db t) \<or>
    done_ok E view C (tbl E s) (flag E s) t"
  have stay: "?Q () t" if "db_blocks (sy_db s) = db_blocks (sy_db t)" "db_state (sy_db s) = db_state (sy_db t)"
    for t :: "'w sync"
    using start tbl_blocks [OF that(1), of E] that(2)
    by (auto simp: done_ok_def range_ok_def flag_def)
  have rest: "wp (head_sync E tip maxH p \<bind> (\<lambda>p. backfill E p minH)) ?Q t"
    if "range_ok E C (tbl E s) t" "least E minH t" "maxH \<in> tbl E t" "db_state (sy_db s) = db_state (sy_db t)"
    for tip maxH p minH and t :: "'w sync"
  proof -
    have fill: "wp (backfill E q minH) ?Q u"
      if "range_ok E C (tbl E s) u \<and> least E minH u \<and> db_state (sy_db t) = db_state (sy_db u)"
      for q and u :: "'w sync"
    proof -
      have "wp (backfill E q minH) (\<lambda>_. done_ok E view C (tbl E s) (flag E s)) u"
        using that \<open>db_state (sy_db s) = db_state (sy_db t)\<close>
        by (intro backfill_ok [OF serve]) (simp_all add: flag_def)
      then show ?thesis by (rule wp_mono) simp
    qed
    show ?thesis unfolding wp_bind
      by (rule wp_mono [OF head_ok [OF serve that(1,2,3)]]) (rule fill)
  qed
  let ?go = "\<lambda>tip start. case start of None \<Rightarrow> State_Monad.return ()
    | Some (minH, maxH, p) \<Rightarrow> head_sync E tip maxH p \<bind> (\<lambda>p. backfill E p minH)"
  let ?cont = "\<lambda>tip b. case b of None \<Rightarrow> State_Monad.return ()
    | Some b \<Rightarrow> (case b of
         Some (minH, maxH) \<Rightarrow> State_Monad.return (Some (minH, maxH, e_pages E))
       | None \<Rightarrow> seed E tip \<bind> (\<lambda>p. State_Monad.return
           (map_option (\<lambda>(minH, maxH). (minH, maxH, e_pages E - 1)) p))) \<bind> ?go tip"
  obtain tip w where tip: "x_tip E (sy_world s) = (tip, w)" by fastforce
  have "wp (BlockHeightBounds E) (\<lambda>b. wp (?cont h b) ?Q) (s\<lparr>sy_world := w\<rparr>)" if h: "tip = Some h" for h
  proof (rule wp_bounds_same)
    fix w'
    let ?t = "s\<lparr>sy_world := w, sy_world := w'\<rparr>"
    have same: "db_blocks (sy_db s) = db_blocks (sy_db ?t)" by simp
    show "wp (?cont h None) ?Q ?t" using stay [of ?t] by simp
    show "wp (?cont h (Some (bounds_of (e_net E) (sy_db (s\<lparr>sy_world := w\<rparr>))))) ?Q ?t"
    proof (cases "bounds_of (e_net E) (sy_db s)")
      case None
      then have empty: "tbl E s = {}" using stored.bounds_empty by (simp add: tbl_def)
      have "wp (seed E h) (\<lambda>p. wp (?go h (map_option (\<lambda>(minH, maxH). (minH, maxH, e_pages E - 1)) p)) ?Q) ?t"
      proof (rule wp_mono)
        show "wp (seed E h) (\<lambda>p u. db_state (sy_db ?t) = db_state (sy_db u) \<and>
            (tbl E u = {} \<or> range_ok E C {} u) \<and>
            (\<forall>lo hi. p = Some (lo, hi) \<longrightarrow> range_ok E C {} u \<and> least E lo u \<and> hi \<in> tbl E u)) ?t"
          using near [OF empty tip [unfolded h]] empty tbl_blocks [OF same, of E]
          by (intro seed_ok [OF serve]) simp_all
        fix p and u :: "'w sync"
        assume u: "db_state (sy_db ?t) = db_state (sy_db u) \<and>
            (tbl E u = {} \<or> range_ok E C {} u) \<and>
            (\<forall>lo hi. p = Some (lo, hi) \<longrightarrow> range_ok E C {} u \<and> least E lo u \<and> hi \<in> tbl E u)"
        show "wp (?go h (map_option (\<lambda>(minH, maxH). (minH, maxH, e_pages E - 1)) p)) ?Q u"
        proof (cases p)
          case None
          with u empty show ?thesis by (auto simp: done_ok_def flag_def)
        next
          case (Some q)
          obtain lo hi where q: "q = (lo, hi)" by fastforce
          have "range_ok E C (tbl E s) u" "least E lo u" "hi \<in> tbl E u" "db_state (sy_db s) = db_state (sy_db u)"
            using u Some q empty by simp_all
          then show ?thesis using rest [of u lo hi h "e_pages E - 1"] Some q by simp
        qed
      qed
      with None show ?thesis by simp
    next
      case (Some p)
      obtain lo hi where p: "p = (lo, hi)" by fastforce
      have "tbl E s \<noteq> {}" using Some stored.bounds_empty [of "e_net E" "sy_db s"] by (auto simp: tbl_def)
      with start have ok: "range_ok E C {} s" by simp
      then have ok': "range_ok E C (tbl E s) s" by (simp add: range_ok_def)
      have "wp (?go h (Some (lo, hi, e_pages E))) ?Q ?t"
        using rest [of ?t lo hi h "e_pages E"] range_ok_bounds [OF ok Some [unfolded p]] ok'
          range_ok_blocks [OF same] tbl_blocks [OF same, of E] by simp
      with Some p show ?thesis by simp
    qed
  qed
  then show ?thesis
    unfolding syncBlocks_def LatestBlockHeight_def
    using stay [of s] stay [of "s\<lparr>sy_world := w\<rparr>"]
    by (cases tip) (simp_all add: wp_ask tip)
qed

section \<open>Properties\<close>



section \<open>Witnesses\<close>

text \<open>
  One indexer that holds the blocks from \<open>lo\<close> to \<open>hi\<close> and the transactions \<open>txs\<close>, of which
  it returns at most \<open>cap\<close> at a time, and a database that never fails.
\<close>

definition demo_block :: "int \<Rightarrow> block" where
  "demo_block h = \<lparr>blk_hash = ''hash'', blk_height = h, blk_chain = ''chain'', blk_time = ''time'',
     blk_txs = 0, blk_proposer = ''''\<rparr>"

definition reply_of :: "nat \<Rightarrow> transaction list \<Rightarrow> transaction list reply" where
  "reply_of cap txs = (if cap < length txs then Too_large (take cap txs) else Page txs)"

definition demo_env :: "int \<Rightarrow> int \<Rightarrow> nat \<Rightarrow> transaction list \<Rightarrow> unit env" where
  "demo_env lo hi cap txs =
     \<lparr>e_net = ''net'', e_page = 2, e_pages = 6, e_days = 0,
      x_fails = (\<lambda>_. (False, ())), x_now = (\<lambda>_. (0, ())), x_rfc3339 = (\<lambda>_. None),
      x_tip = (\<lambda>_. (Some hi, ())),
      x_blocks = (\<lambda>gt lt _. (Some (map demo_block [max (gt + 1) lo..min (lt - 1) hi]), ())),
      x_block_at = (\<lambda>h _. (Some (if lo \<le> h \<and> h \<le> hi then [demo_block h] else []), ())),
      x_txs_above = (\<lambda>h _. (reply_of cap (filter (\<lambda>t. h = None \<or> the h < tx_height t) txs), ())),
      x_txs_at = (\<lambda>h _. (reply_of cap (filter (\<lambda>t. tx_height t = h) txs), ())),
      x_txs_between = (\<lambda>gt lt _. (reply_of cap (filter (\<lambda>t. gt < tx_height t \<and> tx_height t < lt) txs), ())),
      x_transfers_between =
        (\<lambda>gt lt _. (reply_of cap (filter (\<lambda>t. gt < tx_height t \<and> tx_height t < lt) txs), ())),
      x_has_transfers = (\<lambda>_. (True, ()))\<rparr>"

definition empty_db :: db where
  "empty_db = \<lparr>db_state = Map.empty, db_blocks = [], db_proposers = [], db_tokens = [], db_coins = [],
     db_rows = (\<lambda>_. [])\<rparr>"

definition new_sync :: "'w \<Rightarrow> db \<Rightarrow> 'w sync" where
  "new_sync w d = \<lparr>sy_db = d, sy_world = w, sy_proposers = Map.empty\<rparr>"

lemma demo_env_simps [simp]:
  "e_net (demo_env lo hi cap txs) = ''net''" "e_page (demo_env lo hi cap txs) = 2"
  "e_pages (demo_env lo hi cap txs) = 6" "e_days (demo_env lo hi cap txs) = 0"
  "x_fails (demo_env lo hi cap txs) w = (False, w)" "x_tip (demo_env lo hi cap txs) w = (Some hi, w)"
  "x_rfc3339 (demo_env lo hi cap txs) t = None"
  "x_txs_above (demo_env lo hi cap txs) h w = (reply_of cap (filter (\<lambda>t. h = None \<or> the h < tx_height t) txs), w)"
  "x_txs_at (demo_env lo hi cap txs) h' w = (reply_of cap (filter (\<lambda>t. tx_height t = h') txs), w)"
  "x_txs_between (demo_env lo hi cap txs) gt lt w =
     (reply_of cap (filter (\<lambda>t. gt < tx_height t \<and> tx_height t < lt) txs), w)"
  "x_transfers_between (demo_env lo hi cap txs) gt lt w =
     (reply_of cap (filter (\<lambda>t. gt < tx_height t \<and> tx_height t < lt) txs), w)"
  "x_has_transfers (demo_env lo hi cap txs) w = (True, w)"
  by (simp_all add: demo_env_def)

lemma demo_serves: "lo \<le> C \<Longrightarrow> C \<le> hi \<Longrightarrow> 1 \<le> C \<Longrightarrow> replicas_serve (demo_env lo hi cap txs) (\<lambda>_. (lo, hi)) C"
  by (auto simp: replicas_serve_def demo_env_def demo_block_def comp_def)

lemma demo_start: "tbl (demo_env lo hi cap txs) (new_sync () empty_db) = {}"
  by (simp add: tbl_def new_sync_def empty_db_def heights_of_def)

text \<open>A pass over a node pruned below 3 fills the table and finds the floor.\<close>

definition demo_pass :: "unit sync" where
  "demo_pass = snd (run_state (syncBlocks (demo_env 3 9 10 [])) (new_sync () empty_db))"

lemma demo_pass_result:
  "heights_of ''net'' (sy_db demo_pass) = [8, 9, 6, 7, 4, 5, 3] \<and>
   db_state (sy_db demo_pass) ''blocks_backfill_done:net'' = Some ''1''"
  by code_simp

lemma demo_pass_run:
  "run_state (syncBlocks (demo_env 3 9 10 [])) (new_sync () empty_db) = ((), demo_pass)"
  by (simp add: demo_pass_def prod_eq_iff)



end
