(* ===== verification/Sync_Budget.thy ===== *)
theory Sync_Budget
  imports Sync_Range
begin

text \<open>
  What a pass of \<^verbatim>\<open>syncBlocks\<close> costs: the same program over a world that counts the ranges
  it is asked for.
\<close>

section \<open>The cost of a pass\<close>

text \<open>The same world with a count of the range queries.\<close>

definition metered :: "'w env \<Rightarrow> ('w \<times> nat) env" where
  "metered E =
     \<lparr>e_net = e_net E, e_page = e_page E, e_pages = e_pages E, e_days = e_days E,
      x_fails = counted (x_fails E), x_now = counted (x_now E), x_rfc3339 = x_rfc3339 E,
      x_tip = counted (x_tip E),
      x_blocks = (\<lambda>gt lt (w, n). counted (x_blocks E gt lt) (w, Suc n)),
      x_block_at = (\<lambda>h. counted (x_block_at E h)),
      x_txs_above = (\<lambda>h. counted (x_txs_above E h)),
      x_txs_at = (\<lambda>h. counted (x_txs_at E h)),
      x_txs_between = (\<lambda>gt lt. counted (x_txs_between E gt lt)),
      x_transfers_between = (\<lambda>gt lt. counted (x_transfers_between E gt lt)),
      x_has_transfers = counted (x_has_transfers E)\<rparr>"

abbreviation queries :: "('w \<times> nat) sync \<Rightarrow> nat" where
  "queries s \<equiv> snd (sy_world s)"

abbreviation free :: "('w \<times> nat, 'a) io \<Rightarrow> bool" where
  "free \<equiv> keeps (\<lambda>s t. queries s = queries t)"

lemma free_ask: "free (ask (counted f))"
  by (rule keepsI) (simp add: wp_ask counted_def split: prod.splits)

lemma free_zoom: "free (zoom sy_db (\<lambda>d s. s\<lparr>sy_db := d\<rparr>) g)"
  by (rule keepsI) (simp add: wp_zoom split: prod.splits)

lemma free_sql: "free (sql (metered E) f)"
proof -
  have "x_fails (metered E) = counted (x_fails E)" by (simp add: metered_def)
  then show ?thesis unfolding sql_def
    by (simp only:) (intro same.rules [where part = "\<lambda>s. snd (sy_world s)"] free_ask free_zoom)
qed

lemma free_modifies: "(\<And>s. queries (f s) = queries s) \<Longrightarrow> free (modifies f)"
  by (rule keepsI) simp

lemmas free_rules = same.rules [where part = "\<lambda>s. snd (sy_world s)"] free_ask free_sql free_modifies

lemma free_intern: "free (InternProposer (metered E) a)"
  unfolding InternProposer_def by (intro free_rules)

lemma free_proposerID: "free (proposerID (metered E) a)"
  unfolding proposerID_def by (intro free_rules free_intern) simp

lemma free_block_rows: "free (block_rows (metered E) bs)"
proof (induction bs)
  case Nil
  show ?case by (simp add: same.return)
next
  case (Cons b bs)
  then show ?case unfolding block_rows.simps by (intro free_rules free_proposerID)
qed

lemma free_state: "free (GetSyncState (metered E) k)" "free (SetSyncState (metered E) k v)"
  "free (BlockHeightBounds (metered E))" "free (OldestBlockTime (metered E))" "free (UpsertBlocks (metered E) rows)"
  unfolding GetSyncState_def SetSyncState_def BlockHeightBounds_def OldestBlockTime_def UpsertBlocks_def
  by (intro free_rules)+

lemma free_tip: "free (LatestBlockHeight (metered E))" "free (GetBlock (metered E) h)"
  "free (blockHistoryCutoff (metered E))"
proof -
  have "x_tip (metered E) = counted (x_tip E)" "x_block_at (metered E) h = counted (x_block_at E h)"
    "x_now (metered E) = counted (x_now E)" by (simp_all add: metered_def)
  then show "free (LatestBlockHeight (metered E))" "free (GetBlock (metered E) h)"
    "free (blockHistoryCutoff (metered E))"
    unfolding LatestBlockHeight_def GetBlock_def blockHistoryCutoff_def
    by (simp_all only:) (intro free_rules)+
qed

lemma free_mark: "free (markBackfillDone (metered E) d)"
  unfolding markBackfillDone_def by (intro free_rules free_state)

lemma free_past: "free (past_cutoff (metered E) c)"
  unfolding past_cutoff_def by (intro free_rules free_state)

lemma free_probe: "free (probe_floor (metered E) m)"
  unfolding probe_floor_def by (intro free_rules free_tip)

lemma free_due: "free (backfill_due (metered E))"
  unfolding backfill_due_def shouldResumeBackfill_def by (intro free_rules free_state)

lemma free_finish: "free (finish_backfill (metered E) st)"
  unfolding finish_backfill_def by (cases st) (simp_all add: free_mark same.return)

text \<open>Programs that make at most \<open>k\<close> range queries.\<close>

definition costs :: "nat \<Rightarrow> ('w \<times> nat, 'a) io \<Rightarrow> bool" where
  "costs k m \<longleftrightarrow> (\<forall>s. wp m (\<lambda>_ t. queries t \<le> queries s + k) s)"

lemma costsD: "costs k m \<Longrightarrow> wp m (\<lambda>_ t. queries t \<le> queries s + k) s"
  by (simp add: costs_def)

lemma costs_free: "free m \<Longrightarrow> costs k m"
  unfolding costs_def by (auto intro: wp_keep)

lemma costs_bind:
  fixes m :: "('w \<times> nat, 'a) io"
  assumes "costs k m" "\<And>a. costs l (f a)"
  shows "costs (k + l) (State_Monad.bind m f)"
  unfolding costs_def wp_bind
proof (intro allI, rule wp_mono)
  fix s :: "('w \<times> nat) sync"
  show "wp m (\<lambda>_ t. queries t \<le> queries s + k) s" using assms(1) by (simp add: costs_def)
  fix a and t :: "('w \<times> nat) sync" assume t: "queries t \<le> queries s + k"
  have "wp (f a) (\<lambda>_ u. queries u \<le> queries t + l) t" using assms(2) by (simp add: costs_def)
  then show "wp (f a) (\<lambda>_ u. queries u \<le> queries s + (k + l)) t"
    by (rule wp_mono) (use t in simp)
qed

lemma costs_first: "costs k m \<Longrightarrow> (\<And>a. free (f a)) \<Longrightarrow> costs k (State_Monad.bind m f)"
  by (metis add_0_right costs_bind costs_free)

lemma costs_then: "free m \<Longrightarrow> (\<And>a. costs k (f a)) \<Longrightarrow> costs k (State_Monad.bind m f)"
  by (metis add_0 costs_bind costs_free)

lemma costs_opt: "costs k m \<Longrightarrow> (\<And>a. costs k (f a)) \<Longrightarrow> costs k (case x of None \<Rightarrow> m | Some a \<Rightarrow> f a)"
  by (simp split: option.splits)

lemma costs_page: "costs 1 (fetchBlockPage (metered E) a b)"
proof -
  have "costs 1 (GetBlocksInRange (metered E) a b)"
    unfolding costs_def GetBlocksInRange_def
    by (simp add: metered_def wp_ask counted_def split: prod.splits)
  then show ?thesis unfolding fetchBlockPage_def
    by (intro costs_first free_rules free_block_rows free_state)
qed


text \<open>What a sequence of queries costs.\<close>

lemma costs_head: "wp (head_sync (metered E) tip m p) (\<lambda>q t. queries t + nat q \<le> queries s + nat p) s"
proof (cases "m < tip \<and> p > 0")
  case True
  have "wp (fetchBlockPage (metered E) (m + 1) (min tip (m + e_page (metered E))))
      (\<lambda>_ t. queries t \<le> queries s + 1) s"
    by (rule costsD [OF costs_page])
  then have "wp (fetchBlockPage (metered E) (m + 1) (min tip (m + e_page (metered E))))
      (\<lambda>_ t. queries t + nat (p - 1) \<le> queries s + nat p) s"
  proof (rule wp_mono)
    fix t :: "('a \<times> nat) sync" assume "queries t \<le> queries s + 1"
    moreover have "nat p = Suc (nat (p - 1))" using True by linarith
    ultimately show "queries t + nat (p - 1) \<le> queries s + nat p" by simp
  qed
  with True show ?thesis by (simp add: head_sync_def)
next
  case False
  then have "head_sync (metered E) tip m p = State_Monad.return p" unfolding head_sync_def by (rule if_not_P)
  then show ?thesis by simp
qed

lemma costs_loop: "costs n (backfill_loop (metered E) c n m)"
proof (induction n arbitrary: m)
  case 0
  show ?case by (simp add: costs_free same.return)
next
  case (Suc n)
  have ret: "costs k (State_Monad.return x)" for k and x :: stop by (simp add: costs_free same.return)
  have probe: "costs k (probe_floor (metered E) m)" for k m by (rule costs_free [OF free_probe])
  have step: "costs n (if m \<le> lo then probe_floor (metered E) m else do {
      capped \<leftarrow> past_cutoff (metered E) c;
      if capped then State_Monad.return (Stopped lo False True) else backfill_loop (metered E) c n lo
    })" for lo
  proof -
    have "costs n (if capped then State_Monad.return (Stopped lo False True) else backfill_loop (metered E) c n lo)"
      for capped by (simp add: ret Suc.IH)
    then show ?thesis by (simp only: probe costs_then [OF free_past] split: if_split) simp
  qed
  have "costs n (BlockHeightBounds (metered E) \<bind> (\<lambda>b. case b of
      Some (Some (lo, _)) \<Rightarrow> if m \<le> lo then probe_floor (metered E) m else do {
        capped \<leftarrow> past_cutoff (metered E) c;
        if capped then State_Monad.return (Stopped lo False True) else backfill_loop (metered E) c n lo
      } | _ \<Rightarrow> State_Monad.return Given_up))"
    by (rule costs_then [OF free_state(3)]) (simp add: step ret split: option.split prod.split del: if_split)
  then have body: "costs n (if \<not> ok then State_Monad.return Given_up
      else BlockHeightBounds (metered E) \<bind> (\<lambda>b. case b of
        Some (Some (lo, _)) \<Rightarrow> if m \<le> lo then probe_floor (metered E) m else do {
          capped \<leftarrow> past_cutoff (metered E) c;
          if capped then State_Monad.return (Stopped lo False True) else backfill_loop (metered E) c n lo
        } | _ \<Rightarrow> State_Monad.return Given_up))" for ok
    by (cases ok) (simp_all only: not_True_eq_False not_False_eq_True if_False if_True ret)
  have "costs (1 + n) (if m \<le> 1 then State_Monad.return (Stopped m False False)
      else fetchBlockPage (metered E) a b \<bind> f)"
    if "\<And>ok. costs n (f ok)" for a b f
    by (cases "m \<le> 1") (simp_all only: if_True if_False ret costs_bind [OF costs_page that])
  from this [OF body] show ?case by (simp only: backfill_loop.simps) simp
qed

lemma costs_backfill: "costs (nat p) (backfill (metered E) p m)"
proof -
  have "costs (nat p) (backfill_loop (metered E) c (nat p) m \<bind> finish_backfill (metered E))" for c
    by (rule costs_first [OF costs_loop free_finish])
  moreover have "costs (nat p) (markBackfillDone (metered E) d)" for d by (rule costs_free [OF free_mark])
  moreover have "costs (nat p) (State_Monad.return ())" by (simp add: costs_free same.return)
  ultimately show ?thesis unfolding backfill_def
    by (auto intro!: costs_then [OF free_due] costs_then [OF free_tip(3)] costs_then [OF free_past])
qed

lemma costs_seed: "costs 1 (seed (metered E) tip)"
  unfolding seed_def by (intro costs_first [OF costs_page] free_rules free_state)

lemma costs_rest:
  "wp (head_sync (metered E) tip m p \<bind> (\<lambda>p. backfill (metered E) p n)) (\<lambda>_ t. queries t \<le> queries s + nat p) s"
  unfolding wp_bind
proof (rule wp_mono [OF costs_head])
  fix q and t :: "('a \<times> nat) sync" assume t: "queries t + nat q \<le> queries s + nat p"
  have "wp (backfill (metered E) q n) (\<lambda>_ u. queries u \<le> queries t + nat q) t"
    by (rule costsD [OF costs_backfill])
  then show "wp (backfill (metered E) q n) (\<lambda>_ u. queries u \<le> queries s + nat p) t"
    by (rule wp_mono) (use t in simp)
qed

text \<open>
  C6. The work of a pass is bounded whatever the state of the table and whatever the
  indexer answers: seeding, following the tip and backfilling share one budget, and
  together they ask for at most \<^verbatim>\<open>blockPagesPerPass\<close> ranges of blocks, or one where that
  is not positive.
\<close>

theorem syncBlocks_within_budget:
  assumes "run_state (syncBlocks (metered E)) s = ((), t)"
  shows "queries t \<le> queries s + nat (max 1 (e_pages E))"
proof -
  let ?B = "queries s + nat (max 1 (e_pages E))"
  let ?go = "\<lambda>tip start. case start of None \<Rightarrow> State_Monad.return ()
    | Some (minH, maxH, p) \<Rightarrow> head_sync (metered E) tip maxH p \<bind> (\<lambda>p. backfill (metered E) p minH)"
  let ?start = "\<lambda>tip b. case b of
       Some (minH, maxH) \<Rightarrow> State_Monad.return (Some (minH, maxH, e_pages (metered E)))
     | None \<Rightarrow> seed (metered E) tip \<bind> (\<lambda>p. State_Monad.return
         (map_option (\<lambda>(minH, maxH). (minH, maxH, e_pages (metered E) - 1)) p))"
  let ?Q = "\<lambda>_ t. queries t \<le> ?B"
  have pages: "e_pages (metered E) = e_pages E" by (simp add: metered_def)
  have go: "wp (?go tip start) ?Q u"
    if "\<forall>a b p. start = Some (a, b, p) \<longrightarrow> queries u + nat p \<le> ?B" "queries u \<le> ?B"
    for tip start and u :: "('a \<times> nat) sync"
    using that by (cases start) (auto intro: wp_mono [OF costs_rest])
  have start: "wp (?start tip b) (\<lambda>st. wp (?go tip st) ?Q) u" if u: "queries u = queries s"
    for tip b and u :: "('a \<times> nat) sync"
  proof (cases b)
    case None
    have "wp (seed (metered E) tip) (\<lambda>p. wp (?go tip
        (map_option (\<lambda>(minH, maxH). (minH, maxH, e_pages (metered E) - 1)) p)) ?Q) u"
    proof (rule wp_mono)
      show "wp (seed (metered E) tip) (\<lambda>_ v. queries v \<le> queries u + 1) u"
        by (rule costsD [OF costs_seed])
      fix p and v :: "('a \<times> nat) sync" assume "queries v \<le> queries u + 1"
      with u show "wp (?go tip (map_option (\<lambda>(minH, maxH). (minH, maxH, e_pages (metered E) - 1)) p)) ?Q v"
        by (intro go) (auto simp: pages)
    qed
    with None show ?thesis by simp
  next
    case (Some r)
    obtain lo hi where "r = (lo, hi)" by fastforce
    then show ?thesis using Some go [of "Some (lo, hi, e_pages E)" u tip] u pages by simp
  qed
  have bounds: "wp (BlockHeightBounds (metered E)) (\<lambda>b. wp (case b of None \<Rightarrow> State_Monad.return ()
      | Some b \<Rightarrow> ?start tip b \<bind> ?go tip) ?Q) u" if u: "queries u = queries s"
    for tip and u :: "('a \<times> nat) sync"
    by (rule wp_keep [OF free_state(3)]) (use u start in \<open>auto split: option.split\<close>)
  have "wp (LatestBlockHeight (metered E)) (\<lambda>tip. wp (case tip of None \<Rightarrow> State_Monad.return ()
      | Some tip \<Rightarrow> BlockHeightBounds (metered E) \<bind> (\<lambda>b. case b of None \<Rightarrow> State_Monad.return ()
          | Some b \<Rightarrow> ?start tip b \<bind> ?go tip)) ?Q) s"
    by (rule wp_keep [OF free_tip(1)]) (use bounds in \<open>auto split: option.split\<close>)
  then have "wp (syncBlocks (metered E)) ?Q s"
    unfolding syncBlocks_def by simp
  with assms show ?thesis by (simp add: wp_def)
qed

definition demo_metered_pass :: "(unit \<times> nat) sync" where
  "demo_metered_pass = snd (run_state (syncBlocks (metered (demo_env 3 9 10 []))) (new_sync ((), 0) empty_db))"

theorem syncBlocks_within_budget_witness: "queries demo_metered_pass \<le> 6"
  using syncBlocks_within_budget [of "demo_env 3 9 10 []" "new_sync ((), 0) empty_db" demo_metered_pass]
  by (simp add: demo_metered_pass_def prod_eq_iff new_sync_def)

end
