(* ===== verification/Sync_Walk.thy ===== *)
theory Sync_Walk
  imports Sync_Range "HOL-Library.Multiset"
begin

text \<open>
  Walking the transactions of a chain through an indexer that cuts its answers
  (\<^verbatim>\<open>walkTransactions\<close> and \<^verbatim>\<open>fetchSessionRange\<close> of \<^verbatim>\<open>pkg/syncer\<close>, \<^verbatim>\<open>transactionsFromHeight\<close> of
  \<^verbatim>\<open>pkg/indexer\<close>): page by page above a cursor, and range by range by halving.
\<close>

section \<open>The code\<close>

definition dropTrailingHeight :: "transaction list \<Rightarrow> transaction list" where
  "dropTrailingHeight txs =
     (if txs = [] then txs
      else rev (dropWhile (\<lambda>t. tx_height t = tx_height (last txs)) (rev txs)))"

text \<open>A page and whether more remain; \<^term>\<open>None\<close> is an error.\<close>

definition page_of :: "transaction list reply \<Rightarrow> (transaction list \<times> bool) option" where
  "page_of r =
     (case r of
        Failed \<Rightarrow> None
      | Page txs \<Rightarrow> Some (txs, False)
      | Too_large txs \<Rightarrow>
          (let txs = dropTrailingHeight txs in if length txs = 0 then None else Some (txs, True)))"

definition transactionsFromHeight :: "'w env \<Rightarrow> int option \<Rightarrow> ('w, (transaction list \<times> bool) option) io" where
  "transactionsFromHeight E h = do {
     r \<leftarrow> ask (x_txs_above E h);
     State_Monad.return (page_of r)
   }"

text \<open>
  The loop: \<^term>\<open>None\<close> is one that never ends, \<^term>\<open>False\<close> the error of a fetch.
\<close>

partial_function (option) walkTransactions ::
  "(int option \<Rightarrow> ('w, (transaction list \<times> bool) option) io) \<Rightarrow> (transaction list \<Rightarrow> ('w, unit) io) \<Rightarrow>
   int option \<Rightarrow> 'w sync \<Rightarrow> (bool \<times> 'w sync) option" where
  "walkTransactions fetch process cursor s =
     (case run_state (fetch cursor) s of
        (None, s) \<Rightarrow> Some (False, s)
      | (Some (txs, truncated), s) \<Rightarrow>
          if length txs = 0 then Some (True, s)
          else case run_state (process txs) s of (_, s) \<Rightarrow>
            if \<not> truncated then Some (True, s)
            else walkTransactions fetch process (Some (tx_height (last txs))) s)"

lemmas [code] = walkTransactions.simps

text \<open>
  A range read by halving: the transactions found and the lowest height covered, which is
  \<open>hi\<close> when nothing was.
\<close>

function fetchSessionRange :: "'w env \<Rightarrow> int \<Rightarrow> int \<Rightarrow> ('w, transaction list \<times> int) io" where
  "fetchSessionRange E lo hi = do {
     r \<leftarrow> ask (x_txs_between E (lo - 1) hi);
     case r of
       Page txs \<Rightarrow> State_Monad.return (txs, lo)
     | Failed \<Rightarrow> State_Monad.return ([], hi)
     | Too_large _ \<Rightarrow>
         if hi - lo > 1 then do {
           (upper, upperFloor) \<leftarrow> fetchSessionRange E (lo + (hi - lo) div 2) hi;
           if upperFloor > lo + (hi - lo) div 2 then State_Monad.return (upper, upperFloor)
           else do {
             (lower, lowerFloor) \<leftarrow> fetchSessionRange E lo (lo + (hi - lo) div 2);
             State_Monad.return (upper @ lower, lowerFloor)
           }
         }
         else State_Monad.return ([], hi)
   }"
  by pat_completeness auto
termination by (relation "measure (\<lambda>(E, lo, hi). nat (hi - lo))") auto

declare fetchSessionRange.simps [simp del]

section \<open>Pages\<close>

text \<open>Transactions in the order of their heights, and those of a stretch of heights.\<close>

abbreviation in_order :: "transaction list \<Rightarrow> bool" where
  "in_order txs \<equiv> sorted (map tx_height txs)"

definition above :: "int option \<Rightarrow> transaction list \<Rightarrow> transaction list" where
  "above h txs = filter (\<lambda>t. h = None \<or> the h < tx_height t) txs"

definition between :: "int option \<Rightarrow> int \<Rightarrow> transaction list \<Rightarrow> transaction list" where
  "between lo hi txs = filter (\<lambda>t. (lo = None \<or> the lo < tx_height t) \<and> tx_height t \<le> hi) txs"

lemma above_split:
  assumes "in_order txs" "lo = None \<or> the lo \<le> hi"
  shows "above lo txs = between lo hi txs @ above (Some hi) txs"
  using assms(1)
proof (induction txs)
  case (Cons t txs)
  show ?case
  proof (cases "tx_height t \<le> hi")
    case True
    with Cons show ?thesis by (auto simp: above_def between_def)
  next
    case False
    then have later: "hi < tx_height u" if "u \<in> set (t # txs)" for u
      using Cons.prems that by force
    then have "above lo (t # txs) = t # txs" "above (Some hi) (t # txs) = t # txs"
      using assms(2) unfolding above_def by (intro filter_True; force)+
    moreover have "between lo hi (t # txs) = []"
      unfolding between_def using later by (intro filter_False) force
    ultimately show ?thesis by simp
  qed
qed (simp add: above_def between_def)

lemma above_above: "lo = None \<or> the lo \<le> hi \<Longrightarrow> above (Some hi) (above lo txs) = above (Some hi) txs"
  unfolding above_def filter_filter by (rule filter_cong) auto

lemma in_order_above: "in_order txs \<Longrightarrow> in_order (above h txs)"
  unfolding above_def by (rule sorted_filter)

lemma dropTrailing_filter:
  assumes "in_order txs" "\<forall>t \<in> set txs. tx_height t \<le> m"
  shows "rev (dropWhile (\<lambda>t. tx_height t = m) (rev txs)) = filter (\<lambda>t. tx_height t < m) txs"
  using assms
proof (induction txs rule: rev_induct)
  case (snoc t txs)
  show ?case
  proof (cases "tx_height t = m")
    case True
    with snoc show ?thesis by (simp add: sorted_append)
  next
    case False
    then have "\<forall>u \<in> set (txs @ [t]). tx_height u < m"
      using snoc.prems by (force simp: sorted_append)
    with False show ?thesis by (simp add: filter_id_conv)
  qed
qed simp

lemma in_order_last: "in_order txs \<Longrightarrow> t \<in> set txs \<Longrightarrow> tx_height t \<le> tx_height (last txs)"
  by (induction txs rule: rev_induct) (auto simp: sorted_append)

text \<open>A trunc page without its last height is everything up to the height it then ends at.\<close>

lemma dropTrailing_prefix:
  assumes "in_order txs" "dropTrailingHeight (take k txs) \<noteq> []"
  defines "p \<equiv> dropTrailingHeight (take k txs)"
  shows "p = between None (tx_height (last p)) txs" and "\<forall>t \<in> set p. t \<in> set txs"
proof -
  let ?q = "take k txs" and ?h = "tx_height (last (take k txs))"
  have ne: "?q \<noteq> []" using assms(2) unfolding dropTrailingHeight_def by (auto split: if_splits)
  have q: "in_order ?q" and rest: "\<forall>t \<in> set ?q. \<forall>u \<in> set (drop k txs). tx_height t \<le> tx_height u"
    using assms(1) sorted_append [of "map tx_height ?q" "map tx_height (drop k txs)"]
    by (auto simp flip: map_append)
  have p: "p = filter (\<lambda>t. tx_height t < ?h) ?q"
    unfolding p_def dropTrailingHeight_def using ne q in_order_last [OF q]
    by (simp add: dropTrailing_filter [OF q, of ?h])
  then have all: "filter (\<lambda>t. tx_height t < ?h) txs = p"
    using rest ne last_in_set [OF ne] append_take_drop_id [of k txs]
    by (metis (no_types, lifting) append_Nil2 filter_False filter_append not_less)
  have ord: "in_order p" unfolding p by (rule sorted_filter [OF q])
  have "last p \<in> set p" using assms(2) by (simp add: p_def)
  then have "tx_height (last p) < ?h" by (simp add: p)
  then have "between None (tx_height (last p)) txs = filter (\<lambda>t. tx_height t \<le> tx_height (last p)) p"
    unfolding between_def all [symmetric] filter_filter by (intro filter_cong) auto
  also have "\<dots> = p" using in_order_last [OF ord] by (simp add: filter_id_conv)
  finally show "p = between None (tx_height (last p)) txs" by simp
  show "\<forall>t \<in> set p. t \<in> set txs" using all by auto
qed

section \<open>The walk\<close>

text \<open>
  What an indexer that serves the transactions \<open>chain\<close> answers to a query above a height:
  nothing, everything, or the first ones and the error that says they are not all.
\<close>

definition serves_above :: "'w env \<Rightarrow> transaction list \<Rightarrow> bool" where
  "serves_above E chain \<longleftrightarrow> in_order chain \<and>
     (\<forall>h w. case fst (x_txs_above E h w) of
        Failed \<Rightarrow> True
      | Page txs \<Rightarrow> txs = above h chain
      | Too_large txs \<Rightarrow> (\<exists>k < length (above h chain). txs = take k (above h chain)))"

lemma page_complete:
  assumes "serves_above E chain" "run_state (transactionsFromHeight E h) s = (Some (txs, trunc), t)"
  shows "sy_db t = sy_db s"
    and "\<not> trunc \<Longrightarrow> txs = above h chain"
    and "trunc \<Longrightarrow> txs \<noteq> [] \<and> txs = between h (tx_height (last txs)) chain \<and>
      (h = None \<or> the h < tx_height (last txs))"
proof -
  obtain r w where r: "x_txs_above E h (sy_world s) = (r, w)" by fastforce
  with assms(2) have p: "page_of r = Some (txs, trunc)" and t: "t = s\<lparr>sy_world := w\<rparr>"
    by (simp_all add: transactionsFromHeight_def)
  show "sy_db t = sy_db s" by (simp add: t)
  have honest: "in_order chain" "case r of Failed \<Rightarrow> True | Page txs \<Rightarrow> txs = above h chain
      | Too_large txs \<Rightarrow> (\<exists>k < length (above h chain). txs = take k (above h chain))"
    using assms(1) [unfolded serves_above_def, THEN conjunct1]
      assms(1) [unfolded serves_above_def, THEN conjunct2, rule_format, of h "sy_world s"]
    by (simp_all add: r)
  show "txs = above h chain" if "\<not> trunc"
    using p honest(2) that by (auto simp: page_of_def Let_def split: reply.splits if_splits)
  show "txs \<noteq> [] \<and> txs = between h (tx_height (last txs)) chain \<and> (h = None \<or> the h < tx_height (last txs))"
    if tr: "trunc"
  proof -
    obtain k where k: "r = Too_large (take k (above h chain))" "txs = dropTrailingHeight (take k (above h chain))"
      "txs \<noteq> []"
      using p honest(2) tr by (auto simp: page_of_def Let_def split: reply.splits if_splits)
    have ord: "in_order (above h chain)" by (rule in_order_above [OF honest(1)])
    have "txs = between None (tx_height (last txs)) (above h chain)" "\<forall>t \<in> set txs. t \<in> set (above h chain)"
      using dropTrailing_prefix [OF ord, of k] k(2,3) by simp_all
    moreover have "between None c (above h chain) = between h c chain" for c
      by (simp add: between_def above_def)
    moreover have "last txs \<in> set txs" using k(3) by simp
    ultimately show ?thesis using k(3) by (auto simp: above_def)
  qed
qed

lemma page_failed:
  "run_state (transactionsFromHeight E h) s = (None, t) \<Longrightarrow> sy_db t = sy_db s"
  by (auto simp: transactionsFromHeight_def split: prod.splits)

lemma between_empty: "\<exists>c. (h = None \<or> the h \<le> c) \<and> between h c chain = []"
proof (cases h)
  case None
  have "finite (tx_height ` set chain)" by simp
  then obtain c where "\<forall>t \<in> set chain. c < tx_height t"
    by (metis bdd_below_finite bdd_below.unfold image_eqI lt_ex order_less_le_trans)
  with None show ?thesis by (intro exI [of _ c]) (auto simp: between_def filter_empty_conv)
next
  case (Some x)
  then show ?thesis by (intro exI [of _ x]) (auto simp: between_def filter_empty_conv)
qed

text \<open>
  C3. Walking the chain page by page hands every transaction above the cursor to the
  processing step exactly once and in order, however often the indexer cuts its answers
  at its cap, and always ends. When a fetch fails, what was processed is a stretch of
  whole blocks from the cursor on, so the next walk resumes without a hole.
\<close>

theorem walkTransactions_visits_each_once:
  assumes "serves_above E chain"
  shows "\<exists>ok t. walkTransactions (transactionsFromHeight E)
      (\<lambda>txs. modifies (\<lambda>s. s\<lparr>sy_db := fold g txs (sy_db s)\<rparr>)) cursor s = Some (ok, t) \<and>
    (if ok then sy_db t = fold g (above cursor chain) (sy_db s)
     else \<exists>c. (cursor = None \<or> the cursor \<le> c) \<and> sy_db t = fold g (between cursor c chain) (sy_db s))"
proof (induction "length (above cursor chain)" arbitrary: cursor s rule: less_induct)
  case less
  let ?process = "\<lambda>txs. modifies (\<lambda>s. s\<lparr>sy_db := fold g txs (sy_db s)\<rparr>)"
  obtain r u where page: "run_state (transactionsFromHeight E cursor) s = (r, u)" by fastforce
  show ?case
  proof (cases r)
    case None
    obtain c where "(cursor = None \<or> the cursor \<le> c) \<and> between cursor c chain = []" using between_empty by blast
    then have "(cursor = None \<or> the cursor \<le> c) \<and> sy_db u = fold g (between cursor c chain) (sy_db s)"
      using page_failed [of E cursor s u] page None by simp
    moreover have "walkTransactions (transactionsFromHeight E) ?process cursor s = Some (False, u)"
      using page None by (subst walkTransactions.simps) simp
    ultimately show ?thesis by auto
  next
    case (Some p)
    obtain txs trunc where p: "p = (txs, trunc)" by fastforce
    note step = page_complete [OF assms page [unfolded Some p]]
    let ?t = "u\<lparr>sy_db := fold g txs (sy_db u)\<rparr>"
    show ?thesis
    proof (cases trunc)
      case False
      then have "txs = above cursor chain" by (rule step(2))
      moreover have "walkTransactions (transactionsFromHeight E) ?process cursor s =
          Some (True, if txs = [] then u else ?t)"
        using False page Some p by (subst walkTransactions.simps) simp
      ultimately show ?thesis using step(1) by auto
    next
      case True
      let ?h = "tx_height (last txs)"
      have ne: "txs \<noteq> []" and txs: "txs = between cursor ?h chain" and h: "cursor = None \<or> the cursor < ?h"
        using step(3) [OF True] by simp_all
      have ord: "in_order chain" using assms by (simp add: serves_above_def)
      have split: "above cursor chain = txs @ above (Some ?h) chain"
        using above_split [OF ord, of cursor ?h] h txs by auto
      then have "length (above (Some ?h) chain) < length (above cursor chain)" using ne by simp
      from less [OF this, of ?t] obtain ok v where
        v: "walkTransactions (transactionsFromHeight E) ?process (Some ?h) ?t = Some (ok, v)"
        and "if ok then sy_db v = fold g (above (Some ?h) chain) (sy_db ?t)
          else \<exists>c. (Some ?h = None \<or> the (Some ?h) \<le> c) \<and>
            sy_db v = fold g (between (Some ?h) c chain) (sy_db ?t)"
        by blast
      then have res: "if ok then sy_db v = fold g (above (Some ?h) chain) (sy_db ?t)
          else \<exists>c \<ge> ?h. sy_db v = fold g (between (Some ?h) c chain) (sy_db ?t)"
        by (cases ok) simp_all
      have run: "walkTransactions (transactionsFromHeight E) ?process cursor s = Some (ok, v)"
        using page Some p ne True v by (subst walkTransactions.simps) simp
      have "between cursor c chain = txs @ between (Some ?h) c chain" if "?h \<le> c" for c
      proof -
        have "between cursor c chain = filter (\<lambda>t. tx_height t \<le> c) (above cursor chain)"
          unfolding between_def above_def filter_filter by (rule filter_cong) auto
        also have "\<dots> = filter (\<lambda>t. tx_height t \<le> c) txs @ filter (\<lambda>t. tx_height t \<le> c) (above (Some ?h) chain)"
          by (simp only: split filter_append)
        also have "filter (\<lambda>t. tx_height t \<le> c) txs = txs"
        proof -
          have "\<forall>t \<in> set (between cursor ?h chain). tx_height t \<le> ?h" by (simp add: between_def)
          then have "\<forall>t \<in> set txs. tx_height t \<le> c" using txs that by fastforce
          then show ?thesis by (simp add: filter_id_conv)
        qed
        also have "filter (\<lambda>t. tx_height t \<le> c) (above (Some ?h) chain) = between (Some ?h) c chain"
          unfolding between_def above_def filter_filter by (rule filter_cong) auto
        finally show ?thesis .
      qed
      note parts = this
      show ?thesis
      proof (cases ok)
        case True
        with run res split step(1) show ?thesis by auto
      next
        case False
        with res obtain c where c: "?h \<le> c" "sy_db v = fold g (between (Some ?h) c chain) (sy_db ?t)" by auto
        then have "sy_db v = fold g (between cursor c chain) (sy_db s)" using parts step(1) by simp
        moreover have "cursor = None \<or> the cursor \<le> c" using h c(1) by auto
        ultimately show ?thesis using run False by auto
      qed
    qed
  qed
qed

section \<open>The halving sweep\<close>

text \<open>An indexer that serves \<open>chain\<close> by ranges: it fails, refuses, or answers with all of a range.\<close>

definition serves_between :: "'w env \<Rightarrow> transaction list \<Rightarrow> bool" where
  "serves_between E chain \<longleftrightarrow>
     (\<forall>gt lt w. case fst (x_txs_between E gt lt w) of
        Page txs \<Rightarrow> txs = filter (\<lambda>t. gt < tx_height t \<and> tx_height t < lt) chain
      | _ \<Rightarrow> True)"

definition of_heights :: "int \<Rightarrow> int \<Rightarrow> transaction list \<Rightarrow> transaction list" where
  "of_heights lo hi txs = filter (\<lambda>t. lo \<le> tx_height t \<and> tx_height t < hi) txs"

lemma of_heights_halves:
  assumes "lo \<le> m" "m \<le> hi"
  shows "mset (of_heights m hi txs) + mset (of_heights lo m txs) = mset (of_heights lo hi txs)"
  using assms by (induction txs) (auto simp: of_heights_def)

lemma of_heights_empty [simp]: "of_heights hi hi txs = []"
  by (auto simp: of_heights_def filter_empty_conv)

text \<open>
  The halving sweep reports exactly what it read: whatever the indexer refuses or
  fails to answer, the transactions returned are those of the blocks from the reported
  floor up to the end of the range, each once, and the floor is in the range. A block
  below the floor is left for the next pass and no block above it is missed.
\<close>

theorem fetchSessionRange_covers_exactly:
  assumes "serves_between E chain" "lo \<le> hi" "run_state (fetchSessionRange E lo hi) s = ((txs, bottom), t)"
  shows "lo \<le> bottom \<and> bottom \<le> hi \<and> mset txs = mset (of_heights bottom hi chain) \<and> sy_db t = sy_db s"
  using assms(2,3)
proof (induction "nat (hi - lo)" arbitrary: lo hi s txs bottom t rule: less_induct)
  case less
  let ?m = "lo + (hi - lo) div 2"
  obtain r w where r: "x_txs_between E (lo - 1) hi (sy_world s) = (r, w)" by fastforce
  let ?s = "s\<lparr>sy_world := w\<rparr>"
  have run: "run_state (fetchSessionRange E lo hi) s =
    (case r of Page txs \<Rightarrow> ((txs, lo), ?s) | Failed \<Rightarrow> (([], hi), ?s)
     | Too_large _ \<Rightarrow> if hi - lo > 1 then run_state (do {
           (upper, upperFloor) \<leftarrow> fetchSessionRange E ?m hi;
           if upperFloor > ?m then State_Monad.return (upper, upperFloor)
           else do {
             (lower, lowerFloor) \<leftarrow> fetchSessionRange E lo ?m;
             State_Monad.return (upper @ lower, lowerFloor)
           }
         }) ?s else (([], hi), ?s))"
    by (subst fetchSessionRange.simps) (simp add: r split: reply.splits)
  show ?case
  proof (cases r)
    case Failed
    with run less.prems show ?thesis by simp
  next
    case (Page p)
    have "case fst (x_txs_between E (lo - 1) hi (sy_world s)) of
        Page txs \<Rightarrow> txs = filter (\<lambda>t. lo - 1 < tx_height t \<and> tx_height t < hi) chain | _ \<Rightarrow> True"
      using assms(1) unfolding serves_between_def by blast
    then have "p = of_heights lo hi chain"
      by (auto simp: of_heights_def r Page intro!: filter_cong)
    with run less.prems Page show ?thesis by simp
  next
    case (Too_large p)
    show ?thesis
    proof (cases "hi - lo > 1")
      case False
      with run less.prems Too_large show ?thesis by simp
    next
      case True
      then have m: "lo < ?m" "?m < hi" by linarith+
      obtain upper uf u where up: "run_state (fetchSessionRange E ?m hi) ?s = ((upper, uf), u)"
        by (metis surj_pair)
      have U: "?m \<le> uf \<and> uf \<le> hi \<and> mset upper = mset (of_heights uf hi chain) \<and> sy_db u = sy_db ?s"
        using m by (intro less.hyps [OF _ _ up]) auto
      show ?thesis
      proof (cases "uf > ?m")
        case True
        with run less.prems Too_large \<open>hi - lo > 1\<close> up U m show ?thesis by auto
      next
        case False
        with U have uf: "uf = ?m" by simp
        obtain lower lf v where low: "run_state (fetchSessionRange E lo ?m) u = ((lower, lf), v)"
          by (metis surj_pair)
        have L: "lo \<le> lf \<and> lf \<le> ?m \<and> mset lower = mset (of_heights lf ?m chain) \<and> sy_db v = sy_db u"
          using m by (intro less.hyps [OF _ _ low]) auto
        have "txs = upper @ lower" "bottom = lf" "t = v"
          using run less.prems Too_large \<open>hi - lo > 1\<close> up low False by auto
        moreover have "mset (of_heights ?m hi chain) + mset (of_heights lf ?m chain) =
            mset (of_heights lf hi chain)"
          using L m by (intro of_heights_halves) auto
        ultimately show ?thesis using U L uf m by simp
      qed
    qed
  qed
qed

section \<open>Witnesses\<close>

definition demo_tx :: "int \<Rightarrow> string \<Rightarrow> tx_event list \<Rightarrow> transaction" where
  "demo_tx h hash evs = \<lparr>tx_hash = hash, tx_success = True, tx_height = h, tx_events = Some evs\<rparr>"

definition demo_chain :: "transaction list" where
  "demo_chain = [demo_tx 2 ''a'' [], demo_tx 2 ''b'' [], demo_tx 5 ''c'' [], demo_tx 6 ''d'' [], demo_tx 9 ''e'' []]"

lemma reply_serves_above: "in_order chain \<Longrightarrow> serves_above (demo_env lo hi cap chain) chain"
  by (auto simp: serves_above_def reply_of_def above_def split: reply.splits)

lemma reply_serves_between: "serves_between (demo_env lo hi cap chain) chain"
  by (simp add: serves_between_def reply_of_def)

theorem walkTransactions_visits_each_once_witness:
  "\<exists>ok t. walkTransactions (transactionsFromHeight (demo_env 1 9 3 demo_chain))
      (\<lambda>txs. modifies (\<lambda>s. s\<lparr>sy_db := fold (\<lambda>t. upsert_row (tx_hash t)
        \<lparr>row_height = tx_height t, row_time = '''', row_proposer = 0, row_txs = 1\<rparr>) txs (sy_db s)\<rparr>))
      None (new_sync () empty_db) = Some (ok, t) \<and>
    (ok \<longrightarrow> map fst (db_blocks (sy_db t)) = [(''a'', 2), (''b'', 2), (''c'', 5), (''d'', 6), (''e'', 9)])"
proof -
  let ?g = "\<lambda>t. upsert_row (tx_hash t)
    \<lparr>row_height = tx_height t, row_time = '''', row_proposer = 0, row_txs = 1\<rparr>"
  have "in_order demo_chain" by (simp add: demo_chain_def demo_tx_def)
  then have "serves_above (demo_env 1 9 3 demo_chain) demo_chain" by (rule reply_serves_above)
  moreover have "map fst (db_blocks (fold ?g (above None demo_chain) empty_db)) =
      [(''a'', 2), (''b'', 2), (''c'', 5), (''d'', 6), (''e'', 9)]"
    by (simp add: demo_chain_def demo_tx_def above_def empty_db_def upsert_row_def)
  ultimately show ?thesis
    using walkTransactions_visits_each_once [of "demo_env 1 9 3 demo_chain" demo_chain ?g None
      "new_sync () empty_db"]
    by (fastforce simp: new_sync_def)
qed

definition demo_sweep :: "(transaction list \<times> int) \<times> unit sync" where
  "demo_sweep = run_state (fetchSessionRange (demo_env 1 9 1 demo_chain) 3 10) (new_sync () empty_db)"

theorem fetchSessionRange_covers_exactly_witness:
  "snd (fst demo_sweep) = 3 \<and> mset (fst (fst demo_sweep)) = mset (of_heights 3 10 demo_chain)"
proof -
  have "snd (fst demo_sweep) = 3" by code_simp
  moreover have "run_state (fetchSessionRange (demo_env 1 9 1 demo_chain) 3 10) (new_sync () empty_db) =
      ((fst (fst demo_sweep), snd (fst demo_sweep)), snd demo_sweep)"
    by (simp add: demo_sweep_def)
  ultimately show ?thesis
    using fetchSessionRange_covers_exactly [OF reply_serves_between, of 3 10 1 9 1 demo_chain] by fastforce
qed

end
