(* ===== verification/Sync_Ledgers.thy ===== *)
theory Sync_Ledgers
  imports Sync_Walk
begin

text \<open>
  The ledgers of token and coin transfers (\<^verbatim>\<open>pkg/syncer/syncer.go\<close>, \<^verbatim>\<open>pkg/store/tokens.go\<close>,
  \<^verbatim>\<open>pkg/store/balances.go\<close>): what is recorded of a transaction, and the two walks that fill
  in the history from before each ledger existed.
\<close>

section \<open>Reading events\<close>

definition ParseTokenValue :: "string \<Rightarrow> int" where
  "ParseTokenValue s = (let (v, ok) = parse_int (trim_space s) in if \<not> ok then 0 else v)"

definition ugnotDenom :: string where "ugnotDenom = ''ugnot''"

text \<open>One entry of a coin list: its amount, or nothing that is counted.\<close>

definition ugnot_entry :: "string \<Rightarrow> int option" where
  "ugnot_entry raw =
     (let entry = trim_by (\<lambda>c. c = CHR 34) (trim_space raw);
          digits = takeWhile is_digit entry
      in if length digits = 0 \<or> drop (length digits) entry \<noteq> ugnotDenom then None
         else let (v, ok) = parse_int digits in if \<not> ok then None else Some v)"

fun sum_ugnot :: "int \<Rightarrow> string list \<Rightarrow> int" where
  "sum_ugnot acc [] = acc"
| "sum_ugnot acc (e # es) =
     (case ugnot_entry e of None \<Rightarrow> sum_ugnot acc es | Some v \<Rightarrow> sum_ugnot (wrap64 (acc + v)) es)"

definition ParseUgnot :: "string \<Rightarrow> int" where
  "ParseUgnot amount = sum_ugnot 0 (split_on (CHR '','') amount)"

fun set_attr :: "string \<times> string \<Rightarrow> token_transfer \<Rightarrow> token_transfer" where
  "set_attr (k, v) t =
     (if k = ''token'' then t\<lparr>tt_token := v\<rparr>
      else if k = ''from'' then t\<lparr>tt_from := v\<rparr>
      else if k = ''to'' then t\<lparr>tt_to := v\<rparr>
      else if k = ''value'' then t\<lparr>tt_value := ParseTokenValue v\<rparr>
      else t)"

definition zero_transfer :: token_transfer where
  "zero_transfer = \<lparr>tt_token = '''', tt_pkg = '''', tt_from = '''', tt_to = '''', tt_value = 0,
     tt_height = 0, tt_time = ''''\<rparr>"

definition transfer_of :: "int \<Rightarrow> string \<Rightarrow> tx_event \<Rightarrow> token_transfer" where
  "transfer_of h bt ev =
     (let t = fold set_attr (ev_attrs ev) zero_transfer
      in t\<lparr>tt_height := h, tt_time := bt\<rparr>)"

section \<open>Recording\<close>

text \<open>The loops over the events, numbered from \<open>i\<close>: how many were stored.\<close>

fun token_events :: "'w env \<Rightarrow> transaction \<Rightarrow> string \<Rightarrow> nat \<Rightarrow> tx_event list \<Rightarrow> ('w, nat) io" where
  "token_events E tx bt i [] = State_Monad.return 0"
| "token_events E tx bt i (ev # evs) =
     (if ev_typename ev \<noteq> ''GnoEvent'' \<or> ev_type ev \<noteq> ''Transfer''
      then token_events E tx bt (Suc i) evs
      else let t = transfer_of (tx_height tx) bt ev
           in if tt_token t = '''' then token_events E tx bt (Suc i) evs
              else do {
                r \<leftarrow> InsertTokenTransfer E (tx_hash tx) i t;
                n \<leftarrow> token_events E tx bt (Suc i) evs;
                State_Monad.return (if r = None then n else Suc n)
              })"

definition recordTokenTransfers :: "'w env \<Rightarrow> transaction \<Rightarrow> string \<Rightarrow> ('w, nat) io" where
  "recordTokenTransfers E tx bt =
     (case tx_events tx of
        None \<Rightarrow> State_Monad.return 0
      | Some evs \<Rightarrow> if \<not> tx_success tx then State_Monad.return 0 else token_events E tx bt 0 evs)"

fun coin_events :: "'w env \<Rightarrow> transaction \<Rightarrow> string \<Rightarrow> nat \<Rightarrow> tx_event list \<Rightarrow> ('w, nat) io" where
  "coin_events E tx bt i [] = State_Monad.return 0"
| "coin_events E tx bt i (ev # evs) =
     (if ev_typename ev \<noteq> ''TransferEvent'' then coin_events E tx bt (Suc i) evs
      else if ev_from ev = '''' \<and> ev_to ev = '''' then coin_events E tx bt (Suc i) evs
      else do {
        r \<leftarrow> InsertCoinTransfer E (tx_hash tx) i
               \<lparr>ct_from = ev_from ev, ct_to = ev_to ev, ct_coins = ev_coins ev,
                ct_ugnot = ParseUgnot (ev_coins ev), ct_height = tx_height tx, ct_time = bt\<rparr>;
        n \<leftarrow> coin_events E tx bt (Suc i) evs;
        State_Monad.return (if r = None then n else Suc n)
      })"

definition recordCoinTransfers :: "'w env \<Rightarrow> transaction \<Rightarrow> string \<Rightarrow> ('w, nat) io" where
  "recordCoinTransfers E tx bt =
     (case tx_events tx of
        None \<Rightarrow> State_Monad.return 0
      | Some evs \<Rightarrow> if \<not> tx_success tx then State_Monad.return 0 else coin_events E tx bt 0 evs)"

text \<open>
  The times of the blocks of some transactions. The code asks for the heights in parallel
  and in no fixed order; here one after the other.
\<close>

primrec block_times :: "'w env \<Rightarrow> int list \<Rightarrow> ('w, (int \<times> string) list) io" where
  "block_times E [] = State_Monad.return []"
| "block_times E (h # hs) = do {
     b \<leftarrow> GetBlock E h;
     rest \<leftarrow> block_times E hs;
     State_Monad.return (case b of Some (Some b) \<Rightarrow> (h, blk_time b) # rest | _ \<Rightarrow> rest)
   }"

definition fetchBlockTimes :: "'w env \<Rightarrow> transaction list \<Rightarrow> ('w, (int \<times> string) list) io" where
  "fetchBlockTimes E txs = block_times E (remdups (map tx_height txs))"

definition time_at :: "(int \<times> string) list \<Rightarrow> int \<Rightarrow> string" where
  "time_at stamps h = (case map_of stamps h of Some t \<Rightarrow> t | None \<Rightarrow> '''')"

primrec record_each :: "(transaction \<Rightarrow> string \<Rightarrow> ('w, nat) io) \<Rightarrow> (int \<times> string) list \<Rightarrow> transaction list \<Rightarrow> ('w, nat) io" where
  "record_each f stamps [] = State_Monad.return 0"
| "record_each f stamps (tx # txs) = do {
     n \<leftarrow> f tx (time_at stamps (tx_height tx));
     m \<leftarrow> record_each f stamps txs;
     State_Monad.return (n + m)
   }"

definition record_all :: "'w env \<Rightarrow> (transaction \<Rightarrow> string \<Rightarrow> ('w, nat) io) \<Rightarrow> transaction list \<Rightarrow> ('w, nat) io" where
  "record_all E f txs =
     (if length txs = 0 then State_Monad.return 0
      else do {
        stamps \<leftarrow> fetchBlockTimes E txs;
        record_each f stamps txs
      })"

section \<open>The history of tokens\<close>

definition backfillTxBatch :: int where "backfillTxBatch = 100"

definition tokenBackfillCursorKey :: "string \<Rightarrow> string" where
  "tokenBackfillCursorKey net = ''token_backfill_cursor:'' @ net"

definition token_heights :: "string \<Rightarrow> db \<Rightarrow> int list" where
  "token_heights net d = map (tt_height \<circ> snd) (filter (\<lambda>r. fst (fst r) = net) (db_tokens d))"

text \<open>Where the walk resumes, given the stored cursor.\<close>

definition resume_from :: "int \<Rightarrow> string \<Rightarrow> int" where
  "resume_from lowest cur =
     (if cur \<noteq> '''' then let (n, ok) = parse_int cur in if ok \<and> n > lowest then n else lowest
      else lowest)"

text \<open>\<^term>\<open>None\<close> is an error, \<^term>\<open>Some None\<close> that no work is left.\<close>

definition TokenBackfillRange :: "'w env \<Rightarrow> int \<Rightarrow> ('w, (int \<times> int) option option) io" where
  "TokenBackfillRange E batch = do {
     lowest \<leftarrow> sql E (\<lambda>d. (min_of (heights_of (e_net E) d), d));
     case lowest of
       None \<Rightarrow> State_Monad.return None
     | Some None \<Rightarrow> State_Monad.return (Some None)
     | Some (Some lowest) \<Rightarrow> do {
         boundary \<leftarrow> sql E (\<lambda>d. (min_of (token_heights (e_net E) d), d));
         stop \<leftarrow> (case boundary of
            None \<Rightarrow> State_Monad.return None
          | Some (Some b) \<Rightarrow> State_Monad.return (Some (Some b))
          | Some None \<Rightarrow> do {
              tip \<leftarrow> sql E (\<lambda>d. (max_of (heights_of (e_net E) d), d));
              State_Monad.return (map_option (map_option (\<lambda>t. t + 1)) tip)
            });
         case stop of
           None \<Rightarrow> State_Monad.return None
         | Some None \<Rightarrow> State_Monad.return (Some None)
         | Some (Some stop) \<Rightarrow> do {
             cur \<leftarrow> GetSyncState E (tokenBackfillCursorKey (e_net E));
             let from = (case cur of None \<Rightarrow> lowest | Some cur \<Rightarrow> resume_from lowest cur);
             State_Monad.return
               (Some (if stop \<le> from then None else Some (from, min stop (from + batch))))
           }
       }
   }"

text \<open>The blocks of a batch, each fetched by a request of its own, all before any is used.\<close>

primrec fetch_blocks :: "'w env \<Rightarrow> int list \<Rightarrow> ('w, (int \<times> transaction list reply) list) io" where
  "fetch_blocks E [] = State_Monad.return []"
| "fetch_blocks E (h # hs) = do {
     r \<leftarrow> ask (x_txs_at E h);
     rest \<leftarrow> fetch_blocks E hs;
     State_Monad.return ((h, r) # rest)
   }"

text \<open>What answered before the first height that did not, and the height after it.\<close>

fun answered_prefix :: "int \<Rightarrow> (int \<times> transaction list reply) list \<Rightarrow> transaction list \<times> int" where
  "answered_prefix done ((h, Page txs) # rs) = (let (rest, last) = answered_prefix (h + 1) rs in (txs @ rest, last))"
| "answered_prefix done _ = ([], done)"

definition backfillTokenTransfers :: "'w env \<Rightarrow> ('w, unit) io" where
  "backfillTokenTransfers E = do {
     r \<leftarrow> TokenBackfillRange E backfillTxBatch;
     case r of
       Some (Some (from, to)) \<Rightarrow> do {
         results \<leftarrow> fetch_blocks E [from..to - 1];
         let (txs, last) = answered_prefix from results;
         _ \<leftarrow> record_all E (recordTokenTransfers E) txs;
         if last = from then State_Monad.return ()
         else do {
           _ \<leftarrow> SetSyncState E (tokenBackfillCursorKey (e_net E)) (itoa last);
           State_Monad.return ()
         }
       }
     | _ \<Rightarrow> State_Monad.return ()
   }"

section \<open>The history of coins\<close>

definition coinBackfillWindowsPerPass :: nat where "coinBackfillWindowsPerPass = 4"
definition coinBackfillWindowBlocks :: int where "coinBackfillWindowBlocks = 20000"

definition CoinBackfillCursorKey :: "string \<Rightarrow> string" where
  "CoinBackfillCursorKey net = ''coin_backfill_cursor:'' @ net"

definition CoinBackfillDoneKey :: "string \<Rightarrow> string" where
  "CoinBackfillDoneKey net = ''coin_backfill_done:'' @ net"

datatype window = No_transfer_events | Window_failed | Window "transaction list" bool

definition CoinTransferWindow :: "'w env \<Rightarrow> int \<Rightarrow> int \<Rightarrow> ('w, window) io" where
  "CoinTransferWindow E after before = do {
     known \<leftarrow> ask (x_has_transfers E);
     if \<not> known then State_Monad.return No_transfer_events
     else do {
       r \<leftarrow> ask (x_transfers_between E after before);
       State_Monad.return (case page_of r of None \<Rightarrow> Window_failed | Some (txs, trunc) \<Rightarrow> Window txs trunc)
     }
   }"

definition markCoinBackfillDone :: "'w env \<Rightarrow> ('w, unit) io" where
  "markCoinBackfillDone E = do {
     _ \<leftarrow> SetSyncState E (CoinBackfillDoneKey (e_net E)) ''1'';
     State_Monad.return ()
   }"

primrec coin_windows :: "'w env \<Rightarrow> int \<Rightarrow> nat \<Rightarrow> int \<Rightarrow> ('w, unit) io" where
  "coin_windows E tip 0 cursor = State_Monad.return ()"
| "coin_windows E tip (Suc n) cursor =
     (if tip \<le> cursor then markCoinBackfillDone E
      else do {
        let before = min (cursor + coinBackfillWindowBlocks + 1) (tip + 1);
        r \<leftarrow> CoinTransferWindow E cursor before;
        case r of
          No_transfer_events \<Rightarrow> markCoinBackfillDone E
        | Window_failed \<Rightarrow> State_Monad.return ()
        | Window txs trunc \<Rightarrow> do {
            _ \<leftarrow> record_all E (recordCoinTransfers E) txs;
            let next = (if trunc \<and> length txs > 0 then tx_height (last txs) else before - 1);
            if next \<le> cursor then State_Monad.return ()
            else do {
              ok \<leftarrow> SetSyncState E (CoinBackfillCursorKey (e_net E)) (itoa next);
              case ok of
                None \<Rightarrow> State_Monad.return ()
              | Some _ \<Rightarrow> coin_windows E tip n next
            }
          }
      })"

definition coin_cursor :: "string \<Rightarrow> int" where
  "coin_cursor raw = (if raw \<noteq> '''' then let (h, ok) = parse_int raw in if ok then h else 0 else 0)"

definition backfillCoinTransfers :: "'w env \<Rightarrow> ('w, unit) io" where
  "backfillCoinTransfers E = do {
     done \<leftarrow> GetSyncState E (CoinBackfillDoneKey (e_net E));
     case done of
       None \<Rightarrow> State_Monad.return ()
     | Some done \<Rightarrow>
         if done = ''1'' then State_Monad.return ()
         else do {
           tip \<leftarrow> LatestBlockHeight E;
           case tip of
             None \<Rightarrow> State_Monad.return ()
           | Some tip \<Rightarrow> do {
               raw \<leftarrow> GetSyncState E (CoinBackfillCursorKey (e_net E));
               coin_windows E tip coinBackfillWindowsPerPass
                 (case raw of None \<Rightarrow> 0 | Some raw \<Rightarrow> coin_cursor raw)
             }
         }
   }"

section \<open>A database that does not fail\<close>

definition reliable :: "'w env \<Rightarrow> bool" where
  "reliable E \<longleftrightarrow> (\<forall>w. \<not> fst (x_fails E w))"

lemma wp_sql_reliable:
  assumes "reliable E" "\<And>w. Q (Some (fst (f (sy_db s)))) (s\<lparr>sy_world := w, sy_db := snd (f (sy_db s))\<rparr>)"
  shows "wp (sql E f) Q s"
proof -
  obtain w where "x_fails E (sy_world s) = (False, w)"
    using assms(1) unfolding reliable_def by (metis prod.collapse)
  with assms(2) show ?thesis by (simp add: sql_def wp_ask wp_zoom case_prod_beta)
qed

definition stored_text :: "string \<Rightarrow> db \<Rightarrow> string" where
  "stored_text key d = (case db_state d key of Some v \<Rightarrow> v | None \<Rightarrow> '''')"

lemma wp_get:
  assumes "\<And>w. Q None (s\<lparr>sy_world := w\<rparr>)" "\<And>w. Q (Some (stored_text key (sy_db s))) (s\<lparr>sy_world := w\<rparr>)"
  shows "wp (GetSyncState E key) Q s"
  unfolding GetSyncState_def by (rule wp_sql) (use assms in \<open>simp_all add: stored_text_def\<close>)

lemma wp_get_reliable:
  assumes "reliable E" "\<And>w. Q (Some (stored_text key (sy_db s))) (s\<lparr>sy_world := w\<rparr>)"
  shows "wp (GetSyncState E key) Q s"
  unfolding GetSyncState_def by (rule wp_sql_reliable [OF assms(1)]) (use assms(2) in \<open>simp add: stored_text_def\<close>)

section \<open>The token ledger\<close>

lemma min_of_le: "x \<in> set xs \<Longrightarrow> \<exists>m. min_of xs = Some m \<and> m \<le> x"
  by (cases "xs = []") (auto simp: min_of_set)

lemma TokenBackfillRange_exhausted:
  assumes "reliable E" "min_of (heights_of (e_net E) (sy_db s)) = Some lo"
    and "stored_text (tokenBackfillCursorKey (e_net E)) (sy_db s) = itoa c"
    and "min_int64 \<le> c" "c \<le> max_int64" "lo < c"
    and "h \<in> set (token_heights (e_net E) (sy_db s))" "h \<le> c"
  shows "wp (TokenBackfillRange E batch) (\<lambda>r t. r = Some None \<and> sy_db t = sy_db s) s"
proof -
  obtain b where b: "min_of (token_heights (e_net E) (sy_db s)) = Some b" "b \<le> h"
    using min_of_le [OF assms(7)] by blast
  have "itoa c \<noteq> ''''" by (simp add: itoa_def)
  then have "resume_from lo (itoa c) = c"
    using assms(4,5,6) by (simp add: resume_from_def parse_itoa)
  with b(2) assms(8) have stop: "b \<le> resume_from lo (itoa c)" by simp
  show ?thesis unfolding TokenBackfillRange_def wp_bind
    by (rule wp_sql_reliable [OF assms(1)])
      (auto simp: assms(2,3) b(1) stop Let_def
        intro!: wp_sql_reliable [OF assms(1)] wp_get_reliable [OF assms(1)])
qed

text \<open>
  The walk over the history of tokens ends with the first batch it finds something in.
  The walk stops where the ledger begins, but what it records becomes the beginning of
  the ledger: once its cursor is past a transfer that the ledger holds, every later pass
  does nothing at all, whatever lies between the cursor and the blocks the ledger had
  been filled from.
\<close>

theorem token_backfill_stops_at_its_first_find:
  assumes "reliable E" "min_of (heights_of (e_net E) (sy_db s)) = Some lo"
    and "stored_text (tokenBackfillCursorKey (e_net E)) (sy_db s) = itoa c"
    and "min_int64 \<le> c" "c \<le> max_int64" "lo < c"
    and "h \<in> set (token_heights (e_net E) (sy_db s))" "h \<le> c"
    and "run_state (backfillTokenTransfers E) s = ((), t)"
  shows "sy_db t = sy_db s"
proof -
  have "wp (backfillTokenTransfers E) (\<lambda>_ t. sy_db t = sy_db s) s"
    unfolding backfillTokenTransfers_def wp_bind
    by (rule wp_mono [OF TokenBackfillRange_exhausted [OF assms(1-8)]]) simp
  with assms(9) show ?thesis by (simp add: wp_def)
qed

text \<open>
  A chain of 150 blocks with a transfer at 5 and one at 120, and a ledger filled from
  140 on. The first pass reads the blocks up to 100 and finds the transfer at 5; the one
  at 120 is never read.
\<close>

definition token_event :: tx_event where
  "token_event = \<lparr>ev_typename = ''GnoEvent'', ev_type = ''Transfer'',
     ev_attrs = [(''token'', ''gno.land/r/demo/foo.FOO''), (''from'', ''a''), (''to'', ''b''), (''value'', ''7'')],
     ev_from = '''', ev_to = '''', ev_coins = ''''\<rparr>"

definition token_chain :: "transaction list" where
  "token_chain = [demo_tx 5 ''old'' [token_event], demo_tx 120 ''missed'' [token_event]]"

definition token_db :: db where
  "token_db = empty_db\<lparr>
     db_blocks := map (\<lambda>h. ((''net'', h), \<lparr>row_height = h, row_time = '''', row_proposer = 0, row_txs = 0\<rparr>)) [1, 150],
     db_tokens := [((''net'', ''new'', 0), transfer_of 140 '''' token_event)]\<rparr>"

definition first_token_pass :: "unit sync" where
  "first_token_pass = snd (run_state (backfillTokenTransfers (demo_env 1 150 1000 token_chain)) (new_sync () token_db))"

definition second_token_pass :: "unit sync" where
  "second_token_pass = snd (run_state (backfillTokenTransfers (demo_env 1 150 1000 token_chain)) first_token_pass)"

lemma first_token_pass_result:
  "token_heights ''net'' (sy_db first_token_pass) = [140, 5] \<and>
   map fst (db_tokens (sy_db first_token_pass)) = [(''net'', ''new'', 0), (''net'', ''old'', 0)] \<and>
   stored_text (tokenBackfillCursorKey ''net'') (sy_db first_token_pass) = itoa 101 \<and>
   min_of (heights_of ''net'' (sy_db first_token_pass)) = Some 1"
  by code_simp

theorem token_backfill_stops_at_its_first_find_witness:
  "map_of (db_tokens (sy_db second_token_pass)) (''net'', ''missed'', 0) = None"
proof -
  have rel: "reliable (demo_env 1 150 1000 token_chain)" by (simp add: reliable_def)
  have "run_state (backfillTokenTransfers (demo_env 1 150 1000 token_chain)) first_token_pass = ((), second_token_pass)"
    by (simp add: second_token_pass_def prod_eq_iff)
  then have "sy_db second_token_pass = sy_db first_token_pass"
    by (rule token_backfill_stops_at_its_first_find [OF rel, of _ 1 101 5, rotated 7])
      (use first_token_pass_result in \<open>simp_all add: min_int64_def max_int64_def\<close>)
  moreover have "(''net'', ''missed'', 0) \<notin> fst ` set (db_tokens (sy_db first_token_pass))"
    using first_token_pass_result by (simp flip: set_map)
  ultimately show ?thesis by (simp add: map_of_eq_None_iff)
qed

section \<open>The coin ledger\<close>

text \<open>Event \<open>i\<close> of a transaction is a leg of a transfer; the ledger holds every leg of it.\<close>

definition is_leg :: "tx_event \<Rightarrow> bool" where
  "is_leg ev \<longleftrightarrow> ev_typename ev = ''TransferEvent'' \<and> \<not> (ev_from ev = '''' \<and> ev_to ev = '''')"

definition leg_at :: "transaction \<Rightarrow> nat \<Rightarrow> bool" where
  "leg_at tx i \<longleftrightarrow>
     (case tx_events tx of None \<Rightarrow> False | Some evs \<Rightarrow> i < length evs \<and> is_leg (evs ! i))"

abbreviation coin_keys :: "'w sync \<Rightarrow> (string \<times> string \<times> nat) set" where
  "coin_keys s \<equiv> fst ` set (db_coins (sy_db s))"

definition ledgered :: "'w env \<Rightarrow> 'w sync \<Rightarrow> transaction \<Rightarrow> bool" where
  "ledgered E s tx \<longleftrightarrow> (\<forall>i. leg_at tx i \<longrightarrow> (e_net E, tx_hash tx, i) \<in> coin_keys s)"

definition ledger_to :: "'w env \<Rightarrow> transaction list \<Rightarrow> int \<Rightarrow> 'w sync \<Rightarrow> bool" where
  "ledger_to E chain c s \<longleftrightarrow>
     (\<forall>tx \<in> set chain. tx_success tx \<and> 0 < tx_height tx \<and> tx_height tx \<le> c \<longrightarrow> ledgered E s tx)"

text \<open>Legs are only added, and the markers do not change.\<close>

definition legs_added :: "'w sync \<Rightarrow> 'w sync \<Rightarrow> bool" where
  "legs_added s t \<longleftrightarrow> coin_keys s \<subseteq> coin_keys t \<and> db_state (sy_db s) = db_state (sy_db t)"

interpretation legs: kept legs_added
  by unfold_locales (auto simp: legs_added_def)

lemma keys_insert_ignore: "fst ` set (insert_ignore k v t) = insert k (fst ` set t)"
  by (cases "map_of t k") (force simp: insert_ignore_def dest: map_of_SomeD)+

text \<open>
  Legs are missing when their inserts failed. \<open>fails\<close> reads off the world how many statements
  have failed so far: it goes up by one with every failure, and no question to the indexer
  changes it.
\<close>

definition tallies :: "'w env \<Rightarrow> ('w \<Rightarrow> nat) \<Rightarrow> bool" where
  "tallies E fails \<longleftrightarrow>
     (\<forall>w. fails (snd (x_fails E w)) = fails w + (if fst (x_fails E w) then 1 else 0)) \<and>
     (\<forall>w. fails (snd (x_tip E w)) = fails w) \<and> (\<forall>w. fails (snd (x_has_transfers E w)) = fails w) \<and>
     (\<forall>h w. fails (snd (x_block_at E h w)) = fails w) \<and>
     (\<forall>gt lt w. fails (snd (x_transfers_between E gt lt w)) = fails w)"

lemma wp_sql_tally:
  assumes "tallies E fails"
    and "\<And>w. fails w = Suc (fails (sy_world s)) \<Longrightarrow> Q None (s\<lparr>sy_world := w\<rparr>)"
    and "\<And>w. fails w = fails (sy_world s) \<Longrightarrow>
      Q (Some (fst (f (sy_db s)))) (s\<lparr>sy_world := w, sy_db := snd (f (sy_db s))\<rparr>)"
  shows "wp (sql E f) Q s"
proof -
  obtain b w where x: "x_fails E (sy_world s) = (b, w)" by fastforce
  have "fails (snd (x_fails E (sy_world s))) = fails (sy_world s) + (if fst (x_fails E (sy_world s)) then 1 else 0)"
    using assms(1) unfolding tallies_def by blast
  then have "fails w = fails (sy_world s) + (if b then 1 else 0)" by (simp add: x)
  with assms(2,3) x show ?thesis by (cases b) (simp_all add: sql_def wp_ask wp_zoom case_prod_beta)
qed

definition legs_of :: "transaction \<Rightarrow> (string \<times> nat) set" where
  "legs_of tx = Pair (tx_hash tx) ` {i. leg_at tx i}"

definition missing :: "'w env \<Rightarrow> 'w sync \<Rightarrow> (string \<times> nat) set \<Rightarrow> (string \<times> nat) set" where
  "missing E s L = {k \<in> L. (e_net E, k) \<notin> coin_keys s}"

text \<open>Between two states legs are only added, and of the legs \<open>L\<close> no more are missing than
  statements failed.\<close>

definition paid :: "'w env \<Rightarrow> ('w \<Rightarrow> nat) \<Rightarrow> (string \<times> nat) set \<Rightarrow> 'w sync \<Rightarrow> 'w sync \<Rightarrow> bool" where
  "paid E fails L s t \<longleftrightarrow>
     legs_added s t \<and> finite L \<and> card (missing E t L) + fails (sy_world s) \<le> fails (sy_world t)"

lemma finite_legs [simp]: "finite (legs_of tx)"
proof (cases "tx_events tx")
  case (Some evs)
  then have "{i. leg_at tx i} \<subseteq> {..< length evs}" by (auto simp: leg_at_def)
  then have "finite {i. leg_at tx i}" by (rule finite_subset) simp
  then show ?thesis by (simp add: legs_of_def)
qed (simp add: legs_of_def leg_at_def)

lemma finite_missing [simp]: "finite L \<Longrightarrow> finite (missing E s L)"
  by (simp add: missing_def)

lemma card_missing_mono: "finite M \<Longrightarrow> L \<subseteq> M \<Longrightarrow> card (missing E s L) \<le> card (missing E s M)"
  by (intro card_mono) (auto simp: missing_def)

lemma card_missing_added: "finite L \<Longrightarrow> legs_added s t \<Longrightarrow> card (missing E t L) \<le> card (missing E s L)"
  by (intro card_mono) (auto simp: missing_def legs_added_def)

lemma card_missing_Un: "finite L \<Longrightarrow> finite M \<Longrightarrow> card (missing E s (L \<union> M)) \<le> card (missing E s L) + card (missing E s M)"
proof -
  assume "finite L" "finite M"
  moreover have "missing E s (L \<union> M) = missing E s L \<union> missing E s M" by (auto simp: missing_def)
  ultimately show ?thesis by (simp add: card_Un_le)
qed

lemma paid_same:
  "legs_added s t \<Longrightarrow> fails (sy_world s) \<le> fails (sy_world t) \<Longrightarrow> paid E fails {} s t"
  by (simp add: paid_def missing_def)

lemma paid_none [simp]: "paid E fails {} s s"
  by (simp add: paid_same legs.refl)

lemma paid_trans:
  assumes "paid E fails L s t" "paid E fails M t u"
  shows "paid E fails (L \<union> M) s u"
proof -
  have "legs_added s u" using assms legs.trans unfolding paid_def by blast
  moreover have "card (missing E u (L \<union> M)) \<le> card (missing E t L) + card (missing E u M)"
    using assms card_missing_Un [of L M E u] card_missing_added [of L t u E] unfolding paid_def by linarith
  ultimately show ?thesis using assms by (simp add: paid_def)
qed

lemma paid_trans_same: "paid E fails {} s t \<Longrightarrow> paid E fails M t u \<Longrightarrow> paid E fails M s u"
  using paid_trans [of E fails "{}"] by simp

lemma paid_subset: "paid E fails M s t \<Longrightarrow> L \<subseteq> M \<Longrightarrow> paid E fails L s t"
  unfolding paid_def using card_missing_mono [of M L E t] finite_subset by fastforce

lemma InsertCoinTransfer_paid:
  assumes "tallies E fails"
  shows "wp (InsertCoinTransfer E hash i ct) (\<lambda>_ t. paid E fails {(hash, i)} s t) s"
  unfolding InsertCoinTransfer_def
proof (rule wp_sql_tally [OF assms])
  fix w assume w: "fails w = Suc (fails (sy_world s))"
  have "card (missing E (s\<lparr>sy_world := w\<rparr>) {(hash, i)}) \<le> card {(hash, i)}"
    by (intro card_mono) (auto simp: missing_def)
  with w show "paid E fails {(hash, i)} s (s\<lparr>sy_world := w\<rparr>)" by (simp add: paid_def legs_added_def)
next
  let ?f = "\<lambda>d. ((), d\<lparr>db_coins := insert_ignore (e_net E, hash, i) ct (db_coins d)\<rparr>)"
  fix w assume w: "fails w = fails (sy_world s)"
  let ?t = "s\<lparr>sy_world := w, sy_db := snd (?f (sy_db s))\<rparr>"
  have "missing E ?t {(hash, i)} = {}" by (auto simp: missing_def keys_insert_ignore)
  moreover have "legs_added s ?t" by (auto simp: legs_added_def keys_insert_ignore)
  ultimately show "paid E fails {(hash, i)} s ?t" using w by (simp add: paid_def)
qed

lemma coin_events_paid:
  assumes "tallies E fails"
  shows "wp (coin_events E tx bt i evs)
    (\<lambda>_ t. paid E fails ((\<lambda>j. (tx_hash tx, i + j)) ` {j. j < length evs \<and> is_leg (evs ! j)}) s t) s"
proof (induction evs arbitrary: i s)
  case Nil
  show ?case by simp
next
  case (Cons ev evs)
  let ?L = "\<lambda>i evs. (\<lambda>j. (tx_hash tx, i + j)) ` {j. j < length evs \<and> is_leg (evs ! j)}"
  have L: "?L i (ev # evs) = (if is_leg ev then {(tx_hash tx, i)} else {}) \<union> ?L (Suc i) evs"
    by (auto simp: less_Suc_eq_0_disj image_iff)
  show ?case
  proof (cases "is_leg ev")
    case False
    then have "coin_events E tx bt i (ev # evs) = coin_events E tx bt (Suc i) evs"
      by (simp add: is_leg_def)
    then show ?thesis using Cons.IH [of "Suc i" s] False unfolding L by simp
  next
    case True
    obtain ct where run: "coin_events E tx bt i (ev # evs) = do {
        r \<leftarrow> InsertCoinTransfer E (tx_hash tx) i ct;
        n \<leftarrow> coin_events E tx bt (Suc i) evs;
        State_Monad.return (if r = None then n else Suc n)
      }" using that [of "\<lparr>ct_from = ev_from ev, ct_to = ev_to ev, ct_coins = ev_coins ev,
          ct_ugnot = ParseUgnot (ev_coins ev), ct_height = tx_height tx, ct_time = bt\<rparr>"] True
      by (auto simp: is_leg_def)
    have "wp (coin_events E tx bt (Suc i) evs) (\<lambda>_ u. paid E fails (?L i (ev # evs)) s u) t"
      if "paid E fails {(tx_hash tx, i)} s t" for t
      using wp_mono [OF Cons.IH [of "Suc i" t]] paid_trans [OF that] True unfolding L by simp
    then show ?thesis unfolding run wp_bind wp_return
      by (rule wp_mono [OF InsertCoinTransfer_paid [OF assms]])
  qed
qed

lemma recordCoinTransfers_paid:
  assumes "tallies E fails"
  shows "wp (recordCoinTransfers E tx bt) (\<lambda>_ t. paid E fails (if tx_success tx then legs_of tx else {}) s t) s"
proof (cases "tx_events tx")
  case None
  then have "legs_of tx = {}" by (simp add: legs_of_def leg_at_def)
  with None show ?thesis by (simp add: recordCoinTransfers_def)
next
  case (Some evs)
  then have "legs_of tx = (\<lambda>j. (tx_hash tx, 0 + j)) ` {j. j < length evs \<and> is_leg (evs ! j)}"
    by (auto simp: legs_of_def leg_at_def)
  with Some show ?thesis
    using coin_events_paid [OF assms, of tx bt 0 evs s] by (simp add: recordCoinTransfers_def)
qed

definition owed :: "transaction set \<Rightarrow> (string \<times> nat) set" where
  "owed txs = (\<Union>tx \<in> {tx \<in> txs. tx_success tx}. legs_of tx)"

lemma finite_owed [simp]: "finite txs \<Longrightarrow> finite (owed txs)"
  by (simp add: owed_def)

lemma record_each_paid:
  assumes "tallies E fails"
  shows "wp (record_each (recordCoinTransfers E) stamps txs) (\<lambda>_ t. paid E fails (owed (set txs)) s t) s"
proof (induction txs arbitrary: s)
  case Nil
  show ?case by (simp add: owed_def)
next
  case (Cons tx txs)
  have owed: "owed (set (tx # txs)) = (if tx_success tx then legs_of tx else {}) \<union> owed (set txs)"
    by (auto simp: owed_def)
  show ?case unfolding record_each.simps wp_bind wp_return owed
    by (rule wp_mono [OF recordCoinTransfers_paid [OF assms]], rule wp_mono [OF Cons.IH], erule (1) paid_trans)
qed

text \<open>A question to the indexer changes neither the tables nor the count.\<close>

definition asks :: "('w \<Rightarrow> nat) \<Rightarrow> 'w sync \<Rightarrow> 'w sync \<Rightarrow> bool" where
  "asks fails s t \<longleftrightarrow> sy_db s = sy_db t \<and> fails (sy_world s) = fails (sy_world t)"

interpretation asks: kept "asks fails" for fails :: "'w \<Rightarrow> nat"
  by unfold_locales (auto simp: asks_def)

lemma asks_paid: "asks fails s t \<Longrightarrow> paid E fails {} s t"
  by (intro paid_same) (simp_all add: asks_def legs_added_def)

lemma asks_ask: "(\<And>w. fails (snd (f w)) = fails w) \<Longrightarrow> keeps (asks fails) (ask f)"
  by (rule keepsI) (simp add: wp_ask asks_def case_prod_beta)

lemma tally_asks:
  assumes "tallies E fails"
  shows "keeps (asks fails) (fetchBlockTimes E txs)" "keeps (asks fails) (LatestBlockHeight E)"
    "keeps (asks fails) (CoinTransferWindow E gt lt)"
proof -
  have "keeps (asks fails) (GetBlock E h)" for h
    using assms unfolding GetBlock_def tallies_def by (intro asks.rules asks_ask) blast
  then have "keeps (asks fails) (block_times E hs)" for hs
    by (induction hs) (auto intro!: asks.return asks.bind)
  then show "keeps (asks fails) (fetchBlockTimes E txs)" by (simp add: fetchBlockTimes_def)
  show "keeps (asks fails) (LatestBlockHeight E)"
    using assms unfolding LatestBlockHeight_def tallies_def by (intro asks_ask) blast
  show "keeps (asks fails) (CoinTransferWindow E gt lt)"
    using assms unfolding CoinTransferWindow_def tallies_def by (intro asks.rules asks_ask) blast+
qed

lemma record_all_paid:
  fixes s :: "'w sync"
  assumes "tallies E fails"
  shows "wp (record_all E (recordCoinTransfers E) txs) (\<lambda>_ t. paid E fails (owed (set txs)) s t) s"
proof (cases "txs = []")
  case True
  then show ?thesis by (simp add: record_all_def owed_def)
next
  case False
  have "wp (fetchBlockTimes E txs) (\<lambda>stamps t. wp (record_each (recordCoinTransfers E) stamps txs)
      (\<lambda>_ u. paid E fails (owed (set txs)) s u) t) s"
    by (rule wp_mono [OF keeps_wp [OF tally_asks(1) [OF assms]]], rule wp_mono [OF record_each_paid [OF assms]])
      (rule paid_trans_same [OF asks_paid])
  with False show ?thesis by (simp add: record_all_def)
qed

text \<open>
  What an indexer that serves \<open>chain\<close> answers to a window: an error, all the successful
  transactions of those heights with a transfer event, or the first of them and the error
  that says so.
\<close>

definition window_of :: "int \<Rightarrow> int \<Rightarrow> transaction list \<Rightarrow> transaction list" where
  "window_of gt lt chain = filter (\<lambda>t. gt < tx_height t \<and> tx_height t < lt \<and> tx_success t \<and>
     (case tx_events t of None \<Rightarrow> False | Some evs \<Rightarrow> \<exists>ev \<in> set evs. ev_typename ev = ''TransferEvent'')) chain"

definition serves_transfers :: "'w env \<Rightarrow> transaction list \<Rightarrow> bool" where
  "serves_transfers E chain \<longleftrightarrow> in_order chain \<and>
     (\<forall>gt lt w. case fst (x_transfers_between E gt lt w) of
        Failed \<Rightarrow> True
      | Page txs \<Rightarrow> txs = window_of gt lt chain
      | Too_large txs \<Rightarrow> (\<exists>k < length (window_of gt lt chain). txs = take k (window_of gt lt chain)))"

definition small_tips :: "'w env \<Rightarrow> bool" where
  "small_tips E \<longleftrightarrow> (\<forall>w tip. fst (x_tip E w) = Some tip \<longrightarrow> tip + coinBackfillWindowBlocks < max_int64)"

text \<open>The height a window is done to, and that its transactions are all up to there.\<close>

abbreviation window_end :: "int \<Rightarrow> transaction list \<Rightarrow> bool \<Rightarrow> int" where
  "window_end before txs trunc \<equiv> (if trunc \<and> length txs > 0 then tx_height (last txs) else before - 1)"

lemma window_complete:
  assumes "serves_transfers E chain" "gt < lt"
    and "run_state (CoinTransferWindow E gt lt) s = (Window txs trunc, t)"
  shows "sy_db t = sy_db s" and "window_end lt txs trunc < lt"
    and "\<forall>tx \<in> set (window_of gt lt chain). tx_height tx \<le> window_end lt txs trunc \<longrightarrow> tx \<in> set txs"
proof -
  let ?ws = "window_of gt lt chain"
  obtain a v where a: "x_has_transfers E (sy_world s) = (a, v)" by fastforce
  obtain r w where r: "x_transfers_between E gt lt v = (r, w)" by fastforce
  from assms(3) a r have p: "page_of r = Some (txs, trunc)" and t: "t = s\<lparr>sy_world := w\<rparr>"
    by (auto simp: CoinTransferWindow_def split: if_splits option.splits)
  show "sy_db t = sy_db s" by (simp add: t)
  have honest: "in_order chain" "case r of Failed \<Rightarrow> True | Page txs \<Rightarrow> txs = ?ws
      | Too_large txs \<Rightarrow> (\<exists>k < length ?ws. txs = take k ?ws)"
    using assms(1) [unfolded serves_transfers_def, THEN conjunct1]
      assms(1) [unfolded serves_transfers_def, THEN conjunct2, rule_format, of gt lt v]
    by (simp_all add: r)
  have all: "txs = ?ws" if "\<not> trunc"
    using p honest(2) that by (auto simp: page_of_def Let_def split: reply.splits if_splits)
  have part: "txs \<noteq> [] \<and> txs = between None (tx_height (last txs)) ?ws" if tr: "trunc"
  proof -
    obtain k where "txs = dropTrailingHeight (take k ?ws)" "txs \<noteq> []"
      using p honest(2) tr by (auto simp: page_of_def Let_def split: reply.splits if_splits)
    moreover have "in_order ?ws" unfolding window_of_def by (rule sorted_filter [OF honest(1)])
    ultimately show ?thesis using dropTrailing_prefix(1) by blast
  qed
  have "tx_height (last txs) < lt" if "trunc"
  proof -
    have "last txs \<in> set txs" using part [OF that] by simp
    then have "last txs \<in> set (between None (tx_height (last txs)) ?ws)" using part [OF that] by simp
    then show ?thesis by (simp add: between_def window_of_def)
  qed
  then show "window_end lt txs trunc < lt" by simp
  show "\<forall>tx \<in> set ?ws. tx_height tx \<le> window_end lt txs trunc \<longrightarrow> tx \<in> set txs"
  proof (cases trunc)
    case False
    then show ?thesis using all by simp
  next
    case True
    have ne: "txs \<noteq> []" and txs: "set txs = set (between None (tx_height (last txs)) ?ws)"
      using part [OF True] by simp_all
    show ?thesis unfolding txs using True ne by (simp add: between_def)
  qed
qed

definition cursor_of :: "'w env \<Rightarrow> 'w sync \<Rightarrow> int" where
  "cursor_of E s = coin_cursor (stored_text (CoinBackfillCursorKey (e_net E)) (sy_db s))"

definition coin_done :: "'w env \<Rightarrow> 'w sync \<Rightarrow> bool" where
  "coin_done E s \<longleftrightarrow> stored_text (CoinBackfillDoneKey (e_net E)) (sy_db s) = ''1''"

lemma coin_markers:
  assumes "legs_added s t"
  shows "cursor_of E t = cursor_of E s" "coin_done E t = coin_done E s"
  using assms by (simp_all add: legs_added_def cursor_of_def coin_done_def stored_text_def)

lemma coin_cursor_itoa: "min_int64 \<le> c \<Longrightarrow> c \<le> max_int64 \<Longrightarrow> coin_cursor (itoa c) = c"
  by (simp add: coin_cursor_def parse_itoa)

lemma coin_keys_differ:
  "CoinBackfillCursorKey net \<noteq> CoinBackfillDoneKey net" "CoinBackfillDoneKey net \<noteq> CoinBackfillCursorKey net"
  by (simp_all add: CoinBackfillCursorKey_def CoinBackfillDoneKey_def)

text \<open>The legs of the successful transactions up to a height, and those of them that are missing up
  to the stored cursor.\<close>

definition legs_to :: "transaction list \<Rightarrow> int \<Rightarrow> (string \<times> nat) set" where
  "legs_to chain h = owed {tx \<in> set chain. 0 < tx_height tx \<and> tx_height tx \<le> h}"

definition holes :: "'w env \<Rightarrow> transaction list \<Rightarrow> 'w sync \<Rightarrow> (string \<times> nat) set" where
  "holes E chain s = missing E s (legs_to chain (cursor_of E s))"

lemma finite_legs_to [simp]: "finite (legs_to chain h)"
  by (simp add: legs_to_def)

lemma legs_to_mono: "h \<le> k \<Longrightarrow> legs_to chain h \<subseteq> legs_to chain k"
  by (fastforce simp: legs_to_def owed_def)

lemma no_holes: "holes E chain s = {} \<longleftrightarrow> ledger_to E chain (cursor_of E s) s"
proof -
  have "holes E chain s = {} \<longleftrightarrow> (\<forall>k \<in> legs_to chain (cursor_of E s). (e_net E, k) \<in> coin_keys s)"
    by (auto simp: holes_def missing_def)
  also have "\<dots> \<longleftrightarrow> ledger_to E chain (cursor_of E s) s"
    unfolding legs_to_def owed_def legs_of_def ledger_to_def ledgered_def by blast
  finally show ?thesis .
qed

text \<open>What a run keeps, from a state with \<open>base\<close> failures on: no more legs are missing up to a
  height than statements failed, and when the history is marked as done it is for a reason.\<close>

definition short_of :: "'w env \<Rightarrow> ('w \<Rightarrow> nat) \<Rightarrow> nat \<Rightarrow> transaction list \<Rightarrow> int \<Rightarrow> 'w sync \<Rightarrow> bool" where
  "short_of E fails base chain h s \<longleftrightarrow> card (missing E s (legs_to chain h)) + base \<le> fails (sy_world s)"

definition coin_ok :: "'w env \<Rightarrow> ('w \<Rightarrow> nat) \<Rightarrow> nat \<Rightarrow> transaction list \<Rightarrow> 'w sync \<Rightarrow> bool" where
  "coin_ok E fails base chain s \<longleftrightarrow> 0 \<le> cursor_of E s \<and> short_of E fails base chain (cursor_of E s) s"

definition ran_out :: "'w env \<Rightarrow> 'w sync \<Rightarrow> bool" where
  "ran_out E s \<longleftrightarrow> (\<exists>w tip. fst (x_tip E w) = Some tip \<and> tip \<le> cursor_of E s) \<or> (\<exists>w. \<not> fst (x_has_transfers E w))"

definition coin_kept :: "'w env \<Rightarrow> ('w \<Rightarrow> nat) \<Rightarrow> nat \<Rightarrow> transaction list \<Rightarrow> 'w sync \<Rightarrow> bool" where
  "coin_kept E fails base chain s \<longleftrightarrow> coin_ok E fails base chain s \<and> (coin_done E s \<longrightarrow> ran_out E s)"

lemma short_of_paid:
  "short_of E fails base chain h s \<Longrightarrow> paid E fails {} s t \<Longrightarrow> short_of E fails base chain h t"
  unfolding short_of_def paid_def using card_missing_added [of "legs_to chain h" s t E] by simp

lemma short_of_mono: "short_of E fails base chain k s \<Longrightarrow> h \<le> k \<Longrightarrow> short_of E fails base chain h s"
  unfolding short_of_def using card_missing_mono [OF finite_legs_to, of "legs_to chain h" chain k E s] legs_to_mono
  by (meson add_le_mono1 order_trans)

lemma coin_ok_paid: "coin_ok E fails base chain s \<Longrightarrow> paid E fails {} s t \<Longrightarrow> coin_ok E fails base chain t"
  using short_of_paid coin_markers(1) [of s t E] unfolding coin_ok_def paid_def by metis

lemma coin_kept_paid: "coin_kept E fails base chain s \<Longrightarrow> paid E fails {} s t \<Longrightarrow> coin_kept E fails base chain t"
  using coin_ok_paid coin_markers [of s t E] unfolding coin_kept_def paid_def ran_out_def by metis

lemma undone_kept: "coin_ok E fails base chain s \<Longrightarrow> \<not> coin_done E s \<Longrightarrow> coin_kept E fails base chain s"
  by (simp add: coin_kept_def)

lemma mark_done_kept:
  assumes "tallies E fails" "coin_ok E fails base chain s" "ran_out E s"
  shows "wp (markCoinBackfillDone E) (\<lambda>_ t. coin_kept E fails base chain t) s"
  unfolding markCoinBackfillDone_def SetSyncState_def wp_bind wp_return
proof (rule wp_sql_tally [OF assms(1)])
  have kept: "coin_kept E fails base chain s" using assms(2,3) by (simp add: coin_kept_def)
  fix w assume "fails w = Suc (fails (sy_world s))"
  then show "coin_kept E fails base chain (s\<lparr>sy_world := w\<rparr>)"
    by (intro coin_kept_paid [OF kept] paid_same) (simp_all add: legs_added_def)
next
  fix w assume w: "fails w = fails (sy_world s)"
  let ?f = "\<lambda>d. ((), d\<lparr>db_state := (db_state d)(CoinBackfillDoneKey (e_net E) \<mapsto> ''1'')\<rparr>)"
  let ?t = "s\<lparr>sy_world := w, sy_db := snd (?f (sy_db s))\<rparr>"
  have "cursor_of E ?t = cursor_of E s" "\<And>L. missing E ?t L = missing E s L"
    by (simp_all add: cursor_of_def stored_text_def coin_keys_differ missing_def)
  with assms(2,3) w show "coin_kept E fails base chain ?t"
    by (simp add: coin_kept_def coin_ok_def short_of_def ran_out_def)
qed

text \<open>The cursor is moved to a height up to which no more legs are missing than statements failed.\<close>

lemma set_cursor_kept:
  fixes s :: "'w sync"
  assumes "tallies E fails" "coin_ok E fails base chain s" "\<not> coin_done E s"
    and "short_of E fails base chain n s" "0 \<le> n" "n \<le> max_int64"
  shows "wp (SetSyncState E (CoinBackfillCursorKey (e_net E)) (itoa n))
    (\<lambda>r t. coin_ok E fails base chain t \<and> \<not> coin_done E t \<and> (r \<noteq> None \<longrightarrow> cursor_of E t = n)) s"
  unfolding SetSyncState_def
proof (rule wp_sql_tally [OF assms(1)])
  fix w assume "fails w = Suc (fails (sy_world s))"
  then have "paid E fails {} s (s\<lparr>sy_world := w\<rparr>)" by (intro paid_same) (simp_all add: legs_added_def)
  then show "coin_ok E fails base chain (s\<lparr>sy_world := w\<rparr>) \<and> \<not> coin_done E (s\<lparr>sy_world := w\<rparr>) \<and>
      (None \<noteq> None \<longrightarrow> cursor_of E (s\<lparr>sy_world := w\<rparr>) = n)"
    using coin_ok_paid [OF assms(2)] assms(3) by (simp add: coin_done_def)
next
  fix w assume w: "fails w = fails (sy_world s)"
  let ?f = "\<lambda>d. ((), d\<lparr>db_state := (db_state d)(CoinBackfillCursorKey (e_net E) \<mapsto> itoa n)\<rparr>)"
  let ?t = "s\<lparr>sy_world := w, sy_db := snd (?f (sy_db s))\<rparr>"
  have "coin_cursor (itoa n) = n" using assms(5,6) by (intro coin_cursor_itoa) (simp_all add: min_int64_def)
  then have "cursor_of E ?t = n" "coin_done E ?t = coin_done E s" "\<And>L. missing E ?t L = missing E s L"
    by (simp_all add: cursor_of_def coin_done_def stored_text_def coin_keys_differ missing_def)
  then show "coin_ok E fails base chain ?t \<and> \<not> coin_done E ?t \<and> (Some (fst (?f (sy_db s))) \<noteq> None \<longrightarrow> cursor_of E ?t = n)"
    using assms(3-5) w by (simp add: coin_ok_def short_of_def)
qed

text \<open>A window whose transactions were recorded: up to its end nothing else is missing.\<close>

lemma window_paid:
  assumes "serves_transfers E chain" "gt < lt"
    and "run_state (CoinTransferWindow E gt lt) s = (Window txs trunc, t)"
    and "short_of E fails base chain gt t" "paid E fails (owed (set txs)) t u"
  shows "short_of E fails base chain (window_end lt txs trunc) u"
proof -
  note w = window_complete [OF assms(1-3)]
  have "legs_to chain (window_end lt txs trunc) \<subseteq> legs_to chain gt \<union> owed (set txs)"
  proof
    fix k assume "k \<in> legs_to chain (window_end lt txs trunc)"
    then obtain tx where tx: "tx \<in> set chain" "tx_success tx" "0 < tx_height tx"
      "tx_height tx \<le> window_end lt txs trunc" "k \<in> legs_of tx" by (auto simp: legs_to_def owed_def)
    show "k \<in> legs_to chain gt \<union> owed (set txs)"
    proof (cases "tx_height tx \<le> gt \<or> tx \<in> set txs")
      case True
      then show ?thesis using tx by (auto simp: legs_to_def owed_def)
    next
      case False
      then have "tx \<notin> set (window_of gt lt chain)" using w(3) tx(4) by blast
      then have "legs_of tx = {}" using False tx w(2)
        by (auto simp: window_of_def legs_of_def leg_at_def is_leg_def split: option.splits)
      with tx(5) show ?thesis by simp
    qed
  qed
  then have "card (missing E u (legs_to chain (window_end lt txs trunc)))
      \<le> card (missing E u (legs_to chain gt \<union> owed (set txs)))"
    by (intro card_missing_mono) simp_all
  also have "\<dots> \<le> card (missing E u (legs_to chain gt)) + card (missing E u (owed (set txs)))"
    by (intro card_missing_Un) simp_all
  also have "\<dots> \<le> card (missing E t (legs_to chain gt)) + card (missing E u (owed (set txs)))"
    using card_missing_added [of "legs_to chain gt" t u E] assms(5) by (simp add: paid_def)
  finally show ?thesis using assms(4,5) by (simp add: short_of_def paid_def)
qed

lemma coin_windows_kept:
  fixes s :: "'w sync"
  assumes "tallies E fails" "serves_transfers E chain"
    and tip: "fst (x_tip E w0) = Some tip" "tip + coinBackfillWindowBlocks < max_int64"
  shows "coin_ok E fails base chain s \<Longrightarrow> \<not> coin_done E s \<Longrightarrow> 0 \<le> c \<Longrightarrow> c \<le> cursor_of E s \<Longrightarrow>
    wp (coin_windows E tip n c) (\<lambda>_ t. coin_kept E fails base chain t) s"
proof (induction n arbitrary: c s)
  case 0
  then show ?case by (simp add: undone_kept)
next
  case (Suc n)
  let ?b = "min (c + coinBackfillWindowBlocks + 1) (tip + 1)"
  let ?kept = "\<lambda>_ :: unit. coin_kept E fails base chain"
  show ?case
  proof (cases "tip \<le> c")
    case True
    then have "tip \<le> cursor_of E s" using Suc.prems(4) by simp
    then have "ran_out E s" using tip(1) unfolding ran_out_def by blast
    then show ?thesis using True mark_done_kept [OF assms(1) Suc.prems(1)] by simp
  next
    case False
    then have b: "c < ?b" "?b \<le> tip + 1" by (simp_all add: coinBackfillWindowBlocks_def)
    obtain r t where r: "run_state (CoinTransferWindow E c ?b) s = (r, t)" by fastforce
    have asked: "paid E fails {} s t" by (rule asks_paid [OF keepsD [OF tally_asks(3) [OF assms(1)] r]])
    have ok: "coin_ok E fails base chain t" by (rule coin_ok_paid [OF Suc.prems(1) asked])
    have mark: "cursor_of E t = cursor_of E s" "\<not> coin_done E t"
      using asked Suc.prems(2) by (simp_all add: paid_def coin_markers [of s t])
    have short: "short_of E fails base chain c t"
      using ok Suc.prems(4) mark(1) unfolding coin_ok_def by (metis short_of_mono)
    let ?tail = "\<lambda>txs trunc. (let next = window_end ?b txs trunc in
        if next \<le> c then State_Monad.return ()
        else do {
          ok \<leftarrow> SetSyncState E (CoinBackfillCursorKey (e_net E)) (itoa next);
          case ok of None \<Rightarrow> State_Monad.return () | Some _ \<Rightarrow> coin_windows E tip n next })"
    have "wp (case r of
        No_transfer_events \<Rightarrow> markCoinBackfillDone E
      | Window_failed \<Rightarrow> State_Monad.return ()
      | Window txs trunc \<Rightarrow> do { _ \<leftarrow> record_all E (recordCoinTransfers E) txs; ?tail txs trunc }) ?kept t"
    proof (cases r)
      case No_transfer_events
      have "\<not> fst (x_has_transfers E (sy_world s))"
        using r No_transfer_events by (auto simp: CoinTransferWindow_def split: prod.splits if_splits option.splits)
      then have "ran_out E t" by (auto simp: ran_out_def)
      then show ?thesis using No_transfer_events mark_done_kept [OF assms(1) ok] by simp
    next
      case Window_failed
      then show ?thesis using undone_kept [OF ok mark(2)] by simp
    next
      case (Window txs trunc)
      let ?n = "window_end ?b txs trunc"
      have "?n < ?b" by (rule window_complete(2) [OF assms(2) b(1) r [unfolded Window]])
      then have n: "?n \<le> max_int64" using b(2) tip(2) by (simp add: coinBackfillWindowBlocks_def)
      have tail: "wp (?tail txs trunc) ?kept u" if u: "paid E fails (owed (set txs)) t u" for u
      proof -
        have "paid E fails {} t u" using u by (rule paid_subset) simp
        then have ok': "coin_ok E fails base chain u" and undone: "\<not> coin_done E u"
          using coin_ok_paid [OF ok] mark(2) coin_markers(2) [of t u E] by (auto simp: paid_def)
        have short': "short_of E fails base chain ?n u"
          by (rule window_paid [OF assms(2) b(1) r [unfolded Window] short u])
        show ?thesis
        proof (cases "?n \<le> c")
          case True
          then show ?thesis unfolding Let_def using undone_kept [OF ok' undone] by simp
        next
          case False
          then have "0 \<le> ?n" using Suc.prems(3) by simp
          have "wp (SetSyncState E (CoinBackfillCursorKey (e_net E)) (itoa ?n)) (\<lambda>done v.
              wp (case done of None \<Rightarrow> State_Monad.return () | Some _ \<Rightarrow> coin_windows E tip n ?n) ?kept v) u"
          proof (rule wp_mono [OF set_cursor_kept [OF assms(1) ok' undone short' \<open>0 \<le> ?n\<close> n]], elim conjE)
            fix r :: "unit option" and v
            assume v: "coin_ok E fails base chain v" "\<not> coin_done E v" "r \<noteq> None \<longrightarrow> cursor_of E v = ?n"
            show "wp (case r of None \<Rightarrow> State_Monad.return () | Some _ \<Rightarrow> coin_windows E tip n ?n) ?kept v"
            proof (cases r)
              case None
              then show ?thesis using undone_kept [OF v(1,2)] by simp
            next
              case (Some x)
              then have "?n \<le> cursor_of E v" using v(3) by simp
              from Suc.IH [OF v(1,2) \<open>0 \<le> ?n\<close> this] show ?thesis unfolding Some option.case .
            qed
          qed
          with False show ?thesis unfolding Let_def by (simp only: if_False wp_bind)
        qed
      qed
      show ?thesis unfolding Window window.case wp_bind
        by (rule wp_mono [OF record_all_paid [OF assms(1)]]) (rule tail)
    qed
    then have "wp (do { r \<leftarrow> CoinTransferWindow E c ?b; case r of
        No_transfer_events \<Rightarrow> markCoinBackfillDone E
      | Window_failed \<Rightarrow> State_Monad.return ()
      | Window txs trunc \<Rightarrow> do { _ \<leftarrow> record_all E (recordCoinTransfers E) txs; ?tail txs trunc } }) ?kept s"
      unfolding wp_bind wp_of_run [OF r] .
    then show ?thesis using False by (simp only: coin_windows.simps if_False Let_def)
  qed
qed

text \<open>A read of a marker, which fails or answers.\<close>

lemma wp_get_tally:
  assumes "tallies E fails"
    and "\<And>w. paid E fails {} s (s\<lparr>sy_world := w\<rparr>) \<Longrightarrow> Q None (s\<lparr>sy_world := w\<rparr>)"
    and "\<And>w. paid E fails {} s (s\<lparr>sy_world := w\<rparr>) \<Longrightarrow> Q (Some (stored_text key (sy_db s))) (s\<lparr>sy_world := w\<rparr>)"
  shows "wp (GetSyncState E key) Q s"
  unfolding GetSyncState_def
  by (rule wp_sql_tally [OF assms(1)])
    (use assms(2,3) in \<open>simp_all add: stored_text_def paid_same legs_added_def\<close>)

lemma coin_walk_kept:
  fixes s :: "'w sync"
  assumes "tallies E fails" "serves_transfers E chain"
    and tip: "fst (x_tip E w0) = Some tip" "tip + coinBackfillWindowBlocks < max_int64"
    and "coin_ok E fails base chain s" "\<not> coin_done E s"
  shows "wp (do {
      raw \<leftarrow> GetSyncState E (CoinBackfillCursorKey (e_net E));
      coin_windows E tip coinBackfillWindowsPerPass (case raw of None \<Rightarrow> 0 | Some raw \<Rightarrow> coin_cursor raw)
    }) (\<lambda>_ t. coin_kept E fails base chain t) s"
  unfolding wp_bind
proof (rule wp_get_tally [OF assms(1)])
  fix w assume p: "paid E fails {} s (s\<lparr>sy_world := w\<rparr>)"
  let ?t = "s\<lparr>sy_world := w\<rparr>"
  have ok: "coin_ok E fails base chain ?t" by (rule coin_ok_paid [OF assms(5) p])
  have undone: "\<not> coin_done E ?t" using assms(6) by (simp add: coin_done_def)
  have pos: "0 \<le> cursor_of E ?t" using ok by (simp add: coin_ok_def)
  show "wp (coin_windows E tip coinBackfillWindowsPerPass (case None of None \<Rightarrow> 0 | Some raw \<Rightarrow> coin_cursor raw))
      (\<lambda>_ t. coin_kept E fails base chain t) ?t"
    using coin_windows_kept [OF assms(1,2) tip ok undone _ pos] by simp
  have "cursor_of E ?t = coin_cursor (stored_text (CoinBackfillCursorKey (e_net E)) (sy_db s))"
    by (simp add: cursor_of_def)
  then show "wp (coin_windows E tip coinBackfillWindowsPerPass
      (case Some (stored_text (CoinBackfillCursorKey (e_net E)) (sy_db s)) of None \<Rightarrow> 0 | Some raw \<Rightarrow> coin_cursor raw))
      (\<lambda>_ t. coin_kept E fails base chain t) ?t"
    using coin_windows_kept [OF assms(1,2) tip ok undone pos order_refl] by simp
qed

lemma backfillCoinTransfers_kept:
  fixes s :: "'w sync"
  assumes "tallies E fails" "serves_transfers E chain" "small_tips E" "coin_kept E fails base chain s"
  shows "wp (backfillCoinTransfers E) (\<lambda>_ t. coin_kept E fails base chain t) s"
  unfolding backfillCoinTransfers_def wp_bind [of "GetSyncState E (CoinBackfillDoneKey (e_net E))"]
proof (rule wp_get_tally [OF assms(1)])
  fix w assume p: "paid E fails {} s (s\<lparr>sy_world := w\<rparr>)"
  let ?u = "s\<lparr>sy_world := w\<rparr>"
  have kept: "coin_kept E fails base chain ?u" by (rule coin_kept_paid [OF assms(4) p])
  let ?walk = "\<lambda>tip. do {
      raw \<leftarrow> GetSyncState E (CoinBackfillCursorKey (e_net E));
      coin_windows E tip coinBackfillWindowsPerPass (case raw of None \<Rightarrow> 0 | Some raw \<Rightarrow> coin_cursor raw) }"
  let ?rest = "\<lambda>d. if d = ''1'' then State_Monad.return () else do {
      tip \<leftarrow> LatestBlockHeight E;
      case tip of None \<Rightarrow> State_Monad.return () | Some tip \<Rightarrow> ?walk tip }"
  show "wp (case None of None \<Rightarrow> State_Monad.return () | Some d \<Rightarrow> ?rest d) (\<lambda>_ t. coin_kept E fails base chain t) ?u"
    using kept by simp
  show "wp (case Some (stored_text (CoinBackfillDoneKey (e_net E)) (sy_db s)) of
      None \<Rightarrow> State_Monad.return () | Some d \<Rightarrow> ?rest d) (\<lambda>_ t. coin_kept E fails base chain t) ?u"
  proof (cases "coin_done E ?u")
    case True
    then show ?thesis using kept by (simp add: coin_done_def)
  next
    case False
    have "wp (LatestBlockHeight E) (\<lambda>tip. wp (case tip of None \<Rightarrow> State_Monad.return () | Some tip \<Rightarrow> ?walk tip)
        (\<lambda>_ t. coin_kept E fails base chain t)) ?u"
      unfolding LatestBlockHeight_def
    proof (rule wp_ask_any)
      fix tip w' assume tip: "x_tip E (sy_world ?u) = (tip, w')"
      have "fails w' = fails (sy_world ?u)" using assms(1) tip unfolding tallies_def by (metis snd_conv)
      then have p': "paid E fails {} ?u (?u\<lparr>sy_world := w'\<rparr>)" by (intro paid_same) (simp_all add: legs_added_def)
      have kept': "coin_kept E fails base chain (?u\<lparr>sy_world := w'\<rparr>)" by (rule coin_kept_paid [OF kept p'])
      have undone: "\<not> coin_done E (?u\<lparr>sy_world := w'\<rparr>)" using False by (simp add: coin_done_def)
      show "wp (case tip of None \<Rightarrow> State_Monad.return () | Some tip \<Rightarrow> ?walk tip)
          (\<lambda>_ t. coin_kept E fails base chain t) (?u\<lparr>sy_world := w'\<rparr>)"
      proof (cases tip)
        case None
        then show ?thesis using kept' by simp
      next
        case (Some h)
        have h: "fst (x_tip E (sy_world ?u)) = Some h" using tip Some by simp
        then have "h + coinBackfillWindowBlocks < max_int64" using assms(3) unfolding small_tips_def by blast
        from coin_walk_kept [OF assms(1,2) h this _ undone] kept'
        show ?thesis unfolding Some option.case coin_kept_def by blast
      qed
    qed
    with False show ?thesis unfolding option.case coin_done_def by (simp only: wp_if wp_bind if_False) simp
  qed
qed

definition coin_passes :: "'w env \<Rightarrow> nat \<Rightarrow> 'w sync \<Rightarrow> 'w sync" where
  "coin_passes E n = (\<lambda>s. snd (run_state (backfillCoinTransfers E) s)) ^^ n"

text \<open>The same world with a count of the statements that failed.\<close>

definition tally :: "'w env \<Rightarrow> ('w \<times> nat) env" where
  "tally E =
     \<lparr>e_net = e_net E, e_page = e_page E, e_pages = e_pages E, e_days = e_days E,
      x_fails = (\<lambda>(w, n). case x_fails E w of (bad, w) \<Rightarrow> (bad, w, if bad then Suc n else n)),
      x_now = counted (x_now E), x_rfc3339 = x_rfc3339 E, x_tip = counted (x_tip E),
      x_blocks = (\<lambda>gt lt. counted (x_blocks E gt lt)),
      x_block_at = (\<lambda>h. counted (x_block_at E h)),
      x_txs_above = (\<lambda>h. counted (x_txs_above E h)),
      x_txs_at = (\<lambda>h. counted (x_txs_at E h)),
      x_txs_between = (\<lambda>gt lt. counted (x_txs_between E gt lt)),
      x_transfers_between = (\<lambda>gt lt. counted (x_transfers_between E gt lt)),
      x_has_transfers = counted (x_has_transfers E)\<rparr>"

abbreviation failures :: "('w \<times> nat) sync \<Rightarrow> nat" where
  "failures s \<equiv> snd (sy_world s)"

lemma tally_tallies: "tallies (tally E) snd"
  by (auto simp: tallies_def tally_def case_prod_beta)

lemma tally_serves: "serves_transfers E chain \<Longrightarrow> serves_transfers (tally E) chain"
  by (simp add: serves_transfers_def tally_def)

lemma tally_small: "small_tips E \<Longrightarrow> small_tips (tally E)"
  by (simp add: small_tips_def tally_def)

text \<open>
  C9. However many passes run over an empty cursor, and however the database fails and the
  indexer fails or cuts its windows: up to the stored cursor, no more transfer events of
  successful transactions are missing in the coin ledger than statements failed on the way.
  So the history has no holes when none failed, while a failed insert, which is logged and
  passed over, may cost its one event for good. The history is marked as done only once the
  cursor reached a tip, or for an indexer that does not index transfers. (The indexer serves
  the transfers of one chain in order and its tips stay below the largest integer; the walk
  starts above height 0.)
\<close>

theorem coin_backfill_has_no_holes:
  fixes s :: "('w \<times> nat) sync"
  assumes "serves_transfers E chain" "small_tips E"
    and "cursor_of (tally E) s = 0" "\<not> coin_done (tally E) s"
  shows "card (holes (tally E) chain (coin_passes (tally E) n s)) + failures s \<le> failures (coin_passes (tally E) n s) \<and>
    (failures (coin_passes (tally E) n s) = failures s \<longrightarrow>
      ledger_to (tally E) chain (cursor_of (tally E) (coin_passes (tally E) n s)) (coin_passes (tally E) n s)) \<and>
    (coin_done (tally E) (coin_passes (tally E) n s) \<longrightarrow>
      (\<exists>w tip. fst (x_tip E w) = Some tip \<and> tip \<le> cursor_of (tally E) (coin_passes (tally E) n s)) \<or>
      (\<exists>w. \<not> fst (x_has_transfers E w)))"
proof -
  let ?t = "coin_passes (tally E) n s"
  have "legs_to chain 0 = {}" by (auto simp: legs_to_def owed_def)
  then have start: "coin_kept (tally E) snd (failures s) chain s"
    using assms(3,4) by (simp add: coin_kept_def coin_ok_def short_of_def missing_def)
  have "coin_kept (tally E) snd (failures s) chain ?t"
  proof (induction n)
    case 0
    show ?case using start by (simp add: coin_passes_def)
  next
    case (Suc n)
    from backfillCoinTransfers_kept [OF tally_tallies tally_serves [OF assms(1)] tally_small [OF assms(2)] this]
    show ?case by (simp add: coin_passes_def wp_fst_snd)
  qed
  then have "card (holes (tally E) chain ?t) + failures s \<le> failures ?t" "coin_done (tally E) ?t \<longrightarrow> ran_out (tally E) ?t"
    by (simp_all add: coin_kept_def coin_ok_def short_of_def holes_def)
  moreover have "finite (holes (tally E) chain ?t)" by (simp add: holes_def)
  ultimately show ?thesis
    using no_holes [of "tally E" chain ?t] by (auto simp: ran_out_def tally_def)
qed

text \<open>Three transfers in a chain of 30 blocks; the first window is cut before the last of them.\<close>

definition coin_event :: tx_event where
  "coin_event = \<lparr>ev_typename = ''TransferEvent'', ev_type = '''', ev_attrs = [],
     ev_from = ''a'', ev_to = ''b'', ev_coins = ''5ugnot''\<rparr>"

definition coin_chain :: "transaction list" where
  "coin_chain = [demo_tx 5 ''one'' [coin_event], demo_tx 20 ''two'' [coin_event], demo_tx 25 ''three'' [coin_event]]"

definition coin_env :: "unit env" where
  "coin_env = (demo_env 1 30 1 [])\<lparr>x_transfers_between := \<lambda>gt lt w. (reply_of 2 (window_of gt lt coin_chain), w)\<rparr>"

definition fresh_sync :: "(unit \<times> nat) sync" where "fresh_sync = new_sync ((), 0) empty_db"

lemma coin_env_markers:
  "cursor_of (tally coin_env) fresh_sync = 0 \<and> \<not> coin_done (tally coin_env) fresh_sync \<and>
   cursor_of (tally coin_env) (coin_passes (tally coin_env) 1 fresh_sync) = 30 \<and>
   failures (coin_passes (tally coin_env) 1 fresh_sync) = failures fresh_sync"
  by code_simp

theorem coin_backfill_has_no_holes_witness:
  "(''net'', ''three'', 0) \<in> coin_keys (coin_passes (tally coin_env) 1 fresh_sync)"
proof -
  let ?E = "tally coin_env" and ?tx = "demo_tx 25 ''three'' [coin_event]"
  let ?s = "coin_passes ?E 1 fresh_sync"
  have "serves_transfers coin_env coin_chain" "small_tips coin_env"
    by (auto simp: serves_transfers_def small_tips_def coin_env_def coin_chain_def demo_tx_def
      reply_of_def max_int64_def coinBackfillWindowBlocks_def split: reply.splits)
  then have "ledger_to ?E coin_chain (cursor_of ?E ?s) ?s"
    using coin_env_markers coin_backfill_has_no_holes [of coin_env coin_chain fresh_sync 1] by simp
  then have "ledgered ?E ?s ?tx"
    using coin_env_markers by (simp add: ledger_to_def coin_chain_def demo_tx_def)
  then show ?thesis by (simp add: ledgered_def leg_at_def is_leg_def demo_tx_def coin_event_def coin_env_def tally_def)
qed

end
