(* ===== verification/Sync_Reset.thy ===== *)
theory Sync_Reset
  imports Sync_Ledgers
begin

text \<open>
  What the syncer does when an indexer serves another chain than the one its data came
  from (\<^verbatim>\<open>checkChainReset\<close> of \<^verbatim>\<open>pkg/syncer/syncer.go\<close>, \<^verbatim>\<open>DeleteNetworkData\<close> of
  \<^verbatim>\<open>pkg/store/store.go\<close>), what a reset leaves behind, and the proposer memo it must drop.
\<close>

section \<open>The code\<close>

definition NetworkScopedTables :: "string list" where
  "NetworkScopedTables =
     [''packages'', ''package_files'', ''dependencies'', ''calls'', ''msg_runs'', ''bank_sends'',
      ''transactions'', ''blocks'', ''proposers'', ''users'', ''transfer_edges'', ''caller_edges'',
      ''realm_views'', ''coin_transfers'', ''first_seen'', ''discover_events'', ''tx_memos'']"

text \<open>
  The deletion from one table. The tables with a model of their rows are \<^verbatim>\<open>blocks\<close>,
  \<^verbatim>\<open>proposers\<close>, \<^verbatim>\<open>token_transfers\<close> and \<^verbatim>\<open>coin_transfers\<close>; of the rows of the others the
  network and the height are kept.
\<close>

definition delete_from :: "string \<Rightarrow> string \<Rightarrow> db \<Rightarrow> db" where
  "delete_from net table d =
     (if table = ''blocks'' then d\<lparr>db_blocks := filter (\<lambda>r. fst (fst r) \<noteq> net) (db_blocks d)\<rparr>
      else if table = ''proposers'' then d\<lparr>db_proposers := filter (\<lambda>r. fst (fst r) \<noteq> net) (db_proposers d)\<rparr>
      else if table = ''token_transfers'' then d\<lparr>db_tokens := filter (\<lambda>r. fst (fst r) \<noteq> net) (db_tokens d)\<rparr>
      else if table = ''coin_transfers'' then d\<lparr>db_coins := filter (\<lambda>r. fst (fst r) \<noteq> net) (db_coins d)\<rparr>
      else d\<lparr>db_rows := (db_rows d)(table := filter (\<lambda>r. fst r \<noteq> net) (db_rows d table))\<rparr>)"

definition rows_in :: "string \<Rightarrow> string \<Rightarrow> db \<Rightarrow> nat" where
  "rows_in net table d =
     (if table = ''blocks'' then length (filter (\<lambda>r. fst (fst r) = net) (db_blocks d))
      else if table = ''proposers'' then length (filter (\<lambda>r. fst (fst r) = net) (db_proposers d))
      else if table = ''token_transfers'' then length (filter (\<lambda>r. fst (fst r) = net) (db_tokens d))
      else if table = ''coin_transfers'' then length (filter (\<lambda>r. fst (fst r) = net) (db_coins d))
      else length (filter (\<lambda>r. fst r = net) (db_rows d table)))"

text \<open>All the deletions of the transaction, and the number of rows that is reported.\<close>

fun delete_tables :: "string \<Rightarrow> string list \<Rightarrow> nat \<Rightarrow> db \<Rightarrow> nat \<times> db" where
  "delete_tables net [] n d = (n, d)"
| "delete_tables net (t # ts) n d = delete_tables net ts (n + rows_in net t d) (delete_from net t d)"

definition clear_keys :: "string list \<Rightarrow> db \<Rightarrow> db" where
  "clear_keys ks d = d\<lparr>db_state := \<lambda>k. if k \<in> set ks then None else db_state d k\<rparr>"

definition DeleteNetworkData :: "'w env \<Rightarrow> ('w, nat option) io" where
  "DeleteNetworkData E = sql E (\<lambda>d.
     (let net = e_net E;
          (n, d) = delete_tables net NetworkScopedTables 0 d;
          d = clear_keys [BlocksBackfillDoneKey net] d;
          d = clear_keys [CoinBackfillDoneKey net, CoinBackfillCursorKey net] d
      in (n, delete_from net ''active_addr_rollup'' d)))"

definition fingerprintKeyPrefix :: string where "fingerprintKeyPrefix = ''chain_fingerprint:''"

definition chainFingerprint :: "'w env \<Rightarrow> ('w, string option) io" where
  "chainFingerprint E = do {
     r \<leftarrow> GetBlock E 1;
     State_Monad.return
       (case r of
          None \<Rightarrow> None
        | Some None \<Rightarrow> None
        | Some (Some b) \<Rightarrow> if blk_hash b = '''' then None else Some (blk_chain b @ '':'' @ blk_hash b))
   }"

text \<open>Another chain is served: what was stored of this network goes. \<^term>\<open>False\<close> is an error.\<close>

definition discard_for :: "'w env \<Rightarrow> string \<Rightarrow> ('w, bool) io" where
  "discard_for E current = do {
     deleted \<leftarrow> DeleteNetworkData E;
     case deleted of
       None \<Rightarrow> State_Monad.return False
     | Some _ \<Rightarrow> do {
         modifies (\<lambda>s. s\<lparr>sy_proposers := \<lambda>_. None\<rparr>);
         r \<leftarrow> SetSyncState E (fingerprintKeyPrefix @ e_net E) current;
         State_Monad.return (r \<noteq> None)
       }
   }"

definition compare_fingerprints :: "'w env \<Rightarrow> string \<Rightarrow> string \<Rightarrow> ('w, bool) io" where
  "compare_fingerprints E stored current =
     (if stored = '''' then do {
        r \<leftarrow> SetSyncState E (fingerprintKeyPrefix @ e_net E) current;
        State_Monad.return (r \<noteq> None)
      }
      else if stored = current then State_Monad.return True
      else discard_for E current)"

definition checkChainReset :: "'w env \<Rightarrow> ('w, bool) io" where
  "checkChainReset E = do {
     current \<leftarrow> chainFingerprint E;
     case current of
       None \<Rightarrow> State_Monad.return True
     | Some current \<Rightarrow> do {
         stored \<leftarrow> GetSyncState E (fingerprintKeyPrefix @ e_net E);
         case stored of
           None \<Rightarrow> State_Monad.return False
         | Some stored \<Rightarrow> compare_fingerprints E stored current
       }
   }"

text \<open>
  The synchronisation of packages, with what it does with a page of transactions left
  open: the cursor, and the walk from there.
\<close>

definition syncPackages ::
  "'w env \<Rightarrow> (transaction list \<Rightarrow> ('w, unit) io) \<Rightarrow> 'w sync \<Rightarrow> (bool \<times> 'w sync) option" where
  "syncPackages E process s =
     (case run_state (LastBlockHeight E ''package_submissions'') s of
        (None, s) \<Rightarrow> Some (False, s)
      | (Some lastHeight, s) \<Rightarrow> walkTransactions (transactionsFromHeight E) process lastHeight s)"

section \<open>What a deletion touches\<close>

lemma delete_tables_append:
  "delete_tables net (ts @ us) n d = (case delete_tables net ts n d of (n, d) \<Rightarrow> delete_tables net us n d)"
  by (induction ts arbitrary: n d) auto

lemma delete_from_keeps:
  "table' \<noteq> table \<Longrightarrow> db_rows (delete_from net table d) table' = db_rows d table'"
  "db_state (delete_from net table d) = db_state d"
  by (simp_all add: delete_from_def)

lemma delete_tables_keeps:
  "table \<notin> set ts \<Longrightarrow> db_rows (snd (delete_tables net ts n d)) table = db_rows d table"
  "''token_transfers'' \<notin> set ts \<Longrightarrow> db_tokens (snd (delete_tables net ts n d)) = db_tokens d"
  "db_state (snd (delete_tables net ts n d)) = db_state d"
  by (induction ts arbitrary: n d) (auto simp: delete_from_def)

text \<open>The rows of other networks, in every table.\<close>

definition of_others :: "string \<Rightarrow> db \<Rightarrow> db" where
  "of_others net d = d\<lparr>db_state := Map.empty,
     db_blocks := filter (\<lambda>r. fst (fst r) \<noteq> net) (db_blocks d),
     db_proposers := filter (\<lambda>r. fst (fst r) \<noteq> net) (db_proposers d),
     db_tokens := filter (\<lambda>r. fst (fst r) \<noteq> net) (db_tokens d),
     db_coins := filter (\<lambda>r. fst (fst r) \<noteq> net) (db_coins d),
     db_rows := \<lambda>t. filter (\<lambda>r. fst r \<noteq> net) (db_rows d t)\<rparr>"

lemma of_others_delete: "of_others net (delete_from net table d) = of_others net d"
  by (rule db.equality) (simp_all add: of_others_def delete_from_def fun_eq_iff)

lemma of_others_tables: "of_others net (snd (delete_tables net ts n d)) = of_others net d"
  by (induction ts arbitrary: n d) (simp_all add: of_others_delete)

lemma of_others_keys: "of_others net (clear_keys ks d) = of_others net d"
  by (simp add: of_others_def clear_keys_def)

definition discarded :: "string \<Rightarrow> db \<Rightarrow> db" where
  "discarded net d =
     delete_from net ''active_addr_rollup''
       (clear_keys [CoinBackfillDoneKey net, CoinBackfillCursorKey net]
         (clear_keys [BlocksBackfillDoneKey net] (snd (delete_tables net NetworkScopedTables 0 d))))"

lemma DeleteNetworkData_eq:
  "DeleteNetworkData E = sql E (\<lambda>d. (fst (delete_tables (e_net E) NetworkScopedTables 0 d), discarded (e_net E) d))"
  by (simp add: DeleteNetworkData_def discarded_def Let_def case_prod_beta)

lemma discarded_others: "of_others net (discarded net d) = of_others net d"
  by (simp add: discarded_def of_others_delete of_others_keys of_others_tables)

lemma discarded_keeps_rows:
  "table \<notin> set (''active_addr_rollup'' # NetworkScopedTables) \<Longrightarrow>
   db_rows (discarded net d) table = db_rows d table"
  by (simp add: discarded_def delete_from_keeps delete_tables_keeps clear_keys_def)

lemma discarded_keeps_tokens: "db_tokens (discarded net d) = db_tokens d"
proof -
  have "''token_transfers'' \<notin> set NetworkScopedTables" by (simp add: NetworkScopedTables_def)
  then show ?thesis by (simp add: discarded_def delete_from_def delete_tables_keeps clear_keys_def)
qed

lemma discarded_blocks: "db_blocks (discarded net d) = filter (\<lambda>r. fst (fst r) \<noteq> net) (db_blocks d)"
  by (simp add: discarded_def delete_from_def NetworkScopedTables_def clear_keys_def)

section \<open>When data is discarded\<close>

text \<open>The fingerprint the indexer answers with.\<close>

definition answers_with :: "'w env \<Rightarrow> 'w \<Rightarrow> string \<Rightarrow> bool" where
  "answers_with E w f \<longleftrightarrow>
     (\<exists>b bs. fst (x_block_at E 1 w) = Some (b # bs) \<and> blk_hash b \<noteq> '''' \<and> f = blk_chain b @ '':'' @ blk_hash b)"

abbreviation fingerprint_key :: "'w env \<Rightarrow> string" where
  "fingerprint_key E \<equiv> fingerprintKeyPrefix @ e_net E"

definition reset_for :: "'w env \<Rightarrow> 'w sync \<Rightarrow> 'w sync \<Rightarrow> bool" where
  "reset_for E s t \<longleftrightarrow> (\<exists>f. answers_with E (sy_world s) f \<and>
     stored_text (fingerprint_key E) (sy_db s) \<noteq> '''' \<and> stored_text (fingerprint_key E) (sy_db s) \<noteq> f \<and>
     (sy_db t = discarded (e_net E) (sy_db s) \<or>
      sy_db t = (discarded (e_net E) (sy_db s))
        \<lparr>db_state := (db_state (discarded (e_net E) (sy_db s)))(fingerprint_key E \<mapsto> f)\<rparr>) \<and>
     sy_proposers t = (\<lambda>_. None))"

definition adopted :: "'w env \<Rightarrow> 'w sync \<Rightarrow> 'w sync \<Rightarrow> bool" where
  "adopted E s t \<longleftrightarrow> stored_text (fingerprint_key E) (sy_db s) = '''' \<and> sy_proposers t = sy_proposers s \<and>
     (\<exists>f. answers_with E (sy_world s) f \<and>
       sy_db t = (sy_db s)\<lparr>db_state := (db_state (sy_db s))(fingerprint_key E \<mapsto> f)\<rparr>)"

definition untouched :: "'w sync \<Rightarrow> 'w sync \<Rightarrow> bool" where
  "untouched s t \<longleftrightarrow> sy_db t = sy_db s \<and> sy_proposers t = sy_proposers s"

lemma chainFingerprint_answers:
  "wp (chainFingerprint E) (\<lambda>r t. untouched s t \<and> (\<forall>f. r = Some f \<longrightarrow> answers_with E (sy_world s) f)) s"
  by (auto simp: chainFingerprint_def GetBlock_def answers_with_def wp_ask untouched_def
    split: prod.splits option.splits list.splits)

lemma discard_for_outcome:
  fixes s :: "'w sync"
  assumes "answers_with E (sy_world s) f" "untouched s t"
    and "stored_text (fingerprint_key E) (sy_db s) \<noteq> ''''" "stored_text (fingerprint_key E) (sy_db s) \<noteq> f"
  shows "wp (discard_for E f) (\<lambda>_ u. untouched s u \<or> reset_for E s u) t"
proof -
  have store: "wp (SetSyncState E (fingerprint_key E) f) (\<lambda>_ v. untouched s v \<or> reset_for E s v) u"
    if "sy_db u = discarded (e_net E) (sy_db s)" "sy_proposers u = (\<lambda>_. None)" for u :: "'w sync"
    unfolding SetSyncState_def by (rule wp_sql) (use that assms in \<open>auto simp: reset_for_def\<close>)
  show ?thesis unfolding discard_for_def DeleteNetworkData_eq wp_bind
    by (rule wp_sql) (use assms(2) store in \<open>simp_all add: untouched_def\<close>)
qed

lemma compare_fingerprints_outcome:
  fixes s :: "'w sync"
  assumes "answers_with E (sy_world s) f" "untouched s t"
  shows "wp (compare_fingerprints E (stored_text (fingerprint_key E) (sy_db s)) f)
    (\<lambda>_ u. untouched s u \<or> adopted E s u \<or> reset_for E s u) t"
proof -
  have "wp (SetSyncState E (fingerprint_key E) f) (\<lambda>_ u. untouched s u \<or> adopted E s u \<or> reset_for E s u) t"
    if "stored_text (fingerprint_key E) (sy_db s) = ''''"
    unfolding SetSyncState_def by (rule wp_sql) (use assms that in \<open>auto simp: untouched_def adopted_def\<close>)
  then show ?thesis
    unfolding compare_fingerprints_def using assms discard_for_outcome [OF assms]
    by (auto elim: wp_mono)
qed

lemma checkChainReset_outcome:
  fixes s :: "'w sync"
  shows "wp (checkChainReset E) (\<lambda>_ t. untouched s t \<or> adopted E s t \<or> reset_for E s t) s"
  unfolding checkChainReset_def wp_bind
proof (rule wp_mono [OF chainFingerprint_answers], elim conjE)
  fix r and t :: "'w sync"
  assume t: "untouched s t" and r: "\<forall>f. r = Some f \<longrightarrow> answers_with E (sy_world s) f"
  have "wp (GetSyncState E (fingerprint_key E)) (\<lambda>stored. wp (case stored of
         None \<Rightarrow> State_Monad.return False
       | Some stored \<Rightarrow> compare_fingerprints E stored f)
      (\<lambda>_ t. untouched s t \<or> adopted E s t \<or> reset_for E s t)) t" if "answers_with E (sy_world s) f" for f
  proof (rule wp_get)
    fix w
    have u: "untouched s (t\<lparr>sy_world := w\<rparr>)" using t by (simp add: untouched_def)
    then show "wp (case None of None \<Rightarrow> State_Monad.return False | Some stored \<Rightarrow> compare_fingerprints E stored f)
      (\<lambda>_ t. untouched s t \<or> adopted E s t \<or> reset_for E s t) (t\<lparr>sy_world := w\<rparr>)" by simp
    show "wp (case Some (stored_text (fingerprint_key E) (sy_db t)) of
        None \<Rightarrow> State_Monad.return False | Some stored \<Rightarrow> compare_fingerprints E stored f)
      (\<lambda>_ t. untouched s t \<or> adopted E s t \<or> reset_for E s t) (t\<lparr>sy_world := w\<rparr>)"
      using compare_fingerprints_outcome [OF that u] t by (simp add: untouched_def)
  qed
  with t r show "wp (case r of None \<Rightarrow> State_Monad.return True | Some current \<Rightarrow> do {
         stored \<leftarrow> GetSyncState E (fingerprint_key E);
         case stored of None \<Rightarrow> State_Monad.return False | Some stored \<Rightarrow> compare_fingerprints E stored current
       }) (\<lambda>_ t. untouched s t \<or> adopted E s t \<or> reset_for E s t) t"
    by (cases r) simp_all
qed

text \<open>
  C8. A network's data is discarded only on proof: when the indexer itself answered with a
  first block whose fingerprint is another than the one stored before. An error, a missing
  block, a block without a hash or a first sync leave every row, and whatever happens the
  rows of the other networks stay as they were.
\<close>

theorem discards_only_for_another_chain:
  "let t = snd (run_state (checkChainReset E) s) in
     of_others (e_net E) (sy_db t) = of_others (e_net E) (sy_db s) \<and>
     ((sy_db t)\<lparr>db_state := db_state (sy_db s)\<rparr> = sy_db s \<or>
      (\<exists>f. answers_with E (sy_world s) f \<and> stored_text (fingerprint_key E) (sy_db s) \<notin> {'''', f}))"
proof -
  let ?t = "snd (run_state (checkChainReset E) s)"
  have "untouched s ?t \<or> adopted E s ?t \<or> reset_for E s ?t"
    using checkChainReset_outcome [of E s] by (simp add: wp_fst_snd)
  then show ?thesis
  proof (elim disjE)
    assume "untouched s ?t"
    then show ?thesis by (simp add: untouched_def)
  next
    assume "adopted E s ?t"
    then show ?thesis by (auto simp: adopted_def of_others_def)
  next
    assume r: "reset_for E s ?t"
    then have "of_others (e_net E) (sy_db ?t) = of_others (e_net E) (discarded (e_net E) (sy_db s))"
      by (auto simp: reset_for_def of_others_def)
    then have "of_others (e_net E) (sy_db ?t) = of_others (e_net E) (sy_db s)"
      by (simp only: discarded_others)
    with r show ?thesis by (auto simp: reset_for_def)
  qed
qed

section \<open>What a reset leaves behind\<close>

definition serves_first :: "'w env \<Rightarrow> block \<Rightarrow> bool" where
  "serves_first E b \<longleftrightarrow> (\<forall>w. fst (x_block_at E 1 w) = Some [b]) \<and> blk_hash b \<noteq> ''''"

definition fingerprint :: "block \<Rightarrow> string" where
  "fingerprint b = blk_chain b @ '':'' @ blk_hash b"

lemma reset_happens_at:
  fixes s :: "'w sync"
  assumes "reliable E" "x_block_at E 1 (sy_world s) = (Some [b], w)" "blk_hash b \<noteq> ''''"
    and "stored_text (fingerprint_key E) (sy_db s) \<notin> {'''', fingerprint b}"
  shows "wp (checkChainReset E) (\<lambda>r t. r \<and> sy_proposers t = (\<lambda>_. None) \<and>
    (\<exists>st. sy_db t = (discarded (e_net E) (sy_db s))\<lparr>db_state := st\<rparr>)) s"
proof -
  have first: "run_state (chainFingerprint E) s = (Some (fingerprint b), s\<lparr>sy_world := w\<rparr>)"
    using assms(2,3) by (simp add: chainFingerprint_def GetBlock_def fingerprint_def)
  let ?P = "\<lambda>r t. r \<and> sy_proposers t = (\<lambda>_. None) \<and>
    (\<exists>st. sy_db t = (discarded (e_net E) (sy_db s))\<lparr>db_state := st\<rparr>)"
  have discard: "wp (discard_for E f) ?P u" if "sy_db u = sy_db s" for u :: "'w sync" and f
    unfolding discard_for_def DeleteNetworkData_eq SetSyncState_def wp_bind
    by (rule wp_sql_reliable [OF assms(1)]) (auto intro!: wp_sql_reliable [OF assms(1)] simp: that)
  show ?thesis unfolding checkChainReset_def wp_bind wp_of_run [OF first] option.case
    by (rule wp_get_reliable [OF assms(1)]) (use assms(4) discard in \<open>simp add: compare_fingerprints_def\<close>)
qed

lemma reset_happens:
  assumes "reliable E" "serves_first E b"
    and "stored_text (fingerprint_key E) (sy_db s) \<notin> {'''', fingerprint b}"
  shows "wp (checkChainReset E) (\<lambda>r t. r \<and> sy_proposers t = (\<lambda>_. None) \<and>
    (\<exists>st. sy_db t = (discarded (e_net E) (sy_db s))\<lparr>db_state := st\<rparr>)) s"
proof -
  have "x_block_at E 1 (sy_world s) = (Some [b], snd (x_block_at E 1 (sy_world s)))"
    using assms(2) by (simp add: serves_first_def prod_eq_iff)
  from reset_happens_at [OF assms(1) this] show ?thesis using assms(2,3) by (simp add: serves_first_def)
qed

text \<open>
  C40. A reset freezes the packages of a network. The packages are synchronised from the
  greatest height in \<^verbatim>\<open>package_submissions\<close>, a table the reset does not clear: the blocks
  are gone and the new chain's fingerprint is stored, but as long as no package of the new
  chain is above the old chain's last one, the walk hands nothing to process, whatever is
  done with a page.
\<close>

theorem reset_freezes_packages:
  assumes "reliable E" "serves_first E b"
    and "stored_text (fingerprint_key E) (sy_db s) \<notin> {'''', fingerprint b}"
    and "max_of (heights_in ''package_submissions'' (e_net E) (sy_db s)) = Some h"
    and "serves_above E chain" "\<forall>tx \<in> set chain. tx_height tx \<le> h"
    and "run_state (checkChainReset E) s = (r, t)"
  shows "r \<and> heights_of (e_net E) (sy_db t) = [] \<and>
    (\<exists>ok u. syncPackages E process t = Some (ok, u) \<and> sy_db u = sy_db t)"
proof -
  obtain st where r: "r" and t: "sy_db t = (discarded (e_net E) (sy_db s))\<lparr>db_state := st\<rparr>"
    using reset_happens [OF assms(1-3)] assms(7) by (auto simp: wp_def)
  have "heights_of (e_net E) (sy_db t) = []"
    by (simp add: t heights_of_def discarded_blocks filter_empty_conv)
  moreover have "''package_submissions'' \<notin> set (''active_addr_rollup'' # NetworkScopedTables)"
    by (simp add: NetworkScopedTables_def)
  then have "heights_in ''package_submissions'' (e_net E) (sy_db t) = heights_in ''package_submissions'' (e_net E) (sy_db s)"
    unfolding heights_in_def t by (simp add: discarded_keeps_rows)
  then have "wp (LastBlockHeight E ''package_submissions'') (\<lambda>r u. r = Some (Some h) \<and> sy_db u = sy_db t) t"
    unfolding LastBlockHeight_def by (intro wp_sql_reliable [OF assms(1)]) (simp add: assms(4))
  then obtain u where u: "run_state (LastBlockHeight E ''package_submissions'') t = (Some (Some h), u)" "sy_db u = sy_db t"
    by (auto simp: wp_def split: prod.splits)
  have none: "above (Some h) chain = []" using assms(6) by (auto simp: above_def filter_empty_conv)
  obtain p v where p: "run_state (transactionsFromHeight E (Some h)) u = (p, v)" by fastforce
  have "(p = None \<or> (\<exists>trunc. p = Some ([], trunc))) \<and> sy_db v = sy_db u"
  proof (cases p)
    case None
    with p page_failed [of E "Some h" u v] show ?thesis by simp
  next
    case (Some q)
    then obtain txs trunc where q: "p = Some (txs, trunc)" by (cases q) auto
    note page = page_complete [OF assms(5) p [unfolded q]]
    have "txs = []"
    proof (cases trunc)
      case True
      with page(3) have ne: "txs \<noteq> []" and eq: "txs = between (Some h) (tx_height (last txs)) chain" by simp_all
      have "between (Some h) (tx_height (last txs)) chain = []"
        using assms(6) by (auto simp: between_def filter_empty_conv)
      with ne eq show ?thesis by simp
    qed (use page(2) none in simp)
    with q page(1) show ?thesis by simp
  qed
  then have "\<exists>ok. walkTransactions (transactionsFromHeight E) process (Some h) u = Some (ok, v)" "sy_db v = sy_db t"
    using p u(2) by (auto simp: walkTransactions.simps [of _ _ "Some h"])
  ultimately show ?thesis using r u(1) by (auto simp: syncPackages_def)
qed

text \<open>
  A network at height 900 whose chain is replaced: the new chain deployed two packages at
  2 and 40, and neither is ever asked for.
\<close>

definition reset_env :: "unit env" where
  "reset_env = (demo_env 1 50 10 [demo_tx 2 ''p'' [], demo_tx 40 ''q'' []])
     \<lparr>x_block_at := \<lambda>h w. (Some [\<lparr>blk_hash = ''new'', blk_height = h, blk_chain = ''dev'',
        blk_time = '''', blk_txs = 0, blk_proposer = ''''\<rparr>], w)\<rparr>"

definition reset_db :: db where
  "reset_db = empty_db\<lparr>db_state := [''chain_fingerprint:net'' \<mapsto> ''dev:old''],
     db_rows := (\<lambda>_. [])(''package_submissions'' := [(''net'', 900)], ''packages'' := [(''net'', 900)])\<rparr>"

definition after_reset :: "unit sync" where
  "after_reset = snd (run_state (checkChainReset reset_env) (new_sync () reset_db))"


theorem reset_freezes_packages_witness:
  "(\<exists>ok u. syncPackages reset_env (\<lambda>_. modifies (\<lambda>s. s\<lparr>sy_db := empty_db\<rparr>)) after_reset = Some (ok, u) \<and>
     sy_db u = sy_db after_reset)"
proof -
  let ?chain = "[demo_tx 2 ''p'' [], demo_tx 40 ''q'' []]"
  let ?b = "\<lparr>blk_hash = ''new'', blk_height = 1, blk_chain = ''dev'', blk_time = '''', blk_txs = 0, blk_proposer = ''''\<rparr>"
  have 1: "reliable reset_env" by (simp add: reliable_def reset_env_def)
  have 2: "serves_first reset_env ?b" by (simp add: serves_first_def reset_env_def)
  have 3: "stored_text (fingerprint_key reset_env) (sy_db (new_sync () reset_db)) \<notin> {'''', fingerprint ?b}"
    by code_simp
  have 4: "max_of (heights_in ''package_submissions'' (e_net reset_env) (sy_db (new_sync () reset_db))) = Some 900"
    by code_simp
  have 5: "serves_above reset_env ?chain"
    using reply_serves_above [of ?chain 1 50 10] by (simp add: serves_above_def reset_env_def demo_tx_def)
  have 6: "\<forall>tx \<in> set ?chain. tx_height tx \<le> 900" by (simp add: demo_tx_def)
  have 7: "run_state (checkChainReset reset_env) (new_sync () reset_db) =
      (fst (run_state (checkChainReset reset_env) (new_sync () reset_db)), after_reset)"
    by (simp add: after_reset_def)
  show ?thesis
    by (rule reset_freezes_packages [OF 1 2 3 4 5 6 7, THEN conjunct2, THEN conjunct2])
qed

end
