(* ===== verification/Sync_Machine.thy ===== *)
theory Sync_Machine
  imports Sync_Reset
begin

text \<open>
  The syncer of one network as a state machine: the passes of \<^verbatim>\<open>SyncAll\<close> that are modelled
  are its steps, in any order and any number, and restarts of the process between them.
  The invariant is the one the code clears a memo for: every stored block names a
  proposer that exists.
\<close>

inductive synced :: "'w env \<Rightarrow> 'w sync \<Rightarrow> bool" for E :: "'w env" where
  fresh: "db_blocks d = [] \<Longrightarrow> synced E \<lparr>sy_db = d, sy_world = w, sy_proposers = \<lambda>_. None\<rparr>"
| restart: "synced E s \<Longrightarrow> synced E \<lparr>sy_db = sy_db s, sy_world = w, sy_proposers = \<lambda>_. None\<rparr>"
| reset: "synced E s \<Longrightarrow> run_state (checkChainReset E) s = (r, t) \<Longrightarrow> synced E t"
| blocks: "synced E s \<Longrightarrow> run_state (syncBlocks E) s = ((), t) \<Longrightarrow> synced E t"
| tokens: "synced E s \<Longrightarrow> run_state (backfillTokenTransfers E) s = ((), t) \<Longrightarrow> synced E t"
| coins: "synced E s \<Longrightarrow> run_state (backfillCoinTransfers E) s = ((), t) \<Longrightarrow> synced E t"

section \<open>The invariant\<close>

definition proposer_known :: "'w env \<Rightarrow> 'w sync \<Rightarrow> int \<Rightarrow> bool" where
  "proposer_known E s i \<longleftrightarrow> i = 0 \<or> (\<exists>a. map_of (db_proposers (sy_db s)) (e_net E, a) = Some i)"

definition memo_ok :: "'w env \<Rightarrow> 'w sync \<Rightarrow> bool" where
  "memo_ok E s \<longleftrightarrow>
     (\<forall>a i. sy_proposers s a = Some i \<longrightarrow> map_of (db_proposers (sy_db s)) (e_net E, a) = Some i)"

definition attributed :: "'w env \<Rightarrow> 'w sync \<Rightarrow> bool" where
  "attributed E s \<longleftrightarrow> memo_ok E s \<and>
     (\<forall>r \<in> set (db_blocks (sy_db s)). fst (fst r) = e_net E \<longrightarrow> proposer_known E s (row_proposer (snd r)))"

text \<open>What every pass but a reset does to the proposers: ids stay, and the invariant.\<close>

definition attributes :: "'w env \<Rightarrow> 'w sync \<Rightarrow> 'w sync \<Rightarrow> bool" where
  "attributes E s t \<longleftrightarrow>
     (attributed E s \<longrightarrow> attributed E t \<and> (\<forall>i. proposer_known E s i \<longrightarrow> proposer_known E t i))"

interpretation attr: kept "attributes E" for E :: "'w env"
  by unfold_locales (auto simp: attributes_def)

lemma attr_same:
  assumes "db_blocks (sy_db s) = db_blocks (sy_db t)" "db_proposers (sy_db s) = db_proposers (sy_db t)"
    "sy_proposers s = sy_proposers t"
  shows "attributes E s t"
  using assms by (simp add: attributes_def attributed_def memo_ok_def proposer_known_def)

lemma attr_when:
  fixes m :: "('w, 'a) io"
  assumes "\<And>s. attributed E s \<Longrightarrow> wp m (\<lambda>_ t. attributes E s t) s"
  shows "keeps (attributes E) m"
proof (rule keepsI)
  fix s :: "'w sync"
  show "wp m (\<lambda>_ t. attributes E s t) s"
    using assms by (cases "attributed E s") (simp_all add: attributes_def wp_fst_snd)
qed

lemma attr_ask: "keeps (attributes E) (ask f)"
  by (rule keepsI, rule wp_ask_any) (simp add: attr_same)

lemma attr_sql:
  assumes "\<And>d. db_blocks (snd (f d)) = db_blocks d" "\<And>d. db_proposers (snd (f d)) = db_proposers d"
  shows "keeps (attributes E) (sql E' f)"
  by (rule keepsI, rule wp_sql) (simp_all add: attr_same assms)

lemmas attr_rules = attr.rules attr_ask attr_sql

lemma attr_state: "keeps (attributes E) (GetSyncState E k)" "keeps (attributes E) (SetSyncState E k v)"
  unfolding GetSyncState_def SetSyncState_def by (rule attr_sql; simp)+

lemma attr_reads:
  "keeps (attributes E) (BlockHeightBounds E)" "keeps (attributes E) (OldestBlockTime E)"
  unfolding BlockHeightBounds_def OldestBlockTime_def by (rule attr_sql; simp)+

lemma attr_client:
  "keeps (attributes E) (LatestBlockHeight E)" "keeps (attributes E) (GetBlock E h)"
  unfolding LatestBlockHeight_def GetBlock_def by (intro attr_rules)+

section \<open>Interning\<close>

lemma insert_proposer_known:
  "map_of (db_proposers d) k = Some i \<Longrightarrow> map_of (db_proposers (insert_proposer net a d)) k = Some i"
  by (auto simp: insert_proposer_def map_add_def split: option.splits)

lemma attributes_insert:
  assumes "db_blocks (sy_db t) = db_blocks (sy_db s)" "sy_proposers t = sy_proposers s"
    and "\<And>k i. map_of (db_proposers (sy_db s)) k = Some i \<Longrightarrow> map_of (db_proposers (sy_db t)) k = Some i"
  shows "attributes E s t"
proof -
  have known: "proposer_known E s i \<Longrightarrow> proposer_known E t i" for i
    using assms(3) unfolding proposer_known_def by blast
  then show ?thesis using assms by (auto simp: attributes_def attributed_def memo_ok_def)
qed

lemma intern_known:
  "wp (InternProposer E a) (\<lambda>r t. attributes E s t \<and>
     (\<forall>i. r = Some i \<longrightarrow> map_of (db_proposers (sy_db t)) (e_net E, a) = Some i)) s"
  unfolding InternProposer_def wp_bind
proof (rule wp_sql; unfold option.case)
  fix w
  let ?u = "s\<lparr>sy_world := w, sy_db := snd ((), insert_proposer (e_net E) a (sy_db s))\<rparr>"
  have u: "attributes E s ?u"
    by (rule attributes_insert) (auto simp: insert_proposer_known, simp add: insert_proposer_def split: option.splits)

  show "wp (do {
      r \<leftarrow> sql E (\<lambda>d. (map_of (db_proposers d) (e_net E, a), d));
      State_Monad.return (case r of Some (Some i) \<Rightarrow> Some i | _ \<Rightarrow> None)
    }) (\<lambda>r t. attributes E s t \<and> (\<forall>i. r = Some i \<longrightarrow> map_of (db_proposers (sy_db t)) (e_net E, a) = Some i)) ?u"
    unfolding wp_bind wp_return
    by (rule wp_sql; rule conjI, rule attr.trans [OF u], rule attr_same) (auto split: option.splits)
qed (simp add: attr_same)

lemma proposerID_known:
  fixes s :: "'w sync"
  assumes "attributed E s"
  shows "wp (proposerID E a) (\<lambda>r t. attributes E s t \<and> (\<forall>i. r = Some i \<longrightarrow> proposer_known E t i)) s"
proof (cases "sy_proposers s a")
  case (Some i)
  then have "proposer_known E s i"
    using assms by (auto simp: attributed_def memo_ok_def proposer_known_def)
  with Some show ?thesis by (simp add: proposerID_def attr.refl)
next
  case None
  have memo: "attributes E s (t\<lparr>sy_proposers := (sy_proposers t)(a \<mapsto> i)\<rparr>) \<and>
      proposer_known E (t\<lparr>sy_proposers := (sy_proposers t)(a \<mapsto> i)\<rparr>) i"
    if "attributes E s t" "map_of (db_proposers (sy_db t)) (e_net E, a) = Some i" for t :: "'w sync" and i
    using that assms by (auto simp: attributes_def attributed_def memo_ok_def proposer_known_def)
  show ?thesis unfolding proposerID_def wp_bind wp_gets None option.case
    by (rule wp_mono [OF intern_known]) (auto simp: memo split: option.splits)
qed

lemma attr_proposerID:
  "keeps (attributes E) (proposerID E a)"
  by (rule attr_when, rule wp_mono [OF proposerID_known]) simp_all

section \<open>The passes\<close>

lemma block_rows_known:
  fixes s :: "'w sync"
  assumes "attributed E s"
  shows "wp (block_rows E bs) (\<lambda>r t. attributes E s t \<and>
    (\<forall>rows. r = Some rows \<longrightarrow> (\<forall>row \<in> set rows. proposer_known E t (row_proposer row)))) s"
  using assms
proof (induction bs arbitrary: s)
  case Nil
  show ?case by (simp add: attr.refl)
next
  case (Cons b bs)
  have "wp (if blk_proposer b \<noteq> '''' then proposerID E (blk_proposer b) else State_Monad.return (Some 0))
      (\<lambda>r t. attributes E s t \<and> (\<forall>i. r = Some i \<longrightarrow> proposer_known E t i)) s"
    using proposerID_known [OF Cons.prems] by (simp add: attr.refl proposer_known_def)
  then show ?case unfolding block_rows.simps wp_bind
  proof (rule wp_mono, elim conjE)
    fix pid and t :: "'w sync"
    assume t: "attributes E s t" "\<forall>i. pid = Some i \<longrightarrow> proposer_known E t i"
    let ?Q = "\<lambda>r u. attributes E s u \<and>
      (\<forall>rows. r = Some rows \<longrightarrow> (\<forall>row \<in> set rows. proposer_known E u (row_proposer row)))"
    have at: "attributed E t" using t(1) Cons.prems by (simp add: attributes_def)
    note rest = Cons.IH [OF this]
    have "wp (block_rows E bs) (\<lambda>rest. ?Q (map_option ((#)
        \<lparr>row_height = blk_height b, row_time = blk_time b, row_proposer = i, row_txs = blk_txs b\<rparr>) rest)) t"
      if "pid = Some i" for i
    proof (rule wp_mono [OF rest], elim conjE)
      fix r :: "block_row list option" and u :: "'w sync"
      assume u: "attributes E t u" and known: "\<forall>rows. r = Some rows \<longrightarrow> (\<forall>row \<in> set rows. proposer_known E u (row_proposer row))"
      have "proposer_known E u i" using t(2) u that at by (simp add: attributes_def)
      with known attr.trans [OF t(1) u]
      show "?Q (map_option ((#)
        \<lparr>row_height = blk_height b, row_time = blk_time b, row_proposer = i, row_txs = blk_txs b\<rparr>) r) u" by auto
    qed
    then show "wp (case pid of None \<Rightarrow> State_Monad.return None | Some i \<Rightarrow> do {
         rest \<leftarrow> block_rows E bs;
         State_Monad.return (map_option ((#)
           \<lparr>row_height = blk_height b, row_time = blk_time b, row_proposer = i, row_txs = blk_txs b\<rparr>) rest)
       }) ?Q t"
      using t(1) by (cases pid) simp_all
  qed
qed

lemma update_rows: "r \<in> set (AList.update k v xs) \<Longrightarrow> r = (k, v) \<or> r \<in> set xs"
  by (induction xs) (auto split: if_splits)

lemma upserts_attributed:
  assumes "attributed E s" "\<forall>row \<in> set rows. proposer_known E s (row_proposer row)"
  shows "attributes E s (s\<lparr>sy_world := w, sy_db := fold (upsert_row (e_net E)) rows (sy_db s)\<rparr>)"
proof -
  have "db_proposers (fold (upsert_row (e_net E)) rows d) = db_proposers d \<and>
      (\<forall>r \<in> set (db_blocks (fold (upsert_row (e_net E)) rows d)). r \<in> set (db_blocks d) \<or> snd r \<in> set rows)" for d
    by (induction rows arbitrary: d) (fastforce simp: upsert_row_def dest: update_rows)+
  note rows = this [THEN conjunct1] this [THEN conjunct2, rule_format]
  have same: "proposer_known E (s\<lparr>sy_world := w, sy_db := fold (upsert_row (e_net E)) rows (sy_db s)\<rparr>) i = proposer_known E s i" for i
    by (simp add: proposer_known_def rows(1))
  have "proposer_known E s (row_proposer (snd r))"
    if "r \<in> set (db_blocks (fold (upsert_row (e_net E)) rows (sy_db s)))" "fst (fst r) = e_net E" for r
    using rows(2) [OF that(1)] that(2) assms by (auto simp: attributed_def)
  then show ?thesis using assms(1) by (simp add: attributes_def attributed_def memo_ok_def same rows(1))
qed

lemma attr_page: "keeps (attributes E) (fetchBlockPage E lo hi)"
proof -
  have store: "keeps (attributes E) (do {
      rows \<leftarrow> block_rows E bs;
      case rows of
        None \<Rightarrow> State_Monad.return False
      | Some rows \<Rightarrow> do { r \<leftarrow> UpsertBlocks E rows; State_Monad.return (r \<noteq> None) }
    })" for bs
  proof (rule attr_when, unfold wp_bind)
    fix s :: "'a sync"
    assume True: "attributed E s"
    let ?store = "\<lambda>rows. case rows of
        None \<Rightarrow> State_Monad.return False
      | Some rows \<Rightarrow> do { r \<leftarrow> UpsertBlocks E rows; State_Monad.return (r \<noteq> None) }"
    show "wp (block_rows E bs) (\<lambda>rows. wp (?store rows) (\<lambda>_ t. attributes E s t)) s"
    proof (rule wp_mono [OF block_rows_known [OF True]], elim conjE)
      fix r :: "block_row list option" and t :: "'a sync"
      assume t: "attributes E s t" "\<forall>rows. r = Some rows \<longrightarrow> (\<forall>row \<in> set rows. proposer_known E t (row_proposer row))"
      have at: "attributed E t" using t(1) True by (simp add: attributes_def)
      have "wp (UpsertBlocks E rows) (\<lambda>_ u. attributes E t u) t" if "r = Some rows" for rows
        unfolding UpsertBlocks_def using t(2) that
        by (auto simp: attr.refl attr_same upserts_attributed [OF at] intro!: wp_sql)
      then show "wp (?store r) (\<lambda>_ u. attributes E s u) t"
        using attr.trans [OF t(1)] t(1) by (cases r) (auto elim: wp_mono)
    qed
  qed
  show ?thesis unfolding fetchBlockPage_def GetBlocksInRange_def by (intro attr_rules store)
qed

lemma attr_loop: "keeps (attributes E) (backfill_loop E c n m)"
proof (induction n arbitrary: m)
  case 0
  show ?case by (simp add: attr.return)
next
  case (Suc n)
  then show ?case unfolding backfill_loop.simps probe_floor_def past_cutoff_def
    by (intro attr_rules attr_page attr_reads attr_client)
qed

lemma attr_backfill: "keeps (attributes E) (backfill E n m)"
proof -
  have finish: "keeps (attributes E) (finish_backfill E st)" for st
    unfolding finish_backfill_def markBackfillDone_def
    by (cases st) (auto intro!: attr.rules attr_state)
  show ?thesis
    unfolding backfill_def backfill_due_def shouldResumeBackfill_def blockHistoryCutoff_def past_cutoff_def markBackfillDone_def
    by (intro attr_rules attr_state attr_reads attr_loop finish)
qed

lemma attr_blocks: "keeps (attributes E) (syncBlocks E)"
  unfolding syncBlocks_def seed_def head_sync_def
  by (intro attr_rules attr_reads attr_client attr_page attr_backfill)

lemma attr_each:
  "(\<And>tx bt. keeps (attributes E) (f tx bt)) \<Longrightarrow> keeps (attributes E) (record_each f stamps txs)"
  by (induction txs) (auto intro: attr.return attr.bind)

lemma attr_times: "keeps (attributes E) (fetchBlockTimes E txs)"
proof -
  have "keeps (attributes E) (block_times E hs)" for hs
    by (induction hs) (auto intro!: attr.return attr.bind attr_client)
  then show ?thesis by (simp add: fetchBlockTimes_def)
qed

lemma attr_record:
  "(\<And>tx bt. keeps (attributes E) (f tx bt)) \<Longrightarrow> keeps (attributes E) (record_all E f txs)"
  unfolding record_all_def by (intro attr.rules attr_times attr_each)

lemma attr_token_events: "keeps (attributes E) (token_events E tx bt i evs)"
proof (induction evs arbitrary: i)
  case (Cons ev evs)
  then show ?case unfolding token_events.simps InsertTokenTransfer_def Let_def
    by (intro attr_rules) simp_all
qed (simp add: attr.return)

lemma attr_coin_events: "keeps (attributes E) (coin_events E tx bt i evs)"
proof (induction evs arbitrary: i)
  case (Cons ev evs)
  then show ?case unfolding coin_events.simps InsertCoinTransfer_def
    by (intro attr_rules) simp_all
qed (simp add: attr.return)

lemma attr_fetch_blocks: "keeps (attributes E) (fetch_blocks E hs)"
  by (induction hs) (auto intro!: attr_rules)

lemma attr_tokens: "keeps (attributes E) (backfillTokenTransfers E)"
proof -
  have range: "keeps (attributes E) (TokenBackfillRange E n)" for n
    unfolding TokenBackfillRange_def Let_def by (intro attr_rules attr_state) simp_all
  have recs: "keeps (attributes E) (recordTokenTransfers E tx bt)" for tx bt
    unfolding recordTokenTransfers_def by (intro attr_rules attr_token_events)
  show ?thesis unfolding backfillTokenTransfers_def Let_def
    by (intro attr_rules range attr_fetch_blocks attr_record recs attr_state)
qed

lemma attr_windows: "keeps (attributes E) (coin_windows E tip n c)"
proof (induction n arbitrary: c)
  case (Suc n)
  have mark: "keeps (attributes E) (markCoinBackfillDone E)"
    unfolding markCoinBackfillDone_def by (intro attr.rules attr_state)
  have recs: "keeps (attributes E) (recordCoinTransfers E tx bt)" for tx bt
    unfolding recordCoinTransfers_def by (intro attr_rules attr_coin_events)
  have handle: "keeps (attributes E) (case r of
        No_transfer_events \<Rightarrow> markCoinBackfillDone E
      | Window_failed \<Rightarrow> State_Monad.return ()
      | Window txs trunc \<Rightarrow> k txs trunc)"
    if "\<And>txs trunc. keeps (attributes E) (k txs trunc)" for r k
    using that mark by (cases r) (simp_all add: attr.return)
  show ?case unfolding coin_windows.simps CoinTransferWindow_def Let_def
    by (intro attr_rules mark handle attr_record recs attr_state Suc)
qed (simp add: attr.return)

lemma attr_coins: "keeps (attributes E) (backfillCoinTransfers E)"
  unfolding backfillCoinTransfers_def by (intro attr_rules attr_state attr_client attr_windows)

text \<open>A reset takes the blocks and the memo together.\<close>

lemma reset_attributed:
  fixes s :: "'w sync"
  assumes "attributed E s" "run_state (checkChainReset E) s = (r, t)"
  shows "attributed E t"
proof -
  have "untouched s t \<or> adopted E s t \<or> reset_for E s t"
    using checkChainReset_outcome [of E s] assms(2) by (simp add: wp_def)
  then show ?thesis
  proof (elim disjE)
    assume "untouched s t"
    then have "attributes E s t" by (intro attr_same) (simp_all add: untouched_def)
    then show ?thesis using assms(1) by (simp add: attributes_def)
  next
    assume "adopted E s t"
    then have "attributes E s t" by (intro attr_same) (auto simp: adopted_def)
    then show ?thesis using assms(1) by (simp add: attributes_def)
  next
    assume "reset_for E s t"
    then have "db_blocks (sy_db t) = filter (\<lambda>r. fst (fst r) \<noteq> e_net E) (db_blocks (sy_db s))"
      and "sy_proposers t = (\<lambda>_. None)"
      by (auto simp: reset_for_def discarded_blocks)
    then show ?thesis by (simp add: attributed_def memo_ok_def)
  qed
qed

text \<open>
  C7. Every stored block of a network names a proposer that exists, or none, and what the
  syncer remembers of proposers agrees with the table: in every state that any sequence
  of passes, chain resets and restarts of the process reaches, whatever the database and
  the indexer do, so that joining the blocks with their proposers drops no block.
\<close>

theorem blocks_name_existing_proposers:
  assumes "synced E s"
  shows "(\<forall>row \<in> set (db_blocks (sy_db s)). fst (fst row) = e_net E \<longrightarrow>
      row_proposer (snd row) = 0 \<or>
      (\<exists>a. map_of (db_proposers (sy_db s)) (e_net E, a) = Some (row_proposer (snd row)))) \<and>
    (\<forall>a i. sy_proposers s a = Some i \<longrightarrow> map_of (db_proposers (sy_db s)) (e_net E, a) = Some i)"
proof -
  have "attributed E s"
    using assms
  proof induction
    case (fresh d w)
    then show ?case by (simp add: attributed_def memo_ok_def)
  next
    case (restart s w)
    then show ?case by (simp add: attributed_def memo_ok_def proposer_known_def)
  next
    case (reset s r t)
    then show ?case by (blast intro: reset_attributed)
  next
    case (blocks s t)
    then show ?case using keepsD [OF attr_blocks] by (auto simp: attributes_def)
  next
    case (tokens s t)
    then show ?case using keepsD [OF attr_tokens] by (auto simp: attributes_def)
  next
    case (coins s t)
    then show ?case using keepsD [OF attr_coins] by (auto simp: attributes_def)
  qed
  then show ?thesis by (simp add: attributed_def memo_ok_def proposer_known_def)
qed

text \<open>A pass over seven blocks that two validators propose in turn.\<close>

definition turns_env :: "unit env" where
  "turns_env = (demo_env 3 9 10 [])\<lparr>x_blocks := \<lambda>gt lt w. (Some (map
     (\<lambda>h. (demo_block h)\<lparr>blk_proposer := if h mod 2 = 0 then ''even'' else ''odd''\<rparr>)
     [max (gt + 1) 3..min (lt - 1) 9]), w)\<rparr>"

definition after_blocks :: "unit sync" where
  "after_blocks = snd (run_state (syncBlocks turns_env) (new_sync () empty_db))"

lemma after_blocks_rows:
  "map (\<lambda>r. (fst (fst r), row_proposer (snd r))) (db_blocks (sy_db after_blocks)) =
   map (Pair ''net'') [1, 2, 1, 2, 1, 2, 2]"
  by code_simp

theorem blocks_name_existing_proposers_witness:
  "\<exists>a. map_of (db_proposers (sy_db after_blocks)) (''net'', a) = Some 2"
proof -
  have net: "e_net turns_env = ''net''" by (simp add: turns_env_def)
  have "synced turns_env (new_sync () empty_db)"
    unfolding new_sync_def by (rule synced.fresh) (simp add: empty_db_def)
  then have "synced turns_env after_blocks"
    by (rule synced.blocks) (simp add: after_blocks_def prod_eq_iff)
  note known = blocks_name_existing_proposers [OF this, THEN conjunct1, unfolded net]
  have "(''net'', 2) \<in> (\<lambda>r. (fst (fst r), row_proposer (snd r))) ` set (db_blocks (sy_db after_blocks))"
    unfolding set_map [symmetric] after_blocks_rows by simp
  then obtain row where "row \<in> set (db_blocks (sy_db after_blocks))" "fst (fst row) = ''net''" "row_proposer (snd row) = 2"
    by force
  with known show ?thesis by force
qed

end
