(* ===== verification/Endpoint_Pool.thy ===== *)
theory Endpoint_Pool
  imports Go_Prelude Go_State
begin

text \<open>
  The indexer client (\<^verbatim>\<open>Client\<close> of \<^verbatim>\<open>pkg/indexer/indexer.go\<close>): a pool of endpoints for one
  chain, the choice between them by probes, the move to the next one on an error, and the
  circuit breaker. The endpoints and the clock are an outside world.
\<close>

section \<open>State and world\<close>

text \<open>Errors by what the client distinguishes; \<open>Other\<close> is any other error.\<close>

datatype qerr = Canceled | TooLarge | NotFound | Graphql | Unavailable | Other

datatype 'q request = Probe_request | Type_request string | Request 'q

text \<open>
  The data of an answer: the tip and the first block's chain and hash, a type or its
  absence, an answer to a query of the callers, or data of another shape than asked for.
\<close>

datatype 'r data = Probed int "(string \<times> string) list" | Type_known bool | Data 'r | Undecodable

record 'r gql =
  g_data :: "'r data"
  g_errors :: "string list"

text \<open>No reply, by a cancellation of the caller or another reason, or a status and a body.\<close>

datatype 'r http = Unsent bool | Http int "'r gql option"

record ('q, 'r, 'w) pool_env =
  p_http :: "string \<Rightarrow> 'q request \<Rightarrow> 'w \<Rightarrow> 'r http \<times> 'w"
  p_now :: "'w \<Rightarrow> int \<times> 'w"

text \<open>Times are nanoseconds, with \<^term>\<open>None\<close> for Go's zero time.\<close>

record client =
  cl_urls :: "string list"
  cl_failures :: int
  cl_skip :: "int option"
  cl_active :: nat
  cl_probed :: "int option"
  cl_fingerprint :: string
  cl_types :: "string \<Rightarrow> bool option"

record 'w pool =
  po_client :: client
  po_world :: 'w

type_synonym ('w, 'a) pio = "('w pool, 'a) state"

definition world :: "('w \<Rightarrow> 'a \<times> 'w) \<Rightarrow> ('w, 'a) pio" where
  "world f = zoom po_world (\<lambda>w p. p\<lparr>po_world := w\<rparr>) f"

text \<open>A critical section of the client's mutex.\<close>

definition locked :: "(client \<Rightarrow> 'a \<times> client) \<Rightarrow> ('w, 'a) pio" where
  "locked f = zoom po_client (\<lambda>c p. p\<lparr>po_client := c\<rparr>) f"

section \<open>The client\<close>

definition normalize_url :: "string \<Rightarrow> string" where
  "normalize_url url =
     (let url = rev (dropWhile (\<lambda>c. c = CHR ''/'') (rev url))
      in if has_suffix url ''/graphql'' then url @ ''/query'' else url)"

definition newIndexerClient :: "string list \<Rightarrow> client" where
  "newIndexerClient urls =
     \<lparr>cl_urls = filter (\<lambda>u. u \<noteq> '''') (map normalize_url urls), cl_failures = 0, cl_skip = None,
      cl_active = 0, cl_probed = None, cl_fingerprint = '''', cl_types = Map.empty\<rparr>"

definition second :: int where "second = 1000000000"
definition clientBreakerThreshold :: int where "clientBreakerThreshold = 2"
definition clientBreakerCooldown :: int where "clientBreakerCooldown = 30 * second"
definition endpointProbeInterval :: int where "endpointProbeInterval = 120 * second"
definition endpointLead :: int where "endpointLead = 30"

definition breakerOpen :: "('q, 'r, 'w) pool_env \<Rightarrow> ('w, bool) pio" where
  "breakerOpen E = do {
     now \<leftarrow> world (p_now E);
     locked (\<lambda>c. (case cl_skip c of None \<Rightarrow> False | Some t \<Rightarrow> now < t, c))
   }"

definition recordResult :: "('q, 'r, 'w) pool_env \<Rightarrow> bool \<Rightarrow> ('w, unit) pio" where
  "recordResult E ok =
     (if ok then locked (\<lambda>c. ((), c\<lparr>cl_failures := 0, cl_skip := None\<rparr>))
      else do {
        n \<leftarrow> locked (\<lambda>c. (cl_failures c + 1, c\<lparr>cl_failures := cl_failures c + 1\<rparr>));
        if clientBreakerThreshold \<le> n then do {
          now \<leftarrow> world (p_now E);
          locked (\<lambda>c. ((), c\<lparr>cl_skip := Some (now + clientBreakerCooldown)\<rparr>))
        }
        else State_Monad.return ()
      })"

definition activeURL :: "('w, string) pio" where
  "activeURL = locked (\<lambda>c. (if length (cl_urls c) = 0 then '''' else cl_urls c ! cl_active c, c))"

section \<open>A request\<close>

definition indexerNotFoundMessage :: string where
  "indexerNotFoundMessage = ''item not found in storage''"

text \<open>
  What a reply means to a caller that can read \<open>wanted\<close> data: the data, or an error, or
  both for an answer that was cut at the element cap.
\<close>

definition read_reply :: "('r data \<Rightarrow> bool) \<Rightarrow> 'r http \<Rightarrow> 'r data option \<times> qerr option" where
  "read_reply wanted rep =
     (case rep of
        Unsent canceled \<Rightarrow> (None, Some (if canceled then Canceled else Other))
      | Http status body \<Rightarrow>
          if status \<noteq> 200 then (None, Some Other)
          else case body of
            None \<Rightarrow> (None, Some Other)
          | Some g \<Rightarrow>
              (case g_errors g of
                 [] \<Rightarrow> if wanted (g_data g) then (Some (g_data g), None) else (None, Some Other)
               | m # _ \<Rightarrow>
                   if list_ex (\<lambda>m. str_contains m ''max elements per query'') (g_errors g)
                   then (if wanted (g_data g) then (Some (g_data g), Some TooLarge) else (None, Some Other))
                   else if str_contains m indexerNotFoundMessage then (None, Some NotFound)
                   else (None, Some Graphql)))"

definition wanted_by :: "'q request \<Rightarrow> 'r data \<Rightarrow> bool" where
  "wanted_by q d =
     (case (q, d) of (Probe_request, Probed _ _) \<Rightarrow> True | (Type_request _, Type_known _) \<Rightarrow> True
      | (Request _, Data _) \<Rightarrow> True | _ \<Rightarrow> False)"

definition doQuery ::
  "('q, 'r, 'w) pool_env \<Rightarrow> string \<Rightarrow> 'q request \<Rightarrow> ('w, 'r data option \<times> qerr option) pio" where
  "doQuery E url q = do {
     rep \<leftarrow> world (p_http E url q);
     State_Monad.return (read_reply (wanted_by q) rep)
   }"

definition answered :: "qerr \<Rightarrow> bool" where
  "answered e \<longleftrightarrow> e \<in> {NotFound, TooLarge, Canceled, Graphql}"

section \<open>What an endpoint understands\<close>

definition typeSupportKey :: "string \<Rightarrow> string \<Rightarrow> string" where
  "typeSupportKey url name = url @ [CHR 0x00] @ name"

definition supportsTypeAt :: "('q, 'r, 'w) pool_env \<Rightarrow> string \<Rightarrow> string \<Rightarrow> ('w, bool) pio" where
  "supportsTypeAt E url name = do {
     known \<leftarrow> locked (\<lambda>c. (cl_types c (typeSupportKey url name), c));
     case known of
       Some b \<Rightarrow> State_Monad.return b
     | None \<Rightarrow> do {
         open \<leftarrow> breakerOpen E;
         if open then State_Monad.return True
         else do {
           (d, err) \<leftarrow> doQuery E url (Type_request name);
           let supported = (err \<noteq> None \<or> d = Some (Type_known True));
           locked (\<lambda>c. ((), if err = None
             then c\<lparr>cl_types := (cl_types c)(typeSupportKey url name \<mapsto> supported)\<rparr> else c));
           State_Monad.return supported
         }
       }
   }"

text \<open>Here the endpoint and the cache are read in one critical section.\<close>

definition supportsType :: "('q, 'r, 'w) pool_env \<Rightarrow> string \<Rightarrow> ('w, bool) pio" where
  "supportsType E name = do {
     (url, known) \<leftarrow> locked (\<lambda>c.
       let url = (if length (cl_urls c) > 0 then cl_urls c ! cl_active c else '''')
       in ((url, cl_types c (typeSupportKey url name)), c));
     case known of
       Some b \<Rightarrow> State_Monad.return b
     | None \<Rightarrow> do {
         open \<leftarrow> breakerOpen E;
         if open then State_Monad.return True
         else do {
           (d, err) \<leftarrow> doQuery E url (Type_request name);
           let supported = (err \<noteq> None \<or> d = Some (Type_known True));
           locked (\<lambda>c. ((), if err = None
             then c\<lparr>cl_types := (cl_types c)(typeSupportKey url name \<mapsto> supported)\<rparr> else c));
           State_Monad.return supported
         }
       }
   }"

primrec first_supporting :: "('q, 'r, 'w) pool_env \<Rightarrow> string \<Rightarrow> string list \<Rightarrow> ('w, string) pio" where
  "first_supporting E name [] = State_Monad.return ''''"
| "first_supporting E name (url # urls) = do {
     ok \<leftarrow> supportsTypeAt E url name;
     if ok then State_Monad.return url else first_supporting E name urls
   }"

definition endpointFor :: "('q, 'r, 'w) pool_env \<Rightarrow> string \<Rightarrow> ('w, string) pio" where
  "endpointFor E name = do {
     (urls, active) \<leftarrow> locked (\<lambda>c. ((cl_urls c, cl_active c), c));
     if length urls = 0 then State_Monad.return ''''
     else if active < length urls then do {
       ok \<leftarrow> supportsTypeAt E (urls ! active) name;
       if ok then State_Monad.return (urls ! active) else first_supporting E name urls
     }
     else first_supporting E name urls
   }"

section \<open>The choice of an endpoint\<close>

record endpoint_state =
  es_index :: nat
  es_tip :: int
  es_fingerprint :: string
  es_err :: bool

definition probe :: "('q, 'r, 'w) pool_env \<Rightarrow> nat \<Rightarrow> string \<Rightarrow> ('w, endpoint_state) pio" where
  "probe E i url = do {
     (d, err) \<leftarrow> doQuery E url Probe_request;
     State_Monad.return
       (case (d, err) of
          (Some (Probed tip blocks), None) \<Rightarrow>
            \<lparr>es_index = i, es_tip = tip,
             es_fingerprint =
               (case blocks of (chain, hash) # _ \<Rightarrow> if hash \<noteq> '''' then chain @ '':'' @ hash else ''''
                | [] \<Rightarrow> ''''),
             es_err = False\<rparr>
        | _ \<Rightarrow> \<lparr>es_index = i, es_tip = 0, es_fingerprint = '''', es_err = True\<rparr>)
   }"

text \<open>The code probes all endpoints at once; here in their order.\<close>

primrec probe_all :: "('q, 'r, 'w) pool_env \<Rightarrow> nat \<Rightarrow> string list \<Rightarrow> ('w, endpoint_state list) pio" where
  "probe_all E i [] = State_Monad.return []"
| "probe_all E i (url # urls) = do {
     st \<leftarrow> probe E i url;
     rest \<leftarrow> probe_all E (Suc i) urls;
     State_Monad.return (st # rest)
   }"

definition adopt_identity :: "string \<Rightarrow> endpoint_state list \<Rightarrow> string" where
  "adopt_identity known sts =
     (if known \<noteq> '''' then known
      else case filter (\<lambda>st. \<not> es_err st \<and> es_fingerprint st \<noteq> '''') sts of
        [] \<Rightarrow> '''' | st # _ \<Rightarrow> es_fingerprint st)"

definition eligible :: "string \<Rightarrow> endpoint_state \<Rightarrow> bool" where
  "eligible known st \<longleftrightarrow> \<not> es_err st \<and>
     \<not> (known \<noteq> '''' \<and> es_fingerprint st \<noteq> '''' \<and> es_fingerprint st \<noteq> known)"

definition best_tip :: "string \<Rightarrow> endpoint_state list \<Rightarrow> int" where
  "best_tip known sts = fold (\<lambda>st best. if eligible known st \<and> best < es_tip st then es_tip st else best) sts (- 1)"

definition choose_endpoint :: "string \<Rightarrow> endpoint_state list \<Rightarrow> nat option" where
  "choose_endpoint known sts =
     (case filter (\<lambda>st. eligible known st \<and> best_tip known sts - endpointLead \<le> es_tip st) sts of
        [] \<Rightarrow> None | st # _ \<Rightarrow> Some (es_index st))"

text \<open>The probes of a round and what follows from them.\<close>

definition reselect :: "('q, 'r, 'w) pool_env \<Rightarrow> string list \<Rightarrow> string \<Rightarrow> ('w, unit) pio" where
  "reselect E urls known = do {
     sts \<leftarrow> probe_all E 0 urls;
     let known = adopt_identity known sts;
     case choose_endpoint known sts of
       None \<Rightarrow> State_Monad.return ()
     | Some i \<Rightarrow> locked (\<lambda>c. ((),
         (if known \<noteq> '''' then c\<lparr>cl_fingerprint := known\<rparr> else c)\<lparr>cl_active := i\<rparr>))
   }"

definition selectEndpoint :: "('q, 'r, 'w) pool_env \<Rightarrow> ('w, unit) pio" where
  "selectEndpoint E = do {
     (n, probed) \<leftarrow> locked (\<lambda>c. ((length (cl_urls c), cl_probed c), c));
     if n < 2 then State_Monad.return ()
     else do {
       now \<leftarrow> world (p_now E);
       if probed \<noteq> None \<and> now - the probed < endpointProbeInterval then State_Monad.return ()
       else do {
         now \<leftarrow> world (p_now E);
         (urls, known) \<leftarrow> locked (\<lambda>c. ((cl_urls c, cl_fingerprint c), c\<lparr>cl_probed := Some now\<rparr>));
         reselect E urls known
       }
     }
   }"

definition failOver :: "('w, string option) pio" where
  "failOver = locked (\<lambda>c.
     if length (cl_urls c) < 2 then (None, c)
     else let i = (cl_active c + 1) mod length (cl_urls c)
          in (Some (cl_urls c ! i), c\<lparr>cl_active := i, cl_probed := None\<rparr>))"

section \<open>A query\<close>

definition counted_err :: "qerr option \<Rightarrow> bool" where
  "counted_err err \<longleftrightarrow> err \<notin> {Some Canceled, Some TooLarge, Some NotFound}"

text \<open>The request, and the second one to the next endpoint when the first was not answered.\<close>

definition attempt ::
  "('q, 'r, 'w) pool_env \<Rightarrow> 'q request \<Rightarrow> ('w, 'r data option \<times> qerr option) pio" where
  "attempt E q = do {
     url \<leftarrow> activeURL;
     first \<leftarrow> doQuery E url q;
     if snd first \<noteq> None \<and> \<not> answered (the (snd first)) then do {
       over \<leftarrow> failOver;
       case over of
         None \<Rightarrow> State_Monad.return first
       | Some url \<Rightarrow> doQuery E url q
     }
     else State_Monad.return first
   }"

definition query ::
  "('q, 'r, 'w) pool_env \<Rightarrow> 'q request \<Rightarrow> ('w, 'r data option \<times> qerr option) pio" where
  "query E q = do {
     open \<leftarrow> breakerOpen E;
     if open then State_Monad.return (None, Some Unavailable)
     else do {
       selectEndpoint E;
       result \<leftarrow> attempt E q;
       _ \<leftarrow> (if counted_err (snd result) then recordResult E (snd result = None) else State_Monad.return ());
       State_Monad.return result
     }
   }"

end
