(* ===== verification/Endpoint_Safety.thy ===== *)
theory Endpoint_Safety
  imports Endpoint_Pool Sync_Machine
begin

text \<open>
  What the pool of endpoints promises and what it does not: which endpoint a probe
  selects, what the circuit breaker counts, and what a single failed request can do to
  the chain that is followed.
\<close>

section \<open>Programs\<close>

lemma run_world [simp]: "run_state (world f) p = (case f (po_world p) of (a, w) \<Rightarrow> (a, p\<lparr>po_world := w\<rparr>))"
  by (simp add: world_def)

lemma run_locked [simp]: "run_state (locked f) p = (case f (po_client p) of (a, c) \<Rightarrow> (a, p\<lparr>po_client := c\<rparr>))"
  by (simp add: locked_def)

lemma wp_locked: "wp (locked f) Q p = Q (fst (f (po_client p))) (p\<lparr>po_client := snd (f (po_client p))\<rparr>)"
  by (simp add: wp_def case_prod_beta)

lemma wp_world: "(\<And>a w. f (po_world p) = (a, w) \<Longrightarrow> Q a (p\<lparr>po_world := w\<rparr>)) \<Longrightarrow> wp (world f) Q p"
  by (simp add: wp_def split: prod.splits)

section \<open>The choice\<close>

lemma best_tip_bounds:
  "(\<forall>st \<in> set sts. eligible known st \<longrightarrow> es_tip st \<le> best_tip known sts) \<and>
   (best_tip known sts = - 1 \<or> (\<exists>st \<in> set sts. eligible known st \<and> es_tip st = best_tip known sts))"
proof -
  have "(\<forall>st \<in> set sts. eligible known st \<longrightarrow> es_tip st \<le> fold (\<lambda>st best. if eligible known st \<and> best < es_tip st then es_tip st else best) sts b) \<and>
    b \<le> fold (\<lambda>st best. if eligible known st \<and> best < es_tip st then es_tip st else best) sts b \<and>
    (fold (\<lambda>st best. if eligible known st \<and> best < es_tip st then es_tip st else best) sts b = b \<or>
     (\<exists>st \<in> set sts. eligible known st \<and> es_tip st = fold (\<lambda>st best. if eligible known st \<and> best < es_tip st then es_tip st else best) sts b))" for b
  proof (induction sts arbitrary: b)
    case (Cons st sts)
    show ?case using Cons.IH [of b] Cons.IH [of "es_tip st"] by (auto simp: le_less_trans)
  qed simp
  from this [of "- 1"] show ?thesis by (simp add: best_tip_def)
qed

lemma filter_head:
  assumes "filter P xs = x # ys"
  shows "\<exists>i < length xs. x = xs ! i \<and> P x \<and> (\<forall>j < i. \<not> P (xs ! j))"
  using assms
proof (induction xs)
  case (Cons a xs)
  show ?case
  proof (cases "P a")
    case True
    with Cons.prems show ?thesis by (intro exI [of _ 0]) simp
  next
    case False
    with Cons obtain i where "i < length xs" "x = xs ! i" "P x" "\<forall>j < i. \<not> P (xs ! j)" by auto
    with False show ?thesis by (intro exI [of _ "Suc i"]) (auto simp: less_Suc_eq_0_disj)
  qed
qed simp

lemma probe_all_indices:
  fixes p :: "'w pool"
  shows "wp (probe_all E i urls) (\<lambda>sts p'. map es_index sts = [i..<i + length urls] \<and> po_client p' = po_client p) p"
proof (induction urls arbitrary: i p)
  case Nil
  show ?case by simp
next
  case (Cons url urls)
  have "wp (probe E i url) (\<lambda>st p'. es_index st = i \<and> po_client p' = po_client p) p"
    by (auto simp: probe_def doQuery_def case_prod_beta intro!: wp_world split: option.splits data.splits)
  then show ?case unfolding probe_all.simps wp_bind wp_return
  proof (rule wp_mono, elim conjE)
    fix st :: endpoint_state and p' :: "'w pool" assume st: "es_index st = i" "po_client p' = po_client p"
    show "wp (probe_all E (Suc i) urls) (\<lambda>sts p''. map es_index (st # sts) = [i..<i + length (url # urls)] \<and>
        po_client p'' = po_client p) p'"
      by (rule wp_mono [OF Cons.IH]) (use st in \<open>simp add: upt_conv_Cons del: upt_Suc\<close>)
  qed
qed

text \<open>
  What is chosen among the probed endpoints: one that is on the pool's chain as far as it
  can be told, at most 30 blocks behind the furthest of those, and no earlier one in the
  configured order would have done.
\<close>

definition good_choice :: "string \<Rightarrow> endpoint_state list \<Rightarrow> nat \<Rightarrow> bool" where
  "good_choice known sts i \<longleftrightarrow> i < length sts \<and> eligible known (sts ! i) \<and>
     (\<forall>j < length sts. eligible known (sts ! j) \<longrightarrow> es_tip (sts ! j) - endpointLead \<le> es_tip (sts ! i)) \<and>
     (\<forall>j < i. eligible known (sts ! j) \<longrightarrow>
        (\<exists>k < length sts. eligible known (sts ! k) \<and> es_tip (sts ! j) < es_tip (sts ! k) - endpointLead))"

lemma choose_endpoint_good:
  assumes "map es_index sts = [0..<length sts]" "choose_endpoint known sts = Some i"
    and "\<forall>st \<in> set sts. 0 \<le> es_tip st"
  shows "good_choice known sts i"
proof -
  let ?P = "\<lambda>st. eligible known st \<and> best_tip known sts - endpointLead \<le> es_tip st"
  obtain st rest where "filter ?P sts = st # rest" "es_index st = i"
    using assms(2) by (auto simp: choose_endpoint_def split: list.splits)
  with filter_head [of ?P sts st rest] obtain k where
    k: "k < length sts" "st = sts ! k" "?P (sts ! k)" "\<forall>j < k. \<not> ?P (sts ! j)" by auto
  have "es_index (sts ! k) = k" using assms(1) k(1) by (metis add.left_neutral nth_map nth_upt)
  with k \<open>es_index st = i\<close> have i: "i = k" by simp
  have "(\<exists>m < length sts. eligible known (sts ! m) \<and> es_tip (sts ! m) = best_tip known sts)"
    using best_tip_bounds [of sts known] k(1,3) assms(3) by (metis in_set_conv_nth neg_0_le_iff_le not_one_le_zero nth_mem order_trans)
  with k i show ?thesis
    using best_tip_bounds [THEN conjunct1, of sts known] by (fastforce simp: good_choice_def)
qed

section \<open>Probing\<close>

text \<open>Tips are heights, whatever the endpoint.\<close>

definition tips_are_heights :: "('q, 'r, 'w) pool_env \<Rightarrow> bool" where
  "tips_are_heights E \<longleftrightarrow>
     (\<forall>url w status g tip bs. fst (p_http E url Probe_request w) = Http status (Some g) \<longrightarrow>
        g_data g = Probed tip bs \<longrightarrow> 0 \<le> tip)"

lemma probe_tip:
  fixes p :: "'w pool"
  assumes "tips_are_heights E"
  shows "wp (probe E i url) (\<lambda>st p'. 0 \<le> es_tip st) p"
proof -
  obtain rep w where rep: "p_http E url Probe_request (po_world p) = (rep, w)" by fastforce
  have "0 \<le> tip" if "read_reply (wanted_by Probe_request) rep = (Some (Probed tip bs), None)" for tip bs
  proof -
    from that obtain status g where "rep = Http status (Some g)" "g_data g = Probed tip bs"
      by (auto simp: read_reply_def split: http.splits if_splits option.splits list.splits)
    then show ?thesis using assms rep unfolding tips_are_heights_def by (metis fst_conv)
  qed
  then show ?thesis
    by (auto simp: probe_def doQuery_def wp_def rep split: prod.splits option.splits data.splits)
qed

lemma probe_all_tips:
  fixes p :: "'w pool"
  assumes "tips_are_heights E"
  shows "wp (probe_all E i urls) (\<lambda>sts p'. \<forall>st \<in> set sts. 0 \<le> es_tip st) p"
proof (induction urls arbitrary: i p)
  case (Cons url urls)
  show ?case unfolding probe_all.simps wp_bind wp_return
  proof (rule wp_mono [OF probe_tip [OF assms]])
    fix st :: endpoint_state and p' :: "'w pool" assume "0 \<le> es_tip st"
    then show "wp (probe_all E (Suc i) urls) (\<lambda>sts p''. \<forall>s \<in> set (st # sts). 0 \<le> es_tip s) p'"
      by (intro wp_mono [OF Cons.IH]) simp
  qed
qed simp

lemma probe_all_probed:
  fixes p :: "'w pool"
  assumes "run_state (probe_all E 0 urls) p = (sts, p')" "tips_are_heights E"
  shows "map es_index sts = [0..<length urls]" "length sts = length urls" "po_client p' = po_client p"
    "\<forall>st \<in> set sts. 0 \<le> es_tip st"
proof -
  show 1: "map es_index sts = [0..<length urls]" and "po_client p' = po_client p"
    using probe_all_indices [of E 0 urls p] assms(1) by (simp_all add: wp_def)
  show "length sts = length urls" using arg_cong [OF 1, of length] by simp
  show "\<forall>st \<in> set sts. 0 \<le> es_tip st" using probe_all_tips [OF assms(2), of 0 urls p] assms(1) by (simp add: wp_def)
qed

text \<open>What a call of \<^const>\<open>selectEndpoint\<close> does to the client, with the answers it was given.\<close>

definition reselected :: "('q, 'r, 'w) pool_env \<Rightarrow> 'w pool \<Rightarrow> client \<Rightarrow> client \<Rightarrow> bool" where
  "reselected E p c c' \<longleftrightarrow>
     (let sts = fst (run_state (probe_all E 0 (cl_urls c)) p); known = adopt_identity (cl_fingerprint c) sts
      in good_choice known sts (cl_active c') \<and> cl_fingerprint c' = known)"

definition same_but_choice :: "client \<Rightarrow> client \<Rightarrow> bool" where
  "same_but_choice c c' \<longleftrightarrow> cl_urls c' = cl_urls c \<and> cl_failures c' = cl_failures c \<and>
     cl_skip c' = cl_skip c \<and> cl_types c' = cl_types c"

definition selection :: "('q, 'r, 'w) pool_env \<Rightarrow> client \<Rightarrow> client \<Rightarrow> bool" where
  "selection E c c' \<longleftrightarrow> same_but_choice c c' \<and>
     (cl_active c' = cl_active c \<and> cl_fingerprint c' = cl_fingerprint c \<or> (\<exists>p. reselected E p c c'))"

lemma reselect_selects:
  fixes p :: "'w pool"
  assumes "tips_are_heights E" "same_but_choice c (po_client p)" "cl_active (po_client p) = cl_active c"
    "cl_fingerprint (po_client p) = cl_fingerprint c"
  shows "wp (reselect E (cl_urls c) (cl_fingerprint c)) (\<lambda>_ p'. selection E c (po_client p')) p"
proof -
  obtain sts r where run: "run_state (probe_all E 0 (cl_urls c)) p = (sts, r)" by fastforce
  note st = probe_all_probed [OF run assms(1)]
  let ?known = "adopt_identity (cl_fingerprint c) sts"
  show ?thesis
  proof (cases "choose_endpoint ?known sts")
    case None
    then show ?thesis using st(3) assms by (simp add: reselect_def wp_of_run [OF run] Let_def selection_def)
  next
    case (Some i)
    let ?c' = "(if ?known \<noteq> '''' then (po_client r)\<lparr>cl_fingerprint := ?known\<rparr> else po_client r)\<lparr>cl_active := i\<rparr>"
    have empty: "cl_fingerprint c = ''''" if "?known = ''''"
      using that by (auto simp: adopt_identity_def split: if_splits)
    have "good_choice ?known sts i" by (rule choose_endpoint_good) (use st Some in simp_all)
    moreover have "cl_fingerprint ?c' = ?known" "cl_active ?c' = i" "same_but_choice c ?c'"
      using st(3) assms(2,4) empty by (simp_all add: same_but_choice_def)
    ultimately have "reselected E p c ?c'" by (simp add: reselected_def run)
    then have "selection E c ?c'" using \<open>same_but_choice c ?c'\<close> by (auto simp: selection_def)
    then show ?thesis using Some by (simp add: reselect_def wp_of_run [OF run] Let_def wp_locked)
  qed
qed

lemma selectEndpoint_selects:
  fixes p :: "'w pool"
  assumes "tips_are_heights E"
  shows "wp (selectEndpoint E) (\<lambda>_ p'. selection E (po_client p) (po_client p')) p"
proof -
  obtain now w where 1: "p_now E (po_world p) = (now, w)" by fastforce
  obtain now' w' where 2: "p_now E w = (now', w')" by fastforce
  let ?p = "p\<lparr>po_world := w', po_client := (po_client p)\<lparr>cl_probed := Some now'\<rparr>\<rparr>"
  have "wp (reselect E (cl_urls (po_client p)) (cl_fingerprint (po_client p)))
      (\<lambda>_ p'. selection E (po_client p) (po_client p')) ?p"
    by (rule reselect_selects [OF assms]) (simp_all add: same_but_choice_def)
  then show ?thesis
    by (auto simp: selectEndpoint_def wp_def 1 2 selection_def same_but_choice_def)
qed

section \<open>What every query keeps\<close>

definition in_range :: "client \<Rightarrow> bool" where
  "in_range c \<longleftrightarrow> cl_urls c = [] \<or> cl_active c < length (cl_urls c)"

definition steady :: "'w pool \<Rightarrow> 'w pool \<Rightarrow> bool" where
  "steady p p' \<longleftrightarrow> cl_urls (po_client p') = cl_urls (po_client p) \<and>
     (in_range (po_client p) \<longrightarrow> in_range (po_client p')) \<and>
     (cl_fingerprint (po_client p) \<noteq> '''' \<longrightarrow> cl_fingerprint (po_client p') = cl_fingerprint (po_client p))"

interpretation steady: kept steady
  by unfold_locales (auto simp: steady_def)

lemma selection_steady:
  assumes "selection E (po_client p) (po_client p')"
  shows "steady p p'"
proof -
  have "cl_active c' < length (cl_urls c) \<and> (cl_fingerprint c \<noteq> '''' \<longrightarrow> cl_fingerprint c' = cl_fingerprint c)"
    if "reselected E q c c'" for q c c'
  proof -
    let ?sts = "fst (run_state (probe_all E 0 (cl_urls c)) q)"
    have "length (map es_index ?sts) = length (cl_urls c)"
      using probe_all_indices [of E 0 "cl_urls c" q] by (simp add: wp_fst_snd)
    with that show ?thesis
      by (auto simp: reselected_def Let_def good_choice_def adopt_identity_def)
  qed
  with assms show ?thesis
    by (auto simp: selection_def same_but_choice_def steady_def in_range_def)
qed

lemma steady_same: "po_client p' = po_client p \<Longrightarrow> steady p p'"
  by (simp add: steady_def)

lemma steady_world: "keeps steady (world f)"
  by (rule keepsI, rule wp_world) (simp add: steady_same)

lemma steady_locked:
  assumes "\<And>c. cl_urls (snd (f c)) = cl_urls c \<and> cl_fingerprint (snd (f c)) = cl_fingerprint c \<and>
    (in_range c \<longrightarrow> in_range (snd (f c)))"
  shows "keeps steady (locked f)"
  by (rule keepsI) (use assms in \<open>simp add: wp_locked steady_def\<close>)

lemmas steady_rules = steady.rules steady_world

lemma steady_doQuery: "keeps steady (doQuery E url q)"
  unfolding doQuery_def by (intro steady_rules)

lemma steady_query:
  assumes "tips_are_heights E"
  shows "keeps steady (query E q)"
proof -
  have "keeps steady (selectEndpoint E)"
    by (rule keepsI, rule wp_mono [OF selectEndpoint_selects [OF assms]]) (rule selection_steady)
  moreover have "keeps steady (breakerOpen E)"
    unfolding breakerOpen_def by (intro steady_rules steady_locked) simp
  moreover have "keeps steady (recordResult E ok)" for ok
    unfolding recordResult_def by (intro steady_rules steady_locked) (simp_all add: in_range_def)
  moreover have "keeps steady activeURL"
    unfolding activeURL_def by (intro steady_locked) simp
  moreover have "keeps steady failOver"
    unfolding failOver_def
    by (intro steady_locked) (simp add: in_range_def Let_def, metis length_greater_0_conv mod_less_divisor)
  ultimately show ?thesis unfolding query_def attempt_def by (intro steady.rules steady_doQuery)
qed

text \<open>
  C10. The probes of a pool follow its chain: whatever the endpoints answer, the one
  selected is an endpoint of the pool that answered, is on the pool's chain or cannot
  prove which it is on, is at most 30 blocks behind the furthest such endpoint, and every
  earlier one in the configured order is further behind than that. A pool that knows its
  chain never takes up another.
\<close>

theorem selection_follows_the_chain:
  assumes "tips_are_heights E"
    and "run_state (selectEndpoint E) p = ((), p')"
  defines "c \<equiv> po_client p" and "c' \<equiv> po_client p'"
  shows "cl_urls c' = cl_urls c \<and> (cl_fingerprint c \<noteq> '''' \<longrightarrow> cl_fingerprint c' = cl_fingerprint c) \<and>
    (cl_active c' = cl_active c \<and> cl_fingerprint c' = cl_fingerprint c \<or>
     (\<exists>q. let sts = fst (run_state (probe_all E 0 (cl_urls c)) q); i = cl_active c'; known = cl_fingerprint c' in
        i < length sts \<and> eligible known (sts ! i) \<and>
        (\<forall>j < length sts. eligible known (sts ! j) \<longrightarrow> es_tip (sts ! j) - 30 \<le> es_tip (sts ! i)) \<and>
        (\<forall>j < i. eligible known (sts ! j) \<longrightarrow>
          (\<exists>k < length sts. eligible known (sts ! k) \<and> es_tip (sts ! j) < es_tip (sts ! k) - 30))))"
proof -
  have sel: "selection E c c'"
    using selectEndpoint_selects [OF assms(1), of p] assms(2) by (simp add: wp_def c_def c'_def)
  then have "steady p p'" unfolding c_def c'_def by (rule selection_steady)
  moreover have "reselected E q c c' \<Longrightarrow> let sts = fst (run_state (probe_all E 0 (cl_urls c)) q); i = cl_active c'; known = cl_fingerprint c' in
        i < length sts \<and> eligible known (sts ! i) \<and>
        (\<forall>j < length sts. eligible known (sts ! j) \<longrightarrow> es_tip (sts ! j) - 30 \<le> es_tip (sts ! i)) \<and>
        (\<forall>j < i. eligible known (sts ! j) \<longrightarrow>
          (\<exists>k < length sts. eligible known (sts ! k) \<and> es_tip (sts ! j) < es_tip (sts ! k) - 30))" for q
    by (simp add: reselected_def Let_def good_choice_def endpointLead_def)
  ultimately show ?thesis using sel unfolding selection_def steady_def c_def c'_def by blast
qed

text \<open>Two endpoints at 100 and 200 of one chain: the pool leaves the first for the second.\<close>

definition stalled_primary :: "(unit, unit, unit) pool_env" where
  "stalled_primary = \<lparr>
     p_http = (\<lambda>url q w. (Http 200 (Some \<lparr>g_data = Probed (if url = ''a'' then 100 else 200) [(''main'', ''h'')],
       g_errors = []\<rparr>), w)),
     p_now = (\<lambda>w. (0, w))\<rparr>"

definition fresh_pool :: "unit pool" where
  "fresh_pool = \<lparr>po_client = newIndexerClient [''a'', ''b''], po_world = ()\<rparr>"

definition selected_pool :: "unit pool" where
  "selected_pool = snd (run_state (selectEndpoint stalled_primary) fresh_pool)"

lemma selected_pool_choice: "cl_active (po_client selected_pool) = 1"
  by code_simp

theorem selection_follows_the_chain_witness:
  "cl_active (po_client selected_pool) = 1 \<and> cl_urls (po_client selected_pool) = cl_urls (po_client fresh_pool)"
proof -
  have "tips_are_heights stalled_primary"
    by (auto simp: tips_are_heights_def stalled_primary_def)
  then show ?thesis
    using selection_follows_the_chain [of stalled_primary fresh_pool selected_pool] selected_pool_choice
    by (simp add: selected_pool_def prod_eq_iff)
qed

section \<open>The breaker\<close>

abbreviation breaker_of :: "'w pool \<Rightarrow> int \<times> int option" where
  "breaker_of p \<equiv> (cl_failures (po_client p), cl_skip (po_client p))"

abbreviation same_breaker :: "('w, 'a) pio \<Rightarrow> bool" where
  "same_breaker \<equiv> keeps (\<lambda>p p'. breaker_of p = breaker_of p')"

lemmas breaker_rules = same.rules [where part = breaker_of]

lemma breaker_world: "same_breaker (world f)"
  by (rule keepsI, rule wp_world) simp

lemma breaker_locked:
  assumes "\<And>c. cl_failures (snd (f c)) = cl_failures c \<and> cl_skip (snd (f c)) = cl_skip c"
  shows "same_breaker (locked f)"
  by (rule keepsI) (use assms in \<open>simp add: wp_locked\<close>)

lemma breaker_probe_all: "same_breaker (probe_all E i urls)"
proof (induction urls arbitrary: i)
  case (Cons url urls)
  then show ?case unfolding probe_all.simps probe_def doQuery_def case_prod_beta
    by (intro breaker_rules breaker_world)
qed (simp only: probe_all.simps breaker_rules(1))

lemma breaker_select: "same_breaker (selectEndpoint E)"
  unfolding selectEndpoint_def reselect_def case_prod_beta Let_def
  by (intro breaker_rules breaker_world breaker_locked breaker_probe_all) simp_all

lemma read_reply_available: "snd (read_reply wanted rep) \<noteq> Some Unavailable"
  by (auto simp: read_reply_def split: http.splits option.splits list.splits)

lemma doQuery_available: "wp (doQuery E url q) (\<lambda>r _. snd r \<noteq> Some Unavailable) p"
  unfolding doQuery_def wp_bind wp_return by (rule wp_world) (simp add: read_reply_available)

lemma attempt_breaker:
  fixes p :: "'w pool"
  shows "wp (attempt E q) (\<lambda>r t. snd r \<noteq> Some Unavailable \<and> breaker_of p = breaker_of t) p"
  unfolding wp_conj
proof
  have ask: "same_breaker (doQuery E url q)" for url
    unfolding doQuery_def by (intro breaker_rules breaker_world)
  have "same_breaker (attempt E q)" unfolding attempt_def activeURL_def failOver_def Let_def
    by (intro breaker_rules ask breaker_locked) simp_all
  then show "wp (attempt E q) (\<lambda>_ t. breaker_of p = breaker_of t) p" by (rule keeps_wp)
  have over: "wp failOver (\<lambda>over. wp (case over of None \<Rightarrow> State_Monad.return first | Some url \<Rightarrow> doQuery E url q)
      (\<lambda>r _. snd r \<noteq> Some Unavailable)) t"
    if "snd first \<noteq> Some Unavailable" for first and t :: "'w pool"
    unfolding failOver_def wp_locked using that doQuery_available by (auto split: option.splits)
  show "wp (attempt E q) (\<lambda>r _. snd r \<noteq> Some Unavailable) p"
    unfolding attempt_def activeURL_def wp_bind wp_locked
    by (rule wp_mono [OF doQuery_available]) (use over in \<open>simp add: wp_locked\<close>)
qed

definition is_open :: "('q, 'r, 'w) pool_env \<Rightarrow> 'w pool \<Rightarrow> bool" where
  "is_open E p \<longleftrightarrow> (\<exists>t. cl_skip (po_client p) = Some t \<and> fst (p_now E (po_world p)) < t)"

definition after_result :: "('q, 'r, 'w) pool_env \<Rightarrow> client \<Rightarrow> qerr option \<Rightarrow> client \<Rightarrow> bool" where
  "after_result E c err c' \<longleftrightarrow>
     (if err = None then cl_failures c' = 0 \<and> cl_skip c' = None
      else if err \<in> {Some Canceled, Some TooLarge, Some NotFound}
      then cl_failures c' = cl_failures c \<and> cl_skip c' = cl_skip c
      else cl_failures c' = cl_failures c + 1 \<and>
        (if cl_failures c + 1 < 2 then cl_skip c' = cl_skip c
         else \<exists>w. cl_skip c' = Some (fst (p_now E w) + 30 * second)))"

lemma record_result:
  fixes t :: "'w pool"
  assumes "breaker_of p = breaker_of t"
  shows "wp (if counted_err err then recordResult E (err = None) else State_Monad.return ())
    (\<lambda>_ p'. after_result E (po_client p) err (po_client p')) t"
proof (cases "counted_err err")
  case False
  then show ?thesis using assms by (auto simp: after_result_def counted_err_def)
next
  case True
  show ?thesis
  proof (cases "err = None")
    case True
    then show ?thesis by (simp add: counted_err_def recordResult_def wp_locked after_result_def)
  next
    case False
    have "wp (recordResult E False) (\<lambda>_ p'. after_result E (po_client p) err (po_client p')) t"
      using assms True False
      by (auto simp: recordResult_def wp_locked after_result_def counted_err_def clientBreakerThreshold_def
        clientBreakerCooldown_def intro!: wp_world) (metis fst_conv)
    with True False show ?thesis by (cases err) simp_all
  qed
qed

text \<open>
  C11. The circuit breaker does what its count says. While it is open a query is refused
  and nothing is sent; otherwise an answer closes it, a cancelled, capped or unmatched
  query leaves it as it was, and any other failure is counted_err, the second and every later
  one opening it for thirty seconds from a reading of the clock.
\<close>

theorem breaker_follows_the_results:
  "let (r, p') = run_state (query E q) p; c = po_client p; c' = po_client p' in
     if is_open E p
     then r = (None, Some Unavailable) \<and> p' = p\<lparr>po_world := snd (p_now E (po_world p))\<rparr>
     else snd r \<noteq> Some Unavailable \<and>
       (if snd r = None then cl_failures c' = 0 \<and> cl_skip c' = None
        else if snd r \<in> {Some Canceled, Some TooLarge, Some NotFound}
        then cl_failures c' = cl_failures c \<and> cl_skip c' = cl_skip c
        else cl_failures c' = cl_failures c + 1 \<and>
          (if cl_failures c + 1 < 2 then cl_skip c' = cl_skip c
           else \<exists>w. cl_skip c' = Some (fst (p_now E w) + 30 * second)))"
proof -
  obtain now w where now: "p_now E (po_world p) = (now, w)" by fastforce
  show ?thesis
  proof (cases "is_open E p")
    case True
    then obtain t where "cl_skip (po_client p) = Some t" "now < t" by (auto simp: is_open_def now)
    then show ?thesis using True by (simp add: query_def breakerOpen_def now)
  next
    case False
    let ?p = "p\<lparr>po_world := w\<rparr>"
    have "wp (do { selectEndpoint E; attempt E q }) (\<lambda>r t. snd r \<noteq> Some Unavailable \<and> breaker_of p = breaker_of t) ?p"
      unfolding wp_bind
      by (rule wp_mono [OF keeps_wp [OF breaker_select]]) (use attempt_breaker in \<open>fastforce elim: wp_mono\<close>)
    then have inner: "wp (do {
        selectEndpoint E;
        result \<leftarrow> attempt E q;
        _ \<leftarrow> (if counted_err (snd result) then recordResult E (snd result = None) else State_Monad.return ());
        State_Monad.return result
      }) (\<lambda>r p'. snd r \<noteq> Some Unavailable \<and> after_result E (po_client p) (snd r) (po_client p')) ?p"
      unfolding wp_bind wp_return
      by (elim wp_mono) (elim conjE, rule wp_mono [OF record_result], assumption, simp)
    have closed: "run_state (breakerOpen E) p = (False, ?p)"
      using False by (auto simp: breakerOpen_def is_open_def now split: option.splits)
    have "wp (query E q) (\<lambda>r p'. snd r \<noteq> Some Unavailable \<and> after_result E (po_client p) (snd r) (po_client p')) p"
      unfolding query_def wp_bind [of "breakerOpen E"] wp_of_run [OF closed] if_False by (rule inner)
    with False show ?thesis by (simp add: wp_def after_result_def Let_def case_prod_beta)
  qed
qed

section \<open>The move to the next endpoint\<close>

text \<open>
  The comment on \<^verbatim>\<open>selectEndpoint\<close> lets an endpoint that cannot prove its chain lose to any
  that agrees with the pool's. It wins when it is listed first and is not far behind.
\<close>

lemma unproven_endpoint_wins:
  assumes "es_index a = 0" "\<not> es_err a" "es_fingerprint a = ''''" "0 \<le> es_tip a"
    and "es_index b = 1" "\<not> es_err b" "es_fingerprint b = known" "0 \<le> es_tip b"
    and "known \<noteq> ''''" "es_tip b - endpointLead \<le> es_tip a"
  shows "choose_endpoint known [a, b] = Some 0"
proof -
  have "eligible known a" "eligible known b" using assms by (simp_all add: eligible_def)
  then show ?thesis
    using assms by (auto simp: choose_endpoint_def best_tip_def endpointLead_def)
qed

text \<open>
  A pool of two endpoints of which the first is in use and was probed recently, and
  which knows its chain; a request to the first one is not answered.
\<close>

definition first_fails :: "('q, 'r, 'w) pool_env \<Rightarrow> string \<Rightarrow> string \<Rightarrow> 'q request \<Rightarrow> 'w pool \<Rightarrow> bool" where
  "first_fails P a b q p \<longleftrightarrow>
     cl_urls (po_client p) = [a, b] \<and> cl_active (po_client p) = 0 \<and> cl_skip (po_client p) = None \<and>
     (\<exists>t. cl_probed (po_client p) = Some t \<and> (\<forall>w. fst (p_now P w) - t < endpointProbeInterval)) \<and>
     (\<forall>w. fst (p_http P a q w) = Unsent False)"

lemma query_fails_over:
  assumes "first_fails P a b (Request h) p"
    and "\<And>w. fst (p_http P b (Request h) w) = Http 200 (Some \<lparr>g_data = Data d, g_errors = []\<rparr>)"
  shows "\<exists>p'. run_state (query P (Request h)) p = ((Some (Data d), None), p') \<and> cl_active (po_client p') = 1 \<and>
    cl_fingerprint (po_client p') = cl_fingerprint (po_client p)"
proof -
  obtain t where c: "cl_urls (po_client p) = [a, b]" "cl_active (po_client p) = 0" "cl_skip (po_client p) = None"
    "cl_probed (po_client p) = Some t" "\<And>w. fst (p_now P w) - t < endpointProbeInterval"
    "\<And>w. fst (p_http P a (Request h) w) = Unsent False"
    using assms(1) by (auto simp: first_fails_def)
  obtain now w1 where 1: "p_now P (po_world p) = (now, w1)" by fastforce
  obtain now' w2 where 2: "p_now P w1 = (now', w2)" by fastforce
  obtain w3 where 3: "p_http P a (Request h) w2 = (Unsent False, w3)" using c(6) [of w2] by (metis prod.collapse)
  obtain w4 where 4: "p_http P b (Request h) w3 = (Http 200 (Some \<lparr>g_data = Data d, g_errors = []\<rparr>), w4)"
    using assms(2) [of w3] by (metis prod.collapse)
  have recent: "now' - t < endpointProbeInterval" using c(5) [of w1] 2 by simp
  show ?thesis
    by (simp add: query_def breakerOpen_def selectEndpoint_def attempt_def activeURL_def doQuery_def failOver_def
      recordResult_def read_reply_def wanted_by_def answered_def counted_err_def c 1 2 3 4 recent)
qed

text \<open>The indexer of a syncer, asked for a block through a pool of endpoints.\<close>

definition block_through :: "(int, block list, 'w) pool_env \<Rightarrow> int \<Rightarrow> 'w pool \<Rightarrow> block list option \<times> 'w pool" where
  "block_through P h p =
     (case run_state (query P (Request h)) p of
        ((Some (Data bs), None), p') \<Rightarrow> (Some bs, p')
      | (_, p') \<Rightarrow> (None, p'))"

text \<open>
  One failed request can discard a network's data. A pool that knows its chain never
  selects an endpoint of another one by a probe, but the move to the next endpoint on an
  error does not look at the chain: when the one request for the first block that the
  reset check makes fails at the primary, and the alternate is on another chain, the
  alternate's block answers it, and everything stored for the network goes.
\<close>

theorem failed_request_discards_the_chain:
  assumes "reliable E" "x_block_at E = block_through P"
    and "first_fails P a b (Request 1) (sy_world s)"
    and "\<And>w. fst (p_http P b (Request 1) w) = Http 200 (Some \<lparr>g_data = Data [other], g_errors = []\<rparr>)"
    and "blk_hash other \<noteq> ''''"
    and "cl_fingerprint (po_client (sy_world s)) = known" "known \<noteq> ''''" "fingerprint other \<noteq> known"
    and "stored_text (fingerprint_key E) (sy_db s) = known"
    and "run_state (checkChainReset E) s = (r, t)"
  shows "r \<and> heights_of (e_net E) (sy_db t) = []"
proof -
  obtain p' where "run_state (query P (Request 1)) (sy_world s) = ((Some (Data [other]), None), p')"
    using query_fails_over [OF assms(3,4)] by blast
  then have "x_block_at E 1 (sy_world s) = (Some [other], p')"
    by (simp add: assms(2) block_through_def)
  from reset_happens_at [OF assms(1) this assms(5)] assms(7-10)
  have "r \<and> (\<exists>st. sy_db t = (discarded (e_net E) (sy_db s))\<lparr>db_state := st\<rparr>)"
    by (simp add: wp_def)
  then show ?thesis by (auto simp: heights_of_def discarded_blocks filter_empty_conv)
qed

text \<open>A primary that drops one request and an alternate that serves a test chain.\<close>

definition two_endpoints :: "(int, block list, unit) pool_env" where
  "two_endpoints = \<lparr>
     p_http = (\<lambda>url q w. (if url = ''primary'' then Unsent False
       else Http 200 (Some \<lparr>g_data = Data [(demo_block 1)\<lparr>blk_chain := ''test''\<rparr>], g_errors = []\<rparr>), w)),
     p_now = (\<lambda>w. (5 * second, w))\<rparr>"

definition pool_at :: "unit pool" where
  "pool_at = \<lparr>po_client = (newIndexerClient [''primary'', ''alternate''])
     \<lparr>cl_probed := Some 0, cl_fingerprint := ''main:hash''\<rparr>, po_world = ()\<rparr>"

definition pooled_env :: "unit pool env" where
  "pooled_env = \<lparr>e_net = ''net'', e_page = 2, e_pages = 6, e_days = 0,
     x_fails = (\<lambda>w. (False, w)), x_now = (\<lambda>w. (0, w)), x_rfc3339 = (\<lambda>_. None), x_tip = (\<lambda>w. (None, w)),
     x_blocks = (\<lambda>_ _ w. (None, w)), x_block_at = block_through two_endpoints,
     x_txs_above = (\<lambda>_ w. (Failed, w)), x_txs_at = (\<lambda>_ w. (Failed, w)), x_txs_between = (\<lambda>_ _ w. (Failed, w)),
     x_transfers_between = (\<lambda>_ _ w. (Failed, w)), x_has_transfers = (\<lambda>w. (True, w))\<rparr>"

definition main_db :: db where
  "main_db = empty_db\<lparr>db_state := [''chain_fingerprint:net'' \<mapsto> ''main:hash''],
     db_blocks := [((''net'', 7), \<lparr>row_height = 7, row_time = '''', row_proposer = 0, row_txs = 0\<rparr>)]\<rparr>"

theorem failed_request_discards_the_chain_witness:
  "heights_of ''net'' main_db = [7] \<and>
   heights_of ''net'' (sy_db (snd (run_state (checkChainReset pooled_env) (new_sync pool_at main_db)))) = []"
proof
  show "heights_of ''net'' main_db = [7]" by (simp add: heights_of_def main_db_def)
  let ?other = "(demo_block 1)\<lparr>blk_chain := ''test''\<rparr>"
  obtain r t where run: "run_state (checkChainReset pooled_env) (new_sync pool_at main_db) = (r, t)" by fastforce
  have 1: "reliable pooled_env" by (simp add: reliable_def pooled_env_def)
  have 2: "x_block_at pooled_env = block_through two_endpoints" by (simp add: pooled_env_def)
  have 3: "first_fails two_endpoints ''primary'' ''alternate'' (Request 1) (sy_world (new_sync pool_at main_db))"
    by (simp add: first_fails_def two_endpoints_def new_sync_def pool_at_def newIndexerClient_def normalize_url_def
      has_suffix_def Let_def endpointProbeInterval_def second_def)
  have 4: "fst (p_http two_endpoints ''alternate'' (Request 1) w) = Http 200 (Some \<lparr>g_data = Data [?other], g_errors = []\<rparr>)" for w
    by (simp add: two_endpoints_def)
  have 5: "cl_fingerprint (po_client (sy_world (new_sync pool_at main_db))) = ''main:hash''"
    by (simp add: new_sync_def pool_at_def)
  have 6: "stored_text (fingerprint_key pooled_env) (sy_db (new_sync pool_at main_db)) = ''main:hash''"
    by (simp add: stored_text_def new_sync_def main_db_def fingerprintKeyPrefix_def pooled_env_def)
  have "r \<and> heights_of (e_net pooled_env) (sy_db t) = []"
    by (rule failed_request_discards_the_chain [OF 1 2 3 4 _ 5 _ _ 6 run])
      (simp_all add: demo_block_def fingerprint_def)
  then show "heights_of ''net'' (sy_db (snd (run_state (checkChainReset pooled_env) (new_sync pool_at main_db)))) = []"
    by (simp add: run) (simp add: pooled_env_def)
qed

end
