(* ===== verification/Rate_Limit.thy ===== *)
theory Rate_Limit
  imports Go_Prelude Complex_Main "HOL-Library.Multiset"
begin

text \<open>
  The limiter of requests per client address (\<^verbatim>\<open>pkg/httpapi/ratelimit.go\<close>): a bucket of
  tokens and a count of running requests per address, the sweep of idle buckets, and the
  address a request is counted under.

  Times are nanoseconds. The fractional tokens, a \<^verbatim>\<open>float64\<close> in the code, are rational
  numbers here: the rounding of floating point is not modelled.
\<close>

section \<open>The code\<close>

record bucket =
  bk_tokens :: rat
  bk_refilled :: int
  bk_in_flight :: int
  bk_seen :: int

record limiter =
  li_per_minute :: int
  li_concurrent :: int
  li_buckets :: "string \<Rightarrow> bucket option"
  li_last_sweep :: "int option"

definition second :: int where "second = 1000000000"
definition minute :: int where "minute = 60 * second"
definition ipBucketTTL :: int where "ipBucketTTL = 10 * minute"

definition NewIPLimiter :: "int \<Rightarrow> int \<Rightarrow> limiter" where
  "NewIPLimiter perMinute concurrent =
     \<lparr>li_per_minute = perMinute, li_concurrent = concurrent, li_buckets = Map.empty, li_last_sweep = None\<rparr>"

text \<open>The zero time of a limiter that never swept, \<^term>\<open>None\<close>, is more than a minute ago.\<close>

definition sweepLocked :: "int \<Rightarrow> limiter \<Rightarrow> limiter" where
  "sweepLocked now l =
     (if (case li_last_sweep l of None \<Rightarrow> False | Some t \<Rightarrow> now - t < minute) then l
      else l\<lparr>li_last_sweep := Some now,
        li_buckets := \<lambda>ip. (case li_buckets l ip of
          None \<Rightarrow> None
        | Some b \<Rightarrow> if bk_in_flight b = 0 \<and> now - bk_seen b > ipBucketTTL then None else Some b)\<rparr>)"

text \<open>The bucket after its refill.\<close>

definition refill :: "int \<Rightarrow> int \<Rightarrow> bucket \<Rightarrow> bucket" where
  "refill perMinute now b =
     (let rate = of_int perMinute / 60;
          t = bk_tokens b + of_int (now - bk_refilled b) / of_int second * rate
      in b\<lparr>bk_tokens := if t > of_int perMinute then of_int perMinute else t, bk_refilled := now\<rparr>)"

text \<open>A duration that is a fraction is cut to whole nanoseconds, and then to whole seconds.\<close>

definition wait_for :: "int \<Rightarrow> rat \<Rightarrow> int" where
  "wait_for perMinute tokens =
     (let rate = of_int perMinute / 60;
          wait = \<lfloor>(1 - tokens) / rate * of_int second\<rfloor> + second
      in wait - wait mod second)"

datatype acquired = Admitted | Refused int

definition Acquire :: "int \<Rightarrow> string \<Rightarrow> limiter \<Rightarrow> acquired \<times> limiter" where
  "Acquire now ip l =
     (let l = sweepLocked now l;
          b = (case li_buckets l ip of
                 Some b \<Rightarrow> b
               | None \<Rightarrow> \<lparr>bk_tokens = of_int (li_per_minute l), bk_refilled = now, bk_in_flight = 0, bk_seen = now\<rparr>);
          b = b\<lparr>bk_seen := now\<rparr>;
          b = (if li_per_minute l > 0 then refill (li_per_minute l) now b else b);
          save = (\<lambda>b. l\<lparr>li_buckets := (li_buckets l)(ip \<mapsto> b)\<rparr>)
      in if li_per_minute l > 0 \<and> bk_tokens b < 1
         then (Refused (wait_for (li_per_minute l) (bk_tokens b)), save b)
         else if li_concurrent l > 0 \<and> bk_in_flight b \<ge> li_concurrent l
         then (Refused second, save b)
         else let b = (if li_per_minute l > 0 then b\<lparr>bk_tokens := bk_tokens b - 1\<rparr> else b)
              in (Admitted, save (b\<lparr>bk_in_flight := bk_in_flight b + 1\<rparr>)))"

text \<open>
  The function a successful \<^const>\<open>Acquire\<close> returns. The bucket it holds is the one in the
  map for as long as a request is running.
\<close>

definition release :: "string \<Rightarrow> limiter \<Rightarrow> limiter" where
  "release ip l =
     (case li_buckets l ip of
        None \<Rightarrow> l
      | Some b \<Rightarrow> if bk_in_flight b > 0
          then l\<lparr>li_buckets := (li_buckets l)(ip \<mapsto> b\<lparr>bk_in_flight := bk_in_flight b - 1\<rparr>)\<rparr> else l)"

text \<open>
  What the standard library says of an address: whether it is a loopback, a private or a
  link-local one.
\<close>

record ip_kind =
  ip_loopback :: bool
  ip_private :: bool
  ip_link_local :: bool

definition isLocalPeer :: "(string \<Rightarrow> ip_kind option) \<Rightarrow> string \<Rightarrow> bool" where
  "isLocalPeer parse host =
     (case parse host of
        None \<Rightarrow> True
      | Some ip \<Rightarrow> ip_loopback ip \<or> ip_private ip \<or> ip_link_local ip)"

record peer_request =
  rq_remote :: string
  rq_forwarded :: string
  rq_real_ip :: string

definition ClientIP ::
  "(string \<Rightarrow> ip_kind option) \<Rightarrow> (string \<Rightarrow> string option) \<Rightarrow> peer_request \<Rightarrow> string" where
  "ClientIP parse split r =
     (let host = (case split (rq_remote r) of Some h \<Rightarrow> h | None \<Rightarrow> rq_remote r)
      in if \<not> isLocalPeer parse host then host
         else if rq_forwarded r \<noteq> '''' then
           trim_space (takeWhile (\<lambda>c. c \<noteq> CHR '','') (rq_forwarded r))
         else if trim_space (rq_real_ip r) \<noteq> '''' then trim_space (rq_real_ip r)
         else host)"

section \<open>The limiter as a state machine\<close>

text \<open>
  Requests arrive at times that do not go back, are admitted or refused, and an admitted
  one ends once. \<open>ls_log\<close> holds the admissions and \<open>ls_open\<close> the requests that run.
\<close>

record limiter_state =
  ls_limiter :: limiter
  ls_clock :: int
  ls_log :: "(string \<times> int) list"
  ls_open :: "string multiset"

inductive limited :: "int \<Rightarrow> int \<Rightarrow> limiter_state \<Rightarrow> bool" for P C where
  start: "limited P C \<lparr>ls_limiter = NewIPLimiter P C, ls_clock = t, ls_log = [], ls_open = {#}\<rparr>"
| admit: "limited P C s \<Longrightarrow> ls_clock s \<le> now \<Longrightarrow> Acquire now ip (ls_limiter s) = (Admitted, l) \<Longrightarrow>
    limited P C \<lparr>ls_limiter = l, ls_clock = now, ls_log = (ip, now) # ls_log s, ls_open = add_mset ip (ls_open s)\<rparr>"
| refuse: "limited P C s \<Longrightarrow> ls_clock s \<le> now \<Longrightarrow> Acquire now ip (ls_limiter s) = (Refused w, l) \<Longrightarrow>
    limited P C (s\<lparr>ls_limiter := l, ls_clock := now\<rparr>)"
| leave: "limited P C s \<Longrightarrow> ip \<in># ls_open s \<Longrightarrow>
    limited P C (s\<lparr>ls_limiter := release ip (ls_limiter s), ls_open := ls_open s - {#ip#}\<rparr>)"

section \<open>Buckets\<close>

text \<open>The allowance an address has at a time, if it came then: what a bucket promises.\<close>

definition rate :: "int \<Rightarrow> rat" where
  "rate P = of_int P / of_int minute"

definition allowance :: "int \<Rightarrow> int \<Rightarrow> bucket option \<Rightarrow> rat" where
  "allowance P now ob =
     (case ob of
        None \<Rightarrow> of_int P
      | Some b \<Rightarrow> min (of_int P) (bk_tokens b + of_int (now - bk_refilled b) * rate P))"

definition bucket_ok :: "int \<Rightarrow> int \<Rightarrow> bucket \<Rightarrow> bool" where
  "bucket_ok P clock b \<longleftrightarrow>
     0 \<le> bk_tokens b \<and> bk_tokens b \<le> of_int P \<and> bk_refilled b = bk_seen b \<and> bk_seen b \<le> clock"

lemma rate_pos: "0 < P \<Longrightarrow> 0 < rate P"
  by (simp add: rate_def minute_def second_def)

lemma refill_eq:
  "refill P now b = b\<lparr>bk_tokens := allowance P now (Some b), bk_refilled := now\<rparr>"
proof -
  have "of_int (now - bk_refilled b) / of_int second * (of_int P / 60) = of_int (now - bk_refilled b) * rate P"
    by (simp add: rate_def minute_def second_def)
  then show ?thesis by (simp add: refill_def allowance_def Let_def min_def)
qed

lemma allowance_bounds:
  assumes "0 < P" "\<forall>b. ob = Some b \<longrightarrow> bucket_ok P clock b" "clock \<le> now"
  shows "0 \<le> allowance P now ob" "allowance P now ob \<le> of_int P"
proof -
  have "0 \<le> of_int (now - bk_refilled b) * rate P" if "ob = Some b" for b
    using assms that rate_pos [OF assms(1)] by (auto simp: bucket_ok_def)
  then show "0 \<le> allowance P now ob" "allowance P now ob \<le> of_int P"
    using assms by (auto simp: allowance_def bucket_ok_def split: option.splits)
qed

lemma allowance_later:
  assumes "0 < P" "clock \<le> now"
  shows "allowance P now ob \<le> allowance P clock ob + of_int (now - clock) * rate P"
proof (cases ob)
  case None
  then show ?thesis using assms rate_pos [OF assms(1)] by (simp add: allowance_def)
next
  case (Some b)
  have "of_int (now - bk_refilled b) * rate P = of_int (clock - bk_refilled b) * rate P + of_int (now - clock) * rate P"
    by (simp add: ring_distribs flip: of_int_add)
  moreover have "0 \<le> of_int (now - clock) * rate P" using assms rate_pos [OF assms(1)] by simp
  ultimately show ?thesis using Some by (simp add: allowance_def min_def)
qed

lemma allowance_now: "bk_refilled b = now \<Longrightarrow> allowance P now (Some b) \<le> bk_tokens b"
  by (simp add: allowance_def)

text \<open>A sweep takes a bucket that would be full by then.\<close>

lemma swept_was_full:
  assumes "0 < P" "bucket_ok P clock b" "now - bk_seen b > ipBucketTTL"
  shows "allowance P now (Some b) = of_int P"
proof -
  have "of_int ipBucketTTL * rate P \<le> of_int (now - bk_refilled b) * rate P"
    using assms rate_pos [OF assms(1)] by (intro mult_right_mono) (auto simp: bucket_ok_def)
  moreover have "of_int ipBucketTTL * rate P = 10 * of_int P"
    by (simp add: rate_def ipBucketTTL_def minute_def second_def)
  ultimately have "of_int P \<le> of_int (now - bk_refilled b) * rate P"
    using assms(1) by (simp add: order_trans [of _ "10 * of_int P"])
  then show ?thesis using assms(2) by (simp add: allowance_def bucket_ok_def min_def)
qed

lemma sweep_buckets:
  "li_buckets (sweepLocked now l) ip = li_buckets l ip \<or>
   (\<exists>b. li_buckets l ip = Some b \<and> bk_in_flight b = 0 \<and> now - bk_seen b > ipBucketTTL \<and>
     li_buckets (sweepLocked now l) ip = None)"
  by (auto simp: sweepLocked_def split: option.splits)

lemma sweep_limits [simp]:
  "li_per_minute (sweepLocked now l) = li_per_minute l" "li_concurrent (sweepLocked now l) = li_concurrent l"
  by (simp_all add: sweepLocked_def)

lemma sweep_allowance:
  assumes "0 < P" "\<forall>b. li_buckets l ip = Some b \<longrightarrow> bucket_ok P clock b"
  shows "allowance P now (li_buckets (sweepLocked now l) ip) = allowance P now (li_buckets l ip)"
  using sweep_buckets [of now l ip] swept_was_full [OF assms(1)] assms(2)
  by (auto simp: allowance_def)

definition running :: "bucket option \<Rightarrow> int" where
  "running ob = (case ob of None \<Rightarrow> 0 | Some b \<Rightarrow> bk_in_flight b)"

lemma sweep_running: "running (li_buckets (sweepLocked now l) ip) = running (li_buckets l ip)"
  using sweep_buckets [of now l ip] by (auto simp: running_def)

text \<open>
  What \<^const>\<open>Acquire\<close> does to the bucket of the address and to the others, for a limiter
  with a rate.
\<close>

lemma Acquire_spec:
  assumes "0 < li_per_minute l" "\<forall>b. li_buckets l ip = Some b \<longrightarrow> bucket_ok (li_per_minute l) clock b" "clock \<le> now"
    and "Acquire now ip l = (r, l')"
  defines "P \<equiv> li_per_minute l" and "A \<equiv> allowance (li_per_minute l) now (li_buckets l ip)"
  shows "li_per_minute l' = li_per_minute l" "li_concurrent l' = li_concurrent l"
    "ip' \<noteq> ip \<Longrightarrow> li_buckets l' ip' = li_buckets (sweepLocked now l) ip'"
    "li_buckets l' ip = Some \<lparr>bk_tokens = (if r = Admitted then A - 1 else A), bk_refilled = now,
       bk_in_flight = running (li_buckets l ip) + (if r = Admitted then 1 else 0), bk_seen = now\<rparr>"
    "r = (if A < 1 then Refused (wait_for P A)
      else if li_concurrent l > 0 \<and> running (li_buckets l ip) \<ge> li_concurrent l then Refused second else Admitted)"
proof -
  let ?l = "sweepLocked now l"
  let ?b = "case li_buckets ?l ip of Some b \<Rightarrow> b
    | None \<Rightarrow> \<lparr>bk_tokens = of_int (li_per_minute ?l), bk_refilled = now, bk_in_flight = 0, bk_seen = now\<rparr>"
  have A: "allowance P now (Some (?b\<lparr>bk_seen := now\<rparr>)) = A"
    using sweep_allowance [OF assms(1,2), of now]
    by (auto simp: A_def P_def allowance_def split: option.splits)
  have run: "bk_in_flight ?b = running (li_buckets l ip)"
    using sweep_running [of now l ip] by (auto simp: running_def split: option.splits)
  have P: "0 < P" using assms(1) by (simp add: P_def)
  let ?B = "\<lparr>bk_tokens = A, bk_refilled = now, bk_in_flight = running (li_buckets l ip), bk_seen = now\<rparr>"
  let ?save = "\<lambda>b. ?l\<lparr>li_buckets := (li_buckets ?l)(ip \<mapsto> b)\<rparr>"
  have B: "refill P now (?b\<lparr>bk_seen := now\<rparr>) = ?B"
    unfolding refill_eq A by (rule bucket.equality) (simp_all add: run)
  have "Acquire now ip l = (if A < 1 then (Refused (wait_for P A), ?save ?B)
    else if li_concurrent l > 0 \<and> running (li_buckets l ip) \<ge> li_concurrent l then (Refused second, ?save ?B)
    else (Admitted, ?save (?B\<lparr>bk_tokens := A - 1, bk_in_flight := running (li_buckets l ip) + 1\<rparr>)))"
    using B P unfolding P_def by (simp add: Acquire_def Let_def)
  with assms(4) have parts: "(r, l') = (if A < 1 then (Refused (wait_for P A), ?save ?B)
    else if li_concurrent l > 0 \<and> running (li_buckets l ip) \<ge> li_concurrent l then (Refused second, ?save ?B)
    else (Admitted, ?save (?B\<lparr>bk_tokens := A - 1, bk_in_flight := running (li_buckets l ip) + 1\<rparr>)))"
    by simp
  show "li_per_minute l' = li_per_minute l" "li_concurrent l' = li_concurrent l"
    "ip' \<noteq> ip \<Longrightarrow> li_buckets l' ip' = li_buckets ?l ip'"
    using parts by (auto split: if_splits)
  show "li_buckets l' ip = Some \<lparr>bk_tokens = (if r = Admitted then A - 1 else A), bk_refilled = now,
       bk_in_flight = running (li_buckets l ip) + (if r = Admitted then 1 else 0), bk_seen = now\<rparr>"
    "r = (if A < 1 then Refused (wait_for P A)
      else if li_concurrent l > 0 \<and> running (li_buckets l ip) \<ge> li_concurrent l then Refused second else Admitted)"
    using parts by (auto split: if_splits)
qed

section \<open>The invariant\<close>

definition admissions :: "string \<Rightarrow> int \<Rightarrow> (string \<times> int) list \<Rightarrow> nat" where
  "admissions ip a xs = length (filter (\<lambda>(i, t). i = ip \<and> a \<le> t) xs)"

text \<open>What was spent since \<open>a\<close> and what is left fit in a full bucket and its refill since then.\<close>

definition budget_kept :: "int \<Rightarrow> limiter_state \<Rightarrow> string \<Rightarrow> bool" where
  "budget_kept P s ip \<longleftrightarrow> (\<forall>a \<le> ls_clock s.
     of_nat (admissions ip a (ls_log s)) + allowance P (ls_clock s) (li_buckets (ls_limiter s) ip)
       \<le> of_int P + of_int (ls_clock s - a) * rate P)"

definition limiter_ok :: "int \<Rightarrow> int \<Rightarrow> limiter_state \<Rightarrow> bool" where
  "limiter_ok P C s \<longleftrightarrow>
     li_per_minute (ls_limiter s) = P \<and> li_concurrent (ls_limiter s) = C \<and>
     (\<forall>ip b. li_buckets (ls_limiter s) ip = Some b \<longrightarrow> bucket_ok P (ls_clock s) b) \<and>
     (\<forall>ip. running (li_buckets (ls_limiter s) ip) = int (count (ls_open s) ip)) \<and>
     (C > 0 \<longrightarrow> (\<forall>ip. int (count (ls_open s) ip) \<le> C)) \<and>
     (\<forall>(i, t) \<in> set (ls_log s). t \<le> ls_clock s) \<and>
     (\<forall>ip. budget_kept P s ip)"

lemma admissions_Cons: "admissions ip a ((i, t) # xs) = (if i = ip \<and> a \<le> t then 1 else 0) + admissions ip a xs"
  by (simp add: admissions_def)

lemma admissions_none: "\<forall>(i, t) \<in> set xs. t < a \<Longrightarrow> admissions ip a xs = 0"
  by (auto simp: admissions_def filter_empty_conv)

text \<open>A bucket that lost as much as was admitted keeps the budget as time goes on.\<close>

lemma budget_later:
  assumes P: "0 < P" and clock: "ls_clock s \<le> now"
    and buckets: "\<forall>b. li_buckets (ls_limiter s) ip = Some b \<longrightarrow> bucket_ok P (ls_clock s) b"
    and log: "\<forall>(i, t) \<in> set (ls_log s). t \<le> ls_clock s"
    and kept: "budget_kept P s ip" and t: "ls_clock t = now"
    and left: "of_nat n + allowance P now (li_buckets (ls_limiter t) ip) \<le> allowance P now (li_buckets (ls_limiter s) ip)"
    and spent: "\<And>a. a \<le> now \<Longrightarrow> admissions ip a (ls_log t) = n + admissions ip a (ls_log s)"
  shows "budget_kept P t ip"
  unfolding budget_kept_def t
proof (intro allI impI)
  let ?B = "li_buckets (ls_limiter s) ip"
  fix a assume a: "a \<le> now"
  show "of_nat (admissions ip a (ls_log t)) + allowance P now (li_buckets (ls_limiter t) ip)
      \<le> of_int P + of_int (now - a) * rate P"
  proof (cases "a \<le> ls_clock s")
    case True
    have "of_nat (admissions ip a (ls_log s)) + allowance P (ls_clock s) ?B
        \<le> of_int P + of_int (ls_clock s - a) * rate P"
      using kept True by (simp add: budget_kept_def)
    moreover have "allowance P now ?B \<le> allowance P (ls_clock s) ?B + of_int (now - ls_clock s) * rate P"
      by (rule allowance_later [OF P clock])
    moreover have "of_int (now - a) * rate P = of_int (ls_clock s - a) * rate P + of_int (now - ls_clock s) * rate P"
      by (simp add: ring_distribs flip: of_int_add)
    ultimately show ?thesis using left spent [OF a] by simp
  next
    case False
    then have "admissions ip a (ls_log s) = 0" using log by (intro admissions_none) auto
    moreover have "allowance P now ?B \<le> of_int P" by (rule allowance_bounds(2) [OF P buckets clock])
    moreover have "0 \<le> of_int (now - a) * rate P" using a rate_pos [OF P] by simp
    ultimately show ?thesis using left spent [OF a] by simp
  qed
qed

text \<open>An arrival, admitted or not.\<close>

lemma arrival_ok:
  assumes P: "0 < P" and s: "limiter_ok P C s" and clock: "ls_clock s \<le> now"
    and acq: "Acquire now ip (ls_limiter s) = (r, l)"
  defines "t \<equiv> \<lparr>ls_limiter = l, ls_clock = now,
    ls_log = (if r = Admitted then [(ip, now)] else []) @ ls_log s,
    ls_open = (if r = Admitted then add_mset ip (ls_open s) else ls_open s)\<rparr>"
  shows "limiter_ok P C t"
proof -
  let ?L = "ls_limiter s"
  have lim: "li_per_minute ?L = P" "li_concurrent ?L = C" and log: "\<forall>(i, t) \<in> set (ls_log s). t \<le> ls_clock s"
    and buckets: "\<And>ip b. li_buckets ?L ip = Some b \<Longrightarrow> bucket_ok P (ls_clock s) b"
    and run: "\<And>ip. running (li_buckets ?L ip) = int (count (ls_open s) ip)"
    and conc: "\<And>ip. C > 0 \<Longrightarrow> int (count (ls_open s) ip) \<le> C"
    and kept: "\<And>ip. budget_kept P s ip"
    using s by (auto simp: limiter_ok_def)
  note spec = Acquire_spec [OF _ _ clock acq, unfolded lim, OF P]
  let ?A = "allowance P now (li_buckets ?L ip)"
  have A: "0 \<le> ?A" "?A \<le> of_int P" using allowance_bounds [OF P _ clock, of "li_buckets ?L ip"] buckets by auto
  have own: "li_buckets l ip = Some \<lparr>bk_tokens = (if r = Admitted then ?A - 1 else ?A), bk_refilled = now,
       bk_in_flight = int (count (ls_open s) ip) + (if r = Admitted then 1 else 0), bk_seen = now\<rparr>"
    using spec(4) buckets run by auto
  have other: "li_buckets l ip' = li_buckets (sweepLocked now ?L) ip'" if "ip' \<noteq> ip" for ip'
    using spec(3) buckets that by blast
  have r: "r = (if ?A < 1 then Refused (wait_for P ?A)
      else if C > 0 \<and> int (count (ls_open s) ip) \<ge> C then Refused second else Admitted)"
    using spec(5) buckets run by auto
  have "bucket_ok P now b" if "li_buckets l ip' = Some b" for ip' b
  proof (cases "ip' = ip")
    case True
    then show ?thesis using that own A r by (auto simp: bucket_ok_def split: if_splits)
  next
    case False
    then have "bucket_ok P (ls_clock s) b"
      using that other sweep_buckets [of now ?L ip'] buckets by auto
    then show ?thesis using clock by (simp add: bucket_ok_def)
  qed
  moreover have "running (li_buckets l ip') = int (count (ls_open t) ip')" for ip'
    using own other sweep_running run by (cases "ip' = ip") (auto simp: t_def running_def)
  moreover have "int (count (ls_open t) ip') \<le> C" if "C > 0" for ip'
    using conc [OF that, of ip'] r that by (auto simp: t_def split: if_splits)
  moreover have "\<forall>(i, x) \<in> set (ls_log t). x \<le> now" using log clock by (auto simp: t_def)
  moreover have "budget_kept P t ip'" for ip'
  proof (rule budget_later [OF P clock _ log kept, where n = "if ip' = ip \<and> r = Admitted then 1 else 0"])
    show "\<forall>b. li_buckets ?L ip' = Some b \<longrightarrow> bucket_ok P (ls_clock s) b" using buckets by blast
    show "ls_clock t = now" by (simp add: t_def)
    show "admissions ip' a (ls_log t) = (if ip' = ip \<and> r = Admitted then 1 else 0) + admissions ip' a (ls_log s)"
      if "a \<le> now" for a using that by (simp add: t_def admissions_Cons)
    show "of_nat (if ip' = ip \<and> r = Admitted then 1 else 0) + allowance P now (li_buckets (ls_limiter t) ip')
        \<le> allowance P now (li_buckets ?L ip')"
    proof (cases "ip' = ip")
      case True
      define b where "b = the (li_buckets l ip)"
      have "li_buckets l ip = Some b" "bk_refilled b = now" "bk_tokens b = (if r = Admitted then ?A - 1 else ?A)"
        by (simp_all add: b_def own)
      then show ?thesis using True allowance_now [of b now P] by (auto simp: t_def split: if_splits)
    next
      case False
      then show ?thesis
        using other sweep_allowance [OF P, of ?L ip' "ls_clock s" now] buckets by (auto simp: t_def)
    qed
  qed
  moreover have "li_per_minute l = P" "li_concurrent l = C" using spec(1,2) buckets by auto
  ultimately show ?thesis by (simp add: limiter_ok_def t_def)
qed

lemma leave_ok:
  assumes "limiter_ok P C s" "ip \<in># ls_open s"
  shows "limiter_ok P C (s\<lparr>ls_limiter := release ip (ls_limiter s), ls_open := ls_open s - {#ip#}\<rparr>)"
proof -
  let ?L = "ls_limiter s"
  have "running (li_buckets ?L ip) = int (count (ls_open s) ip)" using assms(1) by (simp add: limiter_ok_def)
  moreover have "0 < count (ls_open s) ip" using assms(2) by simp
  ultimately obtain b where b: "li_buckets ?L ip = Some b" "bk_in_flight b = int (count (ls_open s) ip)" "0 < bk_in_flight b"
    by (cases "li_buckets ?L ip") (auto simp: running_def)
  then have rel: "release ip ?L = ?L\<lparr>li_buckets := (li_buckets ?L)(ip \<mapsto> b\<lparr>bk_in_flight := bk_in_flight b - 1\<rparr>)\<rparr>"
    by (simp add: release_def)
  have "running (li_buckets (release ip ?L) ip') = int (count (ls_open s - {#ip#}) ip')" for ip'
    using assms(1) b by (auto simp: rel running_def limiter_ok_def)
  moreover have "int (count (ls_open s - {#ip#}) ip') \<le> C" if "C > 0" for ip'
  proof -
    have "count (ls_open s - {#ip#}) ip' \<le> count (ls_open s) ip'" by simp
    moreover have "int (count (ls_open s) ip') \<le> C" using assms(1) that by (simp add: limiter_ok_def)
    ultimately show ?thesis by linarith
  qed
  moreover have "allowance P x (li_buckets (release ip ?L) ip') = allowance P x (li_buckets ?L ip')" for ip' x
    using b by (simp add: rel allowance_def)
  moreover have "bucket_ok P (ls_clock s) c" if "li_buckets (release ip ?L) ip' = Some c" for ip' c
    using that assms(1) b by (auto simp: rel limiter_ok_def bucket_ok_def split: if_splits)
  ultimately show ?thesis
    using assms(1) by (auto simp: limiter_ok_def budget_kept_def rel)
qed

lemma limited_ok:
  assumes "limited P C s" "0 < P"
  shows "limiter_ok P C s"
  using assms(1)
proof induction
  case (start t)
  have "0 \<le> of_int (t - a) * rate P" if "a \<le> t" for a using that rate_pos [OF assms(2)] by simp
  then show ?case
    by (auto simp: limiter_ok_def NewIPLimiter_def running_def budget_kept_def admissions_def allowance_def)
next
  case (admit s now ip l)
  then show ?case using arrival_ok [OF assms(2) admit.IH admit.hyps(2,3)] by simp
next
  case (refuse s now ip w l)
  then show ?case using arrival_ok [OF assms(2) refuse.IH refuse.hyps(2,3)] by (cases s) simp
next
  case (leave s ip)
  then show ?case by (blast intro: leave_ok)
qed

section \<open>What the limiter promises\<close>

text \<open>
  C12. The limiter holds its two bounds: in every state that arrivals, refusals and ends of
  requests reach, an address was admitted in any stretch of time up to now at most as
  often as a full bucket and its refill over that stretch allow, however idle buckets were
  swept in between, and never has more requests running than the bound.
\<close>

theorem limiter_holds_its_bounds:
  assumes "limited P C s" "0 < P" "0 < C" "a \<le> ls_clock s"
  shows "of_nat (admissions ip a (ls_log s)) \<le> of_int P + of_int (ls_clock s - a) * (of_int P / of_int minute :: rat) \<and>
    int (count (ls_open s) ip) \<le> C"
proof -
  have ok: "limiter_ok P C s" by (rule limited_ok [OF assms(1,2)])
  then have "0 \<le> allowance P (ls_clock s) (li_buckets (ls_limiter s) ip)"
    by (intro allowance_bounds(1) [OF assms(2), of _ "ls_clock s"]) (auto simp: limiter_ok_def)
  moreover have "budget_kept P s ip" using ok by (simp add: limiter_ok_def)
  ultimately have "of_nat (admissions ip a (ls_log s)) \<le> of_int P + of_int (ls_clock s - a) * rate P"
    using assms(4) unfolding budget_kept_def by fastforce
  then show ?thesis using ok assms(3) by (simp add: limiter_ok_def rate_def)
qed

lemma Acquire_after_start:
  "fst (Acquire 0 ''ip'' (NewIPLimiter 1 1)) = Admitted"
  by (simp add: Acquire_def NewIPLimiter_def sweepLocked_def refill_def Let_def)

theorem limiter_holds_its_bounds_witness:
  "\<exists>s :: limiter_state. ls_log s = [(''ip'', 0)] \<and>
     of_nat (admissions ''ip'' 0 (ls_log s)) \<le> of_int 1 + of_int (ls_clock s - 0) * (of_int 1 / of_int minute :: rat) \<and>
     int (count (ls_open s) ''ip'') \<le> 1"
proof -
  obtain l where acq: "Acquire 0 ''ip'' (NewIPLimiter 1 1) = (Admitted, l)"
    using Acquire_after_start by (metis prod.collapse)
  let ?s = "\<lparr>ls_limiter = l, ls_clock = 0, ls_log = [(''ip'', 0)], ls_open = {#''ip''#}\<rparr>"
  have "limited 1 1 ?s" using limited.admit [OF limited.start [of 1 1 0], of 0 "''ip''" l] acq by simp
  note bounds = limiter_holds_its_bounds [OF this, of 0 "''ip''"]
  show ?thesis by (rule exI [of _ ?s]) (use bounds in simp)
qed

lemma wait_is_enough:
  assumes "0 < P" "A < 1"
  shows "1 \<le> A + of_int (wait_for P A) * rate P" "second \<le> wait_for P A"
proof -
  let ?y = "(1 - A) / rate P"
  have pos: "0 < rate P" by (rule rate_pos [OF assms(1)])
  have y: "(1 - A) / (of_int P / 60) * of_int second = ?y"
    by (simp add: rate_def minute_def second_def)
  let ?X = "\<lfloor>?y\<rfloor> + second"
  have w: "wait_for P A = ?X - ?X mod second" unfolding wait_for_def Let_def y ..
  have "?X mod second < second" by (simp add: second_def)
  then have "\<lfloor>?y\<rfloor> < wait_for P A" unfolding w by simp
  then have "?y < of_int (wait_for P A)" by linarith
  then have "1 - A < of_int (wait_for P A) * rate P" using pos by (simp add: pos_divide_less_eq)
  then show "1 \<le> A + of_int (wait_for P A) * rate P" by simp
  have "0 \<le> \<lfloor>?y\<rfloor>" using assms(2) pos by simp
  then have "second \<le> ?X" by simp
  then have "1 \<le> ?X div second" by (simp add: second_def int_div_pos_eq pos_imp_zdiv_pos_iff) linarith
  moreover have "wait_for P A = second * (?X div second)" unfolding w by (rule minus_mod_eq_mult_div)
  ultimately show "second \<le> wait_for P A" by (simp add: second_def)
qed

text \<open>
  C13. The hint that comes with a refusal is honest: it is at least a second, and the same
  address is not refused for its rate again when it comes back after that time, so that it
  is admitted unless it has as many requests running as it may.
\<close>

theorem retry_after_is_enough:
  assumes "limited P C s" "0 < P" "ls_clock s \<le> now"
    and "Acquire now ip (ls_limiter s) = (Refused w, l)"
    and "now + w \<le> later" "C \<le> 0 \<or> int (count (ls_open s) ip) < C"
  shows "second \<le> w \<and> fst (Acquire later ip l) = Admitted"
proof -
  let ?L = "ls_limiter s"
  have ok: "limiter_ok P C s" by (rule limited_ok [OF assms(1,2)])
  then have lim: "li_per_minute ?L = P" "li_concurrent ?L = C"
    and buckets: "\<forall>b. li_buckets ?L ip = Some b \<longrightarrow> bucket_ok P (ls_clock s) b"
    and run: "running (li_buckets ?L ip) = int (count (ls_open s) ip)"
    by (auto simp: limiter_ok_def)
  note spec = Acquire_spec [OF _ _ assms(3,4), unfolded lim, OF assms(2) buckets]
  let ?A = "allowance P now (li_buckets ?L ip)"
  have A: "0 \<le> ?A" "?A \<le> of_int P" using allowance_bounds [OF assms(2) buckets assms(3)] .
  have low: "?A < 1" "w = wait_for P ?A" using spec(5) assms(6) run by (auto split: if_splits)
  note enough = wait_is_enough [OF assms(2) low(1), folded low(2)]
  obtain b where b: "li_buckets l ip = Some b" "bk_tokens b = ?A" "bk_refilled b = now" "bk_seen b = now"
    "bk_in_flight b = int (count (ls_open s) ip)"
  proof -
    have "li_buckets l ip = Some \<lparr>bk_tokens = ?A, bk_refilled = now,
        bk_in_flight = int (count (ls_open s) ip), bk_seen = now\<rparr>" using spec(4) run by simp
    then show ?thesis by (rule that) simp_all
  qed
  have "now \<le> later" using assms(5) enough(2) by (simp add: second_def)
  moreover have "\<forall>b. li_buckets l ip = Some b \<longrightarrow> bucket_ok P now b" using b A by (simp add: bucket_ok_def)
  ultimately have "fst (Acquire later ip l) = (if allowance P later (Some b) < 1 then Refused (wait_for P (allowance P later (Some b)))
      else if C > 0 \<and> bk_in_flight b \<ge> C then Refused second else Admitted)"
    using Acquire_spec(5) [of l ip now later "fst (Acquire later ip l)" "snd (Acquire later ip l)"] spec(1,2) assms(2) b(1)
    by (simp add: running_def)
  moreover have "of_int w * rate P \<le> of_int (later - now) * rate P"
    using assms(5) rate_pos [OF assms(2)] by (intro mult_right_mono) auto
  then have "1 \<le> allowance P later (Some b)" using enough(1) b(2,3) assms(2) by (simp add: allowance_def)
  ultimately show ?thesis using enough(2) assms(6) b(5) by auto
qed

lemma second_arrival_waits:
  "\<exists>l. Acquire 1 ''ip'' (snd (Acquire 0 ''ip'' (NewIPLimiter 1 5))) = (Refused (60 * second), l)"
  by (simp add: Acquire_def NewIPLimiter_def sweepLocked_def refill_def wait_for_def Let_def second_def minute_def)

theorem retry_after_is_enough_witness:
  "fst (Acquire (1 + 60 * second) ''ip'' (snd (Acquire 1 ''ip'' (snd (Acquire 0 ''ip'' (NewIPLimiter 1 5)))))) = Admitted"
proof -
  obtain l where first: "Acquire 0 ''ip'' (NewIPLimiter 1 5) = (Admitted, l)"
    by (simp add: Acquire_def NewIPLimiter_def sweepLocked_def refill_def Let_def)
  let ?s = "\<lparr>ls_limiter = l, ls_clock = 0, ls_log = [(''ip'', 0)], ls_open = {#''ip''#}\<rparr>"
  have "limited 1 5 ?s" using limited.admit [OF limited.start [of 1 5 0], of 0 "''ip''" l] first by simp
  moreover obtain l' where "Acquire 1 ''ip'' (ls_limiter ?s) = (Refused (60 * second), l')"
    using second_arrival_waits first by auto
  ultimately show ?thesis
    using retry_after_is_enough [of 1 5 ?s 1 "''ip''" "60 * second" l' "1 + 60 * second"] first by simp
qed

section \<open>The address\<close>

lemma Acquire_finite:
  assumes "finite (dom (li_buckets L))" "Acquire now ip L = (r, l)"
  shows "finite (dom (li_buckets l))"
proof -
  have "dom (li_buckets (sweepLocked now L)) \<subseteq> dom (li_buckets L)"
    by (auto simp: sweepLocked_def split: option.splits if_splits)
  then have "finite (dom (li_buckets (sweepLocked now L)))" using assms(1) by (rule finite_subset)
  then show ?thesis using assms(2) by (auto simp: Acquire_def Let_def split: if_splits)
qed

lemma limited_finite: "limited P C s \<Longrightarrow> finite (dom (li_buckets (ls_limiter s)))"
proof (induction rule: limited.induct)
  case (start t)
  show ?case by (simp add: NewIPLimiter_def)
next
  case (admit s now ip l)
  then show ?case using Acquire_finite by simp
next
  case (refuse s now ip w l)
  then show ?case using Acquire_finite by simp
next
  case (leave s ip)
  then show ?case by (auto simp: release_def split: option.splits)
qed

lemma claimed_part [simp]:
  "takeWhile (\<lambda>c. c \<noteq> CHR '','') (replicate n CHR ''a'' @ CHR '','' # rest) = replicate n CHR ''a''"
  by (induction n) simp_all

lemma trim_letters [simp]: "trim_space (replicate n CHR ''a'') = replicate n CHR ''a''"
  unfolding trim_space_def by (rule trim_by_id) (cases n; simp add: is_space_def)

text \<open>
  Behind a proxy the limit is the client's to set aside. The address is the first of
  the forwarded chain, which is the part a proxy that appends to the header leaves as the
  client sent it: whatever was admitted before, some value of the header makes the next
  request one of a fresh address, and it is admitted.
\<close>

theorem forged_address_evades_the_limit:
  assumes "limited P C s" "1 \<le> P" "ls_clock s \<le> now" "isLocalPeer parse proxy" "split remote = Some proxy"
  shows "\<exists>claimed. fst (Acquire now (ClientIP parse split
    \<lparr>rq_remote = remote, rq_forwarded = claimed @ '', '' @ real_address, rq_real_ip = real_ip\<rparr>) (ls_limiter s)) = Admitted"
proof -
  have "inj (\<lambda>n. replicate (Suc n) CHR ''a'')" by (rule injI) (metis Suc_inject length_replicate)
  then have "infinite (range (\<lambda>n. replicate (Suc n) CHR ''a''))"
    using finite_imageD infinite_UNIV_nat by blast
  then obtain n where fresh: "li_buckets (ls_limiter s) (replicate (Suc n) CHR ''a'') = None"
    using limited_finite [OF assms(1)] by (metis (no_types, lifting) domIff finite_subset image_subset_iff rangeE)
  let ?claimed = "replicate (Suc n) CHR ''a''"
  have "ClientIP parse split \<lparr>rq_remote = remote, rq_forwarded = ?claimed @ '', '' @ real_address, rq_real_ip = real_ip\<rparr> = ?claimed"
    using assms(4,5) claimed_part [of "Suc n"] by (simp add: ClientIP_def del: replicate.simps)
  moreover have "fst (Acquire now ?claimed (ls_limiter s)) = Admitted"
  proof -
    have lim: "li_per_minute (ls_limiter s) = P" "li_concurrent (ls_limiter s) = C"
      using limited_ok [OF assms(1)] assms(2) by (simp_all add: limiter_ok_def)
    show ?thesis
      using Acquire_spec(5) [OF _ _ assms(3), of "ls_limiter s" ?claimed "fst (Acquire now ?claimed (ls_limiter s))"
        "snd (Acquire now ?claimed (ls_limiter s))"] assms(2) fresh lim
      by (simp add: running_def allowance_def)
  qed
  ultimately show ?thesis by metis
qed

theorem forged_address_evades_the_limit_witness:
  "\<exists>claimed. fst (Acquire 0 (ClientIP (\<lambda>_. Some \<lparr>ip_loopback = True, ip_private = False, ip_link_local = False\<rparr>)
     (\<lambda>_. Some ''127.0.0.1'') \<lparr>rq_remote = ''127.0.0.1:80'', rq_forwarded = claimed @ '', '' @ ''203.0.113.7'', rq_real_ip = ''''\<rparr>)
     (NewIPLimiter 1 1)) = Admitted"
  using forged_address_evades_the_limit [OF limited.start [of 1 1 0], where now = 0 and
    parse = "\<lambda>_. Some \<lparr>ip_loopback = True, ip_private = False, ip_link_local = False\<rparr>" and
    proxy = "''127.0.0.1''" and split = "\<lambda>_. Some ''127.0.0.1''" and remote = "''127.0.0.1:80''" and
    real_address = "''203.0.113.7''" and real_ip = "''''"]
  by (simp add: isLocalPeer_def)

end
