(* ===== verification/Src_Lines.thy ===== *)
theory Src_Lines
  imports Go_Prelude
begin

text \<open>
  The lines of the source viewer (\<^verbatim>\<open>pkg/srctok/srctok.go\<close>): segments, and the builder
  that cuts classified text into lines and merges neighbours. What a builder holds is
  described by \<open>drawn\<close>, the bytes it shows in order, each with its class and key and a
  \<^term>\<open>None\<close> for every line break; an emission appends to it and nothing else.
\<close>

section \<open>The code\<close>

abbreviation Keyword :: string where "Keyword \<equiv> ''kw''"
abbreviation String :: string where "String \<equiv> ''str''"
abbreviation Comment :: string where "Comment \<equiv> ''com''"
abbreviation Number :: string where "Number \<equiv> ''num''"
abbreviation Func :: string where "Func \<equiv> ''fn''"
abbreviation Type :: string where "Type \<equiv> ''type''"
abbreviation Op :: string where "Op \<equiv> ''op''"
abbreviation Ident :: string where "Ident \<equiv> ''ident''"
abbreviation Builtin :: string where "Builtin \<equiv> ''builtin''"
abbreviation Pkg :: string where "Pkg \<equiv> ''pkg''"
abbreviation Import :: string where "Import \<equiv> ''imp''"
abbreviation Decl :: string where "Decl \<equiv> ''decl''"
abbreviation Ref :: string where "Ref \<equiv> ''ref''"

abbreviation newline :: char where "newline \<equiv> CHR 0x0A"

record segment =
  sg_class :: string
  sg_text :: string
  sg_key :: string

type_synonym line = "segment list"

definition mergeable :: "string \<Rightarrow> bool" where
  "mergeable class \<longleftrightarrow> class \<notin> {Decl, Ref, Import, Pkg, Func}"

text \<open>One round of \<open>emit\<close>'s loop, on the last line.\<close>

definition add_piece :: "string \<Rightarrow> string \<Rightarrow> string \<Rightarrow> line list \<Rightarrow> line list" where
  "add_piece class key piece lines =
     (if piece = '''' then lines
      else let cur = last lines
           in if cur \<noteq> [] \<and> key = '''' \<and> sg_class (last cur) = class \<and> sg_key (last cur) = '''' \<and> mergeable class
              then butlast lines @ [butlast cur @ [(last cur)\<lparr>sg_text := sg_text (last cur) @ piece\<rparr>]]
              else butlast lines @ [cur @ [\<lparr>sg_class = class, sg_text = piece, sg_key = key\<rparr>]])"

definition emit :: "string \<Rightarrow> string \<Rightarrow> string \<Rightarrow> line list \<Rightarrow> line list" where
  "emit class key text lines =
     (case split_on newline text of
        [] \<Rightarrow> lines
      | p # ps \<Rightarrow> fold (\<lambda>p ls. add_piece class key p (ls @ [[]])) ps (add_piece class key p lines))"

text \<open>How a segment goes over the wire: a bare string, a pair or a triple.\<close>

datatype wire = Bare string | Pair string string | Triple string string string

definition MarshalJSON :: "segment \<Rightarrow> wire" where
  "MarshalJSON s =
     (if sg_class s = '''' then Bare (sg_text s)
      else if sg_key s \<noteq> '''' then Triple (sg_class s) (sg_text s) (sg_key s)
      else Pair (sg_class s) (sg_text s))"

section \<open>What a builder shows\<close>

fun join_lines :: "'a list list \<Rightarrow> 'a option list" where
  "join_lines [] = []"
| "join_lines [l] = map Some l"
| "join_lines (l # m # ls) = map Some l @ None # join_lines (m # ls)"

definition shown :: "segment \<Rightarrow> (char \<times> string \<times> string) list" where
  "shown s = map (\<lambda>c. (c, sg_class s, sg_key s)) (sg_text s)"

definition line_shown :: "line \<Rightarrow> (char \<times> string \<times> string) list" where
  "line_shown l = concat (map shown l)"

definition line_text :: "line \<Rightarrow> string" where
  "line_text l = concat (map sg_text l)"

definition drawn :: "line list \<Rightarrow> (char \<times> string \<times> string) option list" where
  "drawn ls = join_lines (map line_shown ls)"

text \<open>Text of one class, the way it is to be shown.\<close>

definition coloured :: "string \<Rightarrow> string \<Rightarrow> string \<Rightarrow> (char \<times> string \<times> string) option list" where
  "coloured class key text = map (\<lambda>c. if c = newline then None else Some (c, class, key)) text"

lemma line_shown_append [simp]: "line_shown (a @ b) = line_shown a @ line_shown b"
  by (simp add: line_shown_def)

lemma line_shown_Nil [simp]: "line_shown [] = []"
  by (simp add: line_shown_def)

lemma line_shown_one [simp]: "line_shown [s] = shown s"
  by (simp add: line_shown_def)

lemma line_text_shown: "line_text l = map fst (line_shown l)"
  by (induction l) (simp_all add: line_text_def line_shown_def shown_def comp_def)

lemma join_lines_snoc: "ls \<noteq> [] \<Longrightarrow> join_lines (ls @ [l]) = join_lines ls @ None # map Some l"
  by (induction ls rule: join_lines.induct) auto

lemma join_lines_extend: "join_lines (ls @ [l @ m]) = join_lines (ls @ [l]) @ map Some m"
  by (cases "ls = []") (simp_all add: join_lines_snoc)

lemma drawn_snoc: "ls \<noteq> [] \<Longrightarrow> drawn (ls @ [l]) = drawn ls @ None # map Some (line_shown l)"
  by (simp add: drawn_def join_lines_snoc)

lemma drawn_extend: "ls \<noteq> [] \<Longrightarrow> drawn (butlast ls @ [last ls @ l]) = drawn ls @ map Some (line_shown l)"
proof -
  assume "ls \<noteq> []"
  then obtain ys y where "ls = ys @ [y]" by (metis rev_exhaust)
  then show ?thesis by (simp add: drawn_def join_lines_extend)
qed

lemma coloured_append [simp]: "coloured c k (s @ t) = coloured c k s @ coloured c k t"
  by (simp add: coloured_def)

lemma coloured_Nil [simp]: "coloured c k [] = []"
  by (simp add: coloured_def)

lemma coloured_plain: "newline \<notin> set t \<Longrightarrow> coloured c k t = map (\<lambda>x. Some (x, c, k)) t"
  by (auto simp: coloured_def)

section \<open>Emission\<close>

lemma add_piece_nonempty [simp]: "ls \<noteq> [] \<Longrightarrow> add_piece c k p ls \<noteq> []"
  by (simp add: add_piece_def Let_def)

lemma shown_more: "shown (s\<lparr>sg_text := sg_text s @ p\<rparr>) = shown s @ map (\<lambda>x. (x, sg_class s, sg_key s)) p"
  by (simp add: shown_def)

lemma line_shown_last:
  "cur \<noteq> [] \<Longrightarrow> line_shown (butlast cur @ [(last cur)\<lparr>sg_text := sg_text (last cur) @ p\<rparr>]) =
     line_shown cur @ map (\<lambda>x. (x, sg_class (last cur), sg_key (last cur))) p"
proof -
  assume "cur \<noteq> []"
  then obtain ys y where "cur = ys @ [y]" by (metis rev_exhaust)
  then show ?thesis by (simp add: shown_more)
qed

lemma drawn_add_piece:
  assumes "ls \<noteq> []" "newline \<notin> set p"
  shows "drawn (add_piece c k p ls) = drawn ls @ coloured c k p"
proof -
  let ?cur = "last ls"
  have replace: "drawn (butlast ls @ [l]) = drawn ls @ coloured c k p"
    if "line_shown l = line_shown ?cur @ map (\<lambda>x. (x, c, k)) p" for l
  proof -
    have "drawn (butlast ls @ [l]) = drawn (butlast ls @ [?cur @ [\<lparr>sg_class = c, sg_text = p, sg_key = k\<rparr>]])"
      using that by (simp add: drawn_def shown_def)
    then show ?thesis using drawn_extend [OF assms(1)] assms(2) by (simp add: shown_def coloured_plain)
  qed
  show ?thesis unfolding add_piece_def Let_def
    using replace [of "last ls @ [\<lparr>sg_class = c, sg_text = p, sg_key = k\<rparr>]"]
      replace [of "butlast (last ls) @ [(last (last ls))\<lparr>sg_text := sg_text (last (last ls)) @ p\<rparr>]"]
      line_shown_last [of "last ls" p]
    by (auto simp: shown_def)
qed

lemma emit_eq:
  "emit c k text ls = fold (\<lambda>p ls. add_piece c k p (ls @ [[]])) (tl (split_on newline text))
     (add_piece c k (hd (split_on newline text)) ls)"
  by (simp add: emit_def split: list.splits)

lemma drawn_pieces:
  "ls \<noteq> [] \<Longrightarrow> \<forall>p \<in> set ps. newline \<notin> set p \<Longrightarrow>
    fold (\<lambda>p ls. add_piece c k p (ls @ [[]])) ps ls \<noteq> [] \<and>
    drawn (fold (\<lambda>p ls. add_piece c k p (ls @ [[]])) ps ls) = drawn ls @ concat (map (\<lambda>p. coloured c k (newline # p)) ps)"
proof (induction ps arbitrary: ls)
  case (Cons p ps)
  have "drawn (add_piece c k p (ls @ [[]])) = drawn ls @ coloured c k (newline # p)"
    using Cons.prems by (simp add: drawn_add_piece drawn_snoc) (simp add: coloured_def)
  then show ?case using Cons by simp
qed simp

lemma coloured_join:
  "coloured c k (join_with [newline] (p # ps)) = coloured c k p @ concat (map (\<lambda>p. coloured c k (newline # p)) ps)"
proof (induction ps arbitrary: p)
  case (Cons q ps)
  have "coloured c k (newline # join_with [newline] (q # ps)) =
      coloured c k (newline # q) @ concat (map (\<lambda>p. coloured c k (newline # p)) ps)"
    using Cons [of q] by (simp add: coloured_def)
  then show ?case by simp
qed simp

text \<open>The law of the builder: an emission shows its text after what was there.\<close>

lemma drawn_emit:
  assumes "ls \<noteq> []"
  shows "emit c k text ls \<noteq> []" "drawn (emit c k text ls) = drawn ls @ coloured c k text"
proof -
  obtain p ps where split: "split_on newline text = p # ps" by (cases "split_on newline text") auto
  have pieces: "newline \<notin> set p" "\<forall>q \<in> set ps. newline \<notin> set q"
    using split_on_no_sep [of _ newline "text"] split by auto
  note steps = drawn_pieces [OF add_piece_nonempty [OF assms] pieces(2), of c k c k p]
  show "emit c k text ls \<noteq> []" using steps by (simp add: emit_eq split)
  have "text = join_with [newline] (p # ps)" using join_split [of newline "text"] split by simp
  then have "coloured c k text = coloured c k p @ concat (map (\<lambda>p. coloured c k (newline # p)) ps)"
    using coloured_join by metis
  then show "drawn (emit c k text ls) = drawn ls @ coloured c k text"
    using steps by (simp add: emit_eq split drawn_add_piece [OF assms pieces(1)])
qed

section \<open>The form of a line\<close>

text \<open>
  No segment is empty or holds a line break, and neighbours that a renderer may join are
  already joined.
\<close>

definition joinable :: "segment \<Rightarrow> segment \<Rightarrow> bool" where
  "joinable s t \<longleftrightarrow> sg_class s = sg_class t \<and> sg_key s = '''' \<and> sg_key t = '''' \<and> mergeable (sg_class t)"

definition tight :: "line \<Rightarrow> bool" where
  "tight l \<longleftrightarrow> (\<forall>s \<in> set l. sg_text s \<noteq> '''' \<and> newline \<notin> set (sg_text s)) \<and>
     successively (\<lambda>s t. \<not> joinable s t) l"

lemma tight_Nil [simp]: "tight []"
  by (simp add: tight_def)

lemma tight_more:
  assumes "tight (l @ [s])" "newline \<notin> set p"
  shows "tight (l @ [s\<lparr>sg_text := sg_text s @ p\<rparr>])"
  using assms by (auto simp: tight_def successively_append_iff joinable_def)

lemma tight_add_piece:
  assumes "\<forall>l \<in> set ls. tight l" "ls \<noteq> []" "newline \<notin> set p"
  shows "\<forall>l \<in> set (add_piece c k p ls). tight l"
proof -
  have cur: "tight (last ls)" and others: "\<forall>l \<in> set (butlast ls). tight l"
    using assms(1,2) by (auto dest: in_set_butlastD)
  have grown: "tight (butlast (last ls) @ [(last (last ls))\<lparr>sg_text := sg_text (last (last ls)) @ p\<rparr>])"
    if "last ls \<noteq> []"
    using tight_more [of "butlast (last ls)" "last (last ls)"] cur assms(3) that by simp
  have longer: "tight (last ls @ [\<lparr>sg_class = c, sg_text = p, sg_key = k\<rparr>])"
    if "p \<noteq> ''''" "\<not> (last ls \<noteq> [] \<and> k = '''' \<and> sg_class (last (last ls)) = c \<and> sg_key (last (last ls)) = '''' \<and> mergeable c)"
    using cur assms(3) that by (auto simp: tight_def successively_append_iff joinable_def)
  show ?thesis using assms(1) others grown longer unfolding add_piece_def Let_def by auto
qed

lemma tight_emit:
  assumes "\<forall>l \<in> set ls. tight l" "ls \<noteq> []"
  shows "\<forall>l \<in> set (emit c k text ls). tight l"
proof -
  have loop: "\<forall>l \<in> set (fold (\<lambda>p ls. add_piece c k p (ls @ [[]])) ps ls). tight l"
    if "\<forall>l \<in> set ls. tight l" "ls \<noteq> []" "\<forall>p \<in> set ps. newline \<notin> set p" for ps ls
    using that
  proof (induction ps arbitrary: ls)
    case (Cons p ps)
    have "\<forall>l \<in> set (add_piece c k p (ls @ [[]])). tight l"
      using Cons.prems by (intro tight_add_piece) auto
    then show ?case using Cons by simp
  qed simp
  obtain p ps where split: "split_on newline text = p # ps" by (cases "split_on newline text") auto
  have "newline \<notin> set p" "\<forall>q \<in> set ps. newline \<notin> set q"
    using split_on_no_sep [of _ newline "text"] split by auto
  then show ?thesis
    using loop [OF tight_add_piece [OF assms] add_piece_nonempty [OF assms(2)]] by (simp add: emit_eq split)
qed

section \<open>Back to the text\<close>

lemma texts_of_drawn:
  assumes "ls \<noteq> []" "\<forall>l \<in> set ls. tight l"
    and "map (case_option newline fst) (drawn ls) = body"
  shows "map line_text ls = split_on newline body"
proof -
  have flat: "ls \<noteq> [] \<Longrightarrow> map (case_option newline fst) (drawn ls) = join_with [newline] (map line_text ls)" for ls
  proof (induction ls rule: join_lines.induct)
    case (3 l m ls)
    then show ?case by (simp add: drawn_def line_text_shown)
  qed (simp_all add: drawn_def line_text_shown)
  have "\<forall>t \<in> set (map line_text ls). newline \<notin> set t"
    using assms(2) by (auto simp: tight_def line_text_def)
  then show ?thesis using flat [OF assms(1)] assms(1,3) split_join [of "map line_text ls" newline] by simp
qed

end
