(* ===== verification/Src_Index.thy ===== *)
theory Src_Index
  imports Src_Lines "HOL-Library.AList" "HOL-Library.Multiset"
begin

text \<open>
  The index of a package's source (\<^verbatim>\<open>pkg/srctok/srctok.go\<close>): the names every file declares
  at top level, where each is declared, and what each identifier is.

  The Go parser is a parameter: it maps a file's name and body to a tree, or to nothing. The
  tree keeps the nodes the code distinguishes; every other node is an \<open>OtherNode\<close> with its
  children in the order \<^verbatim>\<open>ast.Inspect\<close> visits them. An identifier carries an address, because
  the code compares identifiers as pointers, its byte offset when its position is valid, and
  the object the parser resolved it to.
\<close>

section \<open>Syntax trees\<close>

type_synonym named = "string \<times> nat option"

datatype obj_decl = ObjValueSpec "named list" | ObjTypeSpec named | ObjFuncDecl named | ObjOther

record obj =
  ob_name :: string
  ob_decl :: obj_decl

record ident =
  id_ptr :: nat
  id_name :: string
  id_pos :: "nat option"
  id_obj :: "obj option"

datatype tree_node =
    Id ident
  | SelectorExpr tree_node ident
  | CompositeLit "tree_node list" "tree_node list"
  | KeyValueExpr tree_node tree_node
  | FieldNode "ident list" "tree_node list"
  | FuncDecl "tree_node list option" ident "tree_node list"
  | LabeledStmt ident tree_node
  | BranchStmt "ident option"
  | CallExpr tree_node "tree_node list"
  | StarExpr tree_node
  | ParenExpr tree_node
  | IndexExpr tree_node tree_node
  | IndexListExpr tree_node "tree_node list"
  | TypeSpec ident "tree_node list"
  | ValueSpec "ident list" "tree_node list"
  | ImportSpec "ident option"
  | GenDecl "tree_node list"
  | OtherNode "tree_node list"

text \<open>An import: its name, its path as written and the offset of the path.\<close>

record import_spec =
  im_name :: "ident option"
  im_value :: string
  im_pos :: nat

record file_ast =
  fa_name :: ident
  fa_imports :: "import_spec list"
  fa_decls :: "tree_node list"

text \<open>The nodes in the order of \<^verbatim>\<open>ast.Inspect\<close> with a function that never prunes.\<close>

fun visit :: "tree_node \<Rightarrow> tree_node list" where
  "visit (Id i) = [Id i]"
| "visit (SelectorExpr x s) = SelectorExpr x s # visit x @ [Id s]"
| "visit (CompositeLit t es) = CompositeLit t es # concat (map visit t) @ concat (map visit es)"
| "visit (KeyValueExpr k v) = KeyValueExpr k v # visit k @ visit v"
| "visit (FieldNode ns t) = FieldNode ns t # map Id ns @ concat (map visit t)"
| "visit (FuncDecl r n body) =
     FuncDecl r n body # (case r of None \<Rightarrow> [] | Some fs \<Rightarrow> concat (map visit fs)) @ [Id n] @ concat (map visit body)"
| "visit (LabeledStmt l s) = LabeledStmt l s # Id l # visit s"
| "visit (BranchStmt l) = BranchStmt l # (case l of None \<Rightarrow> [] | Some i \<Rightarrow> [Id i])"
| "visit (CallExpr f as) = CallExpr f as # visit f @ concat (map visit as)"
| "visit (StarExpr x) = StarExpr x # visit x"
| "visit (ParenExpr x) = ParenExpr x # visit x"
| "visit (IndexExpr x i) = IndexExpr x i # visit x @ visit i"
| "visit (IndexListExpr x is) = IndexListExpr x is # visit x @ concat (map visit is)"
| "visit (TypeSpec n t) = TypeSpec n t # Id n # concat (map visit t)"
| "visit (ValueSpec ns vs) = ValueSpec ns vs # map Id ns @ concat (map visit vs)"
| "visit (ImportSpec n) = ImportSpec n # (case n of None \<Rightarrow> [] | Some i \<Rightarrow> [Id i])"
| "visit (GenDecl ss) = GenDecl ss # concat (map visit ss)"
| "visit (OtherNode ns) = OtherNode ns # concat (map visit ns)"

definition inspect :: "file_ast \<Rightarrow> tree_node list" where
  "inspect a = Id (fa_name a) # concat (map visit (fa_decls a))"

section \<open>The code\<close>

definition predeclaredTypes :: "string list" where
  "predeclaredTypes = [''address'', ''any'', ''bool'', ''byte'', ''error'',
     ''float32'', ''float64'', ''int'', ''int8'', ''int16'', ''int32'', ''int64'',
     ''realm'', ''rune'', ''string'', ''uint'', ''uint8'', ''uint16'', ''uint32'', ''uint64'']"

definition predeclaredFuncs :: "string list" where
  "predeclaredFuncs = [''append'', ''attach'', ''cap'', ''copy'', ''cross'', ''crossing'',
     ''delete'', ''istypednil'', ''len'', ''make'', ''new'', ''panic'', ''print'', ''println'',
     ''recover'', ''revive'', ''true'', ''false'', ''nil'', ''iota'']"

record location =
  lo_file :: string
  lo_line :: nat

record source_file =
  sf_name :: string
  sf_body :: string

record file_info =
  fi_body :: string
  fi_isGno :: bool
  fi_ast :: "file_ast option"
  fi_defs :: "(nat \<times> string) list"
  fi_marks :: "nat \<Rightarrow> string"
  fi_impSet :: "nat set"

record index =
  ix_files :: "string \<Rightarrow> file_info option"
  ix_decls :: "string \<Rightarrow> location option"

definition lineAt :: "string \<Rightarrow> nat \<Rightarrow> nat" where
  "lineAt body off = length (filter (\<lambda>c. c = newline) (take off body)) + 1"

text \<open>The offset of an invalid position is 0.\<close>

definition offsetOf :: "ident \<Rightarrow> nat" where
  "offsetOf i = (case id_pos i of None \<Rightarrow> 0 | Some p \<Rightarrow> p)"

fun recvTypeName :: "tree_node \<Rightarrow> string" where
  "recvTypeName (StarExpr x) = recvTypeName x"
| "recvTypeName (ParenExpr x) = recvTypeName x"
| "recvTypeName (IndexExpr x _) = recvTypeName x"
| "recvTypeName (IndexListExpr x _) = recvTypeName x"
| "recvTypeName (Id i) = id_name i"
| "recvTypeName _ = ''''"

definition add_def :: "ident \<Rightarrow> string \<Rightarrow> (nat \<times> string) list \<Rightarrow> (nat \<times> string) list" where
  "add_def i key defs =
     (if id_name i = ''_'' \<or> id_name i = ''init'' \<or> id_pos i = None then defs
      else AList.update (offsetOf i) key defs)"

fun field_type :: "tree_node \<Rightarrow> string" where
  "field_type (FieldNode _ (t # _)) = recvTypeName t"
| "field_type _ = ''''"

fun add_spec :: "tree_node \<Rightarrow> (nat \<times> string) list \<Rightarrow> (nat \<times> string) list" where
  "add_spec (TypeSpec n _) defs = add_def n (id_name n) defs"
| "add_spec (ValueSpec ns _) defs = fold (\<lambda>n. add_def n (id_name n)) ns defs"
| "add_spec _ defs = defs"

fun add_decl :: "tree_node \<Rightarrow> (nat \<times> string) list \<Rightarrow> (nat \<times> string) list" where
  "add_decl (FuncDecl (Some (f # fs)) n _) defs =
     (if field_type f \<noteq> '''' then add_def n (field_type f @ ''.'' @ id_name n) defs else defs)"
| "add_decl (FuncDecl _ n _) defs = add_def n (id_name n) defs"
| "add_decl (GenDecl ss) defs = fold add_spec ss defs"
| "add_decl _ defs = defs"

definition topLevelDefs :: "file_ast option \<Rightarrow> (nat \<times> string) list" where
  "topLevelDefs a = (case a of None \<Rightarrow> [] | Some a \<Rightarrow> fold add_decl (fa_decls a) [])"

definition isPackageName :: "(string \<Rightarrow> location option) \<Rightarrow> string \<Rightarrow> bool" where
  "isPackageName decls name \<longleftrightarrow> decls name \<noteq> None \<and> CHR ''.'' \<notin> set name"

definition objIdent :: "obj \<Rightarrow> named option" where
  "objIdent ob =
     (case ob_decl ob of
        ObjValueSpec ns \<Rightarrow> find (\<lambda>n. fst n = ob_name ob) ns
      | ObjTypeSpec n \<Rightarrow> Some n
      | ObjFuncDecl n \<Rightarrow> Some n
      | ObjOther \<Rightarrow> None)"

definition importName :: "string \<Rightarrow> string" where
  "importName path =
     (let parts = split_on CHR ''/'' path; l = last parts
      in if length parts > 1 \<and> length l > 1 \<and> hd l = CHR ''v'' \<and> list_all is_digit (tl l)
         then parts ! (length parts - 2) else l)"

text \<open>The names a file imports, with the marks and the offsets the imports get.\<close>

record imports_read =
  ir_names :: "string set"
  ir_marks :: "nat \<Rightarrow> string"
  ir_imps :: "nat set"

definition read_import :: "(string \<Rightarrow> string option) \<Rightarrow> import_spec \<Rightarrow> imports_read \<Rightarrow> imports_read" where
  "read_import unquote spec r =
     (case unquote (im_value spec) of
        None \<Rightarrow> r
      | Some path \<Rightarrow>
          let r = (if has_prefix path ''gno.land/p/'' \<or> has_prefix path ''gno.land/r/''
                   then r\<lparr>ir_imps := insert (im_pos spec) (ir_imps r)\<rparr> else r)
          in (case im_name spec of
                Some n \<Rightarrow>
                  if id_name n \<noteq> ''_'' \<and> id_name n \<noteq> ''.''
                  then r\<lparr>ir_names := insert (id_name n) (ir_names r), ir_marks := (ir_marks r)(offsetOf n := Pkg)\<rparr>
                  else r
              | None \<Rightarrow> r\<lparr>ir_names := insert (importName path) (ir_names r)\<rparr>))"

text \<open>The first pass: identifiers that are not free names, calls and package qualifiers.\<close>

record pass =
  ps_free_not :: "nat set"
  ps_marks :: "nat \<Rightarrow> string"

definition literal_keys :: "tree_node list \<Rightarrow> nat set" where
  "literal_keys es = {id_ptr k | k. \<exists>v. KeyValueExpr (Id k) v \<in> set es}"

lemma literal_keys_code [code]:
  "literal_keys es = set (concat (map (\<lambda>e. case e of KeyValueExpr (Id k) v \<Rightarrow> [id_ptr k] | _ \<Rightarrow> []) es))"
  by (force simp: literal_keys_def split: tree_node.splits)

fun first_pass :: "(string \<Rightarrow> location option) \<Rightarrow> string set \<Rightarrow> tree_node \<Rightarrow> pass \<Rightarrow> pass" where
  "first_pass decls names (SelectorExpr x s) p =
     (let p = p\<lparr>ps_free_not := insert (id_ptr s) (ps_free_not p)\<rparr>
      in (case x of
            Id i \<Rightarrow>
              if id_obj i = None \<and> id_name i \<in> names \<and> \<not> isPackageName decls (id_name i)
              then p\<lparr>ps_marks := (ps_marks p)(offsetOf i := Pkg)\<rparr> else p
          | _ \<Rightarrow> p))"
| "first_pass decls names (CompositeLit t es) p = p\<lparr>ps_free_not := ps_free_not p \<union> literal_keys es\<rparr>"
| "first_pass decls names (FieldNode ns t) p = p\<lparr>ps_free_not := ps_free_not p \<union> id_ptr ` set ns\<rparr>"
| "first_pass decls names (FuncDecl r n body) p =
     (if r \<noteq> None then p\<lparr>ps_free_not := insert (id_ptr n) (ps_free_not p)\<rparr> else p)"
| "first_pass decls names (LabeledStmt l s) p = p\<lparr>ps_free_not := insert (id_ptr l) (ps_free_not p)\<rparr>"
| "first_pass decls names (BranchStmt l) p =
     (case l of None \<Rightarrow> p | Some i \<Rightarrow> p\<lparr>ps_free_not := insert (id_ptr i) (ps_free_not p)\<rparr>)"
| "first_pass decls names (CallExpr f as) p =
     (case f of
        Id i \<Rightarrow> p\<lparr>ps_marks := (ps_marks p)(offsetOf i := Func)\<rparr>
      | SelectorExpr _ s \<Rightarrow> p\<lparr>ps_marks := (ps_marks p)(offsetOf s := Func)\<rparr>
      | _ \<Rightarrow> p)"
| "first_pass decls names _ p = p"

text \<open>The second pass: what each identifier is.\<close>

definition is_top :: "(nat \<times> string) list \<Rightarrow> obj \<Rightarrow> bool" where
  "is_top defs ob =
     (case objIdent ob of
        Some (n, Some off) \<Rightarrow> map_of defs off \<noteq> None
      | _ \<Rightarrow> False)"

fun second_pass ::
  "(string \<Rightarrow> location option) \<Rightarrow> (nat \<times> string) list \<Rightarrow> nat set \<Rightarrow> tree_node \<Rightarrow> (nat \<Rightarrow> string) \<Rightarrow> (nat \<Rightarrow> string)" where
  "second_pass decls defs free_not (Id i) marks =
     (if id_pos i = None then marks
      else let off = offsetOf i
           in if map_of defs off \<noteq> None then marks(off := Decl)
              else if id_ptr i \<in> free_not then marks
              else if marks off = Pkg then marks
              else (case id_obj i of
                      Some ob \<Rightarrow> if is_top defs ob then marks(off := Ref) else marks
                    | None \<Rightarrow>
                        if isPackageName decls (id_name i) then marks(off := Ref)
                        else if id_name i \<in> set predeclaredTypes then marks(off := Type)
                        else if id_name i \<in> set predeclaredFuncs then marks(off := Builtin)
                        else marks))"
| "second_pass decls defs free_not _ marks = marks"

definition classifyIdents ::
  "(string \<Rightarrow> string option) \<Rightarrow> (string \<Rightarrow> location option) \<Rightarrow> file_info \<Rightarrow> (nat \<Rightarrow> string) \<times> nat set" where
  "classifyIdents unquote decls fi =
     (case fi_ast fi of
        None \<Rightarrow> (\<lambda>_. '''', {})
      | Some a \<Rightarrow>
          let r = fold (read_import unquote) (fa_imports a) \<lparr>ir_names = {}, ir_marks = (\<lambda>_. ''''), ir_imps = {}\<rparr>;
              p = fold (first_pass decls (ir_names r)) (inspect a) \<lparr>ps_free_not = {}, ps_marks = ir_marks r\<rparr>
          in (fold (second_pass decls (fi_defs fi) (ps_free_not p)) (inspect a) (ps_marks p), ir_imps r))"

text \<open>
  \<^verbatim>\<open>NewIndex\<close>. Go ranges over the definitions of a file, a map, in an order of its own: the
  parameter \<open>rng\<close> is that order. Sorting is stable, which the code's need not be; the two
  differ only for files of one name.
\<close>

definition declare_one :: "string \<Rightarrow> string \<Rightarrow> nat \<times> string \<Rightarrow> (string \<Rightarrow> location option) \<Rightarrow> (string \<Rightarrow> location option)" where
  "declare_one name body d decls =
     (if decls (snd d) \<noteq> None then decls
      else decls(snd d \<mapsto> \<lparr>lo_file = name, lo_line = lineAt body (fst d)\<rparr>))"

definition add_file ::
  "(string \<Rightarrow> string \<Rightarrow> file_ast option) \<Rightarrow> ((nat \<times> string) list \<Rightarrow> (nat \<times> string) list) \<Rightarrow> source_file \<Rightarrow> index \<Rightarrow> index" where
  "add_file parse rng f ix =
     (let gno = has_suffix (sf_name f) ''.gno'';
          a = (if gno then parse (sf_name f) (sf_body f) else None);
          defs = topLevelDefs a;
          fi = \<lparr>fi_body = sf_body f, fi_isGno = gno, fi_ast = a, fi_defs = defs, fi_marks = (\<lambda>_. ''''), fi_impSet = {}\<rparr>
      in \<lparr>ix_files = (ix_files ix)(sf_name f \<mapsto> fi),
          ix_decls = (if gno then fold (declare_one (sf_name f) (sf_body f)) (rng defs) (ix_decls ix) else ix_decls ix)\<rparr>)"

definition mark_file :: "(string \<Rightarrow> string option) \<Rightarrow> (string \<Rightarrow> location option) \<Rightarrow> file_info \<Rightarrow> file_info" where
  "mark_file unquote decls fi =
     (if fi_isGno fi
      then fi\<lparr>fi_marks := fst (classifyIdents unquote decls fi), fi_impSet := snd (classifyIdents unquote decls fi)\<rparr>
      else fi)"

definition NewIndex ::
  "(string \<Rightarrow> string \<Rightarrow> file_ast option) \<Rightarrow> (string \<Rightarrow> string option) \<Rightarrow> ((nat \<times> string) list \<Rightarrow> (nat \<times> string) list)
     \<Rightarrow> source_file list \<Rightarrow> index" where
  "NewIndex parse unquote rng files =
     (let ix = fold (add_file parse rng) (sort_key sf_name files) \<lparr>ix_files = Map.empty, ix_decls = Map.empty\<rparr>
      in ix\<lparr>ix_files := \<lambda>n. map_option (mark_file unquote (ix_decls ix)) (ix_files ix n)\<rparr>)"

end
