(* ===== verification/Src_Links.thy ===== *)
theory Src_Links
  imports Src_Index
begin

text \<open>
  What the index of a package promises: declarations are marked as such exactly where the
  package declares a name, every reference has a declaration to lead to, and on what the
  place of a declaration depends.
\<close>

section \<open>Identifiers of a file\<close>

definition idents :: "file_ast \<Rightarrow> ident set" where
  "idents a = {i. Id i \<in> set (inspect a)}"

lemma visit_self: "n \<in> set (visit n)"
  by (cases n) auto

lemma decl_ident: "d \<in> set (fa_decls a) \<Longrightarrow> Id i \<in> set (visit d) \<Longrightarrow> i \<in> idents a"
  by (auto simp: idents_def inspect_def)

section \<open>Definitions\<close>

text \<open>A definition stands at an identifier of the file, and names it or is a method's key.\<close>

definition def_at :: "file_ast \<Rightarrow> nat \<Rightarrow> string \<Rightarrow> bool" where
  "def_at a off key \<longleftrightarrow>
     (\<exists>i \<in> idents a. id_pos i = Some off \<and>
        (key = id_name i \<or> (\<exists>r b. FuncDecl (Some r) i b \<in> set (fa_decls a))))"

definition defs_at :: "file_ast \<Rightarrow> (nat \<times> string) list \<Rightarrow> bool" where
  "defs_at a defs \<longleftrightarrow> (\<forall>(off, key) \<in> set defs. def_at a off key)"

lemma set_update: "set (AList.update k v al) \<subseteq> insert (k, v) (set al)"
  by (induction al) auto

lemma add_def_at:
  assumes "defs_at a defs" "i \<in> idents a" "key = id_name i \<or> (\<exists>r b. FuncDecl (Some r) i b \<in> set (fa_decls a))"
  shows "defs_at a (add_def i key defs)"
proof (cases "id_pos i")
  case (Some off)
  then have "def_at a off key" using assms(2,3) by (auto simp: def_at_def)
  then show ?thesis using assms(1) Some set_update [of off key defs]
    by (auto simp: defs_at_def add_def_def offsetOf_def)
qed (simp add: add_def_def assms(1))

lemma add_spec_at:
  assumes "defs_at a defs" "\<And>i. Id i \<in> set (visit s) \<Longrightarrow> i \<in> idents a"
  shows "defs_at a (add_spec s defs)"
proof -
  have names: "defs_at a (fold (\<lambda>n. add_def n (id_name n)) ns defs)"
    if "set ns \<subseteq> idents a" "defs_at a defs" for ns defs
    using that by (induction ns arbitrary: defs) (auto intro: add_def_at)
  show ?thesis using assms by (cases s) (auto intro: add_def_at intro!: names)
qed

lemma add_decl_at:
  assumes "defs_at a defs" "d \<in> set (fa_decls a)"
  shows "defs_at a (add_decl d defs)"
proof -
  have specs: "defs_at a (fold add_spec ss defs)"
    if "\<And>i s. s \<in> set ss \<Longrightarrow> Id i \<in> set (visit s) \<Longrightarrow> i \<in> idents a" "defs_at a defs" for ss defs
    using that by (induction ss arbitrary: defs) (auto intro!: add_spec_at)
  have ids: "\<And>i. Id i \<in> set (visit d) \<Longrightarrow> i \<in> idents a" using assms(2) by (rule decl_ident)
  show ?thesis
  proof (cases d)
    case (FuncDecl r n b)
    then show ?thesis using assms ids
      by (cases "(d, defs)" rule: add_decl.cases) (auto intro!: add_def_at)
  next
    case (GenDecl ss)
    then show ?thesis using assms ids by (auto intro!: specs)
  qed (use assms in simp_all)
qed

lemma topLevelDefs_at: "defs_at a (topLevelDefs (Some a))"
proof -
  have "defs_at a (fold add_decl ds defs)" if "set ds \<subseteq> set (fa_decls a)" "defs_at a defs" for ds defs
    using that by (induction ds arbitrary: defs) (auto intro: add_decl_at)
  from this [of "fa_decls a" "[]"] show ?thesis by (simp add: topLevelDefs_def defs_at_def)
qed

section \<open>The index\<close>

lemma declared_grows: "dom decls \<subseteq> dom (fold (declare_one n b) ds decls)"
  by (induction ds arbitrary: decls) (auto simp: declare_one_def subset_iff)

lemma declared_all: "snd ` set ds \<subseteq> dom (fold (declare_one n b) ds decls)"
proof (induction ds arbitrary: decls)
  case (Cons d ds)
  have "snd d \<in> dom (declare_one n b d decls)" by (auto simp: declare_one_def)
  then show ?case using Cons declared_grows [of "declare_one n b d decls" n b ds] by auto
qed simp

definition index_ok :: "index \<Rightarrow> bool" where
  "index_ok ix \<longleftrightarrow>
     (\<forall>n fi. ix_files ix n = Some fi \<longrightarrow>
        fi_defs fi = topLevelDefs (fi_ast fi) \<and> snd ` set (fi_defs fi) \<subseteq> dom (ix_decls ix) \<and>
        (fi_ast fi \<noteq> None \<longrightarrow> fi_isGno fi))"

lemma index_okD:
  "index_ok ix \<Longrightarrow> ix_files ix n = Some fi \<Longrightarrow>
    fi_defs fi = topLevelDefs (fi_ast fi) \<and> snd ` set (fi_defs fi) \<subseteq> dom (ix_decls ix) \<and>
    (fi_ast fi \<noteq> None \<longrightarrow> fi_isGno fi)"
  unfolding index_ok_def by blast

lemma add_file_ok:
  assumes "index_ok ix" "\<forall>ds. set (rng ds) = set ds"
  shows "index_ok (add_file parse rng f ix)"
proof -
  let ?gno = "has_suffix (sf_name f) ''.gno''"
  let ?a = "if ?gno then parse (sf_name f) (sf_body f) else None"
  let ?D = "if ?gno then fold (declare_one (sf_name f) (sf_body f)) (rng (topLevelDefs ?a)) (ix_decls ix) else ix_decls ix"
  have decls: "ix_decls (add_file parse rng f ix) = ?D" by (simp add: add_file_def Let_def)
  have grow: "dom (ix_decls ix) \<subseteq> dom ?D" using declared_grows by simp
  have own: "snd ` set (topLevelDefs ?a) \<subseteq> dom ?D"
    using declared_all [of "rng (topLevelDefs ?a)" "sf_name f" "sf_body f" "ix_decls ix"] assms(2)
    by (cases ?gno) (simp_all add: topLevelDefs_def [of None])
  have "fi_defs g = topLevelDefs (fi_ast g) \<and> snd ` set (fi_defs g) \<subseteq> dom ?D \<and> (fi_ast g \<noteq> None \<longrightarrow> fi_isGno g)"
    if "ix_files (add_file parse rng f ix) n = Some g" for n g
  proof (cases "n = sf_name f")
    case True
    then have "fi_defs g = topLevelDefs ?a" "fi_ast g = ?a" "fi_isGno g = ?gno"
      using that by (auto simp: add_file_def Let_def)
    then show ?thesis using own by auto
  next
    case False
    then have "ix_files ix n = Some g" using that by (simp add: add_file_def Let_def)
    then show ?thesis using index_okD [OF assms(1)] grow by blast
  qed
  then show ?thesis unfolding index_ok_def decls by blast
qed

lemma add_files_ok:
  "\<forall>ds. set (rng ds) = set ds \<Longrightarrow> index_ok ix \<Longrightarrow> index_ok (fold (add_file parse rng) fs ix)"
proof (induction fs arbitrary: ix)
  case (Cons f fs)
  show ?case using Cons.IH [OF Cons.prems(1) add_file_ok [OF Cons.prems(2,1)]] by simp
qed simp

lemma classify_unmarked:
  "classifyIdents unquote D (fi\<lparr>fi_marks := m, fi_impSet := s\<rparr>) = classifyIdents unquote D fi"
  by (cases "fi_ast fi") (simp_all add: classifyIdents_def)

lemma NewIndex_file:
  assumes "ix_files (NewIndex parse unquote rng files) name = Some fi" "fi_ast fi = Some a"
    and "\<forall>ds. set (rng ds) = set ds"
  defines "D \<equiv> ix_decls (NewIndex parse unquote rng files)"
  shows "fi_defs fi = topLevelDefs (Some a)" "snd ` set (fi_defs fi) \<subseteq> dom D"
    "fi_marks fi = fst (classifyIdents unquote D fi)"
proof -
  define ix where "ix = fold (add_file parse rng) (sort_key sf_name files) \<lparr>ix_files = Map.empty, ix_decls = Map.empty\<rparr>"
  have ok: "index_ok ix" unfolding ix_def using assms(3) by (rule add_files_ok) (simp add: index_ok_def)
  have D: "D = ix_decls ix" by (simp add: D_def NewIndex_def Let_def ix_def)
  from assms(1) obtain f where f: "ix_files ix name = Some f" "fi = mark_file unquote D f"
    by (auto simp: NewIndex_def Let_def ix_def D)
  then have same: "fi_ast f = Some a" "fi_defs f = fi_defs fi" using assms(2) by (auto simp: mark_file_def split: if_splits)
  then have gno: "fi_isGno f" using ok f(1) by (fastforce simp: index_ok_def)
  show "fi_defs fi = topLevelDefs (Some a)" "snd ` set (fi_defs fi) \<subseteq> dom D"
    using index_okD [OF ok f(1), unfolded same] unfolding D by blast+
  show "fi_marks fi = fst (classifyIdents unquote D fi)"
    using f(2) gno classify_unmarked by (simp add: mark_file_def)
qed

section \<open>Marks\<close>

text \<open>The first pass and the imports only ever mark packages and calls.\<close>

definition early :: "(nat \<Rightarrow> string) \<Rightarrow> bool" where
  "early m \<longleftrightarrow> (\<forall>off. m off \<in> {'''', Pkg, Func})"

lemma early_off: "early m \<Longrightarrow> m off \<noteq> Ref \<and> m off \<noteq> Decl"
  unfolding early_def by (drule spec [of _ off]) auto

lemma early_update: "early m \<Longrightarrow> c \<in> {'''', Pkg, Func} \<Longrightarrow> early (m(off := c))"
  by (simp add: early_def)

lemma read_imports_early:
  "early (ir_marks r) \<Longrightarrow> early (ir_marks (fold (read_import unquote) specs r))"
proof (induction specs arbitrary: r)
  case (Cons s specs)
  have "early (ir_marks (read_import unquote s r))"
    using Cons.prems by (auto simp: read_import_def Let_def early_update split: option.splits)
  then show ?case using Cons.IH by simp
qed simp

lemma first_pass_early: "early (ps_marks p) \<Longrightarrow> early (ps_marks (fold (first_pass decls names) ns p))"
proof (induction ns arbitrary: p)
  case (Cons n ns)
  have "early (ps_marks (first_pass decls names n p))"
    using Cons.prems by (cases n) (auto simp: Let_def early_update split: tree_node.splits option.splits)
  then show ?case using Cons.IH by simp
qed simp

lemma classify_eq:
  assumes "fi_ast fi = Some a"
  obtains p :: pass where "early (ps_marks p)"
    "fst (classifyIdents unquote decls fi) = fold (second_pass decls (fi_defs fi) (ps_free_not p)) (inspect a) (ps_marks p)"
proof -
  define r where "r = fold (read_import unquote) (fa_imports a) \<lparr>ir_names = {}, ir_marks = (\<lambda>_. ''''), ir_imps = {}\<rparr>"
  define p where "p = fold (first_pass decls (ir_names r)) (inspect a) \<lparr>ps_free_not = {}, ps_marks = ir_marks r\<rparr>"
  have "early (ir_marks r)" unfolding r_def by (intro read_imports_early) (simp add: early_def)
  then have "early (ps_marks p)" unfolding p_def by (intro first_pass_early) simp
  moreover have "fst (classifyIdents unquote decls fi) =
      fold (second_pass decls (fi_defs fi) (ps_free_not p)) (inspect a) (ps_marks p)"
    using assms by (simp add: classifyIdents_def Let_def p_def r_def)
  ultimately show ?thesis by (rule that)
qed

text \<open>Why an identifier is a reference.\<close>

definition refers :: "(string \<Rightarrow> location option) \<Rightarrow> (nat \<times> string) list \<Rightarrow> nat set \<Rightarrow> ident \<Rightarrow> bool" where
  "refers decls defs free_not i \<longleftrightarrow>
     id_ptr i \<notin> free_not \<and>
     (case id_obj i of Some ob \<Rightarrow> is_top defs ob | None \<Rightarrow> isPackageName decls (id_name i))"

lemma second_pass_Ref:
  assumes "fold (second_pass decls defs free_not) ns m off = Ref" "m off \<noteq> Ref"
  shows "map_of defs off = None \<and> (\<exists>i. Id i \<in> set ns \<and> id_pos i = Some off \<and> refers decls defs free_not i)"
  using assms
proof (induction ns arbitrary: m)
  case (Cons n ns)
  let ?m = "second_pass decls defs free_not n m"
  show ?case
  proof (cases "?m off = Ref")
    case True
    then obtain i where "n = Id i" using Cons.prems(2) by (cases n) auto
    then show ?thesis using True Cons.prems(2)
      by (auto simp: Let_def refers_def offsetOf_def split: if_splits option.splits)
  next
    case False
    then show ?thesis using Cons.IH [of ?m] Cons.prems(1) by auto
  qed
qed simp

lemma second_pass_Decl:
  assumes "map_of defs off \<noteq> None" "(\<exists>i. Id i \<in> set ns \<and> id_pos i = Some off) \<or> m off = Decl"
  shows "fold (second_pass decls defs free_not) ns m off = Decl"
  using assms(2)
proof (induction ns arbitrary: m)
  case (Cons n ns)
  let ?m = "second_pass decls defs free_not n m"
  have "?m off = Decl" if "m off = Decl \<or> (\<exists>i. n = Id i \<and> id_pos i = Some off)"
    using that assms(1) by (cases n) (auto simp: Let_def offsetOf_def split: option.splits)
  then show ?case using Cons.IH [of ?m] Cons.prems by auto
qed simp

lemma second_pass_not_Decl:
  assumes "map_of defs off = None" "m off \<noteq> Decl"
  shows "fold (second_pass decls defs free_not) ns m off \<noteq> Decl"
  using assms(2)
proof (induction ns arbitrary: m)
  case (Cons n ns)
  have "second_pass decls defs free_not n m off \<noteq> Decl"
    using Cons.prems assms(1) by (cases n) (auto simp: Let_def split: option.splits)
  then show ?case using Cons.IH by simp
qed simp

section \<open>What the index promises\<close>

text \<open>
  What the parser's resolution promises of a tree: an offset holds one name, and the
  identifier an object was declared by has the name that refers to it, stands in the file
  and is not a method's.
\<close>

definition resolved :: "file_ast \<Rightarrow> bool" where
  "resolved a \<longleftrightarrow>
     (\<forall>i \<in> idents a. \<forall>j \<in> idents a. \<forall>off. id_pos i = Some off \<longrightarrow> id_pos j = Some off \<longrightarrow> id_name i = id_name j) \<and>
     (\<forall>i \<in> idents a. \<forall>ob n off. id_obj i = Some ob \<longrightarrow> objIdent ob = Some (n, Some off) \<longrightarrow>
        n = id_name i \<and> (\<exists>j \<in> idents a. id_name j = n \<and> id_pos j = Some off) \<and>
        (\<forall>r j b. FuncDecl (Some r) j b \<in> set (fa_decls a) \<longrightarrow> id_pos j \<noteq> Some off))"

lemma resolvedD:
  assumes "resolved a" "i \<in> idents a"
  shows "j \<in> idents a \<Longrightarrow> id_pos i = Some off \<Longrightarrow> id_pos j = Some off \<Longrightarrow> id_name i = id_name j"
    and "id_obj i = Some ob \<Longrightarrow> objIdent ob = Some (n, Some off) \<Longrightarrow>
      n = id_name i \<and> (\<exists>j \<in> idents a. id_name j = n \<and> id_pos j = Some off) \<and>
      (\<forall>r j b. FuncDecl (Some r) j b \<in> set (fa_decls a) \<longrightarrow> id_pos j \<noteq> Some off)"
proof -
  show "j \<in> idents a \<Longrightarrow> id_pos i = Some off \<Longrightarrow> id_pos j = Some off \<Longrightarrow> id_name i = id_name j"
    using conjunct1 [OF assms(1) [unfolded resolved_def]] assms(2) by blast
  show "id_obj i = Some ob \<Longrightarrow> objIdent ob = Some (n, Some off) \<Longrightarrow>
      n = id_name i \<and> (\<exists>j \<in> idents a. id_name j = n \<and> id_pos j = Some off) \<and>
      (\<forall>r j b. FuncDecl (Some r) j b \<in> set (fa_decls a) \<longrightarrow> id_pos j \<noteq> Some off)"
    using conjunct2 [OF assms(1) [unfolded resolved_def]] assms(2) by blast
qed

text \<open>A resolved identifier's declaration is a definition under its own name.\<close>

lemma top_key:
  assumes "resolved a" "i \<in> idents a" "id_obj i = Some ob" "is_top (topLevelDefs (Some a)) ob"
  shows "id_name i \<in> snd ` set (topLevelDefs (Some a))"
proof -
  obtain n off key where ob: "objIdent ob = Some (n, Some off)" and key: "map_of (topLevelDefs (Some a)) off = Some key"
    using assms(4) by (auto simp: is_top_def split: option.splits)
  note law = resolvedD(2) [OF assms(1-3) ob]
  from conjunct1 [OF law] conjunct1 [OF conjunct2 [OF law]]
  obtain j where j: "n = id_name i" "j \<in> idents a" "id_name j = n" "id_pos j = Some off" by (elim bexE conjE)
  have no_method: "FuncDecl (Some r) j b \<in> set (fa_decls a) \<Longrightarrow> id_pos j \<noteq> Some off" for r j b
    using conjunct2 [OF conjunct2 [OF law]] by (elim allE impE) assumption
  have mem: "(off, key) \<in> set (topLevelDefs (Some a))" using key by (rule map_of_SomeD)
  then have "def_at a off key" using bspec [OF topLevelDefs_at [of a, unfolded defs_at_def] mem] by simp
  then obtain k where k: "k \<in> idents a" "id_pos k = Some off"
    "key = id_name k \<or> (\<exists>r b. FuncDecl (Some r) k b \<in> set (fa_decls a))" unfolding def_at_def by (elim bexE conjE)
  then have "key = id_name k" using no_method [of _ k] k(2) by metis
  also have "\<dots> = id_name i" using resolvedD(1) [OF assms(1) j(2) k(1) j(4) k(2)] j(1,3) by simp
  finally show ?thesis using mem by force
qed

text \<open>
  C33. No dead links: for every identifier the viewer shows as a reference, the index knows a
  place where that name is declared. The identifier is a name the index declares at package
  level or one the parser resolved to a top-level declaration of the file; a local variable
  that shadows such a name is not a reference.
\<close>

theorem references_have_targets:
  assumes "ix_files (NewIndex parse unquote rng files) name = Some fi" "fi_ast fi = Some a"
    and "\<forall>ds. set (rng ds) = set ds" "resolved a"
    and "i \<in> idents a" "id_pos i = Some off" "fi_marks fi off = Ref"
  shows "ix_decls (NewIndex parse unquote rng files) (id_name i) \<noteq> None \<and>
    (\<exists>j \<in> idents a. id_pos j = Some off \<and> (case id_obj j of None \<Rightarrow> True | Some ob \<Rightarrow> is_top (fi_defs fi) ob))"
proof -
  let ?D = "ix_decls (NewIndex parse unquote rng files)"
  note found = NewIndex_file [OF assms(1-3)]
  obtain p :: pass where p: "early (ps_marks p)" "fi_marks fi = fold (second_pass ?D (fi_defs fi) (ps_free_not p)) (inspect a) (ps_marks p)"
    using classify_eq [OF assms(2), of unquote ?D] found(3) by metis
  have "ps_marks p off \<noteq> Ref" using early_off [OF p(1)] by simp
  then obtain j where j: "j \<in> idents a" "id_pos j = Some off" "refers ?D (fi_defs fi) (ps_free_not p) j"
    using second_pass_Ref [of ?D "fi_defs fi" "ps_free_not p" "inspect a" "ps_marks p" off] p(2) assms(7)
    by (auto simp: idents_def)
  have "?D (id_name j) \<noteq> None"
  proof (cases "id_obj j")
    case None
    then show ?thesis using j(3) by (simp add: refers_def isPackageName_def)
  next
    case (Some ob)
    then have "id_name j \<in> snd ` set (fi_defs fi)"
      using top_key [OF assms(4) j(1) Some] j(3) found(1) by (simp add: refers_def)
    then show ?thesis using found(2) by blast
  qed
  then have "?D (id_name i) \<noteq> None" using resolvedD(1) [OF assms(4,5) j(1) assms(6) j(2)] by simp
  moreover have "case id_obj j of None \<Rightarrow> True | Some ob \<Rightarrow> is_top (fi_defs fi) ob"
    using j(3) by (simp add: refers_def split: option.splits)
  ultimately show ?thesis using j(1,2) by blast
qed

text \<open>
  A name is shown as a declaration exactly where the file declares it at top level, and
  the index then knows where the key of that declaration is declared.
\<close>

theorem declarations_are_marked:
  assumes "ix_files (NewIndex parse unquote rng files) name = Some fi" "fi_ast fi = Some a"
    and "\<forall>ds. set (rng ds) = set ds"
  shows "(fi_marks fi off = Decl \<longleftrightarrow> map_of (topLevelDefs (Some a)) off \<noteq> None) \<and>
    (case map_of (topLevelDefs (Some a)) off of
       None \<Rightarrow> True
     | Some key \<Rightarrow> ix_decls (NewIndex parse unquote rng files) key \<noteq> None)"
proof -
  let ?D = "ix_decls (NewIndex parse unquote rng files)"
  note found = NewIndex_file [OF assms]
  obtain p :: pass where p: "early (ps_marks p)" "fi_marks fi = fold (second_pass ?D (fi_defs fi) (ps_free_not p)) (inspect a) (ps_marks p)"
    using classify_eq [OF assms(2), of unquote ?D] found(3) by metis
  have "fi_marks fi off = Decl \<longleftrightarrow> map_of (fi_defs fi) off \<noteq> None"
  proof (cases "map_of (fi_defs fi) off")
    case None
    have "ps_marks p off \<noteq> Decl" using early_off [OF p(1)] by simp
    then show ?thesis using second_pass_not_Decl [OF None] p(2) None by simp
  next
    case (Some key)
    then have "(off, key) \<in> set (topLevelDefs (Some a))" using found(1) map_of_SomeD by metis
    then have "\<exists>i. Id i \<in> set (inspect a) \<and> id_pos i = Some off"
      using topLevelDefs_at [of a] by (auto simp: defs_at_def def_at_def idents_def)
    then show ?thesis using second_pass_Decl [of "fi_defs fi" off "inspect a"] p(2) Some by simp
  qed
  moreover have "?D key \<noteq> None" if "map_of (topLevelDefs (Some a)) off = Some key" for key
    using found(1,2) map_of_SomeD [OF that] by (auto simp: image_subset_iff)
  ultimately show ?thesis using found(1) by (auto split: option.splits)
qed

section \<open>The place of a declaration\<close>

lemma declared_first:
  "fold (declare_one n b) ds decls k =
     (case decls k of
        Some l \<Rightarrow> Some l
      | None \<Rightarrow> map_option (\<lambda>d. \<lparr>lo_file = n, lo_line = lineAt b (fst d)\<rparr>) (find (\<lambda>d. snd d = k) ds))"
  by (induction ds arbitrary: decls) (auto simp: declare_one_def split: option.splits)

definition to_front :: "'a \<Rightarrow> 'a list \<Rightarrow> 'a list" where
  "to_front x xs = (if x \<in> set xs then x # remove1 x xs else xs)"

lemma mset_to_front: "mset (to_front x xs) = mset xs"
  by (simp add: to_front_def)

lemma find_to_front: "x \<in> set xs \<Longrightarrow> P x \<Longrightarrow> find P (to_front x xs) = Some x"
  by (simp add: to_front_def)

lemma find_key: "key \<in> snd ` set xs \<Longrightarrow> \<exists>d \<in> set xs. find (\<lambda>d. snd d = key) xs = Some d \<and> snd d = key"
  by (induction xs) auto

lemma single_decls:
  assumes "has_suffix (sf_name f) ''.gno''"
  shows "ix_decls (NewIndex parse unquote rng [f]) key =
    map_option (\<lambda>d. \<lparr>lo_file = sf_name f, lo_line = lineAt (sf_body f) (fst d)\<rparr>)
      (find (\<lambda>d. snd d = key) (rng (topLevelDefs (parse (sf_name f) (sf_body f)))))"
  using assms by (simp add: NewIndex_def add_file_def Let_def declared_first)

text \<open>
  Where the index places a name is settled by the source alone exactly when the file
  declares it on one line: if it is declared on two, the order in which Go happens to range
  over the definitions of the file decides, although the response built from the index is
  meant to be deterministic and is cached as immutable.
\<close>

theorem place_is_settled_iff_on_one_line:
  fixes parse :: "string \<Rightarrow> string \<Rightarrow> file_ast option"
  assumes "has_suffix (sf_name f) ''.gno''"
  defines "defs \<equiv> topLevelDefs (parse (sf_name f) (sf_body f))"
  shows "(\<forall>rng rng'. (\<forall>ds. mset (rng ds) = mset ds) \<longrightarrow> (\<forall>ds. mset (rng' ds) = mset ds) \<longrightarrow>
      ix_decls (NewIndex parse unquote rng [f]) key = ix_decls (NewIndex parse unquote rng' [f]) key) \<longleftrightarrow>
    (\<forall>off off'. (off, key) \<in> set defs \<longrightarrow> (off', key) \<in> set defs \<longrightarrow>
      lineAt (sf_body f) off = lineAt (sf_body f) off')" (is "?fixed \<longleftrightarrow> ?line")
proof
  assume fixed: ?fixed
  show ?line
  proof (intro allI impI)
    fix off off' assume d: "(off, key) \<in> set defs" "(off', key) \<in> set defs"
    have place: "ix_decls (NewIndex parse unquote (to_front (o', key)) [f]) key =
        Some \<lparr>lo_file = sf_name f, lo_line = lineAt (sf_body f) o'\<rparr>" if "(o', key) \<in> set defs" for o'
      using single_decls [OF assms(1)] that by (simp add: find_to_front defs_def)
    show "lineAt (sf_body f) off = lineAt (sf_body f) off'"
      using fixed [rule_format, of "to_front (off, key)" "to_front (off', key)"] place [OF d(1)] place [OF d(2)]
      by (simp add: mset_to_front)
  qed
next
  assume line: ?line
  show ?fixed
  proof (intro allI impI)
    fix rng rng' :: "(nat \<times> string) list \<Rightarrow> (nat \<times> string) list"
    assume perm: "\<forall>ds. mset (rng ds) = mset ds" "\<forall>ds. mset (rng' ds) = mset ds"
    have same: "set (rng defs) = set defs" "set (rng' defs) = set defs"
      using perm by (metis set_mset_mset)+
    show "ix_decls (NewIndex parse unquote rng [f]) key = ix_decls (NewIndex parse unquote rng' [f]) key"
    proof (cases "key \<in> snd ` set defs")
      case True
      then obtain d d' where d: "find (\<lambda>d. snd d = key) (rng defs) = Some d" "find (\<lambda>d. snd d = key) (rng' defs) = Some d'"
        and "d \<in> set defs" "d' \<in> set defs" "snd d = key" "snd d' = key"
        using find_key [of key "rng defs"] find_key [of key "rng' defs"] same by auto
      then have "lineAt (sf_body f) (fst d) = lineAt (sf_body f) (fst d')" using line by (metis prod.collapse)
      then show ?thesis using d by (simp add: single_decls [OF assms(1)] defs_def)
    next
      case False
      then have "find (\<lambda>d. snd d = key) (rng defs) = None" "find (\<lambda>d. snd d = key) (rng' defs) = None"
        using same by (force simp: find_None_iff)+
      then show ?thesis by (simp add: single_decls [OF assms(1)] defs_def)
    qed
  qed
qed

section \<open>Witnesses\<close>

text \<open>A package whose one function calls itself, and one that declares a variable twice.\<close>

definition recursive_ast :: file_ast where
  "recursive_ast =
     \<lparr>fa_name = \<lparr>id_ptr = 0, id_name = ''x'', id_pos = Some 8, id_obj = None\<rparr>, fa_imports = [],
      fa_decls = [FuncDecl None \<lparr>id_ptr = 1, id_name = ''f'', id_pos = Some 15, id_obj = None\<rparr>
        [OtherNode [CallExpr (Id \<lparr>id_ptr = 2, id_name = ''f'', id_pos = Some 21,
           id_obj = Some \<lparr>ob_name = ''f'', ob_decl = ObjFuncDecl (''f'', Some 15)\<rparr>\<rparr>) []]]]\<rparr>"

definition recursive_index :: index where
  "recursive_index = NewIndex (\<lambda>_ _. Some recursive_ast) Some (\<lambda>ds. ds)
     [\<lparr>sf_name = ''x.gno'', sf_body = ''package x; func f() { f() }''\<rparr>]"

lemma recursive_idents:
  "idents recursive_ast =
     {\<lparr>id_ptr = 0, id_name = ''x'', id_pos = Some 8, id_obj = None\<rparr>,
      \<lparr>id_ptr = 1, id_name = ''f'', id_pos = Some 15, id_obj = None\<rparr>,
      \<lparr>id_ptr = 2, id_name = ''f'', id_pos = Some 21,
        id_obj = Some \<lparr>ob_name = ''f'', ob_decl = ObjFuncDecl (''f'', Some 15)\<rparr>\<rparr>}"
  by (auto simp: idents_def inspect_def recursive_ast_def)

lemma recursive_resolved: "resolved recursive_ast"
  by (auto simp: resolved_def recursive_idents objIdent_def) (simp add: recursive_ast_def)

lemma recursive_defs: "topLevelDefs (Some recursive_ast) = [(15, ''f'')]"
  by (simp add: topLevelDefs_def recursive_ast_def add_def_def offsetOf_def)

lemma recursive_file:
  obtains fi where "ix_files recursive_index ''x.gno'' = Some fi" "fi_ast fi = Some recursive_ast" "fi_marks fi 21 = Ref"
proof -
  let ?decls = "[''f'' \<mapsto> \<lparr>lo_file = ''x.gno'', lo_line = lineAt ''package x; func f() { f() }'' 15\<rparr>]"
  let ?fi = "\<lparr>fi_body = ''package x; func f() { f() }'', fi_isGno = True, fi_ast = Some recursive_ast, fi_defs = [(15, ''f'')],
    fi_marks = (\<lambda>_. ''''), fi_impSet = {}\<rparr>"
  have found: "ix_files recursive_index ''x.gno'' = Some (mark_file Some ?decls ?fi)"
    by (simp add: recursive_index_def NewIndex_def add_file_def Let_def has_suffix_def declare_one_def recursive_defs)
  have "fst (classifyIdents Some ?decls ?fi) 21 = Ref"
    by (simp add: classifyIdents_def recursive_ast_def inspect_def Let_def offsetOf_def is_top_def objIdent_def)
  then show ?thesis using found by (intro that [OF found]) (simp_all add: mark_file_def)
qed

theorem references_have_targets_witness:
  "ix_decls recursive_index ''f'' \<noteq> None"
proof -
  obtain fi where fi: "ix_files recursive_index ''x.gno'' = Some fi" "fi_ast fi = Some recursive_ast" "fi_marks fi 21 = Ref"
    by (rule recursive_file)
  show ?thesis
    using references_have_targets [OF fi(1) [unfolded recursive_index_def] fi(2) _ recursive_resolved _ _ fi(3),
        of "\<lparr>id_ptr = 2, id_name = ''f'', id_pos = Some 21,
        id_obj = Some \<lparr>ob_name = ''f'', ob_decl = ObjFuncDecl (''f'', Some 15)\<rparr>\<rparr>"]
    by (simp add: recursive_idents recursive_index_def)
qed

theorem declarations_are_marked_witness:
  "map_option (\<lambda>fi. fi_marks fi 15) (ix_files recursive_index ''x.gno'') = Some Decl"
proof -
  obtain fi where fi: "ix_files recursive_index ''x.gno'' = Some fi" "fi_ast fi = Some recursive_ast"
    by (rule recursive_file)
  show ?thesis
    using declarations_are_marked [OF fi(1) [unfolded recursive_index_def] fi(2), of 15] fi(1)
    by (simp add: recursive_defs)
qed

text \<open>\<open>var a int\<close> on two lines of one file.\<close>

definition twice_ast :: file_ast where
  "twice_ast =
     \<lparr>fa_name = \<lparr>id_ptr = 0, id_name = ''x'', id_pos = Some 8, id_obj = None\<rparr>, fa_imports = [],
      fa_decls = [GenDecl [ValueSpec [\<lparr>id_ptr = 1, id_name = ''a'', id_pos = Some 14, id_obj = None\<rparr>] []],
        GenDecl [ValueSpec [\<lparr>id_ptr = 2, id_name = ''a'', id_pos = Some 24, id_obj = None\<rparr>] []]]\<rparr>"

definition twice_body :: string where
  "twice_body = ''package x'' @ [newline] @ ''var a int'' @ [newline] @ ''var a int''"

theorem place_is_settled_iff_on_one_line_witness:
  "\<exists>rng rng'. (mset (rng [(14, ''a''), (24, ''a'')]) = mset (rng' [(14, ''a''), (24, ''a'')])) \<and>
     ix_decls (NewIndex (\<lambda>_ _. Some twice_ast) Some rng [\<lparr>sf_name = ''x.gno'', sf_body = twice_body\<rparr>]) ''a''
       \<noteq> ix_decls (NewIndex (\<lambda>_ _. Some twice_ast) Some rng' [\<lparr>sf_name = ''x.gno'', sf_body = twice_body\<rparr>]) ''a''"
proof -
  let ?f = "\<lparr>sf_name = ''x.gno'', sf_body = twice_body\<rparr>"
  have defs: "topLevelDefs (Some twice_ast) = [(14, ''a''), (24, ''a'')]"
    by (simp add: topLevelDefs_def twice_ast_def add_def_def offsetOf_def)
  have "lineAt twice_body 14 \<noteq> lineAt twice_body 24" by (simp add: lineAt_def twice_body_def)
  then have lines: "\<not> (\<forall>off off'. (off, ''a'') \<in> set (topLevelDefs (Some twice_ast)) \<longrightarrow>
      (off', ''a'') \<in> set (topLevelDefs (Some twice_ast)) \<longrightarrow> lineAt (sf_body ?f) off = lineAt (sf_body ?f) off')"
    unfolding defs by force
  have "has_suffix (sf_name ?f) ''.gno''" by (simp add: has_suffix_def)
  from place_is_settled_iff_on_one_line [OF this, of "\<lambda>_ _. Some twice_ast" Some "''a''"] lines
  show ?thesis by metis
qed

end
