(* ===== verification/Src_Tokens.thy ===== *)
theory Src_Tokens
  imports Src_Index
begin

text \<open>
  The segments of a file (\<^verbatim>\<open>Tokenize\<close> of \<^verbatim>\<open>pkg/srctok/srctok.go\<close>): the loop over the
  scanner's tokens, with how many bytes a token covers and what it is classified as. Go's
  scanner is a parameter, the tokens of a body in the order it returns them, each with its
  offset and its literal. A slice out of range, which panics in Go, is \<^term>\<open>None\<close>.
\<close>

section \<open>The code\<close>

datatype token =
    TokComment | TokString | TokChar | TokInt | TokFloat | TokImag | TokIdent | TokIllegal | TokSemicolon
  | TokKeyword string
  | TokOperator string

type_synonym scanned = "nat \<times> token \<times> string"

text \<open>\<^verbatim>\<open>token.Token.String\<close>.\<close>

fun tok_string :: "token \<Rightarrow> string" where
  "tok_string (TokKeyword s) = s"
| "tok_string (TokOperator s) = s"
| "tok_string TokSemicolon = '';''"
| "tok_string TokComment = ''COMMENT''"
| "tok_string TokString = ''STRING''"
| "tok_string TokChar = ''CHAR''"
| "tok_string TokInt = ''INT''"
| "tok_string TokFloat = ''FLOAT''"
| "tok_string TokImag = ''IMAG''"
| "tok_string TokIdent = ''IDENT''"
| "tok_string TokIllegal = ''ILLEGAL''"

definition tokenLen :: "string \<Rightarrow> nat \<Rightarrow> token \<Rightarrow> string \<Rightarrow> nat option" where
  "tokenLen src start tok lit =
     (if tok = TokComment \<and> has_prefix (drop start src) ''//'' then
        Some (case index_of [newline] (drop start src) of Some i \<Rightarrow> i | None \<Rightarrow> length src - start)
      else if tok = TokComment then
        (if length src < start + 2 then None
         else Some (case index_of ''*/'' (drop (start + 2) src) of Some i \<Rightarrow> i + 4 | None \<Rightarrow> length src - start))
      else if tok = TokString \<and> src ! start = CHR 0x60 then
        Some (case index_of [CHR 0x60] (drop (start + 1) src) of Some i \<Rightarrow> i + 2 | None \<Rightarrow> length src - start)
      else if lit \<noteq> '''' then Some (length lit)
      else Some (length (tok_string tok)))"

definition classify :: "file_info \<Rightarrow> nat \<Rightarrow> token \<Rightarrow> string \<times> string" where
  "classify fi start tok =
     (case tok of
        TokComment \<Rightarrow> (Comment, '''')
      | TokString \<Rightarrow> (if start \<in> fi_impSet fi then (Import, '''') else (String, ''''))
      | TokChar \<Rightarrow> (String, '''')
      | TokInt \<Rightarrow> (Number, '''')
      | TokFloat \<Rightarrow> (Number, '''')
      | TokImag \<Rightarrow> (Number, '''')
      | TokIdent \<Rightarrow>
          let c = fi_marks fi start; k = (case map_of (fi_defs fi) start of Some k \<Rightarrow> k | None \<Rightarrow> '''')
          in if c = Decl \<and> CHR ''.'' \<in> set k then (Decl, k)
             else if c = '''' then (Ident, '''') else (c, '''')
      | TokKeyword _ \<Rightarrow> (Keyword, '''')
      | TokOperator _ \<Rightarrow> (Op, '''')
      | TokSemicolon \<Rightarrow> (Op, '''')
      | TokIllegal \<Rightarrow> ('''', ''''))"

definition slice :: "'a list \<Rightarrow> nat \<Rightarrow> nat \<Rightarrow> 'a list" where
  "slice xs i j = take (j - i) (drop i xs)"

definition automatic :: "scanned \<Rightarrow> bool" where
  "automatic t \<longleftrightarrow> (case t of (start, tok, lit) \<Rightarrow> tok = TokSemicolon \<and> lit \<noteq> '';'')"

text \<open>One round of the loop, from the cursor and the lines so far.\<close>

definition take_token :: "file_info \<Rightarrow> scanned \<Rightarrow> nat \<times> line list \<Rightarrow> (nat \<times> line list) option" where
  "take_token fi t st =
     (case t of (start, tok, lit) \<Rightarrow> case st of (cursor, lines) \<Rightarrow>
        let src = fi_body fi
        in if automatic t then Some (cursor, lines)
           else if start < cursor \<or> length src \<le> start then Some (cursor, lines)
           else (case tokenLen src start tok lit of
                   None \<Rightarrow> None
                 | Some n \<Rightarrow>
                     let e = (if length src < start + n then length src else start + n);
                         lines = (if cursor < start then emit '''' '''' (slice src cursor start) lines else lines);
                         ck = classify fi start tok
                     in Some (e, emit (fst ck) (snd ck) (slice src start e) lines)))"

fun take_tokens :: "file_info \<Rightarrow> scanned list \<Rightarrow> nat \<times> line list \<Rightarrow> (nat \<times> line list) option" where
  "take_tokens fi [] st = Some st"
| "take_tokens fi (t # ts) st =
     (case take_token fi t st of None \<Rightarrow> None | Some st \<Rightarrow> take_tokens fi ts st)"

definition draw_rest :: "string \<Rightarrow> nat \<times> line list \<Rightarrow> line list" where
  "draw_rest src st =
     (if fst st < length src then emit '''' '''' (slice src (fst st) (length src)) (snd st) else snd st)"

definition Tokenize :: "(string \<Rightarrow> scanned list) \<Rightarrow> index \<Rightarrow> string \<Rightarrow> line list option option" where
  "Tokenize scan ix name =
     (case ix_files ix name of
        None \<Rightarrow> Some None
      | Some fi \<Rightarrow>
          if \<not> fi_isGno fi then Some (Some (emit '''' '''' (fi_body fi) [[]]))
          else (case take_tokens fi (scan (fi_body fi)) (0, [[]]) of
                  None \<Rightarrow> None
                | Some st \<Rightarrow> Some (Some (draw_rest (fi_body fi) st))))"

section \<open>Slices\<close>

lemma slice_add: "i \<le> j \<Longrightarrow> j \<le> k \<Longrightarrow> slice xs i j @ slice xs j k = slice xs i k"
proof -
  assume "i \<le> j" "j \<le> k"
  then have "slice xs i k = take (j - i + (k - j)) (drop i xs)" by (simp add: slice_def)
  also have "\<dots> = take (j - i) (drop i xs) @ take (k - j) (drop (j - i) (drop i xs))" by (rule take_add)
  finally show ?thesis using \<open>i \<le> j\<close> by (simp add: slice_def)
qed

lemma slice_all [simp]: "slice xs 0 (length xs) = xs"
  by (simp add: slice_def)

lemma slice_same [simp]: "slice xs i i = []"
  by (simp add: slice_def)

lemma slice_map_nth: "j \<le> length xs \<Longrightarrow> slice xs i j = map ((!) xs) [i..<j]"
  by (rule nth_equalityI) (auto simp: slice_def)

section \<open>The loop draws the source\<close>

text \<open>The classes a file's segments come in.\<close>

definition classes :: "file_info \<Rightarrow> (string \<times> string) set" where
  "classes fi = insert ('''', '''') (range (\<lambda>(start, tok). classify fi start tok))"

definition drawn_to :: "file_info \<Rightarrow> nat \<times> line list \<Rightarrow> bool" where
  "drawn_to fi st \<longleftrightarrow>
     fst st \<le> length (fi_body fi) \<and> snd st \<noteq> [] \<and> (\<forall>l \<in> set (snd st). tight l) \<and>
     map (case_option newline fst) (drawn (snd st)) = slice (fi_body fi) 0 (fst st) \<and>
     (\<forall>x c k. Some (x, c, k) \<in> set (drawn (snd st)) \<longrightarrow> (c, k) \<in> classes fi)"

lemma coloured_bytes: "map (case_option newline fst) (coloured c k t) = t"
  by (induction t) (auto simp: coloured_def)

lemma set_coloured: "Some (x, c', k') \<in> set (coloured c k t) \<Longrightarrow> c' = c \<and> k' = k"
  by (auto simp: coloured_def split: if_splits)

lemma drawn_to_emit:
  assumes "drawn_to fi (i, ls)" "i \<le> j" "j \<le> length (fi_body fi)" "(c, k) \<in> classes fi"
  shows "drawn_to fi (j, emit c k (slice (fi_body fi) i j) ls)"
proof -
  have "ls \<noteq> []" using assms(1) by (simp add: drawn_to_def)
  note e = drawn_emit [OF this, of c k "slice (fi_body fi) i j"]
  have "map (case_option newline fst) (drawn (emit c k (slice (fi_body fi) i j) ls)) = slice (fi_body fi) 0 j"
    using assms(1-3) slice_add [of 0 i j] by (simp add: drawn_to_def e(2) coloured_bytes)
  moreover have "\<forall>l \<in> set (emit c k (slice (fi_body fi) i j) ls). tight l"
    using assms(1) by (intro tight_emit) (simp_all add: drawn_to_def)
  moreover have "(c', k') \<in> classes fi" if "Some (x, c', k') \<in> set (drawn (emit c k (slice (fi_body fi) i j) ls))" for x c' k'
    using that assms(1,4) unfolding e(2) by (auto simp: drawn_to_def dest: set_coloured)
  ultimately show ?thesis using assms(3) e(1) by (simp add: drawn_to_def)
qed

lemma plain_class [simp]: "('''', '''') \<in> classes fi"
  by (simp add: classes_def)

lemma classify_class [simp]: "classify fi start tok \<in> classes fi"
  by (auto simp: classes_def)

lemma drawn_to_start: "drawn_to fi (0, [[]])"
  by (simp add: drawn_to_def drawn_def slice_def)

text \<open>Only a comment that is cut short can make the measuring of a token fail.\<close>

definition comments_whole :: "string \<Rightarrow> scanned list \<Rightarrow> bool" where
  "comments_whole src ts \<longleftrightarrow>
     (\<forall>(start, tok, lit) \<in> set ts. tok = TokComment \<longrightarrow> start < length src \<longrightarrow> start + 2 \<le> length src)"

lemma take_token_drawn:
  assumes "drawn_to fi st" "comments_whole (fi_body fi) (t # ts)"
  shows "\<exists>st'. take_token fi t st = Some st' \<and> drawn_to fi st'"
proof -
  obtain start tok lit cursor ls where eq: "t = (start, tok, lit)" "st = (cursor, ls)" by (metis prod_cases3 surj_pair)
  let ?src = "fi_body fi"
  show ?thesis
  proof (cases "automatic t \<or> start < cursor \<or> length ?src \<le> start")
    case True
    then show ?thesis using assms(1) by (auto simp: take_token_def eq Let_def)
  next
    case False
    then have "tok \<noteq> TokComment \<or> start + 2 \<le> length ?src" using assms(2) by (auto simp: eq comments_whole_def)
    then have "tokenLen ?src start tok lit \<noteq> None" by (auto simp: tokenLen_def)
    then obtain n where n: "tokenLen ?src start tok lit = Some n" by blast
    define e where "e = (if length ?src < start + n then length ?src else start + n)"
    define ls' where "ls' = (if cursor < start then emit '''' '''' (slice ?src cursor start) ls else ls)"
    have "drawn_to fi (start, ls')"
      using drawn_to_emit [of fi cursor ls start "''''" "''''"] assms(1) False by (auto simp: ls'_def eq not_less)
    then have "drawn_to fi (e, emit (fst (classify fi start tok)) (snd (classify fi start tok)) (slice ?src start e) ls')"
      using False by (intro drawn_to_emit) (auto simp: e_def)
    then show ?thesis using False n by (simp add: take_token_def eq e_def ls'_def Let_def)
  qed
qed

lemma take_tokens_drawn:
  "drawn_to fi st \<Longrightarrow> comments_whole (fi_body fi) ts \<Longrightarrow> \<exists>st'. take_tokens fi ts st = Some st' \<and> drawn_to fi st'"
proof (induction ts arbitrary: st)
  case (Cons t ts)
  obtain st' where "take_token fi t st = Some st'" "drawn_to fi st'" using take_token_drawn [OF Cons.prems] by blast
  moreover have "comments_whole (fi_body fi) ts" using Cons.prems(2) by (simp add: comments_whole_def)
  ultimately show ?case using Cons.IH [of st'] by simp
qed simp

lemma draw_rest_drawn: "drawn_to fi st \<Longrightarrow> drawn_to fi (length (fi_body fi), draw_rest (fi_body fi) st)"
  using drawn_to_emit [of fi "fst st" "snd st" "length (fi_body fi)" "''''" "''''"]
  by (cases "fst st < length (fi_body fi)") (auto simp: draw_rest_def drawn_to_def)

lemma Tokenize_drawn:
  assumes "ix_files ix name = Some fi" "comments_whole (fi_body fi) (scan (fi_body fi))"
  shows "\<exists>ls. Tokenize scan ix name = Some (Some ls) \<and> drawn_to fi (length (fi_body fi), ls)"
proof (cases "fi_isGno fi")
  case True
  then show ?thesis
    using take_tokens_drawn [OF drawn_to_start assms(2)] draw_rest_drawn assms(1) by (fastforce simp: Tokenize_def)
next
  case False
  then show ?thesis
    using drawn_to_emit [OF drawn_to_start, of "length (fi_body fi)" fi "''''" "''''"] assms(1) by (simp add: Tokenize_def)
qed

section \<open>The tokens colour the source\<close>

text \<open>
  The specification: the tokens follow one another in the source, and a byte has the class
  of the token that covers it.
\<close>

definition token_size :: "string \<Rightarrow> scanned \<Rightarrow> nat" where
  "token_size src t = (case t of (start, tok, lit) \<Rightarrow> case tokenLen src start tok lit of Some n \<Rightarrow> n | None \<Rightarrow> 0)"

fun in_order :: "string \<Rightarrow> nat \<Rightarrow> scanned list \<Rightarrow> bool" where
  "in_order src cursor [] = True"
| "in_order src cursor (t # ts) =
     (if automatic t then in_order src cursor ts
      else cursor \<le> fst t \<and> fst t < length src \<and> tokenLen src (fst t) (fst (snd t)) (snd (snd t)) \<noteq> None \<and>
        fst t + token_size src t \<le> length src \<and> in_order src (fst t + token_size src t) ts)"

definition class_at :: "file_info \<Rightarrow> scanned list \<Rightarrow> nat \<Rightarrow> string \<times> string" where
  "class_at fi ts i =
     (case find (\<lambda>t. \<not> automatic t \<and> fst t \<le> i \<and> i < fst t + token_size (fi_body fi) t) ts of
        None \<Rightarrow> ('''', '''')
      | Some t \<Rightarrow> classify fi (fst t) (fst (snd t)))"

definition byte_at :: "file_info \<Rightarrow> scanned list \<Rightarrow> nat \<Rightarrow> (char \<times> string \<times> string) option" where
  "byte_at fi ts i =
     (if fi_body fi ! i = newline then None else Some (fi_body fi ! i, class_at fi ts i))"

lemma in_order_from: "in_order src cursor ts \<Longrightarrow> t \<in> set ts \<Longrightarrow> \<not> automatic t \<Longrightarrow> cursor \<le> fst t"
proof (induction ts arbitrary: cursor)
  case (Cons u ts)
  then show ?case by (cases "automatic u") fastforce+
qed simp

lemma class_before:
  "in_order (fi_body fi) cursor ts \<Longrightarrow> i < cursor \<Longrightarrow> class_at fi ts i = ('''', '''')"
proof -
  assume "in_order (fi_body fi) cursor ts" "i < cursor"
  then have "find (\<lambda>t. \<not> automatic t \<and> fst t \<le> i \<and> i < fst t + token_size (fi_body fi) t) ts = None"
    by (auto simp: find_None_iff dest: in_order_from)
  then show ?thesis by (simp add: class_at_def)
qed

lemma coloured_slice:
  assumes "j \<le> length (fi_body fi)" "\<And>m. i \<le> m \<Longrightarrow> m < j \<Longrightarrow> class_at fi ts m = ck"
  shows "coloured (fst ck) (snd ck) (slice (fi_body fi) i j) = map (byte_at fi ts) [i..<j]"
  using assms by (auto simp: slice_map_nth coloured_def byte_at_def)

lemma upto_split: "i \<le> j \<Longrightarrow> j \<le> k \<Longrightarrow> map f [i..<j] @ map f [j..<k] = map f [i..<k]"
  by (metis map_append upt_add_eq_append le_Suc_ex)

lemma take_tokens_colour:
  assumes "in_order (fi_body fi) (fst st) ts" "fst st \<le> length (fi_body fi)" "snd st \<noteq> []"
  shows "\<exists>st'. take_tokens fi ts st = Some st' \<and>
    drawn (draw_rest (fi_body fi) st') = drawn (snd st) @ map (byte_at fi ts) [fst st..<length (fi_body fi)]"
  using assms
proof (induction ts arbitrary: st)
  case Nil
  then show ?case
    using coloured_slice [of "length (fi_body fi)" fi "fst st" "[]" "('''', '''')"]
    by (auto simp: draw_rest_def drawn_emit class_at_def)
next
  case (Cons t ts)
  let ?src = "fi_body fi"
  obtain start tok lit cursor ls where eq: "t = (start, tok, lit)" "st = (cursor, ls)" by (metis prod_cases3 surj_pair)
  show ?case
  proof (cases "automatic t")
    case True
    then have "class_at fi (t # ts) = class_at fi ts" by (auto simp: class_at_def)
    then have "byte_at fi (t # ts) = byte_at fi ts" by (auto simp: byte_at_def)
    then show ?thesis using True Cons.IH [of "(cursor, ls)"] Cons.prems by (simp add: take_token_def eq)
  next
    case False
    then obtain n where n: "tokenLen ?src start tok lit = Some n" and at: "cursor \<le> start" "start < length ?src" "start + n \<le> length ?src"
      and rest: "in_order ?src (start + n) ts"
      using Cons.prems(1) by (auto simp: eq token_size_def)
    define ck where "ck = classify fi start tok"
    define ls' where "ls' = (if cursor < start then emit '''' '''' (slice ?src cursor start) ls else ls)"
    define ls'' where "ls'' = emit (fst ck) (snd ck) (slice ?src start (start + n)) ls'"
    have step: "take_token fi t st = Some (start + n, ls'')"
      using False n at by (auto simp: take_token_def eq ls''_def ls'_def ck_def Let_def)
    have here: "class_at fi (t # ts) m = (if start \<le> m \<and> m < start + n then ck else class_at fi ts m)" for m
      using False n by (auto simp: class_at_def eq token_size_def ck_def)
    have "cursor \<le> m \<Longrightarrow> m < start \<Longrightarrow> class_at fi (t # ts) m = ('''', '''')" for m
      using class_before [OF rest] here by simp
    then have gap: "drawn ls' = drawn ls @ map (byte_at fi (t # ts)) [cursor..<start]" "ls' \<noteq> []"
      using coloured_slice [of start fi cursor "t # ts" "('''', '''')"] Cons.prems(3) at
      by (auto simp: ls'_def drawn_emit eq)
    have "coloured (fst ck) (snd ck) (slice ?src start (start + n)) = map (byte_at fi (t # ts)) [start..<start + n]"
      using at(3) here by (intro coloured_slice) simp_all
    then have shown: "drawn ls'' = drawn ls @ map (byte_at fi (t # ts)) [cursor..<start + n]" "ls'' \<noteq> []"
      using gap at(1) upto_split [of cursor start "start + n" "byte_at fi (t # ts)"] by (simp_all add: ls''_def drawn_emit)
    have after: "map (byte_at fi (t # ts)) [start + n..<length ?src] = map (byte_at fi ts) [start + n..<length ?src]"
      by (simp add: byte_at_def here)
    obtain st' where st': "take_tokens fi ts (start + n, ls'') = Some st'"
      "drawn (draw_rest ?src st') = drawn ls'' @ map (byte_at fi ts) [start + n..<length ?src]"
      using Cons.IH [of "(start + n, ls'')"] rest at(3) shown(2) by auto
    have "cursor \<le> start + n" using at(1) by simp
    note whole = upto_split [OF this at(3), of "byte_at fi (t # ts)"]
    have "drawn (draw_rest ?src st') = drawn ls @ map (byte_at fi (t # ts)) [cursor..<length ?src]"
      unfolding st'(2) shown(1) after [symmetric] append_assoc whole ..
    then show ?thesis using step st'(1) by (simp add: eq)
  qed
qed

section \<open>What the viewer gets\<close>

text \<open>
  C31. The one guarantee every caller leans on: for a file of the package the lines that come
  back are the lines of the source, byte for byte, whatever offsets and literals the scanner
  reports. They are in their least form too, without empty segments and with neighbours
  joined wherever the renderer allows it. The measuring of a comment needs its first two
  bytes to be in the source, nothing else can fail.
\<close>

theorem Tokenize_keeps_the_source:
  assumes "ix_files ix name = Some fi" "comments_whole (fi_body fi) (scan (fi_body fi))"
  shows "\<exists>ls. Tokenize scan ix name = Some (Some ls) \<and>
    map line_text ls = split_on newline (fi_body fi) \<and> (\<forall>l \<in> set ls. tight l)"
proof -
  obtain ls where ls: "Tokenize scan ix name = Some (Some ls)" "drawn_to fi (length (fi_body fi), ls)"
    using Tokenize_drawn [of ix name fi scan] assms by blast
  then have "map line_text ls = split_on newline (fi_body fi)"
    by (intro texts_of_drawn) (simp_all add: drawn_to_def)
  then show ?thesis using ls by (simp add: drawn_to_def)
qed

text \<open>
  C32. When the tokens of a gno file follow one another in its source, every byte of the file
  is shown in the class of the token that covers it, with the key of that token, and in
  plain text when no token does: no class leaks over a line break, over the end of a token
  or into the neighbour it is joined with.
\<close>

theorem Tokenize_colours_by_token:
  assumes "ix_files ix name = Some fi" "fi_isGno fi" "in_order (fi_body fi) 0 (scan (fi_body fi))"
  shows "\<exists>ls. Tokenize scan ix name = Some (Some ls) \<and>
    drawn ls = map (byte_at fi (scan (fi_body fi))) [0..<length (fi_body fi)]"
  using take_tokens_colour [of fi "(0, [[]])" "scan (fi_body fi)"] assms
  by (auto simp: Tokenize_def drawn_def)

text \<open>The reading of a segment from its form on the wire.\<close>

fun read_segment :: "wire \<Rightarrow> segment" where
  "read_segment (Bare t) = \<lparr>sg_class = '''', sg_text = t, sg_key = ''''\<rparr>"
| "read_segment (Pair c t) = \<lparr>sg_class = c, sg_text = t, sg_key = ''''\<rparr>"
| "read_segment (Triple c t k) = \<lparr>sg_class = c, sg_text = t, sg_key = k\<rparr>"

lemma shown_in_drawn:
  "ls \<noteq> [] \<Longrightarrow> l \<in> set ls \<Longrightarrow> s \<in> set l \<Longrightarrow> x \<in> set (sg_text s) \<Longrightarrow> Some (x, sg_class s, sg_key s) \<in> set (drawn ls)"
proof -
  have "Some ` \<Union> (set ` set ls) \<subseteq> set (join_lines ls)" for ls :: "'a list list"
    by (induction ls rule: join_lines.induct) auto
  from this [of "map line_shown ls"] show "l \<in> set ls \<Longrightarrow> s \<in> set l \<Longrightarrow> x \<in> set (sg_text s) \<Longrightarrow>
      Some (x, sg_class s, sg_key s) \<in> set (drawn ls)"
    by (fastforce simp: drawn_def line_shown_def shown_def)
qed

lemma class_keys: "(c, k) \<in> classes fi \<Longrightarrow> k \<noteq> '''' \<Longrightarrow> c = Decl"
  by (auto simp: classes_def classify_def Let_def split: token.splits if_splits)

text \<open>
  Nothing is lost on the wire: each segment of a file reads back as it was, although
  plain text is sent as a bare string and a key only where there is one.
\<close>

theorem segments_survive_the_wire:
  assumes "ix_files ix name = Some fi" "comments_whole (fi_body fi) (scan (fi_body fi))"
    and "Tokenize scan ix name = Some (Some ls)" "l \<in> set ls" "s \<in> set l"
  shows "read_segment (MarshalJSON s) = s"
proof -
  have d: "drawn_to fi (length (fi_body fi), ls)" using Tokenize_drawn [of ix name fi scan] assms(1-3) by auto
  then have "sg_text s \<noteq> ''''" using assms(4,5) by (auto simp: drawn_to_def tight_def)
  then obtain x where "x \<in> set (sg_text s)" by (cases "sg_text s") auto
  then have "Some (x, sg_class s, sg_key s) \<in> set (drawn ls)"
    using d assms(4,5) by (intro shown_in_drawn) (auto simp: drawn_to_def)
  then have "(sg_class s, sg_key s) \<in> classes fi" using d by (auto simp: drawn_to_def)
  then have "sg_key s \<noteq> '''' \<Longrightarrow> sg_class s = Decl" by (rule class_keys)
  then show ?thesis by (cases s) (auto simp: MarshalJSON_def)
qed

section \<open>Witnesses\<close>

definition two_lines :: string where
  "two_lines = ''a(b)'' @ [newline] @ ''/* c'' @ [newline] @ ''*/''"

definition two_lines_info :: file_info where
  "two_lines_info =
     \<lparr>fi_body = two_lines, fi_isGno = True, fi_ast = None, fi_defs = [(0, ''T.a'')],
      fi_marks = (\<lambda>_. '''')(0 := Decl), fi_impSet = {}\<rparr>"

definition two_lines_index :: index where
  "two_lines_index = \<lparr>ix_files = [''x.gno'' \<mapsto> two_lines_info], ix_decls = Map.empty\<rparr>"

definition two_lines_scan :: "string \<Rightarrow> scanned list" where
  "two_lines_scan body =
     [(0, TokIdent, ''a''), (1, TokOperator ''('', ''''), (2, TokIdent, ''b''), (3, TokOperator '')'', ''''),
      (4, TokSemicolon, [newline]), (5, TokComment, ''/* c'' @ [newline] @ ''*/'')]"

lemma two_lines_file: "ix_files two_lines_index ''x.gno'' = Some two_lines_info"
  by (simp add: two_lines_index_def)

lemma two_lines_whole:
  "comments_whole (fi_body two_lines_info) (two_lines_scan (fi_body two_lines_info))"
  by (simp add: comments_whole_def two_lines_scan_def two_lines_info_def two_lines_def)

lemma two_lines_tokens:
  "Tokenize two_lines_scan two_lines_index ''x.gno'' = Some (Some
     [[\<lparr>sg_class = Decl, sg_text = ''a'', sg_key = ''T.a''\<rparr>, \<lparr>sg_class = Op, sg_text = ''('', sg_key = ''''\<rparr>,
       \<lparr>sg_class = Ident, sg_text = ''b'', sg_key = ''''\<rparr>, \<lparr>sg_class = Op, sg_text = '')'', sg_key = ''''\<rparr>],
      [\<lparr>sg_class = Comment, sg_text = ''/* c'', sg_key = ''''\<rparr>], [\<lparr>sg_class = Comment, sg_text = ''*/'', sg_key = ''''\<rparr>]])"
  by code_simp

theorem Tokenize_keeps_the_source_witness:
  "\<exists>ls. Tokenize two_lines_scan two_lines_index ''x.gno'' = Some (Some ls) \<and>
     map line_text ls = [''a(b)'', ''/* c'', ''*/'']"
proof -
  have "split_on newline (fi_body two_lines_info) = [''a(b)'', ''/* c'', ''*/'']"
    by (simp add: two_lines_info_def two_lines_def)
  then show ?thesis using Tokenize_keeps_the_source [of _ _ _ two_lines_scan, OF two_lines_file two_lines_whole] by auto
qed

theorem Tokenize_colours_by_token_witness:
  "\<exists>ls. Tokenize two_lines_scan two_lines_index ''x.gno'' = Some (Some ls) \<and>
     drawn ls ! 0 = Some (CHR ''a'', Decl, ''T.a'') \<and> drawn ls ! 10 = Some (CHR ''*'', Comment, '''')"
proof -
  have order: "in_order (fi_body two_lines_info) 0 (two_lines_scan (fi_body two_lines_info))" by code_simp
  have gno: "fi_isGno two_lines_info" "length (fi_body two_lines_info) = 12" by (simp_all add: two_lines_info_def two_lines_def)
  have "byte_at two_lines_info (two_lines_scan (fi_body two_lines_info)) 0 = Some (CHR ''a'', Decl, ''T.a'')"
    "byte_at two_lines_info (two_lines_scan (fi_body two_lines_info)) 10 = Some (CHR ''*'', Comment, '''')" by code_simp+
  then show ?thesis
    using Tokenize_colours_by_token [of _ _ _ two_lines_scan, OF two_lines_file gno(1) order] gno(2) by force
qed

theorem segments_survive_the_wire_witness:
  "read_segment (MarshalJSON \<lparr>sg_class = Decl, sg_text = ''a'', sg_key = ''T.a''\<rparr>) =
     \<lparr>sg_class = Decl, sg_text = ''a'', sg_key = ''T.a''\<rparr>"
  by (rule segments_survive_the_wire [of _ _ _ two_lines_scan, OF two_lines_file two_lines_whole two_lines_tokens list.set_intros(1)])
    simp

end
