(* ===== verification/Gno_Address.thy ===== *)
theory Gno_Address
  imports Go_Prelude "HOL-Library.Word"
begin

text \<open>
  The addresses of packages (\<^verbatim>\<open>pkg/gnoaddr/gnoaddr.go\<close>): which account a path stands for,
  the regrouping of its hash into symbols of five bits, and the checksum of bech32.

  A Go \<^verbatim>\<open>int\<close> is a word of 64 bits whose right shift is arithmetic, a byte a word of 8 bits.
  The accumulator of the regrouping overflows on any hash and is kept at its width. SHA-256
  is a parameter, a function to lists of bytes.
\<close>

unbundle bit_operations_syntax

section \<open>The code\<close>

type_synonym byte = "8 word"
type_synonym goint = "64 word"

definition hrp :: string where "hrp = ''g''"
definition addressSize :: nat where "addressSize = 20"

text \<open>
  The expression \<^verbatim>\<open>^[a-z0-9.\-]+/e/(g1[a-z0-9]+)/run$\<close>, whose classes exclude the slash: a
  path of four parts. The result is the group.
\<close>

definition lower_or_digit :: "char \<Rightarrow> bool" where
  "lower_or_digit c \<longleftrightarrow> is_digit c \<or> 97 \<le> (of_char c :: nat) \<and> (of_char c :: nat) \<le> 122"

definition runPath :: "string \<Rightarrow> string option" where
  "runPath p =
     (case split_on CHR ''/'' p of
        [d, e, a, r] \<Rightarrow>
          if d \<noteq> '''' \<and> list_all (\<lambda>c. lower_or_digit c \<or> c = CHR ''.'' \<or> c = CHR ''-'') d \<and> e = ''e'' \<and>
             has_prefix a ''g1'' \<and> length a > 2 \<and> list_all lower_or_digit a \<and> r = ''run''
          then Some a else None
      | _ \<Rightarrow> None)"

definition IsRunPath :: "string \<Rightarrow> bool" where
  "IsRunPath p \<longleftrightarrow> runPath p \<noteq> None"

definition charset :: string where
  "charset = ''qpzry9x8gf2tvdw0s3jn54khce6mua7l''"

text \<open>The inner loop of \<^verbatim>\<open>convertBits\<close>: groups of five bits off the front of the pending ones.\<close>

function drain :: "goint \<Rightarrow> nat \<Rightarrow> byte list \<Rightarrow> nat \<times> byte list" where
  "drain acc bits out =
     (if 5 \<le> bits then drain acc (bits - 5) (out @ [ucast (signed_drop_bit (bits - 5) acc) AND 31])
      else (bits, out))"
  by pat_completeness auto
termination by (relation "measure (\<lambda>(acc, bits, out). bits)") auto

declare drain.simps [simp del]

definition take_byte :: "byte \<Rightarrow> goint \<times> nat \<times> byte list \<Rightarrow> goint \<times> nat \<times> byte list" where
  "take_byte b st =
     (case st of (acc, bits, out) \<Rightarrow>
        let acc = push_bit 8 acc OR ucast b
        in (acc, drain acc (bits + 8) out))"

definition convertBits :: "byte list \<Rightarrow> byte list" where
  "convertBits data =
     (case fold take_byte data (0, 0, []) of (acc, bits, out) \<Rightarrow>
        if bits > 0 then out @ [ucast (push_bit (5 - bits) acc) AND 31] else out)"

definition gen :: "goint list" where
  "gen = [0x3b6a57b2, 0x26508e6d, 0x1ea119fa, 0x3d4233dd, 0x2a1462b3]"

definition polymod_step :: "byte \<Rightarrow> goint \<Rightarrow> goint" where
  "polymod_step v chk =
     (let top = signed_drop_bit 25 chk
      in fold (\<lambda>i chk. if signed_drop_bit i top AND 1 = 1 then chk XOR gen ! i else chk) [0..<5]
           (push_bit 5 (chk AND 0x1ffffff) XOR ucast v))"

definition polymod :: "byte list \<Rightarrow> goint" where
  "polymod values = fold polymod_step values 1"

definition hrpExpand :: "string \<Rightarrow> byte list" where
  "hrpExpand s = map (\<lambda>c. drop_bit 5 (of_char c)) s @ [0] @ map (\<lambda>c. of_char c AND 31) s"

definition checksum :: "string \<Rightarrow> byte list \<Rightarrow> byte list" where
  "checksum s data =
     (let m = polymod (hrpExpand s @ data @ [0, 0, 0, 0, 0, 0]) XOR 1
      in map (\<lambda>i. ucast (signed_drop_bit (5 * (5 - i)) m) AND 31) [0..<6])"

definition encode :: "string \<Rightarrow> byte list \<Rightarrow> string" where
  "encode s data =
     (let conv = convertBits data
      in s @ ''1'' @ map (\<lambda>v. charset ! unat v) conv @ map (\<lambda>v. charset ! unat v) (checksum s conv))"

definition bech32 :: "(string \<Rightarrow> byte list) \<Rightarrow> string \<Rightarrow> string" where
  "bech32 sha256 preimage = encode hrp (take addressSize (sha256 preimage))"

definition Derive :: "(string \<Rightarrow> byte list) \<Rightarrow> string \<Rightarrow> string" where
  "Derive sha256 path =
     (if path = '''' then ''''
      else (case runPath path of
              Some a \<Rightarrow> a
            | None \<Rightarrow>
                if \<not> str_contains path ''/'' then ''''
                else bech32 sha256 (''pkgPath:'' @ path)))"

definition DeriveStorageDeposit :: "(string \<Rightarrow> byte list) \<Rightarrow> string \<Rightarrow> string" where
  "DeriveStorageDeposit sha256 path =
     (if path = '''' \<or> \<not> str_contains path ''/'' then ''''
      else if runPath path \<noteq> None then ''''
      else bech32 sha256 (''pkgPath:'' @ path @ ''.storageDeposit''))"

section \<open>Regrouping\<close>

text \<open>The low bits of a word, the most significant first.\<close>

definition low_bits :: "nat \<Rightarrow> 'a :: len word \<Rightarrow> bool list" where
  "low_bits n w = rev (map (bit w) [0..<n])"

lemma length_low_bits [simp]: "length (low_bits n w) = n"
  by (simp add: low_bits_def)

lemma low_bits_cong: "(\<And>i. i < n \<Longrightarrow> bit v i = bit w i) \<Longrightarrow> low_bits n v = low_bits n w"
  by (simp add: low_bits_def)

lemma low_bits_add:
  fixes w :: "'a :: len word"
  assumes "m + n \<le> LENGTH('a)"
  shows "low_bits (m + n) w = low_bits m (signed_drop_bit n w) @ low_bits n w"
proof -
  have "[0..<m + n] = [0..<n] @ [n..<m + n]" by (metis add.commute upt_add_eq_append zero_le)
  moreover have "map (bit w) [n..<m + n] = map (bit (signed_drop_bit n w)) [0..<m]"
    using assms by (intro nth_equalityI) (auto simp: bit_signed_drop_bit_iff min_def)
  ultimately show ?thesis by (simp add: low_bits_def)
qed

lemma five_bits: "(v :: byte) AND 31 = take_bit 5 v"
  using take_bit_eq_mask [of 5 v] by (simp add: mask_eq_exp_minus_1)

lemma low_bits_five [simp]: "low_bits 5 (ucast w AND 31 :: byte) = low_bits 5 (w :: goint)"
  unfolding five_bits by (rule low_bits_cong) (simp add: bit_take_bit_iff bit_unsigned_iff)

lemma five_bits_bound: "unat (v AND 31 :: byte) < 32"
  unfolding five_bits using take_bit_nat_less_exp [of 5 "unat v"] by (simp add: unsigned_take_bit_eq)

lemma low_bits_inject:
  fixes v w :: "'a :: len word"
  shows "low_bits LENGTH('a) v = low_bits LENGTH('a) w \<longleftrightarrow> v = w"
  by (auto simp: low_bits_def intro: bit_word_eqI)

lemma drain_groups:
  assumes "bits \<le> 64"
  shows "case drain acc bits out of (k, out') \<Rightarrow>
    k = bits mod 5 \<and> length out' = length out + bits div 5 \<and>
    concat (map (low_bits 5) out') @ low_bits k acc = concat (map (low_bits 5) out) @ low_bits bits acc \<and>
    (\<forall>v \<in> set out'. v \<in> set out \<or> unat v < 32)"
  using assms
proof (induction acc bits out rule: drain.induct)
  case (1 acc bits out)
  show ?case
  proof (cases "5 \<le> bits")
    case True
    let ?v = "ucast (signed_drop_bit (bits - 5) acc) AND 31 :: byte"
    have "low_bits bits acc = low_bits 5 ?v @ low_bits (bits - 5) acc"
      using low_bits_add [of 5 "bits - 5" acc] True 1(2) by simp
    moreover have "bits mod 5 = (bits - 5) mod 5" "bits div 5 = (bits - 5) div 5 + 1"
      using True by (simp_all add: le_mod_geq le_div_geq)
    moreover obtain k out' where step: "drain acc (bits - 5) (out @ [?v]) = (k, out')" by (metis surj_pair)
    moreover have "unat ?v < 32" by (rule five_bits_bound)
    moreover have "drain acc bits out = (k, out')" using True step by (subst drain.simps) simp
    moreover have "bits - 5 \<le> 64" using 1(2) by simp
    ultimately show ?thesis using 1(1) [OF True] by auto
  qed (simp add: drain.simps)
qed

lemma low_bits_byte:
  "k \<le> 56 \<Longrightarrow> low_bits (k + 8) (push_bit 8 acc OR ucast b :: goint) = low_bits k acc @ low_bits 8 (b :: byte)"
proof -
  assume "k \<le> 56"
  have "low_bits 8 (push_bit 8 acc OR ucast b :: goint) = low_bits 8 b"
    by (rule low_bits_cong) (simp add: bit_or_iff bit_push_bit_iff bit_unsigned_iff)
  moreover have "low_bits k (signed_drop_bit 8 (push_bit 8 acc OR ucast b) :: goint) = low_bits k acc"
    using \<open>k \<le> 56\<close>
    by (intro low_bits_cong) (auto simp: bit_signed_drop_bit_iff bit_or_iff bit_push_bit_iff bit_unsigned_iff dest: bit_imp_le_length)
  ultimately show ?thesis using low_bits_add [of k 8 "push_bit 8 acc OR ucast b :: goint"] \<open>k \<le> 56\<close> by simp
qed

lemma take_bytes_groups:
  "case fold take_byte data (0, 0, []) of (acc, bits, out) \<Rightarrow>
     bits = 8 * length data mod 5 \<and> length out = 8 * length data div 5 \<and>
     concat (map (low_bits 5) out) @ low_bits bits acc = concat (map (low_bits 8) data) \<and> (\<forall>v \<in> set out. unat v < 32)"
proof (induction data rule: rev_induct)
  case Nil
  then show ?case by (simp add: low_bits_def)
next
  case (snoc b data)
  obtain acc bits out where eq: "fold take_byte data (0, 0, []) = (acc, bits, out)" by (metis prod_cases3)
  let ?acc = "push_bit 8 acc OR ucast b :: goint"
  have IH: "bits = 8 * length data mod 5" "length out = 8 * length data div 5"
    "concat (map (low_bits 5) out) @ low_bits bits acc = concat (map (low_bits 8) data)" "\<forall>v \<in> set out. unat v < 32"
    using snoc unfolding eq by auto
  obtain k out' where d: "drain ?acc (bits + 8) out = (k, out')" by (metis surj_pair)
  have small: "bits < 5" by (simp add: IH(1))
  have group: "k = (bits + 8) mod 5" "length out' = length out + (bits + 8) div 5"
    "concat (map (low_bits 5) out') @ low_bits k ?acc = concat (map (low_bits 5) out) @ low_bits (bits + 8) ?acc"
    "\<forall>v \<in> set out'. v \<in> set out \<or> unat v < 32"
    using drain_groups [where bits = "bits + 8" and acc = ?acc and out = out] small unfolding d by auto
  have "8 * length (data @ [b]) = bits + 8 + 5 * (8 * length data div 5)" by (simp add: IH(1))
  then have "8 * length (data @ [b]) mod 5 = (bits + 8) mod 5"
    "8 * length (data @ [b]) div 5 = 8 * length data div 5 + (bits + 8) div 5"
    by (simp_all only: mod_mult_self2 div_mult_self2 zero_neq_numeral not_False_eq_True)
  then have "k = 8 * length (data @ [b]) mod 5" "length out' = 8 * length (data @ [b]) div 5"
    using group(1,2) IH(2) by presburger+
  moreover have "concat (map (low_bits 5) out') @ low_bits k ?acc = concat (map (low_bits 8) (data @ [b]))"
    unfolding group(3) using low_bits_byte [of bits acc b] small IH(3) by (simp flip: append_assoc)
  moreover have "\<forall>v \<in> set out'. unat v < 32" using group(4) IH(4) by blast
  moreover have "take_byte b (acc, bits, out) = (?acc, k, out')" by (simp add: take_byte_def d)
  then have "fold take_byte (data @ [b]) (0, 0, []) = (?acc, k, out')" by (simp add: eq)
  ultimately show ?case by simp
qed

end
