(* ===== verification/Gno_Bech32.thy ===== *)
theory Gno_Bech32
  imports Gno_Address
begin

text \<open>
  What the addresses of packages promise: the regrouping loses no bit, the checksum is that
  of bech32, and different hashes have addresses that differ in three places or more. The
  checksum is linear over exclusive or: the difference of two runs is a run on the difference.
\<close>

unbundle bit_operations_syntax

section \<open>The regrouping\<close>

lemma convertBits_spec:
  "length (convertBits data) = (8 * length data + 4) div 5 \<and> (\<forall>v \<in> set (convertBits data). unat v < 32) \<and>
   concat (map (low_bits 5) (convertBits data)) =
     concat (map (low_bits 8) data) @ replicate ((5 - 8 * length data mod 5) mod 5) False"
proof -
  obtain acc bits out where eq: "fold take_byte data (0, 0, []) = (acc, bits, out)" by (metis prod_cases3)
  have g: "bits = 8 * length data mod 5" "length out = 8 * length data div 5"
    "concat (map (low_bits 5) out) @ low_bits bits acc = concat (map (low_bits 8) data)" "\<forall>v \<in> set out. unat v < 32"
    using take_bytes_groups [of data] unfolding eq by auto
  show ?thesis
  proof (cases "bits = 0")
    case True
    then have "8 * length data = 5 * length out" using g(1,2) mult_div_mod_eq [of 5 "8 * length data"] by simp
    then have "(8 * length data + 4) div 5 = length out" by simp
    then show ?thesis using True g by (simp add: convertBits_def eq low_bits_def)
  next
    case False
    let ?v = "ucast (push_bit (5 - bits) acc) AND 31 :: byte"
    have small: "bits < 5" "bits \<noteq> 0" using g(1) False by simp_all
    have "low_bits bits (signed_drop_bit (5 - bits) (push_bit (5 - bits) acc)) = low_bits bits acc"
      using small by (intro low_bits_cong) (auto simp: bit_signed_drop_bit_iff bit_push_bit_iff min_def dest: bit_imp_le_length)
    moreover have "low_bits (5 - bits) (push_bit (5 - bits) acc) = replicate (5 - bits) False"
      by (rule nth_equalityI) (auto simp: low_bits_def rev_nth bit_push_bit_iff)
    ultimately have "low_bits (bits + (5 - bits)) (push_bit (5 - bits) acc) = low_bits bits acc @ replicate (5 - bits) False"
      using small by (subst low_bits_add) simp_all
    then have "low_bits 5 ?v = low_bits bits acc @ replicate (5 - bits) False" using small by simp
    moreover have "(5 - 8 * length data mod 5) mod 5 = 5 - bits" using small by (simp flip: g(1))
    moreover have "8 * length data = bits + 5 * length out" using g(1,2) by simp
    then have "(8 * length data + 4) div 5 = (bits + 4 + 5 * length out) div 5" by simp
    then have "(8 * length data + 4) div 5 = length out + (bits + 4) div 5"
      by (simp only: div_mult_self2 zero_neq_numeral not_False_eq_True)
    moreover have "(bits + 4) div 5 = 1" using small by simp
    moreover have "unat ?v < 32" by (rule five_bits_bound)
    ultimately show ?thesis using False g(3,4) by (simp add: convertBits_def eq)
  qed
qed

lemma concat_fixed_inject:
  assumes "\<And>x. length (f x) = n" "\<And>x y. f x = f y \<Longrightarrow> x = y"
  shows "length xs = length ys \<Longrightarrow> concat (map f xs) = concat (map f ys) \<Longrightarrow> xs = ys"
  by (induction xs ys rule: list_induct2) (use assms in \<open>auto simp: append_eq_append_conv\<close>)

lemma convertBits_inject:
  assumes "length s = length t" "convertBits s = convertBits t"
  shows "s = t"
proof -
  have "concat (map (low_bits 8) s) = concat (map (low_bits 8) t)"
    using convertBits_spec [of s] convertBits_spec [of t] assms by simp
  then show ?thesis
    using concat_fixed_inject [of "low_bits 8 :: byte \<Rightarrow> bool list" 8 s t] low_bits_inject [where 'a = 8] assms(1) by simp
qed

section \<open>The checksum is linear\<close>

definition lin :: "goint \<Rightarrow> goint" where
  "lin chk = polymod_step 0 chk"

lemma shifted_bit: "i < 5 \<Longrightarrow> signed_drop_bit i (signed_drop_bit 25 chk) AND 1 = 1 \<longleftrightarrow> bit (chk :: goint) (25 + i)"
proof -
  assume "i < 5"
  have "signed_drop_bit i (signed_drop_bit 25 chk) AND 1 = 1 \<longleftrightarrow> bit (signed_drop_bit i (signed_drop_bit 25 chk)) 0"
    by (simp add: and_one_eq odd_iff_mod_2_eq_one bit_0)
  also have "\<dots> \<longleftrightarrow> bit chk (25 + i)" using \<open>i < 5\<close> by (simp add: bit_signed_drop_bit_iff min_def add.commute)
  finally show ?thesis .
qed

text \<open>The step as one sum of exclusive or.\<close>

lemma xor_if: "(if c then a XOR g else a) = a XOR (if c then g else 0 :: goint)"
  by simp

lemma step_sum:
  "polymod_step v chk =
     push_bit 5 (chk AND 0x1ffffff) XOR ucast v XOR (if bit chk 25 then 0x3b6a57b2 else 0) XOR
     (if bit chk 26 then 0x26508e6d else 0) XOR (if bit chk 27 then 0x1ea119fa else 0) XOR
     (if bit chk 28 then 0x3d4233dd else 0) XOR (if bit chk 29 then 0x2a1462b3 else 0)"
proof -
  have upt: "[0..<5] = [0, 1, 2, 3, 4::nat]" by (simp add: upt_rec)
  have gens: "gen ! 0 = 0x3b6a57b2" "gen ! 1 = 0x26508e6d" "gen ! 2 = 0x1ea119fa" "gen ! 3 = 0x3d4233dd" "gen ! 4 = 0x2a1462b3"
    by (simp_all add: gen_def)
  have bits: "(signed_drop_bit i (signed_drop_bit 25 chk) AND 1 = 1) = bit chk (25 + i)" if "i \<in> {0, 1, 2, 3, 4}" for i
    using shifted_bit [of i chk] that by auto
  have "polymod_step v chk = push_bit 5 (chk AND 0x1ffffff) XOR ucast v XOR (if bit chk (25 + 0) then gen ! 0 else 0) XOR
     (if bit chk (25 + 1) then gen ! 1 else 0) XOR (if bit chk (25 + 2) then gen ! 2 else 0) XOR
     (if bit chk (25 + 3) then gen ! 3 else 0) XOR (if bit chk (25 + 4) then gen ! 4 else 0)"
    by (simp only: polymod_step_def Let_def upt fold_simps bits insert_iff simp_thms xor_if xor.assoc)
  then show ?thesis unfolding gens by simp
qed

lemma step_lin: "polymod_step v chk = lin chk XOR ucast v"
  by (simp add: lin_def step_sum ac_simps)

lemma lin_xor: "lin (a XOR b) = lin a XOR lin b"
proof -
  have sum: "(if bit (a XOR b) n then g else 0 :: goint) = (if bit a n then g else 0) XOR (if bit b n then g else 0)" for n g
    by (simp add: bit_xor_iff)
  have low: "push_bit 5 ((a XOR b) AND 0x1ffffff) = push_bit 5 (a AND 0x1ffffff) XOR push_bit 5 (b AND 0x1ffffff)"
  proof -
    have "(a XOR b) AND m = (a AND m) XOR (b AND m)" for m
      by (rule bit_word_eqI) (auto simp: bit_and_iff bit_xor_iff)
    then show ?thesis by (simp only: push_bit_xor)
  qed
  show ?thesis unfolding lin_def step_sum sum low by (simp add: ac_simps)
qed

lemma lin_zero [simp]: "lin 0 = 0"
  by (simp add: lin_def step_sum)

lemma step_xor: "polymod_step u c XOR polymod_step v d = polymod_step (u XOR v) (c XOR d)"
proof -
  have "(ucast (u XOR v) :: goint) = ucast u XOR ucast v" by (rule unsigned_xor_eq)
  then show ?thesis by (simp add: step_lin lin_xor ac_simps)
qed

definition xor_all :: "byte list \<Rightarrow> byte list \<Rightarrow> byte list" where
  "xor_all us vs = map (\<lambda>(u, v). u XOR v) (zip us vs)"

lemma fold_step_xor:
  "length us = length vs \<Longrightarrow>
    fold polymod_step us c XOR fold polymod_step vs d = fold polymod_step (xor_all us vs) (c XOR d)"
  by (induction us vs arbitrary: c d rule: list_induct2) (simp_all add: xor_all_def step_xor)

lemma step_zero: "polymod_step 0 = lin"
  by (rule ext) (simp add: lin_def)

lemma fold_step_zeros: "fold polymod_step (replicate n 0) c = (lin ^^ n) c"
  by (induction n arbitrary: c) (simp_all add: lin_def funpow_swap1)

lemma lin_power_xor: "(lin ^^ n) (a XOR b) = (lin ^^ n) a XOR (lin ^^ n) b"
  by (induction n) (simp_all add: lin_xor)

lemma lin_power_zero [simp]: "(lin ^^ n) 0 = 0"
  by (induction n) simp_all

section \<open>Thirty bits\<close>

definition small :: "goint \<Rightarrow> bool" where
  "small x \<longleftrightarrow> take_bit 30 x = x"

lemma small_bit: "small x \<Longrightarrow> bit x n \<Longrightarrow> n < 30"
  unfolding small_def by (metis bit_take_bit_iff)

lemma smallI: "(\<And>n. bit x n \<Longrightarrow> n < 30) \<Longrightarrow> small x"
  unfolding small_def by (rule bit_word_eqI) (auto simp: bit_take_bit_iff)

lemma small_xor: "small x \<Longrightarrow> small y \<Longrightarrow> small (x XOR y)"
  by (simp add: small_def)

lemma small_lin: "small (lin x)"
proof -
  have "small (push_bit 5 (x AND 0x1ffffff))"
  proof (rule smallI)
    fix n assume "bit (push_bit 5 (x AND 0x1ffffff)) n"
    moreover have "(0x1ffffff :: goint) = mask 25" by (simp add: mask_eq_exp_minus_1)
    ultimately have "5 \<le> n \<and> n - 5 < 25" by (simp only: bit_push_bit_iff bit_and_iff bit_mask_iff)
    then show "n < 30" by linarith
  qed
  moreover have "small (if c then 0x3b6a57b2 else 0)" "small (if c then 0x26508e6d else 0)"
    "small (if c then 0x1ea119fa else 0)" "small (if c then 0x3d4233dd else 0)" "small (if c then 0x2a1462b3 else 0)" for c
    by (simp_all add: small_def)
  ultimately show ?thesis unfolding lin_def step_sum
    by (intro small_xor) (simp_all add: small_def del: push_bit_and)
qed

lemma small_byte: "small (ucast (v :: byte))"
proof (rule smallI)
  fix n assume "bit (ucast v :: goint) n"
  then have "bit v n" by (simp add: bit_unsigned_iff)
  then have "n < LENGTH(8)" by (rule bit_imp_le_length)
  then show "n < 30" by simp
qed

lemma small_power: "small x \<Longrightarrow> small ((lin ^^ n) x)"
  by (cases n) (simp_all add: small_lin)

lemma small_run:
  assumes "small c"
  shows "small (fold polymod_step vs c)"
proof (cases vs rule: rev_cases)
  case (snoc us v)
  then show ?thesis by (simp add: step_lin small_xor small_lin small_byte)
qed (simp add: assms)

text \<open>No difference disappears: the step has no kernel.\<close>

lemma low_part: "lin x AND 31 =
    ((if bit x 25 then 18 else 0) XOR (if bit x 26 then 13 else 0) XOR (if bit x 27 then 26 else 0) XOR
     (if bit x 28 then 29 else 0) XOR (if bit x 29 then 19 else 0) :: goint)"
proof -
  have and_xor: "(a XOR b) AND m = (a AND m) XOR (b AND m)" for a b m :: goint
    by (rule bit_word_eqI) (auto simp: bit_and_iff bit_xor_iff)
  have and_if: "(if c then a else 0) AND m = (if c then a AND m else 0)" for c and a m :: goint by simp
  have "(31 :: goint) = mask 5" by (simp add: mask_eq_exp_minus_1)
  then have "push_bit 5 y AND 31 = take_bit 5 (push_bit 5 y)" for y :: goint by (simp only: take_bit_eq_mask)
  then have "push_bit 5 (x AND 0x1ffffff) AND 31 = 0" by (simp only: take_bit_push_bit) simp
  then show ?thesis unfolding lin_def step_sum and_xor and_if by simp
qed

lemma lin_kernel:
  assumes "small x" "lin x = 0"
  shows "x = 0"
proof -
  have "((if bit x 25 then 18 else 0) XOR (if bit x 26 then 13 else 0) XOR (if bit x 27 then 26 else 0) XOR
     (if bit x 28 then 29 else 0) XOR (if bit x 29 then 19 else 0) :: goint) = 0"
    using low_part [of x] assms(2) by simp
  then have top: "\<not> bit x 25" "\<not> bit x 26" "\<not> bit x 27" "\<not> bit x 28" "\<not> bit x 29"
    by (simp_all split: if_splits)
  then have shifted: "push_bit 5 (x AND 0x1ffffff) = 0" using assms(2) by (simp add: lin_def step_sum del: push_bit_and)
  show ?thesis
  proof (rule bit_word_eqI)
    fix n assume "n < LENGTH(64)"
    have "\<not> bit x n"
    proof
      assume n: "bit x n"
      then have "n < 30" by (rule small_bit [OF assms(1)])
      moreover have "n \<notin> {25, 26, 27, 28, 29}" using top n by auto
      ultimately have "n < 25" by auto
      have "(0x1ffffff :: goint) = mask 25" by (simp add: mask_eq_exp_minus_1)
      then have "bit (push_bit 5 (x AND 0x1ffffff)) (n + 5)"
        using n \<open>n < 25\<close> by (simp only: bit_push_bit_iff bit_and_iff bit_mask_iff) simp
      then show False using shifted by simp
    qed
    then show "bit x n = bit 0 n" by simp
  qed
qed

lemma lin_power_kernel: "small x \<Longrightarrow> (lin ^^ n) x = 0 \<Longrightarrow> x = 0"
proof (induction n)
  case (Suc n)
  then show ?case using lin_kernel [of "(lin ^^ n) x"] small_power by simp
qed simp

section \<open>The checksum is that of bech32\<close>

lemma mask_keeps: "(\<And>n. bit y n \<Longrightarrow> n < 25) \<Longrightarrow> y AND 0x1ffffff = (y :: goint)"
proof -
  assume low: "\<And>n. bit y n \<Longrightarrow> n < 25"
  have "(0x1ffffff :: goint) = mask 25" by (simp add: mask_eq_exp_minus_1)
  then have "y AND 0x1ffffff = take_bit 25 y" by (simp only: take_bit_eq_mask)
  also have "\<dots> = y" using low by (intro bit_word_eqI) (auto simp: bit_take_bit_iff)
  finally show ?thesis .
qed

lemma shift_in:
  assumes "small m" "j \<le> 25"
  shows "polymod_step (ucast (signed_drop_bit j m) AND 31) (drop_bit (j + 5) m) = drop_bit j m"
proof -
  let ?x = "drop_bit (j + 5) m"
  have none: "\<not> bit ?x (25 + i)" for i
    using small_bit [OF assms(1)] by (auto simp: bit_drop_bit_eq)
  have masked: "?x AND 0x1ffffff = ?x"
  proof (rule mask_keeps)
    show "n < 25" if "bit ?x n" for n using none [of "n - 25"] that by (cases "n < 25") simp_all
  qed
  have top: "\<not> bit ?x 25" "\<not> bit ?x 26" "\<not> bit ?x 27" "\<not> bit ?x 28" "\<not> bit ?x 29"
    using none [of 0] none [of 1] none [of 2] none [of 3] none [of 4] by simp_all
  have "polymod_step (ucast (signed_drop_bit j m) AND 31) ?x = push_bit 5 ?x XOR ucast (ucast (signed_drop_bit j m) AND 31 :: byte)"
    unfolding step_sum masked by (simp only: top if_False xor.right_neutral)
  also have "\<dots> = drop_bit j m"
  proof (rule bit_word_eqI)
    fix n assume "n < LENGTH(64)"
    then show "bit (push_bit 5 ?x XOR ucast (ucast (signed_drop_bit j m) AND 31 :: byte)) n = bit (drop_bit j m) n"
      unfolding five_bits using assms(2)
      by (cases "n < 5") (auto simp: bit_xor_iff bit_push_bit_iff bit_drop_bit_eq bit_unsigned_iff bit_take_bit_iff
        bit_signed_drop_bit_iff min_def ac_simps)
  qed
  finally show ?thesis .
qed

lemma run_of_checksum:
  assumes "small m"
  shows "fold polymod_step (map (\<lambda>i. ucast (signed_drop_bit (5 * (5 - i)) m) AND 31) [0..<6]) 0 = m"
proof -
  have "drop_bit 30 m = 0" by (rule bit_word_eqI) (use small_bit [OF assms] in \<open>auto simp: bit_drop_bit_eq\<close>)
  moreover have "[0..<6] = [0, 1, 2, 3, 4, 5::nat]" by (simp add: upt_rec)
  ultimately show ?thesis
    using shift_in [OF assms, of 25] shift_in [OF assms, of 20] shift_in [OF assms, of 15] shift_in [OF assms, of 10]
      shift_in [OF assms, of 5] shift_in [OF assms, of 0]
    by simp
qed

lemma checksum_valid: "polymod (hrpExpand s @ conv @ checksum s conv) = 1"
proof -
  define c where "c = fold polymod_step (hrpExpand s @ conv) 1"
  define m where "m = (lin ^^ 6) c XOR 1"
  have zeros: "[0, 0, 0, 0, 0, 0] = replicate 6 (0 :: byte)" by (simp add: numeral_eq_Suc)
  have sum: "checksum s conv = map (\<lambda>i. ucast (signed_drop_bit (5 * (5 - i)) m) AND 31) [0..<6]"
    unfolding checksum_def polymod_def Let_def zeros by (simp add: m_def c_def step_zero)
  have "small c" unfolding c_def by (rule small_run) (simp add: small_def)
  moreover have "small (1 :: goint)" by (simp add: small_def)
  ultimately have "small m" unfolding m_def by (intro small_xor small_power)
  have len: "length (replicate 6 0 :: byte list) = length (checksum s conv)" by (simp add: sum)
  have "xor_all (replicate 6 0) (checksum s conv) = checksum s conv"
    unfolding xor_all_def by (rule nth_equalityI) (simp_all add: sum)
  then have "fold polymod_step (checksum s conv) c = (lin ^^ 6) c XOR fold polymod_step (checksum s conv) 0"
    using fold_step_xor [OF len, of c 0] by (simp add: step_zero)
  also have "\<dots> = 1" using run_of_checksum [OF \<open>small m\<close>] by (simp add: sum m_def flip: xor.assoc)
  finally show ?thesis by (simp add: polymod_def c_def)
qed

section \<open>Distance\<close>

text \<open>
  Two symbols do not make up for each other: the difference of one symbol, run over up to 37
  further ones, is never the difference of a single symbol again. This is checked for each of
  the 31 differences, on integers, where the kernel evaluates a step quickly.
\<close>

definition lin_int :: "int \<Rightarrow> int" where
  "lin_int x =
     push_bit 5 (x AND 0x1ffffff) XOR (if bit x 25 then 0x3b6a57b2 else 0) XOR
     (if bit x 26 then 0x26508e6d else 0) XOR (if bit x 27 then 0x1ea119fa else 0) XOR
     (if bit x 28 then 0x3d4233dd else 0) XOR (if bit x 29 then 0x2a1462b3 else 0)"

fun stays_wide :: "nat \<Rightarrow> int \<Rightarrow> bool" where
  "stays_wide 0 x = True"
| "stays_wide (Suc n) x = (let y = lin_int x in 32 \<le> y \<and> stays_wide n y)"

lemma all_stay_wide: "list_all (stays_wide 37) [1..31]"
  by code_simp

lemma uint_lin: "uint (lin x) = lin_int (uint x)"
proof -
  have bits: "bit (uint x) n = bit x n" if "n < 64" for n using that by (simp add: bit_uint_iff)
  have "uint (push_bit 5 (x AND 0x1ffffff)) = push_bit 5 (uint x AND 0x1ffffff)"
  proof -
    have "(0x1ffffff :: goint) = mask 25" "(0x1ffffff :: int) = mask 25" by (simp_all add: mask_eq_exp_minus_1)
    then have "x AND 0x1ffffff = take_bit 25 x" "uint x AND 0x1ffffff = take_bit 25 (uint x)" by (simp_all only: take_bit_eq_mask)
    moreover have "uint (push_bit 5 (take_bit 25 x)) = push_bit 5 (take_bit 25 (uint x))"
      by (rule bit_eqI) (auto simp: bit_uint_iff bit_push_bit_iff bit_take_bit_iff)
    ultimately show ?thesis by (simp only:)
  qed
  moreover have "uint (if c then 0x3b6a57b2 else 0 :: goint) = (if c then 0x3b6a57b2 else 0)"
    "uint (if c then 0x26508e6d else 0 :: goint) = (if c then 0x26508e6d else 0)"
    "uint (if c then 0x1ea119fa else 0 :: goint) = (if c then 0x1ea119fa else 0)"
    "uint (if c then 0x3d4233dd else 0 :: goint) = (if c then 0x3d4233dd else 0)"
    "uint (if c then 0x2a1462b3 else 0 :: goint) = (if c then 0x2a1462b3 else 0)" for c by simp_all
  ultimately show ?thesis
    unfolding lin_def step_sum lin_int_def by (simp add: unsigned_xor_eq bits del: push_bit_and)
qed

lemma stays_wide_power: "stays_wide n (uint x) \<Longrightarrow> m < n \<Longrightarrow> 32 \<le> uint ((lin ^^ Suc m) x)"
proof (induction n arbitrary: m x)
  case (Suc n)
  show ?case
  proof (cases m)
    case (Suc k)
    have "32 \<le> uint ((lin ^^ Suc k) (lin x))" using Suc.IH [of "lin x" k] Suc.prems Suc by (simp add: uint_lin Let_def)
    then show ?thesis using Suc by (simp only: funpow_Suc_right comp_def)
  qed (use Suc.prems in \<open>simp add: Let_def uint_lin\<close>)
qed simp

lemma uint_symbol: "uint (ucast (d :: byte) :: goint) = uint d"
proof -
  have "uint d < 2 ^ 8" using uint_lt2p [of d] by simp
  then show ?thesis by (simp add: unsigned_ucast_eq take_bit_int_eq_self_iff)
qed

lemma symbol_stays_wide:
  assumes "unat (d :: byte) < 32" "d \<noteq> 0" "m < 37"
  shows "32 \<le> uint ((lin ^^ Suc m) (ucast d))"
proof -
  have "uint d \<noteq> 0" using assms(2) by (simp only: uint_0_iff not_False_eq_True)
  then have "1 \<le> uint d" using uint_ge_0 [of d] by linarith
  moreover have "uint d < 32" using assms(1) by (simp only: unat_eq_nat_uint)
  ultimately have "uint d \<in> set [1..31]" by auto
  then have "stays_wide 37 (uint (ucast d :: goint))" using all_stay_wide by (simp only: list_all_iff uint_symbol)
  then show ?thesis using assms(3) by (rule stays_wide_power)
qed

lemma xor_zero_iff: "u XOR v = 0 \<longleftrightarrow> u = (v :: 'a :: len word)"
proof
  assume "u XOR v = 0"
  then have "bit (u XOR v) n = bit 0 n" for n by simp
  then show "u = v" by (intro bit_word_eqI) (auto simp: bit_xor_iff)
qed simp

definition weight :: "byte list \<Rightarrow> nat" where
  "weight ds = length (filter (\<lambda>d. d \<noteq> 0) ds)"

lemma weight_zero: "weight ds = 0 \<Longrightarrow> ds = replicate (length ds) 0"
  by (induction ds) (auto simp: weight_def split: if_splits)

lemma first_difference:
  "weight ds \<noteq> 0 \<Longrightarrow> \<exists>a d r. ds = replicate a 0 @ d # r \<and> d \<noteq> 0 \<and> weight ds = Suc (weight r)"
proof (induction ds)
  case (Cons x ds)
  show ?case
  proof (cases "x = 0")
    case True
    then have "weight (x # ds) = weight ds" by (simp add: weight_def)
    moreover obtain a d r where "ds = replicate a 0 @ d # r" "d \<noteq> 0" "weight ds = Suc (weight r)"
      using Cons \<open>weight (x # ds) = weight ds\<close> by auto
    ultimately show ?thesis using True by (intro exI [of _ "Suc a"] exI [of _ d] exI [of _ r]) simp
  next
    case False
    then show ?thesis by (intro exI [of _ 0] exI [of _ x] exI [of _ ds]) (simp add: weight_def)
  qed
qed (simp add: weight_def)

lemma run_on_zeros: "weight r = 0 \<Longrightarrow> fold polymod_step r c = (lin ^^ length r) c"
  by (metis weight_zero fold_step_zeros)

lemma weight_of_codeword:
  assumes "length ds \<le> 38" "\<forall>d \<in> set ds. unat d < 32" "weight ds \<noteq> 0" "fold polymod_step ds 0 = 0"
  shows "3 \<le> weight ds"
proof -
  obtain a d r where ds: "ds = replicate a 0 @ d # r" "d \<noteq> 0" "weight ds = Suc (weight r)"
    using first_difference [OF assms(3)] by blast
  have start: "fold polymod_step r (ucast d) = 0" using assms(4) by (simp add: ds(1) fold_step_zeros step_zero step_lin)
  have "(ucast d :: goint) \<noteq> 0"
    using ds(2) uint_symbol [of d] by (metis uint_0_iff)
  have "weight r \<noteq> 0"
  proof
    assume "weight r = 0"
    then have "(lin ^^ length r) (ucast d) = 0" using start run_on_zeros by simp
    then show False using lin_power_kernel [OF small_byte] \<open>(ucast d :: goint) \<noteq> 0\<close> by blast
  qed
  then obtain m e q where r: "r = replicate m 0 @ e # q" "e \<noteq> 0" "weight r = Suc (weight q)"
    using first_difference by blast
  have "weight q \<noteq> 0"
  proof
    assume "weight q = 0"
    have "fold polymod_step q ((lin ^^ Suc m) (ucast d) XOR ucast e) = 0"
      using start by (simp add: r(1) fold_step_zeros step_zero step_lin)
    then have run: "(lin ^^ length q) ((lin ^^ Suc m) (ucast d) XOR ucast e) = 0"
      using run_on_zeros [OF \<open>weight q = 0\<close>] by simp
    have "small ((lin ^^ Suc m) (ucast d) XOR ucast e)" by (intro small_xor small_power small_byte)
    from lin_power_kernel [OF this run] have "(lin ^^ Suc m) (ucast d) XOR ucast e = 0" .
    then have same: "(lin ^^ Suc m) (ucast d) = ucast e" by (simp only: xor_zero_iff)
    have "unat d < 32" using assms(2) by (simp add: ds(1))
    moreover have "m < 37" using assms(1) by (simp add: ds(1) r(1))
    ultimately have "32 \<le> uint ((lin ^^ Suc m) (ucast d))" using ds(2) by (intro symbol_stays_wide)
    then have "32 \<le> uint (ucast e :: goint)" by (simp only: same)
    moreover have "uint (ucast e :: goint) < 32"
    proof -
      have "unat e < 32" using assms(2) by (simp add: ds(1) r(1))
      then have "uint e < 32" by (simp only: unat_eq_nat_uint)
      then show ?thesis by (simp only: uint_symbol)
    qed
    ultimately show False by simp
  qed
  then show ?thesis using ds(3) r(3) by simp
qed

section \<open>Addresses\<close>

definition symbol :: "byte \<Rightarrow> char" where
  "symbol v = charset ! unat v"

definition differing :: "'a list \<Rightarrow> 'a list \<Rightarrow> nat" where
  "differing a b = length (filter (\<lambda>p. fst p \<noteq> snd p) (zip a b))"

lemma symbol_inject: "unat u < 32 \<Longrightarrow> unat v < 32 \<Longrightarrow> symbol u = symbol v \<longleftrightarrow> u = v"
proof -
  have "distinct charset" "length charset = 32" by (simp_all add: charset_def)
  then show "unat u < 32 \<Longrightarrow> unat v < 32 \<Longrightarrow> symbol u = symbol v \<longleftrightarrow> u = v"
    by (simp add: symbol_def nth_eq_iff_index_eq unsigned_word_eqI [where 'a = nat] word_unat_eq_iff)
qed


lemma weight_differing:
  assumes "length us = length vs" "\<forall>v \<in> set us \<union> set vs. unat v < 32"
  shows "weight (xor_all us vs) = differing (map symbol us) (map symbol vs)"
  using assms
  by (induction us vs rule: list_induct2) (simp_all add: weight_def xor_all_def differing_def xor_zero_iff symbol_inject)

lemma xor_all_symbols:
  assumes "\<forall>v \<in> set us \<union> set vs. unat v < 32" "d \<in> set (xor_all us vs)"
  shows "unat d < 32"
proof -
  obtain u v where d: "d = u XOR v" "unat u < 32" "unat v < 32"
    using assms by (auto simp: xor_all_def dest: set_zip_leftD set_zip_rightD)
  then have "take_bit 5 u = u" "take_bit 5 v = v"
    using unat_eq_nat_uint by (auto simp: word_unat_eq_iff unsigned_take_bit_eq take_bit_nat_eq_self)
  then have "d = d AND 31" unfolding five_bits using d(1) by simp
  then show ?thesis using five_bits_bound [of d] by simp
qed

lemma encode_symbols:
  "encode s data = s @ ''1'' @ map symbol (convertBits data @ checksum s (convertBits data))"
  by (simp add: encode_def symbol_def Let_def)

lemma checksum_symbols: "length (checksum s conv) = 6 \<and> (\<forall>v \<in> set (checksum s conv). unat v < 32)"
  using five_bits_bound by (auto simp: checksum_def Let_def)

lemma data_symbols:
  "length data = 20 \<Longrightarrow> length (convertBits data @ checksum s (convertBits data)) = 38 \<and>
    (\<forall>v \<in> set (convertBits data @ checksum s (convertBits data)). unat v < 32)"
  using convertBits_spec [of data] checksum_symbols by auto

lemma differing_prefix: "differing (p @ a) (p @ b) = differing a b"
  by (induction p) (simp_all add: differing_def)

lemma encode_apart:
  assumes "length x = 20" "length y = 20" "x \<noteq> y"
  shows "3 \<le> differing (encode s x) (encode s y)"
proof -
  let ?u = "convertBits x @ checksum s (convertBits x)" and ?v = "convertBits y @ checksum s (convertBits y)"
  have u: "length ?u = 38" "\<forall>v \<in> set ?u. unat v < 32" and v: "length ?v = 38" "\<forall>v \<in> set ?v. unat v < 32"
    using data_symbols [of _ s] assms by blast+
  let ?c = "fold polymod_step (hrpExpand s) 1"
  have "fold polymod_step ?u ?c = fold polymod_step ?v ?c"
    using checksum_valid [of s "convertBits x"] checksum_valid [of s "convertBits y"] by (simp add: polymod_def)
  then have "fold polymod_step (xor_all ?u ?v) 0 = 0" using fold_step_xor [of ?u ?v ?c ?c] u(1) v(1) by simp
  moreover have "?u \<noteq> ?v"
    using convertBits_inject [of x y] convertBits_spec [of x] convertBits_spec [of y] assms by auto
  then have "weight (xor_all ?u ?v) \<noteq> 0"
  proof -
    have "differing a b = 0 \<Longrightarrow> length a = length b \<Longrightarrow> a = b" for a b :: string
      by (induction a b rule: list_induct2') (auto simp: differing_def split: if_splits)
    moreover have "map symbol ?u \<noteq> map symbol ?v"
    proof
      assume eq: "map symbol ?u = map symbol ?v"
      have "?u = ?v"
      proof (rule nth_equalityI)
        show "length ?u = length ?v" using u(1) v(1) by simp
        show "?u ! i = ?v ! i" if "i < length ?u" for i
          using that arg_cong [OF eq, of "\<lambda>l. l ! i"] symbol_inject [of "?u ! i" "?v ! i"] u v
          by (metis nth_map nth_mem)
      qed
      then show False using \<open>?u \<noteq> ?v\<close> by blast
    qed
    ultimately show ?thesis using weight_differing [of ?u ?v] u v by (metis length_map Un_iff)
  qed
  ultimately have "3 \<le> weight (xor_all ?u ?v)"
    using xor_all_symbols [of ?u ?v] u v by (intro weight_of_codeword) (auto simp: xor_all_def simp del: set_append)
  then have "3 \<le> differing (map symbol ?u) (map symbol ?v)" using weight_differing [of ?u ?v] u v by (metis Un_iff)
  then show ?thesis unfolding encode_symbols append_assoc [symmetric] differing_prefix by simp
qed

section \<open>What an address promises\<close>

text \<open>
  The regrouping loses no bit of a hash, although its accumulator overflows: the groups
  are five bits each and as many as the bytes need, and written one after another they are
  the bits of the bytes followed by fewer than five zeros.
\<close>

theorem regrouping_keeps_every_bit:
  "length (convertBits data) = (8 * length data + 4) div 5 \<and> list_all (\<lambda>v. unat v < 32) (convertBits data) \<and>
   concat (map (low_bits 5) (convertBits data)) =
     concat (map (low_bits 8) data) @ replicate ((5 - 8 * length data mod 5) mod 5) False"
  using convertBits_spec by (simp add: list_all_iff)

text \<open>
  The account and the deposit account of a package are bech32 addresses: the prefix, then
  38 symbols of the alphabet whose checksum, with the expanded prefix before them, is the
  constant 1 that a reader of addresses verifies. A path that names the code of a run has no
  account of its own.
\<close>

theorem derived_addresses_are_bech32:
  assumes "\<forall>m. length (sha256 m) = 32" "str_contains path ''/''" "\<not> IsRunPath path"
    and "a \<in> {Derive sha256 path, DeriveStorageDeposit sha256 path}"
  shows "\<exists>vs. a = ''g1'' @ map (\<lambda>v. charset ! unat v) vs \<and> length a = 40 \<and>
    list_all (\<lambda>v. unat v < 32) vs \<and> polymod (hrpExpand ''g'' @ vs) = 1"
proof -
  have "path \<noteq> ''''" using assms(2) by (auto simp: str_contains_def)
  then obtain m where a: "a = encode hrp (take addressSize (sha256 m))"
    using assms(2-4) by (auto simp: Derive_def DeriveStorageDeposit_def bech32_def IsRunPath_def split: option.splits)
  let ?d = "take addressSize (sha256 m)"
  let ?vs = "convertBits ?d @ checksum hrp (convertBits ?d)"
  have "length ?d = 20" using assms(1) by (simp add: addressSize_def)
  then have vs: "length ?vs = 38" "\<forall>v \<in> set ?vs. unat v < 32" using data_symbols by blast+
  have "a = ''g1'' @ map (\<lambda>v. charset ! unat v) ?vs"
    unfolding a encode_symbols by (simp add: hrp_def symbol_def)
  moreover have "polymod (hrpExpand ''g'' @ ?vs) = 1" using checksum_valid [of hrp] by (simp add: hrp_def)
  ultimately show ?thesis using vs by (intro exI [of _ ?vs]) (simp add: list_all_iff)
qed

text \<open>
  C34. Addresses are far apart: those of two preimages whose hashes differ in their first
  twenty bytes differ in at least three places, so neither is a slip of one or two characters
  away from the other, and two accounts of one address come from colliding hashes only.
\<close>

theorem addresses_are_far_apart:
  assumes "\<forall>m. length (sha256 m) = 32" "take addressSize (sha256 x) \<noteq> take addressSize (sha256 y)"
  shows "3 \<le> differing (bech32 sha256 x) (bech32 sha256 y)"
  using assms encode_apart [of "take addressSize (sha256 x)" "take addressSize (sha256 y)" hrp]
  by (simp add: bech32_def addressSize_def)

theorem derived_addresses_are_bech32_witness:
  "\<exists>vs. Derive (\<lambda>m. replicate 32 (of_nat (length m))) ''gno.land/r/x'' = ''g1'' @ map (\<lambda>v. charset ! unat v) vs \<and>
     list_all (\<lambda>v. unat v < 32) vs \<and> polymod (hrpExpand ''g'' @ vs) = 1"
proof -
  have "str_contains ''gno.land/r/x'' ''/''" "\<not> IsRunPath ''gno.land/r/x''"
    by (simp_all add: str_contains_def has_prefix_def IsRunPath_def runPath_def)
  from derived_addresses_are_bech32 [OF _ this, of "\<lambda>m. replicate 32 (of_nat (length m))"
      "Derive (\<lambda>m. replicate 32 (of_nat (length m))) ''gno.land/r/x''"]
  show ?thesis by auto
qed

theorem addresses_are_far_apart_witness:
  "3 \<le> differing (bech32 (\<lambda>m. replicate 32 (of_nat (length m))) ''a'') (bech32 (\<lambda>m. replicate 32 (of_nat (length m))) ''bc'')"
  by (rule addresses_are_far_apart) (simp_all add: addressSize_def)

end
