(* ===== verification/Price_Repr.thy ===== *)
theory Price_Repr
  imports Complex_Main Go_Prelude "HOL-Library.Word"
begin

text \<open>
  The arithmetic and the readers of the price package (\<^verbatim>\<open>pkg/price/math.go\<close>, with
  \<^verbatim>\<open>PoolToken\<close> of \<^verbatim>\<open>chain.go\<close>): exact ratios out of stored square roots and out of ticks, and
  the lines a node answers a read with. A \<^verbatim>\<open>big.Rat\<close> is a rational number; the percentages,
  floating point in the code, are rational numbers too, without its rounding.
\<close>

unbundle bit_operations_syntax

section \<open>Ratios\<close>

text \<open>\<^verbatim>\<open>big.Int.SetString\<close> in base 10.\<close>

definition parse_big :: "string \<Rightarrow> int option" where
  "parse_big s =
     (let ds = (if s \<noteq> [] \<and> (hd s = CHR ''-'' \<or> hd s = CHR ''+'') then tl s else s)
      in if ds = [] then None
         else map_option (\<lambda>n. if hd s = CHR ''-'' then - int n else int n) (parse_digits 0 ds))"

definition q96 :: int where "q96 = push_bit 96 1"

definition RatioFromSqrtPriceX96 :: "string \<Rightarrow> rat option" where
  "RatioFromSqrtPriceX96 s =
     (let s = trim_space s
      in if s = '''' then None
         else (case parse_big s of
                 None \<Rightarrow> None
               | Some n \<Rightarrow> if n \<le> 0 then None else Some (of_int (n * n) / of_int (q96 * q96))))"

lemma Ratio_pos: "RatioFromSqrtPriceX96 s = Some r \<Longrightarrow> 0 < r"
proof -
  have "0 < q96" by (simp add: q96_def)
  then show "RatioFromSqrtPriceX96 s = Some r \<Longrightarrow> 0 < r"
    by (auto simp: RatioFromSqrtPriceX96_def Let_def intro!: divide_pos_pos split: option.splits if_splits)
qed

text \<open>Square and multiply over a tick, an \<^verbatim>\<open>int32\<close>.\<close>

function tick_loop :: "32 word \<Rightarrow> rat \<Rightarrow> rat \<Rightarrow> rat" where
  "tick_loop n out acc =
     (if 0 < sint n
      then tick_loop (signed_drop_bit 1 n) (if n AND 1 = 1 then out * acc else out) (acc * acc)
      else out)"
  by pat_completeness auto
termination
  by (relation "measure (\<lambda>(n, out, acc). nat (sint n))") (auto simp: sint_signed_drop_bit_eq drop_bit_eq_div)

declare tick_loop.simps [simp del]

definition TickToRatio :: "32 word \<Rightarrow> rat" where
  "TickToRatio tick =
     (let neg = (sint tick < 0);
          n = (if neg then - tick else tick);
          out = tick_loop n 1 (10001 / 10000)
      in if neg then inverse out else out)"

lemma odd_word: "(n :: 32 word) AND 1 = 1 \<longleftrightarrow> odd (sint n)"
proof -
  have "n AND 1 = 1 \<longleftrightarrow> bit n 0" by (simp add: and_one_eq odd_iff_mod_2_eq_one bit_0)
  also have "\<dots> \<longleftrightarrow> bit (sint n) 0" by (simp add: bit_sint_iff)
  finally show ?thesis by (simp add: bit_0)
qed

lemma tick_loop_power: "0 \<le> sint n \<Longrightarrow> tick_loop n out acc = out * acc ^ nat (sint n)"
proof (induction n out acc rule: tick_loop.induct)
  case (1 n out acc)
  show ?case
  proof (cases "0 < sint n")
    case True
    let ?m = "signed_drop_bit 1 n"
    have half: "sint ?m = sint n div 2" by (simp add: sint_signed_drop_bit_eq drop_bit_eq_div)
    have "tick_loop ?m (if n AND 1 = 1 then out * acc else out) (acc * acc) =
        (if n AND 1 = 1 then out * acc else out) * (acc * acc) ^ nat (sint ?m)"
      using 1 True half by simp
    also have "(acc * acc) ^ nat (sint ?m) = acc ^ (2 * nat (sint n div 2))"
      by (simp add: half [simplified] power_mult power2_eq_square)
    also have "(if n AND 1 = 1 then out * acc else out) * \<dots> = out * acc ^ nat (sint n)"
    proof (cases "odd (sint n)")
      case True
      then have "nat (sint n) = Suc (2 * nat (sint n div 2))" using \<open>0 < sint n\<close> by (auto elim!: oddE)
      then show ?thesis using True odd_word [of n] by simp
    next
      case False
      then have "nat (sint n) = 2 * nat (sint n div 2)" using \<open>0 < sint n\<close> by (auto elim!: evenE)
      then show ?thesis using False odd_word [of n] by simp
    qed
    finally show ?thesis using True by (subst tick_loop.simps) simp
  next
    case False
    then have "sint n = 0" using 1 by simp
    then show ?thesis by (subst tick_loop.simps) simp
  qed
qed

section \<open>What a node answers\<close>

definition ReprLines :: "string \<Rightarrow> string list" where
  "ReprLines s = filter (\<lambda>l. l \<noteq> '''') (map trim_space (split_on CHR 0x0A (trim_space s)))"

text \<open>The body of a quoted string, up to its closing quote, and the rest.\<close>

fun quoted :: "string \<Rightarrow> (string \<times> string) option" where
  "quoted [] = None"
| "quoted (c # cs) =
     (if c = CHR 0x22 then Some ([], cs)
      else if c = CHR 0x5C then
        (case cs of
           [] \<Rightarrow> None
         | d # ds \<Rightarrow> if d = CHR 0x0A then None else map_option (\<lambda>(b, r). (c # d # b, r)) (quoted ds))
      else map_option (\<lambda>(b, r). (c # b, r)) (quoted cs))"

definition ReprString :: "string \<Rightarrow> string option" where
  "ReprString line =
     (case cut_prefix (trim_space line) [CHR ''('', CHR 0x22] of
        None \<Rightarrow> None
      | Some s \<Rightarrow> (case quoted s of Some (b, r) \<Rightarrow> if r = '' string)'' then Some b else None | None \<Rightarrow> None))"

definition int_types :: "string list" where
  "int_types = [''int'', ''int8'', ''int16'', ''int32'', ''int64'', ''uint'', ''uint8'', ''uint16'', ''uint32'', ''uint64'']"

definition ReprInt :: "string \<Rightarrow> int option" where
  "ReprInt line =
     (case cut_prefix (trim_space line) ''('' of
        None \<Rightarrow> None
      | Some s \<Rightarrow>
          let num = takeWhile (\<lambda>c. c \<noteq> CHR '' '') s;
              typ = drop (length num) s;
              ds = (if num \<noteq> [] \<and> hd num = CHR ''-'' then tl num else num)
          in if ds \<noteq> [] \<and> list_all is_digit ds \<and> typ \<in> set (map (\<lambda>t. '' '' @ t @ '')'') int_types) \<and> snd (parse_int num)
             then Some (fst (parse_int num)) else None)"

definition ReprBool :: "string \<Rightarrow> bool option" where
  "ReprBool line =
     (if trim_space line = ''(true bool)'' then Some True
      else if trim_space line = ''(false bool)'' then Some False else None)"

definition ReprErrored :: "string \<Rightarrow> bool" where
  "ReprErrored s =
     (let lines = ReprLines s
      in lines \<noteq> [] \<and> last lines \<noteq> ''(undefined)'' \<and> str_contains (last lines) ''err'')"

text \<open>The event key of a token and the key of its pools.\<close>

definition PoolToken :: "string \<Rightarrow> string" where
  "PoolToken key =
     (let id = rev (takeWhile (\<lambda>c. c \<noteq> CHR ''.'') (rev key));
          i = length key - length id - 1
      in if CHR ''.'' \<notin> set key \<or> i = 0 \<or> \<not> str_contains key ''/'' then key
         else if id = '''' \<or> \<not> list_all is_digit id then key
         else take i key)"

text \<open>How far a quote sits below what spot promised, in percent.\<close>

definition slippagePct :: "rat \<Rightarrow> rat \<Rightarrow> rat" where
  "slippagePct got ideal =
     (if ideal = 0 then 0
      else let p = (1 - got / ideal) * 100
           in if p < 0 then 0 else if p > 100 then 100 else p)"

text \<open>
  A tick's ratio is the power of 1.0001 it stands for, for negative ticks too; the loop
  squares once per bit. The one tick the code turns into 1 is the least \<^verbatim>\<open>int32\<close>, whose
  negation is itself.
\<close>

theorem TickToRatio_is_power:
  "TickToRatio tick = (if sint tick = - (2 ^ 31) then 1 else (10001 / 10000) powi sint tick)"
proof (cases "sint tick < 0")
  case True
  have range: "- (2 ^ 31) \<le> sint tick" using sint_range_size [of tick] by (simp add: size_word_def)
  show ?thesis
  proof (cases "sint tick = - (2 ^ 31)")
    case True
    then have "sint tick = sint (0x80000000 :: 32 word)" by simp
    then have "tick = 0x80000000" by (rule signed_word_eqI)
    then show ?thesis by (simp add: TickToRatio_def tick_loop.simps Let_def)
  next
    case False
    have neg: "sint (- tick) = - sint tick" using range False True by (simp add: signed_take_bit_int_eq_self sint_word_minus)
    have "TickToRatio tick = inverse ((10001 / 10000) ^ nat (- sint tick))"
      using True neg by (simp add: TickToRatio_def tick_loop_power Let_def)
    also have "\<dots> = inverse (10001 / 10000) ^ nat (- sint tick)" by (rule power_inverse [symmetric])
    finally show ?thesis using True False by (simp add: power_int_def)
  qed
next
  case False
  then show ?thesis by (simp add: TickToRatio_def tick_loop_power Let_def power_int_def)
qed

end
