(* ===== verification/Price_Routes.thy ===== *)
theory Price_Routes
  imports Price_Repr
begin

text \<open>
  The graph of pools and the routes from a token to the anchor (\<^verbatim>\<open>pkg/price/chain.go\<close>):
  which routes \<^verbatim>\<open>Routes\<close> finds, the price of each and their order.
\<close>

section \<open>The code\<close>

definition WUGNOT :: string where "WUGNOT = ''gno.land/r/gnoland/wugnot.wugnot''"

record pool_key =
  pk_token0 :: string
  pk_token1 :: string
  pk_fee :: nat

definition Path :: "pool_key \<Rightarrow> string" where
  "Path k = pk_token0 k @ '':'' @ pk_token1 k @ '':'' @ itoa (int (pk_fee k))"

record dex_pool =
  po_key :: pool_key
  po_sqrt :: string
  po_tick :: int
  po_reserve0 :: int
  po_reserve1 :: int
  po_cardinality :: int

definition Ratio :: "dex_pool \<Rightarrow> rat option" where
  "Ratio p = RatioFromSqrtPriceX96 (po_sqrt p)"

abbreviation token0 :: "dex_pool \<Rightarrow> string" where "token0 p \<equiv> pk_token0 (po_key p)"
abbreviation token1 :: "dex_pool \<Rightarrow> string" where "token1 p \<equiv> pk_token1 (po_key p)"
abbreviation pool_path :: "dex_pool \<Rightarrow> string" where "pool_path p \<equiv> Path (po_key p)"

text \<open>The pools of a token, in the order of the graph.\<close>

definition NewGraph :: "dex_pool list \<Rightarrow> string \<Rightarrow> dex_pool list" where
  "NewGraph pools t =
     concat (map (\<lambda>p. (if token0 p = t then [p] else []) @ (if token1 p = t then [p] else [])) pools)"

definition other_token :: "dex_pool \<Rightarrow> string \<Rightarrow> string" where
  "other_token p cur = (if token0 p = cur then token1 p else token0 p)"

text \<open>The enumeration. The set of pools on the way is given back as it was after each call.\<close>

function walk_routes :: "(string \<Rightarrow> dex_pool list) \<Rightarrow> nat \<Rightarrow> string \<Rightarrow> dex_pool list \<Rightarrow> string set \<Rightarrow> dex_pool list list" where
  "walk_routes g maxHops cur hops seen =
     (if maxHops < length hops then []
      else concat (map (\<lambda>p.
        if Path (po_key p) \<in> seen then []
        else let nxt = other_token p cur; hops2 = hops @ [p]
             in if nxt = WUGNOT then [hops2]
                else if length hops2 < maxHops then walk_routes g maxHops nxt hops2 (insert (pool_path p) seen)
                else []) (g cur)))"
  by pat_completeness auto
termination by (relation "measure (\<lambda>(g, maxHops, cur, hops, seen). maxHops - length hops)") auto

declare walk_routes.simps [simp del]

record route =
  ro_hops :: "dex_pool list"
  ro_usd :: rat
  ro_min_tvl :: rat

text \<open>
  Pricing a route backwards from the anchor: the token reached, its price, and the depth of
  the shallowest pool so far.
\<close>

definition price_hop :: "(string \<Rightarrow> rat) \<Rightarrow> dex_pool \<Rightarrow> string \<times> rat \<times> rat \<Rightarrow> (string \<times> rat \<times> rat) option" where
  "price_hop tvl p st =
     (case st of (cur, px, minTVL) \<Rightarrow> case Ratio p of
        None \<Rightarrow> None
      | Some ratio \<Rightarrow>
          let t = tvl (pool_path p);
              m = (if t > 0 \<and> (minTVL = 0 \<or> t < minTVL) then t else minTVL)
          in if cur = token0 p then Some (token1 p, px / ratio, m)
             else if cur = token1 p then Some (token0 p, px * ratio, m)
             else None)"

fun price_hops :: "(string \<Rightarrow> rat) \<Rightarrow> dex_pool list \<Rightarrow> string \<times> rat \<times> rat \<Rightarrow> (string \<times> rat \<times> rat) option" where
  "price_hops tvl [] st = Some st"
| "price_hops tvl (p # ps) st = (case price_hop tvl p st of None \<Rightarrow> None | Some st \<Rightarrow> price_hops tvl ps st)"

definition price_route :: "(string \<Rightarrow> rat) \<Rightarrow> rat \<Rightarrow> string \<Rightarrow> dex_pool list \<Rightarrow> route option" where
  "price_route tvl anchorUSD token hops =
     (case price_hops tvl (rev hops) (WUGNOT, anchorUSD, 0) of
        None \<Rightarrow> None
      | Some (cur, px, m) \<Rightarrow>
          if cur \<noteq> token then None else Some \<lparr>ro_hops = hops, ro_usd = px, ro_min_tvl = m\<rparr>)"

definition Routes :: "dex_pool list \<Rightarrow> string \<Rightarrow> nat \<Rightarrow> rat \<Rightarrow> (string \<Rightarrow> rat) \<Rightarrow> route list" where
  "Routes pools token maxHops anchorUSD tvl =
     (if token = WUGNOT then []
      else sort_key (\<lambda>r. - ro_min_tvl r)
        (List.map_filter (price_route tvl anchorUSD token) (walk_routes (NewGraph pools) maxHops token [] {})))"

section \<open>Which walks are found\<close>

text \<open>A way from a token to the anchor, which is at its end and nowhere before.\<close>

fun leads :: "string \<Rightarrow> dex_pool list \<Rightarrow> bool" where
  "leads cur [] = False"
| "leads cur [p] = (cur \<in> {token0 p, token1 p} \<and> other_token p cur = WUGNOT)"
| "leads cur (p # q # ps) =
     (cur \<in> {token0 p, token1 p} \<and> other_token p cur \<noteq> WUGNOT \<and> leads (other_token p cur) (q # ps))"

lemma set_NewGraph: "set (NewGraph pools t) = {p \<in> set pools. t \<in> {token0 p, token1 p}}"
  by (auto simp: NewGraph_def split: if_splits)

lemma leads_Cons:
  "leads cur (p # ps) \<longleftrightarrow> cur \<in> {token0 p, token1 p} \<and>
     (if ps = [] then other_token p cur = WUGNOT else other_token p cur \<noteq> WUGNOT \<and> leads (other_token p cur) ps)"
  by (cases ps) auto

definition continues :: "dex_pool list \<Rightarrow> nat \<Rightarrow> string \<Rightarrow> dex_pool list \<Rightarrow> string set \<Rightarrow> dex_pool list \<Rightarrow> bool" where
  "continues pools maxHops cur hops seen way \<longleftrightarrow>
     (\<exists>rest. way = hops @ rest \<and> length way \<le> maxHops \<and> set rest \<subseteq> set pools \<and> leads cur rest \<and>
        distinct (map pool_path rest) \<and> seen \<inter> pool_path ` set rest = {})"

lemma continues_step:
  assumes "length hops < maxHops"
  shows "continues pools maxHops cur hops seen way \<longleftrightarrow>
    (\<exists>p \<in> set (NewGraph pools cur). pool_path p \<notin> seen \<and>
       (if other_token p cur = WUGNOT then way = hops @ [p]
        else length hops + 1 < maxHops \<and>
          continues pools maxHops (other_token p cur) (hops @ [p]) (insert (pool_path p) seen) way))"
    (is "?l \<longleftrightarrow> ?r")
proof
  assume ?l
  then obtain rest where rest: "way = hops @ rest" "length way \<le> maxHops" "set rest \<subseteq> set pools" "leads cur rest"
    "distinct (map pool_path rest)" "seen \<inter> pool_path ` set rest = {}" by (auto simp: continues_def)
  then obtain p ps where p: "rest = p # ps" by (cases rest) auto
  show ?r
  proof (rule bexI [of _ p])
    show "p \<in> set (NewGraph pools cur)" using rest p by (simp add: set_NewGraph leads_Cons)
    show "pool_path p \<notin> seen \<and>
       (if other_token p cur = WUGNOT then way = hops @ [p]
        else length hops + 1 < maxHops \<and>
          continues pools maxHops (other_token p cur) (hops @ [p]) (insert (pool_path p) seen) way)"
    proof (cases "ps = []")
      case False
      then have "other_token p cur \<noteq> WUGNOT" "leads (other_token p cur) ps" using rest(4) p by (simp_all add: leads_Cons)
      moreover have "length hops + 1 < maxHops" using rest(1,2) p False by (cases ps) auto
      moreover have "continues pools maxHops (other_token p cur) (hops @ [p]) (insert (pool_path p) seen) way"
        unfolding continues_def by (rule exI [of _ ps]) (use rest p \<open>leads (other_token p cur) ps\<close> in auto)
      moreover have "pool_path p \<notin> seen" using rest(6) p by auto
      ultimately show ?thesis by simp
    qed (use rest p in \<open>auto simp: leads_Cons\<close>)
  qed
next
  assume ?r
  then obtain p where p: "p \<in> set pools" "cur \<in> {token0 p, token1 p}" "pool_path p \<notin> seen"
    "if other_token p cur = WUGNOT then way = hops @ [p]
     else length hops + 1 < maxHops \<and> continues pools maxHops (other_token p cur) (hops @ [p]) (insert (pool_path p) seen) way"
    by (auto simp: set_NewGraph)
  show ?l
  proof (cases "other_token p cur = WUGNOT")
    case True
    then show ?thesis unfolding continues_def using p assms by (intro exI [of _ "[p]"]) auto
  next
    case False
    then obtain rest where rest: "way = (hops @ [p]) @ rest" "length way \<le> maxHops" "set rest \<subseteq> set pools"
      "leads (other_token p cur) rest" "distinct (map pool_path rest)" "insert (pool_path p) seen \<inter> pool_path ` set rest = {}"
      using p(4) by (auto simp: continues_def)
    then have "rest \<noteq> []" by auto
    then show ?thesis unfolding continues_def using p rest False by (intro exI [of _ "p # rest"]) (auto simp: leads_Cons)
  qed
qed

lemma walk_continues:
  "length hops < maxHops \<Longrightarrow>
    set (walk_routes (NewGraph pools) maxHops cur hops seen) = {way. continues pools maxHops cur hops seen way}"
proof (induction "NewGraph pools" maxHops cur hops seen rule: walk_routes.induct)
  case (1 maxHops cur hops seen)
  have deeper: "set (walk_routes (NewGraph pools) maxHops (other_token p cur) (hops @ [p]) (insert (pool_path p) seen)) =
      {way. continues pools maxHops (other_token p cur) (hops @ [p]) (insert (pool_path p) seen) way}"
    if "p \<in> set (NewGraph pools cur)" "pool_path p \<notin> seen" "other_token p cur \<noteq> WUGNOT" "length hops + 1 < maxHops" for p
    using 1(1) [of p "other_token p cur" "hops @ [p]"] that 1(2) by simp
  have "set (walk_routes (NewGraph pools) maxHops cur hops seen) =
      (\<Union>p \<in> set (NewGraph pools cur). if pool_path p \<in> seen then {} else if other_token p cur = WUGNOT then {hops @ [p]}
        else if length hops + 1 < maxHops
          then set (walk_routes (NewGraph pools) maxHops (other_token p cur) (hops @ [p]) (insert (pool_path p) seen)) else {})"
    using 1(2) by (subst walk_routes.simps) (auto simp: Let_def)
  also have "\<dots> = {way. continues pools maxHops cur hops seen way}"
    unfolding continues_step [OF 1(2)] by (auto simp: deeper split: if_splits)
  finally show ?case .
qed

section \<open>What a route is worth\<close>

text \<open>Base units of the other token for one of the current one.\<close>

definition per_unit :: "dex_pool \<Rightarrow> string \<Rightarrow> rat" where
  "per_unit p cur = (case Ratio p of None \<Rightarrow> 0 | Some r \<Rightarrow> if token0 p = cur then r else 1 / r)"

fun route_value :: "rat \<Rightarrow> string \<Rightarrow> dex_pool list \<Rightarrow> rat" where
  "route_value a cur [] = a"
| "route_value a cur (p # ps) = per_unit p cur * route_value a (other_token p cur) ps"

definition depths :: "(string \<Rightarrow> rat) \<Rightarrow> dex_pool list \<Rightarrow> rat set" where
  "depths tvl hops = {t \<in> (\<lambda>p. tvl (pool_path p)) ` set hops. 0 < t}"

definition shallowest :: "(string \<Rightarrow> rat) \<Rightarrow> dex_pool list \<Rightarrow> rat" where
  "shallowest tvl hops = (if depths tvl hops = {} then 0 else Min (depths tvl hops))"

lemma depths_Cons: "depths tvl (p # ps) = (if 0 < tvl (pool_path p) then {tvl (pool_path p)} else {}) \<union> depths tvl ps"
  by (auto simp: depths_def)

lemma finite_depths [simp]: "finite (depths tvl hops)"
  by (simp add: depths_def)

lemma shallowest_Cons:
  "shallowest tvl (p # ps) =
     (let t = tvl (pool_path p); m = shallowest tvl ps in if t > 0 \<and> (m = 0 \<or> t < m) then t else m)"
proof (cases "depths tvl ps = {}")
  case False
  then have "0 < Min (depths tvl ps)" using Min_in [of "depths tvl ps"] by (auto simp: depths_def)
  moreover define M where "M = Min (depths tvl ps)"
  moreover have "shallowest tvl ps = M" using False by (simp add: shallowest_def M_def)
  moreover have "Min (insert t (depths tvl ps)) = min t M" for t
    unfolding M_def using False by (intro Min_insert) simp_all
  then have "shallowest tvl (p # ps) = (if 0 < tvl (pool_path p) then min (tvl (pool_path p)) M else M)"
    using False M_def by (simp add: shallowest_def depths_Cons del: Min_insert)
  ultimately show ?thesis by (auto simp: Let_def min_def)
qed (auto simp: shallowest_def depths_Cons Let_def)

definition proper :: "dex_pool \<Rightarrow> bool" where
  "proper p \<longleftrightarrow> token0 p \<noteq> token1 p"

definition reaches :: "string \<Rightarrow> dex_pool list \<Rightarrow> bool" where
  "reaches cur hops \<longleftrightarrow> (hops = [] \<and> cur = WUGNOT) \<or> leads cur hops"

lemma reaches_Cons: "reaches cur (p # ps) \<Longrightarrow> cur \<in> {token0 p, token1 p} \<and> reaches (other_token p cur) ps"
  by (auto simp: reaches_def leads_Cons split: if_splits)

lemma price_hops_append:
  "price_hops tvl (ps @ qs) st = (case price_hops tvl ps st of None \<Rightarrow> None | Some st \<Rightarrow> price_hops tvl qs st)"
  by (induction ps arbitrary: st) (auto split: option.splits)

lemma price_hops_value:
  "reaches cur hops \<Longrightarrow> \<forall>p \<in> set hops. proper p \<and> Ratio p \<noteq> None \<Longrightarrow>
    price_hops tvl (rev hops) (WUGNOT, a, 0) = Some (cur, route_value a cur hops, shallowest tvl hops)"
proof (induction hops arbitrary: cur)
  case Nil
  then show ?case by (simp add: reaches_def shallowest_def depths_def)
next
  case (Cons p ps)
  have cur: "cur \<in> {token0 p, token1 p}" "reaches (other_token p cur) ps" using reaches_Cons [OF Cons.prems(1)] by auto
  obtain r where "Ratio p = Some r" "proper p" using Cons.prems(2) by auto
  then have "price_hop tvl p (other_token p cur, route_value a (other_token p cur) ps, shallowest tvl ps) =
      Some (cur, route_value a cur (p # ps), shallowest tvl (p # ps))"
    using cur(1) by (auto simp: price_hop_def other_token_def proper_def per_unit_def shallowest_Cons Let_def)
  then show ?case using Cons.IH [OF cur(2)] Cons.prems(2) by (simp add: price_hops_append)
qed

lemma price_hops_unread: "p \<in> set ps \<Longrightarrow> Ratio p = None \<Longrightarrow> price_hops tvl ps st = None"
  by (induction ps arbitrary: st) (auto simp: price_hop_def split: option.splits prod.splits)

lemma price_route_eq:
  assumes "leads token hops" "\<forall>p \<in> set hops. proper p"
  shows "price_route tvl a token hops =
    (if \<forall>p \<in> set hops. Ratio p \<noteq> None
     then Some \<lparr>ro_hops = hops, ro_usd = route_value a token hops, ro_min_tvl = shallowest tvl hops\<rparr> else None)"
proof (cases "\<forall>p \<in> set hops. Ratio p \<noteq> None")
  case True
  then show ?thesis using price_hops_value [of token hops tvl a] assms by (simp add: price_route_def reaches_def)
next
  case False
  then obtain p where "p \<in> set (rev hops)" "Ratio p = None" by auto
  then show ?thesis using price_hops_unread False by (auto simp: price_route_def)
qed

section \<open>What Routes finds\<close>

definition priced_way :: "dex_pool list \<Rightarrow> nat \<Rightarrow> string \<Rightarrow> dex_pool list \<Rightarrow> bool" where
  "priced_way pools maxHops token way \<longleftrightarrow>
     length way \<le> maxHops \<and> set way \<subseteq> set pools \<and> leads token way \<and> distinct (map pool_path way) \<and>
     list_all (\<lambda>p. Ratio p \<noteq> None) way"

lemma set_map_filter: "set (List.map_filter f xs) = {y. \<exists>x \<in> set xs. f x = Some y}"
  by (auto simp: map_filter_def) force

lemma set_Routes:
  assumes "token \<noteq> WUGNOT" "0 < n" "\<forall>p \<in> set pools. proper p"
  shows "set (Routes pools token n a tvl) =
    {\<lparr>ro_hops = way, ro_usd = route_value a token way, ro_min_tvl = shallowest tvl way\<rparr> | way. priced_way pools n token way}"
proof -
  have ways: "set (walk_routes (NewGraph pools) n token [] {}) = {way. continues pools n token [] {} way}"
    using walk_continues assms(2) by simp
  have "price_route tvl a token way = Some r \<longleftrightarrow> list_all (\<lambda>p. Ratio p \<noteq> None) way \<and>
      r = \<lparr>ro_hops = way, ro_usd = route_value a token way, ro_min_tvl = shallowest tvl way\<rparr>"
    if "continues pools n token [] {} way" for way r
  proof -
    have "leads token way" "\<forall>p \<in> set way. proper p" using that assms(3) by (auto simp: continues_def)
    from price_route_eq [OF this, of tvl a] show ?thesis by (auto simp: list_all_iff)
  qed
  then show ?thesis using assms(1)
    by (auto simp: Routes_def set_map_filter ways priced_way_def continues_def)
qed

text \<open>
  C21. \<^verbatim>\<open>Routes\<close> finds every way from a token to the anchor within its bound that uses no pool
  twice and only pools whose price can be read, nothing else, and prices each as the product
  of the exchange ratios on it, whatever order a pool stores its tokens in. The deepest
  comes first, the depth of a route being that of its shallowest pool of a known depth.
\<close>

theorem Routes_finds_every_way:
  assumes "token \<noteq> WUGNOT" "0 < n" "\<forall>p \<in> set pools. proper p"
  shows "ro_hops ` set (Routes pools token n a tvl) = {way. priced_way pools n token way} \<and>
    (\<forall>r \<in> set (Routes pools token n a tvl).
       ro_usd r = route_value a token (ro_hops r) \<and> ro_min_tvl r = shallowest tvl (ro_hops r)) \<and>
    sorted (map (\<lambda>r. - ro_min_tvl r) (Routes pools token n a tvl))"
proof -
  have "sorted (map (\<lambda>r. - ro_min_tvl r) (Routes pools token n a tvl))"
    by (simp add: Routes_def)
  then show ?thesis using set_Routes [OF assms] by force
qed

text \<open>The tokens a way visits.\<close>

fun visits :: "string \<Rightarrow> dex_pool list \<Rightarrow> string list" where
  "visits cur [] = [cur]"
| "visits cur (p # ps) = cur # visits (other_token p cur) ps"

text \<open>
  The routes are not the simple paths they are meant to be: what a walk does not repeat
  is a pool, not a token. A token with a market against the anchor and two pools, of two fee
  tiers, against any other token is also priced by leaving over one of them and coming back
  over the other, and that detour counts as one more independent route.
\<close>

theorem detours_count_as_routes:
  assumes "p \<in> set pools" "q \<in> set pools" "w \<in> set pools" "\<forall>p \<in> set pools. proper p"
    and "distinct [pool_path p, pool_path q, pool_path w]" "distinct [token, x, WUGNOT]"
    and "{token0 p, token1 p} = {token, x}" "{token0 q, token1 q} = {token, x}" "{token0 w, token1 w} = {token, WUGNOT}"
    and "Ratio p \<noteq> None" "Ratio q \<noteq> None" "Ratio w \<noteq> None"
  shows "\<exists>r \<in> set (Routes pools token 3 a tvl). visits token (ro_hops r) = [token, x, token, WUGNOT]"
proof -
  have hops: "other_token p token = x" "other_token q x = token" "other_token w token = WUGNOT"
    using assms(6-9) by (auto simp: other_token_def doubleton_eq_iff)
  then have "priced_way pools 3 token [p, q, w]"
    using assms by (auto simp: priced_way_def)
  then have "\<lparr>ro_hops = [p, q, w], ro_usd = route_value a token [p, q, w], ro_min_tvl = shallowest tvl [p, q, w]\<rparr>
      \<in> set (Routes pools token 3 a tvl)"
    using set_Routes [of token 3 pools a tvl] assms(4,6) by auto
  then show ?thesis by (rule bexI [rotated]) (simp add: hops)
qed

section \<open>Witnesses\<close>

definition sample_pool :: "string \<Rightarrow> string \<Rightarrow> nat \<Rightarrow> string \<Rightarrow> dex_pool" where
  "sample_pool a b fee s =
     \<lparr>po_key = \<lparr>pk_token0 = a, pk_token1 = b, pk_fee = fee\<rparr>, po_sqrt = s, po_tick = 0, po_reserve0 = 1000, po_reserve1 = 1000,
      po_cardinality = 1\<rparr>"

definition sample_pools :: "dex_pool list" where
  "sample_pools =
     [sample_pool ''r/a.A'' WUGNOT 3000 ''1'', sample_pool ''r/a.A'' ''r/b.B'' 500 ''2'', sample_pool ''r/a.A'' ''r/b.B'' 3000 ''3'']"

lemma sample_ratio: "Ratio (sample_pool a b f [CHR ''1'']) \<noteq> None \<and> Ratio (sample_pool a b f [CHR ''2'']) \<noteq> None \<and>
    Ratio (sample_pool a b f [CHR ''3'']) \<noteq> None"
  by (simp add: Ratio_def sample_pool_def RatioFromSqrtPriceX96_def Let_def trim_space_def trim_by_def is_space_def
      parse_big_def digit_val_def)

lemma sample_proper: "\<forall>p \<in> set sample_pools. proper p"
  by (simp add: sample_pools_def sample_pool_def proper_def WUGNOT_def)

theorem Routes_finds_every_way_witness:
  "[sample_pool ''r/a.A'' WUGNOT 3000 ''1''] \<in> ro_hops ` set (Routes sample_pools ''r/a.A'' 3 1 (\<lambda>_. 1))"
proof -
  have "priced_way sample_pools 3 ''r/a.A'' [sample_pool ''r/a.A'' WUGNOT 3000 ''1'']"
    using sample_ratio by (simp add: priced_way_def sample_pools_def other_token_def) (simp add: sample_pool_def)
  moreover have "''r/a.A'' \<noteq> WUGNOT" by (simp add: WUGNOT_def)
  ultimately show ?thesis using Routes_finds_every_way [of "''r/a.A''" 3 sample_pools] sample_proper by simp
qed

theorem detours_count_as_routes_witness:
  "\<exists>r. r \<in> set (Routes sample_pools ''r/a.A'' 3 1 (\<lambda>_. 1)) \<and>
     visits ''r/a.A'' (ro_hops r) = [''r/a.A'', ''r/b.B'', ''r/a.A'', WUGNOT]"
proof -
  have "distinct [pool_path (sample_pool ''r/a.A'' ''r/b.B'' 500 ''2''), pool_path (sample_pool ''r/a.A'' ''r/b.B'' 3000 ''3''),
      pool_path (sample_pool ''r/a.A'' WUGNOT 3000 ''1'')]"
    by (simp add: sample_pool_def Path_def WUGNOT_def itoa_inject)
  moreover have "distinct [''r/a.A'', ''r/b.B'', WUGNOT]" by (simp add: WUGNOT_def)
  ultimately show ?thesis
    using detours_count_as_routes [of "sample_pool ''r/a.A'' ''r/b.B'' 500 ''2''" sample_pools
      "sample_pool ''r/a.A'' ''r/b.B'' 3000 ''3''" "sample_pool ''r/a.A'' WUGNOT 3000 ''1''" "''r/a.A''" "''r/b.B''" 1 "\<lambda>_. 1"]
      sample_proper sample_ratio
    by (simp add: sample_pools_def) (auto simp: sample_pool_def)
qed

end
