(* ===== verification/Price_Discover.thy ===== *)
theory Price_Discover
  imports Price_Routes
begin

text \<open>
  The discovery of pools (\<^verbatim>\<open>DiscoverPools\<close> of \<^verbatim>\<open>pkg/price/chain.go\<close>): a walk outward from the
  anchor that asks the chain whether candidate pools exist. The chain is a parameter, an
  evaluator of expressions that answers the same all along or, with \<^term>\<open>None\<close>, fails. The
  probes of a layer run at once in the code; they only add to a set that is sorted in the
  end, and are taken one after another here. A walk whose context ends is not modelled.
\<close>

section \<open>The code\<close>

type_synonym eval = "string \<Rightarrow> string option"

definition poolRealm :: string where "poolRealm = ''gno.land/r/gnoswap/pool''"

definition feeTiers :: "nat list" where "feeTiers = [100, 500, 3000, 10000]"

definition dquote :: "string \<Rightarrow> string" where
  "dquote s = [CHR 0x22] @ s @ [CHR 0x22]"

definition pool_call :: "string \<Rightarrow> pool_key \<Rightarrow> string" where
  "pool_call getter k = poolRealm @ ''.'' @ getter @ ''('' @ dquote (Path k) @ '')''"

definition pool_exists :: "eval \<Rightarrow> pool_key \<Rightarrow> bool" where
  "pool_exists eval k =
     (case eval (pool_call ''ExistsPoolPath'' k) of
        None \<Rightarrow> False
      | Some out \<Rightarrow> (case ReprLines out of [] \<Rightarrow> False | l # ls \<Rightarrow> ReprBool l = Some True))"

record discovery =
  dc_found :: "pool_key list"
  dc_probed :: "string set"
  dc_reached :: "string set"
  dc_frontier :: "string list"

definition pair_keys :: "string \<Rightarrow> string \<Rightarrow> pool_key list" where
  "pair_keys a b =
     concat (map (\<lambda>fee. [\<lparr>pk_token0 = a, pk_token1 = b, pk_fee = fee\<rparr>, \<lparr>pk_token0 = b, pk_token1 = a, pk_fee = fee\<rparr>]) feeTiers)"

definition add_candidate :: "pool_key \<Rightarrow> string set \<times> pool_key list \<Rightarrow> string set \<times> pool_key list" where
  "add_candidate k st =
     (case st of (probed, cs) \<Rightarrow> if Path k \<in> probed then (probed, cs) else (insert (Path k) probed, cs @ [k]))"

definition candidates :: "string list \<Rightarrow> string list \<Rightarrow> string set \<Rightarrow> string set \<times> pool_key list" where
  "candidates frontier rest probed =
     fold add_candidate
       (concat (map (\<lambda>a. concat (map (\<lambda>b. if a = b then [] else pair_keys a b) rest)) frontier)) (probed, [])"

definition reach :: "string \<Rightarrow> string set \<times> string list \<Rightarrow> string set \<times> string list" where
  "reach t st = (case st of (reached, nxt) \<Rightarrow> if t \<in> reached then (reached, nxt) else (insert t reached, nxt @ [t]))"

fun layers :: "eval \<Rightarrow> string list \<Rightarrow> nat \<Rightarrow> discovery \<Rightarrow> discovery" where
  "layers eval rest 0 d = d"
| "layers eval rest (Suc n) d =
     (if dc_frontier d = [] then d
      else (case candidates (dc_frontier d) rest (dc_probed d) of (probed, cs) \<Rightarrow>
        if cs = [] then d\<lparr>dc_probed := probed\<rparr>
        else let found = dc_found d @ filter (pool_exists eval) cs;
                 rn = fold reach (concat (map (\<lambda>k. [pk_token0 k, pk_token1 k]) found)) (dc_reached d, [])
             in layers eval rest n
                  \<lparr>dc_found = found, dc_probed = probed, dc_reached = fst rn, dc_frontier = snd rn\<rparr>))"

definition DiscoverPools :: "eval \<Rightarrow> string \<Rightarrow> string list \<Rightarrow> int \<Rightarrow> pool_key list" where
  "DiscoverPools eval seed tokens maxLayers =
     (let n = (if maxLayers \<le> 0 then 3 else nat maxLayers);
          rest = filter (\<lambda>t. t \<noteq> seed) tokens
      in sort_key Path
           (dc_found (layers eval rest n
             \<lparr>dc_found = [], dc_probed = {}, dc_reached = {seed}, dc_frontier = [seed]\<rparr>)))"

section \<open>Distance from the seed\<close>

text \<open>The pools that exist among the tokens asked about, and what they join.\<close>

definition grid :: "string \<Rightarrow> string list \<Rightarrow> pool_key set" where
  "grid seed tokens =
     {k. pk_token0 k \<noteq> pk_token1 k \<and> {pk_token0 k, pk_token1 k} \<subseteq> insert seed (set tokens) \<and> pk_fee k \<in> set feeTiers}"

definition touches :: "pool_key \<Rightarrow> string set \<Rightarrow> bool" where
  "touches k A \<longleftrightarrow> pk_token0 k \<in> A \<or> pk_token1 k \<in> A"

fun area :: "eval \<Rightarrow> string \<Rightarrow> string list \<Rightarrow> nat \<Rightarrow> string set" where
  "area eval seed tokens 0 = {seed}"
| "area eval seed tokens (Suc n) =
     area eval seed tokens n \<union>
     \<Union> ((\<lambda>k. {pk_token0 k, pk_token1 k}) ` {k \<in> grid seed tokens. pool_exists eval k \<and> touches k (area eval seed tokens n)})"

definition near :: "eval \<Rightarrow> string \<Rightarrow> string list \<Rightarrow> nat \<Rightarrow> pool_key set" where
  "near eval seed tokens n = {k \<in> grid seed tokens. touches k (area eval seed tokens n)}"

lemma area_mono: "area eval seed tokens n \<subseteq> area eval seed tokens (Suc n)"
  by auto

lemma area_tokens: "area eval seed tokens n \<subseteq> insert seed (set tokens)"
  by (induction n) (auto simp: grid_def)

text \<open>Paths are unambiguous when no token holds the separator.\<close>

lemma split_path:
  fixes c :: char
  assumes "c \<notin> set a" "c \<notin> set b" "a @ c # s = b @ c # t"
  shows "a = b \<and> s = t"
proof -
  have "split_on c (a @ c # s) = split_on c (b @ c # t)" by (simp add: assms(3))
  then have "a = b" using split_on_append [OF assms(1)] split_on_append [OF assms(2)] by simp
  then show ?thesis using assms(3) by simp
qed

lemma Path_inject:
  assumes "Path k = Path k'" "\<forall>t \<in> {pk_token0 k, pk_token1 k, pk_token0 k', pk_token1 k'}. CHR '':'' \<notin> set t"
  shows "k = k'"
proof -
  have "pk_token0 k @ CHR '':'' # pk_token1 k @ CHR '':'' # itoa (int (pk_fee k)) =
      pk_token0 k' @ CHR '':'' # pk_token1 k' @ CHR '':'' # itoa (int (pk_fee k'))"
    using assms(1) by (simp add: Path_def)
  note s = split_path [OF _ _ this]
  have first: "pk_token0 k = pk_token0 k'"
    "pk_token1 k @ CHR '':'' # itoa (int (pk_fee k)) = pk_token1 k' @ CHR '':'' # itoa (int (pk_fee k'))"
    using s assms(2) by auto
  note t = split_path [OF _ _ first(2)]
  have "pk_token1 k = pk_token1 k'" "itoa (int (pk_fee k)) = itoa (int (pk_fee k'))" using t assms(2) by auto
  then show ?thesis using first(1) by (simp add: itoa_inject)
qed

section \<open>A layer\<close>

lemma candidates_spec:
  "case fold add_candidate ks (probed, cs) of (probed', cs') \<Rightarrow>
     probed' = probed \<union> Path ` set ks \<and> set cs \<subseteq> set cs' \<and> set cs' \<subseteq> set cs \<union> set ks \<and>
     Path ` set cs' = Path ` set cs \<union> (Path ` set ks - probed)"
proof (induction ks arbitrary: probed cs)
  case (Cons k ks)
  show ?case
  proof (cases "Path k \<in> probed")
    case True
    then show ?thesis using Cons.IH [of probed cs] by (auto simp: add_candidate_def)
  next
    case False
    then show ?thesis using Cons.IH [of "insert (Path k) probed" "cs @ [k]"]
      by (auto simp: add_candidate_def split: prod.splits)
  qed
qed simp

lemma fold_reach:
  "fst (fold reach ts st) = fst st \<union> set ts"
  "set (snd (fold reach ts st)) = set (snd st) \<union> (set ts - fst st)"
proof -
  have "fst (fold reach ts st) = fst st \<union> set ts \<and> set (snd (fold reach ts st)) = set (snd st) \<union> (set ts - fst st)"
  proof (induction ts arbitrary: st)
    case (Cons t ts)
    have "fst (reach t st) = insert t (fst st)" "set (snd (reach t st)) = set (snd st) \<union> ({t} - fst st)"
      by (auto simp: reach_def split: prod.splits)
    then show ?case using Cons.IH [of "reach t st"] by auto
  qed simp
  then show "fst (fold reach ts st) = fst st \<union> set ts"
    "set (snd (fold reach ts st)) = set (snd st) \<union> (set ts - fst st)" by blast+
qed

lemma set_pair_keys:
  "k \<in> set (pair_keys a b) \<longleftrightarrow> pk_fee k \<in> set feeTiers \<and>
     (pk_token0 k = a \<and> pk_token1 k = b \<or> pk_token0 k = b \<and> pk_token1 k = a)"
  by (cases k) (auto simp: pair_keys_def)

section \<open>The layers together\<close>

text \<open>The keys asked about in the first \<open>n\<close> layers.\<close>

definition asked :: "eval \<Rightarrow> string \<Rightarrow> string list \<Rightarrow> nat \<Rightarrow> pool_key set" where
  "asked eval seed tokens n = (case n of 0 \<Rightarrow> {} | Suc m \<Rightarrow> near eval seed tokens m)"

definition inside :: "eval \<Rightarrow> string \<Rightarrow> string list \<Rightarrow> nat \<Rightarrow> string set" where
  "inside eval seed tokens n = (case n of 0 \<Rightarrow> {} | Suc m \<Rightarrow> area eval seed tokens m)"

lemma asked_Suc [simp]: "asked eval seed tokens (Suc n) = near eval seed tokens n"
  by (simp add: asked_def)

lemma asked_eq: "asked eval seed tokens n = {k \<in> grid seed tokens. touches k (inside eval seed tokens n)}"
  by (cases n) (auto simp: asked_def inside_def near_def touches_def)

lemma inside_sub: "inside eval seed tokens n \<subseteq> area eval seed tokens n"
  by (cases n) (auto simp: inside_def)

lemma area_Suc:
  "area eval seed tokens (Suc n) = area eval seed tokens n \<union>
     \<Union> ((\<lambda>k. {pk_token0 k, pk_token1 k}) ` {k \<in> near eval seed tokens n. pool_exists eval k})"
  by (auto simp: near_def)

lemma area_stable: "area eval seed tokens (Suc n) = area eval seed tokens n \<Longrightarrow> area eval seed tokens (n + m) = area eval seed tokens n"
proof (induction m)
  case (Suc m)
  then have "area eval seed tokens (Suc (n + m)) = area eval seed tokens (Suc n)" by (simp only: area.simps)
  then show ?case using Suc.prems by simp
qed simp

definition at_layer :: "eval \<Rightarrow> string \<Rightarrow> string list \<Rightarrow> nat \<Rightarrow> discovery \<Rightarrow> bool" where
  "at_layer eval seed tokens i d \<longleftrightarrow>
     set (dc_found d) = {k \<in> asked eval seed tokens i. pool_exists eval k} \<and>
     dc_probed d = Path ` asked eval seed tokens i \<and>
     dc_reached d = area eval seed tokens i \<and>
     set (dc_frontier d) = area eval seed tokens i - inside eval seed tokens i"

text \<open>The keys between the frontier and the other tokens are the ones that become askable.\<close>

lemma new_keys:
  assumes "set frontier = area eval seed tokens i - inside eval seed tokens i"
    and "rest = filter (\<lambda>t. t \<noteq> seed) tokens"
  defines "ks \<equiv> concat (map (\<lambda>a. concat (map (\<lambda>b. if a = b then [] else pair_keys a b) rest)) frontier)"
  shows "asked eval seed tokens i \<union> set ks = near eval seed tokens i" "set ks \<subseteq> near eval seed tokens i"
proof -
  have ks: "k \<in> set ks \<longleftrightarrow> (\<exists>a \<in> set frontier. \<exists>b \<in> set rest. a \<noteq> b \<and> k \<in> set (pair_keys a b))" for k
    by (auto simp: ks_def split: if_splits)
  show sub: "set ks \<subseteq> near eval seed tokens i"
  proof
    fix k assume "k \<in> set ks"
    then obtain a b where ab: "a \<in> area eval seed tokens i" "b \<in> set tokens" "a \<noteq> b" "k \<in> set (pair_keys a b)"
      using assms(1,2) by (auto simp: ks)
    moreover have "a \<in> insert seed (set tokens)" using area_tokens ab(1) by blast
    ultimately show "k \<in> near eval seed tokens i"
      by (auto simp: near_def grid_def touches_def set_pair_keys)
  qed
  have "k \<in> set ks" if "k \<in> near eval seed tokens i" "k \<notin> asked eval seed tokens i" for k
  proof -
    have grid: "k \<in> grid seed tokens" "touches k (area eval seed tokens i)" "\<not> touches k (inside eval seed tokens i)"
      using that by (auto simp: near_def asked_eq)
    then obtain a b where ab: "a \<in> set frontier" "k \<in> set (pair_keys a b)" "a \<noteq> b" "b \<in> insert seed (set tokens)" "b \<notin> inside eval seed tokens i"
      using assms(1) by (auto simp: touches_def grid_def set_pair_keys)
    have "b \<noteq> seed"
    proof (cases i)
      case 0
      then show ?thesis using ab(1,3) assms(1) by auto
    next
      case (Suc j)
      have "seed \<in> area eval seed tokens j" by (induction j) auto
      then show ?thesis using ab(5) Suc by (auto simp: inside_def)
    qed
    then show ?thesis using ab assms(2) by (auto simp: ks)
  qed
  moreover have "asked eval seed tokens i \<subseteq> near eval seed tokens i"
    using inside_sub by (fastforce simp: asked_eq near_def touches_def)
  ultimately show "asked eval seed tokens i \<union> set ks = near eval seed tokens i" using sub by blast
qed

lemma layers_found:
  assumes "\<forall>t \<in> insert seed (set tokens). CHR '':'' \<notin> set t"
    and "rest = filter (\<lambda>t. t \<noteq> seed) tokens" "at_layer eval seed tokens i d"
  shows "set (dc_found (layers eval rest n d)) = {k \<in> asked eval seed tokens (i + n). pool_exists eval k}"
  using assms(3)
proof (induction n arbitrary: i d)
  case 0
  then show ?case by (simp add: at_layer_def)
next
  case (Suc n)
  let ?area = "area eval seed tokens" and ?near = "near eval seed tokens" and ?asked = "asked eval seed tokens"
  have d: "set (dc_found d) = {k \<in> ?asked i. pool_exists eval k}" "dc_probed d = Path ` ?asked i" "dc_reached d = ?area i"
    "set (dc_frontier d) = ?area i - inside eval seed tokens i" using Suc.prems by (auto simp: at_layer_def)
  have stays: "{k \<in> ?asked (i + Suc n). pool_exists eval k} = {k \<in> ?asked i. pool_exists eval k}" if "?near i = ?asked i"
  proof -
    have "i \<noteq> 0 \<or> ?near 0 = {}" using that by (cases i) (auto simp: asked_def)
    have "?area (Suc i) \<subseteq> ?area i"
    proof (cases i)
      case 0
      then show ?thesis unfolding area_Suc using that by (simp add: asked_def)
    next
      case (Suc j)
      then show ?thesis unfolding area_Suc that using area_Suc [of eval seed tokens j] by auto
    qed
    then have "?area (i + n) = ?area i" by (intro area_stable) auto
    then show ?thesis using that by (simp add: near_def)
  qed
  show ?case
  proof (cases "dc_frontier d = []")
    case True
    then have "?area i = inside eval seed tokens i" using d(4) inside_sub [of eval seed tokens i] by auto
    then have "?near i = ?asked i" by (simp add: near_def asked_eq)
    then show ?thesis using True stays d(1) by simp
  next
    case False
    define ks where "ks = concat (map (\<lambda>a. concat (map (\<lambda>b. if a = b then [] else pair_keys a b) rest)) (dc_frontier d))"
    obtain probed cs where c: "candidates (dc_frontier d) rest (dc_probed d) = (probed, cs)" by (metis surj_pair)
    have keys: "?asked i \<union> set ks = ?near i" "set ks \<subseteq> ?near i"
      using new_keys [OF d(4) assms(2)] by (simp_all add: ks_def)
    have spec: "probed = Path ` ?asked i \<union> Path ` set ks" "set cs \<subseteq> set ks" "Path ` set cs = Path ` set ks - Path ` ?asked i"
      using candidates_spec [where ks = ks and probed = "dc_probed d" and cs = "[]"] c d(2) by (auto simp: candidates_def ks_def)
    have inj: "Path k = Path k' \<Longrightarrow> k = k'" if "k \<in> ?near i" "k' \<in> ?near i" for k k'
      by (rule Path_inject) (use that assms(1) in \<open>auto simp: near_def grid_def\<close>)
    have cs: "set cs = ?near i - ?asked i"
    proof (intro equalityI subsetI)
      fix k assume k: "k \<in> set cs"
      then have "Path k \<notin> Path ` ?asked i" using spec(3) by blast
      then show "k \<in> ?near i - ?asked i" using k spec(2) keys(2) by auto
    next
      fix k assume k: "k \<in> ?near i - ?asked i"
      then have "Path k \<in> Path ` set ks - Path ` ?asked i" using keys inj by blast
      then obtain k' where "k' \<in> set cs" "Path k = Path k'" using spec(3) by blast
      then show "k \<in> set cs" using inj [of k k'] k spec(2) keys(2) by auto
    qed
    have probed: "probed = Path ` ?near i" unfolding spec(1) keys(1) [symmetric] by blast
    show ?thesis
    proof (cases "cs = []")
      case True
      then have "?near i = ?asked i" using cs keys(1) by auto
      then show ?thesis using True False c stays d(1) by simp
    next
      case more: False
      define found where "found = dc_found d @ filter (pool_exists eval) cs"
      define rn where "rn = fold reach (concat (map (\<lambda>k. [pk_token0 k, pk_token1 k]) found)) (dc_reached d, [])"
      have found: "set found = {k \<in> ?near i. pool_exists eval k}" using d(1) cs keys(1) by (auto simp: found_def)
      have "fst rn = ?area i \<union> (\<Union>k \<in> set found. {pk_token0 k, pk_token1 k})"
        "set (snd rn) = (\<Union>k \<in> set found. {pk_token0 k, pk_token1 k}) - ?area i"
        using fold_reach [of "concat (map (\<lambda>k. [pk_token0 k, pk_token1 k]) found)" "(dc_reached d, [])"] d(3)
        by (simp_all add: rn_def)
      then have "fst rn = ?area (Suc i)" "set (snd rn) = ?area (Suc i) - inside eval seed tokens (Suc i)"
        unfolding area_Suc found inside_def by auto
      then have "at_layer eval seed tokens (Suc i)
          \<lparr>dc_found = found, dc_probed = probed, dc_reached = fst rn, dc_frontier = snd rn\<rparr>"
        using found probed by (simp add: at_layer_def del: area.simps)
      from Suc.IH [OF this] show ?thesis using False more c by (simp add: found_def rn_def Let_def)
    qed
  qed
qed

lemma DiscoverPools_found:
  assumes "\<forall>t \<in> insert seed (set tokens). CHR '':'' \<notin> set t" "0 < maxLayers"
  shows "set (DiscoverPools eval seed tokens maxLayers) =
      {k \<in> grid seed tokens. pool_exists eval k \<and> touches k (area eval seed tokens (nat maxLayers - 1))}"
proof -
  let ?d = "\<lparr>dc_found = [], dc_probed = {}, dc_reached = {seed}, dc_frontier = [seed]\<rparr> :: discovery"
  have "at_layer eval seed tokens 0 ?d" by (simp add: at_layer_def asked_def inside_def)
  from layers_found [OF assms(1) refl this, of "nat maxLayers"]
  have "set (dc_found (layers eval (filter (\<lambda>t. t \<noteq> seed) tokens) (nat maxLayers) ?d)) =
      {k \<in> near eval seed tokens (nat maxLayers - 1). pool_exists eval k}"
    using assms(2) by (cases "nat maxLayers") simp_all
  then show ?thesis using assms(2) by (auto simp: DiscoverPools_def Let_def near_def)
qed

text \<open>
  The walk finds exactly the pools within its reach: those that exist between two of the
  given tokens at a fee of the table and of which one token is fewer pools away from the seed
  than there are layers, in the order of their paths.
\<close>

theorem DiscoverPools_finds_the_near_pools:
  assumes "\<forall>t \<in> insert seed (set tokens). CHR '':'' \<notin> set t" "0 < maxLayers"
  shows "set (DiscoverPools eval seed tokens maxLayers) =
      {k \<in> grid seed tokens. pool_exists eval k \<and> touches k (area eval seed tokens (nat maxLayers - 1))} \<and>
    sorted (map Path (DiscoverPools eval seed tokens maxLayers))"
  using DiscoverPools_found [OF assms] by (simp add: DiscoverPools_def Let_def)

lemma seed_in_area: "seed \<in> area eval seed tokens n"
  by (induction n) auto

lemma area_le: "m \<le> n \<Longrightarrow> area eval seed tokens m \<subseteq> area eval seed tokens n"
  by (rule lift_Suc_mono_le [of "area eval seed tokens"]) (use area_mono in blast)+

lemma way_is_near:
  assumes "leads cur way" "\<forall>p \<in> set way. po_key p \<in> grid WUGNOT tokens \<and> pool_exists eval (po_key p)"
  shows "cur \<in> area eval WUGNOT tokens (length way) \<and>
    (\<forall>p \<in> set way. touches (po_key p) (area eval WUGNOT tokens (length way - 1)))"
  using assms
proof (induction way arbitrary: cur)
  case (Cons p ps)
  let ?nxt = "other_token p cur"
  have cur: "cur \<in> {token0 p, token1 p}" using Cons.prems(1) by (simp add: leads_Cons)
  have ends: "{token0 p, token1 p} \<subseteq> {cur, ?nxt} \<and> ?nxt \<in> {token0 p, token1 p}" using cur by (auto simp: other_token_def)
  have nxt: "?nxt \<in> area eval WUGNOT tokens (length ps) \<and>
      (\<forall>q \<in> set ps. touches (po_key q) (area eval WUGNOT tokens (length ps - 1)))"
  proof (cases "ps = []")
    case True
    then show ?thesis using Cons.prems(1) seed_in_area by (simp add: leads_Cons)
  next
    case False
    then show ?thesis using Cons.IH [of ?nxt] Cons.prems by (simp add: leads_Cons)
  qed
  have p: "touches (po_key p) (area eval WUGNOT tokens (length ps))"
    using conjunct1 [OF nxt] conjunct2 [OF ends] unfolding touches_def by (elim insertE emptyE) simp_all
  then have "cur \<in> area eval WUGNOT tokens (Suc (length ps))"
    unfolding area_Suc using Cons.prems(2) cur by (auto simp: near_def)
  moreover have "touches (po_key q) (area eval WUGNOT tokens (length ps))" if "q \<in> set ps" for q
    using nxt that area_le [of "length ps - 1" "length ps" eval WUGNOT tokens] by (auto simp: touches_def)
  ultimately show ?case using p by (simp del: area.simps)
qed simp

text \<open>
  C22. Discovery and routing fit together: every pool of every way to the anchor that is within
  the bound of the routes is one that a discovery of as many layers finds, so a token loses
  no route to the walk asking about fewer pools than there are pairs.
\<close>

theorem discovery_misses_no_route:
  assumes "\<forall>t \<in> insert WUGNOT (set tokens). CHR '':'' \<notin> set t" "0 < n"
    and "leads token way" "length way \<le> nat n"
    and "\<forall>p \<in> set way. po_key p \<in> grid WUGNOT tokens \<and> pool_exists eval (po_key p)"
  shows "po_key ` set way \<subseteq> set (DiscoverPools eval WUGNOT tokens n)"
proof
  fix k assume "k \<in> po_key ` set way"
  then obtain p where p: "p \<in> set way" "k = po_key p" by blast
  have "touches k (area eval WUGNOT tokens (length way - 1))" using way_is_near [OF assms(3,5)] p by blast
  moreover have "area eval WUGNOT tokens (length way - 1) \<subseteq> area eval WUGNOT tokens (nat n - 1)"
    using assms(4) by (intro area_le) simp
  ultimately have "touches k (area eval WUGNOT tokens (nat n - 1))" by (auto simp: touches_def)
  then show "k \<in> set (DiscoverPools eval WUGNOT tokens n)"
    using DiscoverPools_found [OF assms(1,2)] assms(5) p by auto
qed

section \<open>Witnesses\<close>

definition sample_key :: pool_key where
  "sample_key = \<lparr>pk_token0 = ''r/a.A'', pk_token1 = WUGNOT, pk_fee = 3000\<rparr>"

definition sample_eval :: eval where
  "sample_eval s = (if s = pool_call ''ExistsPoolPath'' sample_key then Some ''(true bool)'' else None)"

lemma sample_exists: "pool_exists sample_eval sample_key"
proof -
  have "ReprLines ''(true bool)'' = [''(true bool)'']" "ReprBool ''(true bool)'' = Some True" by code_simp+
  then show ?thesis by (simp add: pool_exists_def sample_eval_def del: One_nat_def)
qed

lemma sample_tokens: "\<forall>t \<in> insert WUGNOT (set [''r/a.A'']). CHR '':'' \<notin> set t"
  by (simp add: WUGNOT_def)

lemma sample_grid: "sample_key \<in> grid WUGNOT [''r/a.A'']"
  by (simp add: grid_def sample_key_def feeTiers_def) (simp add: WUGNOT_def)

theorem DiscoverPools_finds_the_near_pools_witness:
  "sample_key \<in> set (DiscoverPools sample_eval WUGNOT [''r/a.A''] 3)"
  using DiscoverPools_finds_the_near_pools [OF sample_tokens, of 3 sample_eval] sample_exists sample_grid
    seed_in_area [of WUGNOT sample_eval "[''r/a.A'']" "nat 3 - 1"]
  by (simp add: touches_def) (simp add: sample_key_def)

theorem discovery_misses_no_route_witness:
  "po_key ` set [sample_pool ''r/a.A'' WUGNOT 3000 ''1''] \<subseteq> set (DiscoverPools sample_eval WUGNOT [''r/a.A''] 3)"
proof (rule discovery_misses_no_route [OF sample_tokens])
  have "po_key (sample_pool ''r/a.A'' WUGNOT 3000 ''1'') = sample_key" by (simp add: sample_pool_def sample_key_def)
  then show "\<forall>p \<in> set [sample_pool ''r/a.A'' WUGNOT 3000 ''1''].
      po_key p \<in> grid WUGNOT [''r/a.A''] \<and> pool_exists sample_eval (po_key p)"
    using sample_grid sample_exists by simp
  show "leads ''r/a.A'' [sample_pool ''r/a.A'' WUGNOT 3000 ''1'']"
    by (simp add: sample_pool_def other_token_def)
qed simp_all

end
