(* ===== verification/Price_Build.thy ===== *)
theory Price_Build
  imports Price_Discover "HOL-Library.Product_Lexorder"
begin

text \<open>
  The priced picture (\<^verbatim>\<open>pkg/price/price.go\<close>, \<^verbatim>\<open>build.go\<close> and the readers of \<^verbatim>\<open>chain.go\<close>):
  tiers, warnings, one quote per asset, and the pass over the chain that produces them.

  Sums of dollars and percentages are rational numbers, where the code rounds to floating
  point. Of a warning the model keeps the code and the severity, not the sentences; of a
  price per base unit the number, not its rendering. The sentences of a tier, the times of a
  read and the name of the network are left out of quotes and results.
\<close>

section \<open>Tiers\<close>

datatype tier = TierMarket | TierIndicative | TierThin | TierDecorative | TierNone

fun Label :: "tier \<Rightarrow> string" where
  "Label TierMarket = ''market''"
| "Label TierIndicative = ''indicative''"
| "Label TierThin = ''thin''"
| "Label TierDecorative = ''decorative''"
| "Label TierNone = ''no market''"

record depth_point =
  dp_notional :: int
  dp_slippage :: rat
  dp_quoted :: bool

definition rung :: "depth_point list \<Rightarrow> int \<Rightarrow> rat \<times> bool" where
  "rung depth n =
     (case find (\<lambda>d. dp_notional d = n) depth of
        None \<Rightarrow> (0, False)
      | Some d \<Rightarrow> (dp_slippage d, dp_quoted d))"

definition passes :: "depth_point list \<Rightarrow> int \<Rightarrow> rat \<Rightarrow> bool" where
  "passes depth n bound \<longleftrightarrow> snd (rung depth n) \<and> fst (rung depth n) < bound"

definition TierFor :: "depth_point list \<Rightarrow> tier" where
  "TierFor depth =
     (if depth = [] then TierNone
      else if passes depth 10000 2 then TierMarket
      else if passes depth 1000 5 then TierIndicative
      else if passes depth 100 5 then TierThin
      else TierDecorative)"

section \<open>Warnings\<close>

datatype severity = SeverityInfo | SeverityCaution | SeverityAlarm

record warning =
  wn_code :: string
  wn_severity :: severity

definition warnThinPool :: "rat \<Rightarrow> warning" where
  "warnThinPool worst = \<lparr>wn_code = ''thin-pool'', wn_severity = (if worst \<ge> 15 then SeverityAlarm else SeverityCaution)\<rparr>"

definition warnRouteDisagreement :: "rat \<Rightarrow> warning" where
  "warnRouteDisagreement spread =
     (let sev = SeverityInfo;
          sev = (if spread \<ge> 2 then SeverityCaution else sev);
          sev = (if spread \<ge> 10 then SeverityAlarm else sev)
      in \<lparr>wn_code = ''route-disagreement'', wn_severity = sev\<rparr>)"

definition thinPoolFloorPct :: rat where "thinPoolFloorPct = 1"
definition routeSpreadFloorPct :: rat where "routeSpreadFloorPct = 1 / 10"

definition constant_warning :: "string \<Rightarrow> severity \<Rightarrow> warning" where
  "constant_warning code sev = \<lparr>wn_code = code, wn_severity = sev\<rparr>"

record warning_inputs =
  wi_tvl :: rat
  wi_slippage :: rat
  wi_notional :: int
  wi_route_count :: nat
  wi_spread :: rat
  wi_decimals_known :: bool
  wi_verified :: bool
  wi_anchor_spread :: rat
  wi_fdv :: bool

text \<open>The warnings in the order they are added, and then by severity.\<close>

definition added_warnings :: "warning_inputs \<Rightarrow> warning list" where
  "added_warnings i =
     (if wi_tvl i > 0 \<and> wi_slippage i \<ge> thinPoolFloorPct then [warnThinPool (wi_slippage i)] else []) @
     (if wi_route_count i > 1 \<and> wi_spread i \<ge> routeSpreadFloorPct then [warnRouteDisagreement (wi_spread i)] else []) @
     (if \<not> wi_decimals_known i then [constant_warning ''decimals-unknown'' SeverityCaution] else []) @
     (if \<not> wi_verified i then [constant_warning ''unverified-token'' SeverityCaution] else []) @
     (if wi_anchor_spread i \<ge> 1 then [constant_warning ''anchor-disagreement'' SeverityCaution] else []) @
     (if wi_fdv i then [constant_warning ''fdv-not-marketcap'' SeverityCaution] else []) @
     [constant_warning ''twap-is-spot'' SeverityAlarm, constant_warning ''single-venue'' SeverityCaution,
      constant_warning ''no-onchain-oracle'' SeverityCaution, constant_warning ''spot-not-average'' SeverityInfo]"

definition buildWarnings :: "tier \<Rightarrow> warning_inputs \<Rightarrow> warning list" where
  "buildWarnings t i =
     (if t = TierNone then []
      else let ws = added_warnings i; of_sev = (\<lambda>s. filter (\<lambda>w. wn_severity w = s) ws)
           in of_sev SeverityAlarm @ of_sev SeverityCaution @ of_sev SeverityInfo)"

section \<open>Quotes\<close>

record anchor =
  an_usd :: rat
  an_spread :: rat

record asset =
  as_token :: string
  as_symbol :: string
  as_pkg :: string
  as_fungible :: bool
  as_decimals :: int
  as_decimals_known :: bool
  as_verified :: bool

record hop =
  hp_path :: string
  hp_from :: string
  hp_to :: string
  hp_fee :: nat
  hp_tvl :: rat

record quote =
  qt_token :: string
  qt_symbol :: string
  qt_pkg :: string
  qt_tier :: tier
  qt_usd :: "rat option"
  qt_usd_token :: rat
  qt_decimals :: int
  qt_decimals_known :: bool
  qt_route :: "hop list"
  qt_route_count :: nat
  qt_spread :: rat
  qt_depth :: "depth_point list"
  qt_fdv :: rat
  qt_chain_supply :: int
  qt_tvl :: rat
  qt_pools :: nat
  qt_warnings :: "warning list"

record price_inputs =
  pi_assets :: "asset list"
  pi_pools :: "dex_pool list"
  pi_anchor :: "anchor option"
  pi_supply :: "string \<Rightarrow> int option"
  pi_depth :: "string \<Rightarrow> depth_point list option"

definition ugnotDecimals :: int where "ugnotDecimals = 6"

definition ugnotUSDRat :: "rat \<Rightarrow> rat" where
  "ugnotUSDRat usd = usd / 10 ^ nat ugnotDecimals"

text \<open>One pool of a pass over the table of prices.\<close>

definition usd_pool :: "dex_pool \<Rightarrow> (string \<Rightarrow> rat option) \<Rightarrow> (string \<Rightarrow> rat option)" where
  "usd_pool p usd =
     (case Ratio p of
        None \<Rightarrow> usd
      | Some ratio \<Rightarrow>
          let usd = (case usd (token0 p) of
                       Some v \<Rightarrow> if usd (token1 p) = None then usd(token1 p \<mapsto> v / ratio) else usd
                     | None \<Rightarrow> usd)
          in (case usd (token1 p) of
                Some v \<Rightarrow> if usd (token0 p) = None then usd(token0 p \<mapsto> v * ratio) else usd
              | None \<Rightarrow> usd))"

definition usd_table :: "dex_pool list \<Rightarrow> rat \<Rightarrow> string \<Rightarrow> rat option" where
  "usd_table pools anchorBase = (fold usd_pool pools ^^ 3) [WUGNOT \<mapsto> anchorBase]"

definition side_value :: "(string \<Rightarrow> rat option) \<Rightarrow> string \<Rightarrow> int \<Rightarrow> rat" where
  "side_value usd t reserve = (case usd t of Some v \<Rightarrow> of_int reserve * v | None \<Rightarrow> 0)"

definition tvl_table :: "dex_pool list \<Rightarrow> (string \<Rightarrow> rat option) \<Rightarrow> string \<Rightarrow> rat" where
  "tvl_table pools usd =
     fold (\<lambda>p tvl. tvl(pool_path p := side_value usd (token0 p) (po_reserve0 p) + side_value usd (token1 p) (po_reserve1 p)))
       pools (\<lambda>_. 0)"

definition route_hop :: "(string \<Rightarrow> rat) \<Rightarrow> dex_pool \<Rightarrow> hop" where
  "route_hop tvl p =
     \<lparr>hp_path = pool_path p, hp_from = token0 p, hp_to = token1 p, hp_fee = pk_fee (po_key p), hp_tvl = tvl (pool_path p)\<rparr>"

definition routeSpread :: "route list \<Rightarrow> rat" where
  "routeSpread routes =
     (case routes of
        [] \<Rightarrow> 0
      | r # rs \<Rightarrow>
          if rs = [] then 0
          else let lo = fold (\<lambda>r lo. if ro_usd r < lo then ro_usd r else lo) routes (ro_usd r);
                   hi = fold (\<lambda>r hi. if ro_usd r > hi then ro_usd r else hi) routes (ro_usd r)
               in if lo = 0 then 0 else (hi - lo) / lo * 100)"

definition worstRung :: "hop list \<Rightarrow> depth_point list \<Rightarrow> rat \<times> rat \<times> int" where
  "worstRung route depth =
     (let tvl = fold (\<lambda>h tvl. if hp_tvl h > 0 \<and> (tvl = 0 \<or> hp_tvl h < tvl) then hp_tvl h else tvl) route 0
      in case find (\<lambda>d. \<not> dp_quoted d \<or> dp_slippage d \<ge> 1) depth of
           Some d \<Rightarrow> (tvl, dp_slippage d, dp_notional d)
         | None \<Rightarrow>
             if depth \<noteq> [] \<and> dp_slippage (last depth) > 0 then (tvl, dp_slippage (last depth), dp_notional (last depth))
             else (tvl, 0, 0))"

text \<open>The part of a quote that the routes decide.\<close>

record pricing =
  pr_tier :: tier
  pr_usd :: "rat option"
  pr_route :: "hop list"
  pr_count :: nat
  pr_spread :: rat
  pr_depth :: "depth_point list"

definition price_asset ::
  "price_inputs \<Rightarrow> rat \<Rightarrow> (string \<Rightarrow> rat) \<Rightarrow> string \<Rightarrow> pricing" where
  "price_asset i anchorBase tvl pk =
     (let none = \<lparr>pr_tier = TierNone, pr_usd = None, pr_route = [], pr_count = 0, pr_spread = 0, pr_depth = []\<rparr>
      in if pk = WUGNOT then none\<lparr>pr_usd := Some anchorBase, pr_tier := TierMarket\<rparr>
         else (case Routes (pi_pools i) pk 3 anchorBase tvl of
                 [] \<Rightarrow> none
               | best # others \<Rightarrow>
                   let depth = (case pi_depth i pk of Some d \<Rightarrow> d | None \<Rightarrow> [])
                   in \<lparr>pr_tier = TierFor depth, pr_usd = Some (ro_usd best), pr_route = map (route_hop tvl) (ro_hops best),
                       pr_count = length (best # others), pr_spread = routeSpread (best # others), pr_depth = depth\<rparr>))"

definition token_pools :: "dex_pool list \<Rightarrow> (string \<Rightarrow> rat) \<Rightarrow> string \<Rightarrow> rat list" where
  "token_pools pools tvl pk =
     filter (\<lambda>t. t > 0) (map (\<lambda>p. tvl (pool_path p)) (filter (\<lambda>p. token0 p = pk \<or> token1 p = pk) pools))"

definition build_quote :: "price_inputs \<Rightarrow> anchor \<Rightarrow> rat \<Rightarrow> (string \<Rightarrow> rat) \<Rightarrow> asset \<Rightarrow> quote" where
  "build_quote i an anchorBase tvl a =
     (let pk = PoolToken (as_token a);
          p = price_asset i anchorBase tvl pk;
          decimals = (if pk = WUGNOT then ugnotDecimals else if as_decimals a \<le> 0 then 6 else as_decimals a);
          known = (pk = WUGNOT \<or> as_decimals_known a);
          supply = (case (pr_usd p, pi_supply i pk) of
                      (Some usd, Some c) \<Rightarrow> if as_fungible a \<and> c > 0 then Some c else None
                    | _ \<Rightarrow> None);
          fdv = (case (pr_usd p, supply) of (Some usd, Some c) \<Rightarrow> of_int c * usd | _ \<Rightarrow> 0);
          tps = token_pools (pi_pools i) tvl pk;
          worst = worstRung (pr_route p) (pr_depth p)
      in \<lparr>qt_token = as_token a, qt_symbol = as_symbol a, qt_pkg = as_pkg a, qt_tier = pr_tier p, qt_usd = pr_usd p,
          qt_usd_token = (case pr_usd p of Some usd \<Rightarrow> usd * 10 ^ nat decimals | None \<Rightarrow> 0),
          qt_decimals = decimals, qt_decimals_known = known, qt_route = pr_route p, qt_route_count = pr_count p,
          qt_spread = pr_spread p, qt_depth = pr_depth p, qt_fdv = fdv,
          qt_chain_supply = (case supply of Some c \<Rightarrow> c | None \<Rightarrow> 0), qt_tvl = sum_list tps, qt_pools = length tps,
          qt_warnings = buildWarnings (pr_tier p)
            \<lparr>wi_tvl = fst worst, wi_slippage = fst (snd worst), wi_notional = snd (snd worst), wi_route_count = pr_count p,
             wi_spread = pr_spread p, wi_decimals_known = known, wi_verified = as_verified a,
             wi_anchor_spread = an_spread an, wi_fdv = (fdv > 0)\<rparr>\<rparr>)"

record price_result =
  rs_anchor :: "anchor option"
  rs_quotes :: "quote list"
  rs_pool_count :: nat
  rs_priced_count :: nat
  rs_asset_count :: nat
  rs_unavailable :: bool
  rs_partial_reads :: nat
  rs_supply_failed :: nat
  rs_twap :: bool

definition quote_key :: "quote \<Rightarrow> bool \<times> rat \<times> string" where
  "quote_key q = (qt_tier q = TierNone, - qt_fdv q, qt_symbol q)"

definition Build :: "price_inputs \<Rightarrow> price_result" where
  "Build i =
     (let res = \<lparr>rs_anchor = pi_anchor i, rs_quotes = [], rs_pool_count = length (pi_pools i), rs_priced_count = 0,
           rs_asset_count = length (pi_assets i), rs_unavailable = False, rs_partial_reads = 0, rs_supply_failed = 0, rs_twap = False\<rparr>
      in case pi_anchor i of
           None \<Rightarrow> res
         | Some an \<Rightarrow>
             if an_usd an \<le> 0 then res
             else let anchorBase = ugnotUSDRat (an_usd an);
                      tvl = tvl_table (pi_pools i) (usd_table (pi_pools i) anchorBase);
                      quotes = map (build_quote i an anchorBase tvl) (pi_assets i)
                  in res\<lparr>rs_priced_count := length (filter (\<lambda>q. qt_usd q \<noteq> None) quotes),
                         rs_quotes := sort_key quote_key quotes\<rparr>)"

section \<open>Reading the chain\<close>

fun uint16_groups :: "nat \<Rightarrow> string \<Rightarrow> string list" where
  "uint16_groups 0 s = []"
| "uint16_groups (Suc n) [] = []"
| "uint16_groups (Suc n) (c # cs) =
     (let ds = takeWhile is_digit cs; rest = drop (length ds) cs
      in if c = CHR ''('' \<and> ds \<noteq> [] \<and> has_prefix rest '' uint16)'' then ds # uint16_groups n (drop 8 rest)
         else uint16_groups n cs)"

definition cardinalityFromSlot0 :: "string \<Rightarrow> int" where
  "cardinalityFromSlot0 s =
     (let fields = uint16_groups (length s) s
      in if length fields < 3 then 0
         else let v = parse_int (fields ! (length fields - 2)) in if snd v then fst v else 0)"

definition first_int :: "string \<Rightarrow> int option" where
  "first_int s = (case ReprLines s of [] \<Rightarrow> None | l # ls \<Rightarrow> ReprInt l)"

definition LoadPool :: "eval \<Rightarrow> pool_key \<Rightarrow> dex_pool option" where
  "LoadPool eval k =
     (case eval (pool_call ''GetSlot0SqrtPriceX96'' k) of
        None \<Rightarrow> None
      | Some out \<Rightarrow>
          if ReprErrored out then None
          else (case ReprLines out of
                  [] \<Rightarrow> None
                | l # ls \<Rightarrow>
                    (case ReprString l of
                       None \<Rightarrow> None
                     | Some sq \<Rightarrow>
                         if sq = '''' then None
                         else let tick = Option.bind (eval (pool_call ''GetSlot0Tick'' k)) first_int;
                                  balances = (case eval (pool_call ''GetBalances'' k) of None \<Rightarrow> [] | Some b \<Rightarrow> ReprLines b);
                                  balance = (\<lambda>n. if length balances \<ge> 2
                                    then (case ReprInt (balances ! n) of Some v \<Rightarrow> v | None \<Rightarrow> 0) else 0);
                                  card = (case eval (pool_call ''GetSlot0'' k) of None \<Rightarrow> 0 | Some s \<Rightarrow> cardinalityFromSlot0 s)
                              in Some \<lparr>po_key = k, po_sqrt = sq,
                                  po_tick = (case tick of Some v \<Rightarrow> signed_take_bit 31 v | None \<Rightarrow> 0),
                                  po_reserve0 = balance 0, po_reserve1 = balance 1, po_cardinality = card\<rparr>)))"

definition routerRealm :: string where "routerRealm = ''gno.land/r/gnoswap/router''"

definition swap_call :: "string \<Rightarrow> string \<Rightarrow> nat \<Rightarrow> int \<Rightarrow> string" where
  "swap_call tin tout fee amountIn =
     routerRealm @ ''.DrySwapRoute('' @ dquote tin @ '','' @ dquote tout @ '','' @ dquote (itoa amountIn) @ '','' @
     dquote ''EXACT_IN'' @ '','' @ dquote (tin @ '':'' @ tout @ '':'' @ itoa (int fee)) @ '','' @ dquote ''100'' @ '','' @
     dquote ''1'' @ '')''"

definition QuoteOut :: "eval \<Rightarrow> string \<Rightarrow> string \<Rightarrow> nat \<Rightarrow> int \<Rightarrow> int option" where
  "QuoteOut eval tin tout fee amountIn =
     (case eval (swap_call tin tout fee amountIn) of
        None \<Rightarrow> None
      | Some resp \<Rightarrow>
          if ReprErrored resp \<or> length (ReprLines resp) < 2 then None
          else (case ReprString (ReprLines resp ! 1) of
                  None \<Rightarrow> None
                | Some s \<Rightarrow> let v = parse_int s in if snd v \<and> fst v > 0 then Some (fst v) else None))"

definition depthLadder :: "int list" where "depthLadder = [10, 100, 1000, 10000]"

definition measure_rung :: "eval \<Rightarrow> dex_pool \<Rightarrow> string \<Rightarrow> rat \<Rightarrow> rat \<Rightarrow> int \<Rightarrow> depth_point option" where
  "measure_rung eval p token usd spot n =
     (let ugnot = \<lfloor>of_int n / usd * 1000000\<rfloor>
      in if ugnot \<le> 0 then None
         else (case QuoteOut eval WUGNOT token (pk_fee (po_key p)) ugnot of
                 None \<Rightarrow> Some \<lparr>dp_notional = n, dp_slippage = 100, dp_quoted = False\<rparr>
               | Some got \<Rightarrow>
                   Some \<lparr>dp_notional = n, dp_slippage = slippagePct (of_int got) (of_int ugnot * spot), dp_quoted = True\<rparr>))"

definition MeasureDepth :: "eval \<Rightarrow> dex_pool \<Rightarrow> string \<Rightarrow> rat \<Rightarrow> depth_point list" where
  "MeasureDepth eval p token usd =
     (if usd \<le> 0 then []
      else (case Ratio p of
              None \<Rightarrow> []
            | Some ratio \<Rightarrow>
                if token0 p = WUGNOT \<and> token1 p = token
                then List.map_filter (measure_rung eval p token usd ratio) depthLadder
                else if token1 p = WUGNOT \<and> token0 p = token
                then List.map_filter (measure_rung eval p token usd (inverse ratio)) depthLadder
                else []))"

definition FetchTotalSupply :: "eval \<Rightarrow> string \<Rightarrow> string \<Rightarrow> int option" where
  "FetchTotalSupply eval pkgPath symbol =
     (if pkgPath = '''' then None
      else let exprs = (pkgPath @ ''.TotalSupply()'') #
                 (if symbol \<noteq> '''' then [pkgPath @ ''.TotalSupply('' @ dquote symbol @ '')''] else []);
               answer = (\<lambda>e. case eval e of
                  None \<Rightarrow> None
                | Some out \<Rightarrow> if ReprErrored out then None
                    else (case first_int out of Some v \<Rightarrow> if v > 0 then Some v else None | None \<Rightarrow> None))
           in (case List.map_filter answer exprs of [] \<Rightarrow> None | v # vs \<Rightarrow> Some v))"

text \<open>The supplies, read before the ladders, with the number of reads that failed.\<close>

definition supply_step ::
  "eval \<Rightarrow> string set \<Rightarrow> asset \<Rightarrow> (string \<Rightarrow> int option) \<times> nat \<Rightarrow> (string \<Rightarrow> int option) \<times> nat" where
  "supply_step eval inPool a st =
     (case st of (supply, failed) \<Rightarrow>
        let pk = PoolToken (as_token a)
        in if \<not> as_fungible a \<or> pk \<notin> inPool \<or> pk = WUGNOT \<or> supply pk \<noteq> None then (supply, failed)
           else (case FetchTotalSupply eval (as_pkg a) (as_symbol a) of
                   Some v \<Rightarrow> (supply(pk \<mapsto> v), failed)
                 | None \<Rightarrow> (supply, failed + 1)))"

definition depth_step ::
  "eval \<Rightarrow> rat \<Rightarrow> dex_pool \<times> string \<Rightarrow> (string \<Rightarrow> depth_point list option) \<Rightarrow> (string \<Rightarrow> depth_point list option)" where
  "depth_step eval usd pt depth =
     (case pt of (p, t) \<Rightarrow>
        if t = WUGNOT \<or> depth t \<noteq> None then depth
        else if MeasureDepth eval p t usd \<noteq> [] then depth(t \<mapsto> MeasureDepth eval p t usd) else depth)"

definition pool_sides :: "dex_pool list \<Rightarrow> (dex_pool \<times> string) list" where
  "pool_sides pools = concat (map (\<lambda>p. [(p, token0 p), (p, token1 p)]) pools)"

definition depth_table :: "eval \<Rightarrow> anchor option \<Rightarrow> dex_pool list \<Rightarrow> string \<Rightarrow> depth_point list option" where
  "depth_table eval an pools =
     (case an of None \<Rightarrow> Map.empty | Some an \<Rightarrow> fold (depth_step eval (an_usd an)) (pool_sides pools) Map.empty)"

definition Refresh :: "eval \<Rightarrow> anchor option \<Rightarrow> asset list \<Rightarrow> pool_key list \<Rightarrow> price_result" where
  "Refresh eval an assets keys =
     (let pools = List.map_filter (LoadPool eval) keys;
          failed = length (filter (\<lambda>k. LoadPool eval k = None) keys)
      in if keys \<noteq> [] \<and> pools = []
         then \<lparr>rs_anchor = an, rs_quotes = [], rs_pool_count = 0, rs_priced_count = 0, rs_asset_count = length assets,
               rs_unavailable = True, rs_partial_reads = 0, rs_supply_failed = 0, rs_twap = False\<rparr>
         else let inPool = set (map token0 pools) \<union> set (map token1 pools);
                  sf = fold (supply_step eval inPool) assets (Map.empty, 0);
                  res = Build \<lparr>pi_assets = assets, pi_pools = pools, pi_anchor = an, pi_supply = fst sf,
                               pi_depth = depth_table eval an pools\<rparr>
              in res\<lparr>rs_partial_reads := failed, rs_supply_failed := snd sf,
                     rs_twap := list_ex (\<lambda>p. po_cardinality p > 1) pools\<rparr>)"

end
