(* ===== verification/Price_Quotes.thy ===== *)
theory Price_Quotes
  imports Price_Build "HOL-Library.Multiset"
begin

text \<open>
  What the priced picture promises: which assets have a price and which price it is, where
  the ladder behind a tier was measured, and what a reader is told of a token that is priced
  over another one.
\<close>

section \<open>The best route\<close>

lemma Routes_empty:
  assumes "pk \<noteq> WUGNOT" "\<forall>p \<in> set pools. proper p"
  shows "Routes pools pk 3 a tvl = [] \<longleftrightarrow> (\<nexists>way. priced_way pools 3 pk way)"
proof -
  have "Routes pools pk 3 a tvl = [] \<longleftrightarrow> set (Routes pools pk 3 a tvl) = {}" by simp
  then show ?thesis using set_Routes [of pk 3 pools a tvl] assms by auto
qed

lemma Routes_best:
  assumes "pk \<noteq> WUGNOT" "\<forall>p \<in> set pools. proper p" "Routes pools pk 3 a tvl = best # others"
  shows "priced_way pools 3 pk (ro_hops best) \<and> ro_usd best = route_value a pk (ro_hops best) \<and>
    (\<forall>way. priced_way pools 3 pk way \<longrightarrow> shallowest tvl way \<le> shallowest tvl (ro_hops best))"
proof -
  have routes: "set (Routes pools pk 3 a tvl) =
      {\<lparr>ro_hops = way, ro_usd = route_value a pk way, ro_min_tvl = shallowest tvl way\<rparr> | way. priced_way pools 3 pk way}"
    using set_Routes [of pk 3 pools a tvl] assms(1,2) by simp
  have "best \<in> set (Routes pools pk 3 a tvl)" using assms(3) by simp
  then obtain way where best: "best = \<lparr>ro_hops = way, ro_usd = route_value a pk way, ro_min_tvl = shallowest tvl way\<rparr>"
    "priced_way pools 3 pk way" unfolding routes by blast
  have "sorted (map (\<lambda>r. - ro_min_tvl r) (Routes pools pk 3 a tvl))" by (simp add: Routes_def)
  then have deepest: "ro_min_tvl r \<le> ro_min_tvl best" if "r \<in> set (Routes pools pk 3 a tvl)" for r
    using that assms(3) by auto
  have "shallowest tvl w \<le> shallowest tvl way" if "priced_way pools 3 pk w" for w
    using deepest [of "\<lparr>ro_hops = w, ro_usd = route_value a pk w, ro_min_tvl = shallowest tvl w\<rparr>"] routes that best(1) by auto
  then show ?thesis using best by simp
qed

lemma price_asset_cases:
  assumes "pk \<noteq> WUGNOT" "\<forall>p \<in> set (pi_pools i). proper p"
  obtains (unpriced) "\<nexists>way. priced_way (pi_pools i) 3 pk way" "pr_usd (price_asset i a tvl pk) = None"
      "pr_tier (price_asset i a tvl pk) = TierNone" "pr_route (price_asset i a tvl pk) = []"
    | (priced) way where "priced_way (pi_pools i) 3 pk way" "pr_usd (price_asset i a tvl pk) = Some (route_value a pk way)"
      "\<forall>w. priced_way (pi_pools i) 3 pk w \<longrightarrow> shallowest tvl w \<le> shallowest tvl way"
      "pr_route (price_asset i a tvl pk) = map (route_hop tvl) way"
      "pr_depth (price_asset i a tvl pk) = (case pi_depth i pk of Some d \<Rightarrow> d | None \<Rightarrow> [])"
      "pr_tier (price_asset i a tvl pk) = TierFor (case pi_depth i pk of Some d \<Rightarrow> d | None \<Rightarrow> [])"
proof (cases "Routes (pi_pools i) pk 3 a tvl")
  case Nil
  then show thesis using unpriced Routes_empty [OF assms] assms(1) by (simp add: price_asset_def Let_def)
next
  case (Cons best others)
  note best = Routes_best [OF assms Cons]
  show thesis
    by (rule priced [of "ro_hops best"]) (use best Cons assms(1) in \<open>simp_all add: price_asset_def Let_def\<close>)
qed

section \<open>Build\<close>

lemma Build_quotes:
  assumes "pi_anchor i = Some an" "0 < an_usd an"
  defines "a \<equiv> ugnotUSDRat (an_usd an)"
  defines "tvl \<equiv> tvl_table (pi_pools i) (usd_table (pi_pools i) a)"
  shows "mset (rs_quotes (Build i)) = image_mset (build_quote i an a tvl) (mset (pi_assets i))"
    "sorted (map quote_key (rs_quotes (Build i)))"
    "rs_priced_count (Build i) = length (filter (\<lambda>q. qt_usd q \<noteq> None) (rs_quotes (Build i)))"
proof -
  have q: "rs_quotes (Build i) = sort_key quote_key (map (build_quote i an a tvl) (pi_assets i))"
    using assms by (simp add: Build_def Let_def)
  then show "mset (rs_quotes (Build i)) = image_mset (build_quote i an a tvl) (mset (pi_assets i))"
    "sorted (map quote_key (rs_quotes (Build i)))" by simp_all
  have "mset (filter P (sort_key f xs)) = mset (filter P xs)" for P and f :: "quote \<Rightarrow> bool \<times> rat \<times> string" and xs
    by simp
  then have "length (filter P (sort_key f xs)) = length (filter P xs)" for P and f :: "quote \<Rightarrow> bool \<times> rat \<times> string" and xs
    by (metis mset_eq_length)
  then show "rs_priced_count (Build i) = length (filter (\<lambda>q. qt_usd q \<noteq> None) (rs_quotes (Build i)))"
    using assms q by (simp add: Build_def Let_def)
qed

lemma build_quote_simps [simp]:
  "qt_token (build_quote i an a tvl x) = as_token x"
  "qt_usd (build_quote i an a tvl x) = pr_usd (price_asset i a tvl (PoolToken (as_token x)))"
  "qt_tier (build_quote i an a tvl x) = pr_tier (price_asset i a tvl (PoolToken (as_token x)))"
  "qt_route (build_quote i an a tvl x) = pr_route (price_asset i a tvl (PoolToken (as_token x)))"
  "qt_depth (build_quote i an a tvl x) = pr_depth (price_asset i a tvl (PoolToken (as_token x)))"
  by (simp_all add: build_quote_def Let_def)

lemma quote_warned: "(qt_warnings (build_quote i an a tvl x) = []) = (qt_tier (build_quote i an a tvl x) = TierNone)"
  by (simp add: build_quote_def Let_def buildWarnings_def added_warnings_def constant_warning_def)

text \<open>The ways a token can be priced over.\<close>

definition ways :: "price_inputs \<Rightarrow> string \<Rightarrow> dex_pool list set" where
  "ways i token = {way. priced_way (pi_pools i) 3 (PoolToken token) way}"

text \<open>What a quote is to say of a token when a base unit of the anchor is worth \<open>a\<close>.\<close>

definition priced_rightly :: "price_inputs \<Rightarrow> rat \<Rightarrow> quote \<Rightarrow> bool" where
  "priced_rightly i a q \<longleftrightarrow>
     (if PoolToken (qt_token q) = WUGNOT then qt_usd q = Some a \<and> qt_route q = []
      else case qt_usd q of
        None \<Rightarrow> ways i (qt_token q) = {} \<and> qt_route q = []
      | Some usd \<Rightarrow> \<exists>way \<in> ways i (qt_token q). usd = route_value a (PoolToken (qt_token q)) way \<and>
          map hp_path (qt_route q) = map pool_path way \<and>
          (let tvl = tvl_table (pi_pools i) (usd_table (pi_pools i) a)
           in \<forall>w \<in> ways i (qt_token q). shallowest tvl w \<le> shallowest tvl way))"

lemma build_quote_priced_rightly:
  assumes "\<forall>p \<in> set (pi_pools i). proper p"
  shows "priced_rightly i a (build_quote i an a (tvl_table (pi_pools i) (usd_table (pi_pools i) a)) x)"
proof (cases "PoolToken (as_token x) = WUGNOT")
  case True
  then show ?thesis by (simp add: priced_rightly_def price_asset_def Let_def)
next
  case False
  from price_asset_cases [OF False assms, of a "tvl_table (pi_pools i) (usd_table (pi_pools i) a)"] show ?thesis
  proof cases
    case 1
    then show ?thesis using False by (simp add: priced_rightly_def ways_def)
  next
    case (2 way)
    then show ?thesis using False
      by (auto simp: priced_rightly_def ways_def Let_def route_hop_def comp_def intro!: exI [of _ way])
  qed
qed

text \<open>
  C23. The picture is empty when there is no anchor, or none with a positive value in
  dollars. Otherwise it has exactly one quote for each asset, and every asset's quote gives it
  the price it ought to have, provided no pool trades a token against itself: the anchor
  has the anchor's value; any other token has a price exactly when some way of at most three
  readable pools leads from it to the anchor, and the price is then the value over a way whose
  shallowest pool is at least as deep as that of every other way, which is the route shown.
\<close>

theorem Build_prices_over_the_deepest_way:
  assumes "\<forall>p \<in> set (pi_pools i). proper p"
  shows "case pi_anchor i of
      None \<Rightarrow> rs_quotes (Build i) = []
    | Some an \<Rightarrow>
        if an_usd an \<le> 0 then rs_quotes (Build i) = []
        else image_mset qt_token (mset (rs_quotes (Build i))) = image_mset as_token (mset (pi_assets i)) \<and>
          (\<forall>q \<in> set (rs_quotes (Build i)). priced_rightly i (ugnotUSDRat (an_usd an)) q)"
proof (cases "\<exists>an. pi_anchor i = Some an \<and> 0 < an_usd an")
  case True
  then obtain an where an: "pi_anchor i = Some an" "0 < an_usd an" by blast
  let ?a = "ugnotUSDRat (an_usd an)"
  let ?quote = "build_quote i an ?a (tvl_table (pi_pools i) (usd_table (pi_pools i) ?a))"
  have quotes: "mset (rs_quotes (Build i)) = image_mset ?quote (mset (pi_assets i))"
    using Build_quotes(1) [OF an] .
  then have "set (rs_quotes (Build i)) = ?quote ` set (pi_assets i)"
    by (metis set_image_mset set_mset_mset)
  then have "\<forall>q \<in> set (rs_quotes (Build i)). priced_rightly i ?a q"
    using build_quote_priced_rightly [OF assms] by auto
  moreover have "image_mset qt_token (mset (rs_quotes (Build i))) = image_mset as_token (mset (pi_assets i))"
    unfolding quotes by (simp add: image_mset.compositionality comp_def)
  ultimately show ?thesis using an by simp
next
  case False
  then show ?thesis by (auto simp: Build_def Let_def not_less split: option.split)
qed

text \<open>
  The list is in the order a reader is to trust it: quotes with a market before those
  without, then by the value of the supply, and every quote of the assets is in it.
\<close>

theorem Build_orders_the_quotes:
  assumes "pi_anchor i = Some an" "0 < an_usd an"
  shows "image_mset qt_token (mset (rs_quotes (Build i))) = image_mset as_token (mset (pi_assets i)) \<and>
    sorted (map quote_key (rs_quotes (Build i))) \<and>
    rs_priced_count (Build i) = length (filter (\<lambda>q. qt_usd q \<noteq> None) (rs_quotes (Build i)))"
  using Build_quotes [OF assms] by (simp add: image_mset.compositionality comp_def)

section \<open>The ladder behind a tier\<close>

definition first_ladder :: "depth_point list list \<Rightarrow> depth_point list option" where
  "first_ladder ls = find (\<lambda>l. l \<noteq> []) ls"

lemma depth_step_at:
  "t \<noteq> WUGNOT \<Longrightarrow> depth_step eval usd (p, t') depth t =
     (if t' = t \<and> depth t = None \<and> MeasureDepth eval p t usd \<noteq> [] then Some (MeasureDepth eval p t usd) else depth t)"
  by (simp add: depth_step_def)

lemma depth_steps:
  "t \<noteq> WUGNOT \<Longrightarrow> fold (depth_step eval usd) sides depth t =
     (case depth t of
        Some l \<Rightarrow> Some l
      | None \<Rightarrow> first_ladder (map (\<lambda>pt. MeasureDepth eval (fst pt) t usd) (filter (\<lambda>pt. snd pt = t) sides)))"
proof (induction sides arbitrary: depth)
  case (Cons pt sides)
  obtain p t' where pt: "pt = (p, t')" by (metis surj_pair)
  show ?case using Cons.IH [of "depth_step eval usd pt depth"] Cons.prems
    by (simp add: pt depth_step_at first_ladder_def split: option.split)
qed (simp add: first_ladder_def split: option.split)

lemma MeasureDepth_side: "t \<notin> {token0 p, token1 p} \<Longrightarrow> MeasureDepth eval p t usd = []"
  by (auto simp: MeasureDepth_def split: option.splits)

lemma sides_ladder:
  "first_ladder (map (\<lambda>pt. MeasureDepth eval (fst pt) t usd) (filter (\<lambda>pt. snd pt = t) (pool_sides pools))) =
     first_ladder (map (\<lambda>p. MeasureDepth eval p t usd) pools)"
proof (induction pools)
  case (Cons p pools)
  have "pool_sides (p # pools) = [(p, token0 p), (p, token1 p)] @ pool_sides pools" by (simp add: pool_sides_def)
  then show ?case using Cons MeasureDepth_side [of t p eval usd]
    by (cases "MeasureDepth eval p t usd = []") (auto simp: first_ladder_def)
qed (simp add: pool_sides_def first_ladder_def)

lemma depth_table_eq:
  "t \<noteq> WUGNOT \<Longrightarrow> depth_table eval (Some an) pools t = first_ladder (map (\<lambda>p. MeasureDepth eval p t (an_usd an)) pools)"
  by (simp add: depth_table_def depth_steps sides_ladder)

definition loaded :: "eval \<Rightarrow> pool_key list \<Rightarrow> dex_pool list" where
  "loaded eval keys = List.map_filter (LoadPool eval) keys"

lemma Refresh_quotes:
  assumes "loaded eval keys \<noteq> []"
  shows "\<exists>s. rs_quotes (Refresh eval an assets keys) = rs_quotes (Build \<lparr>pi_assets = assets, pi_pools = loaded eval keys,
    pi_anchor = an, pi_supply = s, pi_depth = depth_table eval an (loaded eval keys)\<rparr>)"
  using assms by (auto simp: Refresh_def loaded_def Let_def)

lemma LoadPool_key: "LoadPool eval k = Some p \<Longrightarrow> po_key p = k"
  by (auto simp: LoadPool_def Let_def split: option.splits list.splits if_splits)

lemma loaded_proper: "\<forall>k \<in> set keys. pk_token0 k \<noteq> pk_token1 k \<Longrightarrow> \<forall>p \<in> set (loaded eval keys). proper p"
  by (auto simp: loaded_def set_map_filter proper_def dest: LoadPool_key)

lemma Refresh_prices_routed:
  assumes "q \<in> set (rs_quotes (Refresh eval (Some an) assets keys))" "loaded eval keys \<noteq> []" "0 < an_usd an"
    and "\<forall>k \<in> set keys. pk_token0 k \<noteq> pk_token1 k" "PoolToken (qt_token q) \<noteq> WUGNOT"
    and "priced_way (loaded eval keys) 3 (PoolToken (qt_token q)) way"
  shows "qt_usd q \<noteq> None"
proof -
  let ?a = "ugnotUSDRat (an_usd an)"
  obtain s where quotes: "rs_quotes (Refresh eval (Some an) assets keys) = rs_quotes (Build \<lparr>pi_assets = assets,
      pi_pools = loaded eval keys, pi_anchor = Some an, pi_supply = s, pi_depth = depth_table eval (Some an) (loaded eval keys)\<rparr>)"
    using Refresh_quotes [OF assms(2)] by blast
  let ?i = "\<lparr>pi_assets = assets, pi_pools = loaded eval keys, pi_anchor = Some an, pi_supply = s,
    pi_depth = depth_table eval (Some an) (loaded eval keys)\<rparr>"
  let ?tvl = "tvl_table (loaded eval keys) (usd_table (loaded eval keys) ?a)"
  have "q \<in># mset (rs_quotes (Build ?i))" using assms(1) quotes by simp
  then obtain x where x: "q = build_quote ?i an ?a ?tvl x" using Build_quotes(1) [of ?i an] assms(3) by auto
  then have pk: "PoolToken (as_token x) \<noteq> WUGNOT" using assms(5) by simp
  have "\<forall>p \<in> set (pi_pools ?i). proper p" using loaded_proper [OF assms(4)] by simp
  from price_asset_cases [OF pk this, of ?a ?tvl] show ?thesis
  proof cases
    case 1
    then show ?thesis using assms(6) x by auto
  next
    case (2 w)
    then show ?thesis using x by simp
  qed
qed

text \<open>
  A tier is not that of the route that gives the price. Whatever way a token is priced
  over, the ladder its tier is read from is the one of the first pool in the order of the
  keys that joins the token with the anchor and can be measured, be it the shallowest of the
  token's pools; and no ladder at all when no pool joins the two directly.
\<close>

theorem tier_is_of_the_first_direct_pool:
  assumes "loaded eval keys \<noteq> []" "0 < an_usd an" "\<forall>k \<in> set keys. pk_token0 k \<noteq> pk_token1 k"
    and "q \<in> set (rs_quotes (Refresh eval (Some an) assets keys))" "PoolToken (qt_token q) \<noteq> WUGNOT" "qt_usd q \<noteq> None"
  shows "qt_depth q = (case first_ladder (map (\<lambda>p. MeasureDepth eval p (PoolToken (qt_token q)) (an_usd an)) (loaded eval keys)) of
       Some l \<Rightarrow> l | None \<Rightarrow> []) \<and>
    qt_tier q = TierFor (qt_depth q)"
proof -
  let ?a = "ugnotUSDRat (an_usd an)"
  obtain s where quotes: "rs_quotes (Refresh eval (Some an) assets keys) = rs_quotes (Build \<lparr>pi_assets = assets,
      pi_pools = loaded eval keys, pi_anchor = Some an, pi_supply = s, pi_depth = depth_table eval (Some an) (loaded eval keys)\<rparr>)"
    using Refresh_quotes [OF assms(1)] by blast
  let ?i = "\<lparr>pi_assets = assets, pi_pools = loaded eval keys, pi_anchor = Some an, pi_supply = s,
    pi_depth = depth_table eval (Some an) (loaded eval keys)\<rparr>"
  let ?tvl = "tvl_table (loaded eval keys) (usd_table (loaded eval keys) ?a)"
  have "q \<in># mset (rs_quotes (Build ?i))" using assms(4) quotes by simp
  then obtain x where x: "q = build_quote ?i an ?a ?tvl x" using Build_quotes(1) [of ?i an] assms(2) by auto
  then have pk: "PoolToken (as_token x) \<noteq> WUGNOT" using assms(5) by simp
  have "\<forall>p \<in> set (pi_pools ?i). proper p" using loaded_proper [OF assms(3)] by simp
  from price_asset_cases [OF pk this, of ?a ?tvl] show ?thesis
  proof cases
    case 1
    then show ?thesis using assms(6) x by simp
  next
    case (2 way)
    then show ?thesis using x depth_table_eq [OF pk, of eval an "loaded eval keys"] by simp
  qed
qed

text \<open>
  A token that reaches the anchor over another token only is priced, and counted as
  priced, while its quote says that it has no market, for the reason that no pool routes it to
  the anchor, and carries none of the warnings that every price is to carry.
\<close>

theorem indirect_token_is_said_to_have_no_market:
  assumes "0 < an_usd an" "\<forall>k \<in> set keys. pk_token0 k \<noteq> pk_token1 k" "x \<in> set assets"
    and "PoolToken (as_token x) \<noteq> WUGNOT" "priced_way (loaded eval keys) 3 (PoolToken (as_token x)) way"
    and "\<forall>p \<in> set (loaded eval keys). {token0 p, token1 p} \<noteq> {PoolToken (as_token x), WUGNOT}"
  shows "\<exists>q \<in> set (rs_quotes (Refresh eval (Some an) assets keys)). qt_token q = as_token x \<and>
    qt_usd q \<noteq> None \<and> qt_route q \<noteq> [] \<and> qt_tier q = TierNone \<and> qt_warnings q = []"
proof -
  let ?a = "ugnotUSDRat (an_usd an)" and ?pk = "PoolToken (as_token x)"
  have "way \<noteq> []" "set way \<subseteq> set (loaded eval keys)" using assms(5) by (auto simp: priced_way_def)
  then have "loaded eval keys \<noteq> []" by auto
  then obtain s where quotes: "rs_quotes (Refresh eval (Some an) assets keys) = rs_quotes (Build \<lparr>pi_assets = assets,
      pi_pools = loaded eval keys, pi_anchor = Some an, pi_supply = s, pi_depth = depth_table eval (Some an) (loaded eval keys)\<rparr>)"
    using Refresh_quotes by blast
  let ?i = "\<lparr>pi_assets = assets, pi_pools = loaded eval keys, pi_anchor = Some an, pi_supply = s,
    pi_depth = depth_table eval (Some an) (loaded eval keys)\<rparr>"
  let ?tvl = "tvl_table (loaded eval keys) (usd_table (loaded eval keys) ?a)"
  let ?q = "build_quote ?i an ?a ?tvl x"
  have "?q \<in># mset (rs_quotes (Build ?i))" using Build_quotes(1) [of ?i an] assms(1,3) by simp
  then have mem: "?q \<in> set (rs_quotes (Refresh eval (Some an) assets keys))" using quotes by simp
  have "MeasureDepth eval p ?pk (an_usd an) = []" if "p \<in> set (loaded eval keys)" for p
    using assms(6) that by (auto simp: MeasureDepth_def split: option.splits)
  then have none: "depth_table eval (Some an) (loaded eval keys) ?pk = None"
    unfolding depth_table_eq [OF assms(4)] first_ladder_def by (simp add: find_None_iff)
  have "\<forall>p \<in> set (pi_pools ?i). proper p" using loaded_proper [OF assms(2)] by simp
  from price_asset_cases [OF assms(4) this, of ?a ?tvl]
  have "qt_usd ?q \<noteq> None \<and> qt_route ?q \<noteq> [] \<and> qt_tier ?q = TierNone"
  proof cases
    case 1
    then show ?thesis using assms(5) by auto
  next
    case (2 w)
    then have "w \<noteq> []" by (auto simp: priced_way_def)
    then show ?thesis using 2 none by (simp add: TierFor_def)
  qed
  then show ?thesis using mem quote_warned [of ?i an ?a ?tvl x] by (intro bexI [OF _ mem]) simp
qed

section \<open>Witnesses\<close>

text \<open>A chain that gives one answer to every read, and an asset without decimals.\<close>

definition one_answer :: eval where
  "one_answer e = Some ([CHR ''('', CHR 0x22, CHR ''1'', CHR 0x22] @ '' string)'')"

definition sample_asset :: asset where
  "sample_asset = \<lparr>as_token = ''r/a.A'', as_symbol = ''A'', as_pkg = '''', as_fungible = True, as_decimals = 0,
     as_decimals_known = False, as_verified = False\<rparr>"

definition sample_anchor :: anchor where
  "sample_anchor = \<lparr>an_usd = 1 / 10, an_spread = 0\<rparr>"

definition token_key :: "string \<Rightarrow> string \<Rightarrow> pool_key" where
  "token_key a b = \<lparr>pk_token0 = a, pk_token1 = b, pk_fee = 500\<rparr>"

definition one_pool :: "string \<Rightarrow> string \<Rightarrow> dex_pool" where
  "one_pool a b = \<lparr>po_key = token_key a b, po_sqrt = ''1'', po_tick = 0, po_reserve0 = 0, po_reserve1 = 0, po_cardinality = 0\<rparr>"

lemma one_answer_reads:
  "ReprLines ([CHR ''('', CHR 0x22, CHR ''1'', CHR 0x22] @ '' string)'') = [[CHR ''('', CHR 0x22, CHR ''1'', CHR 0x22] @ '' string)'']"
  "ReprString ([CHR ''('', CHR 0x22, CHR ''1'', CHR 0x22] @ '' string)'') = Some ''1''"
  "ReprInt ([CHR ''('', CHR 0x22, CHR ''1'', CHR 0x22] @ '' string)'') = None"
  "\<not> ReprErrored ([CHR ''('', CHR 0x22, CHR ''1'', CHR 0x22] @ '' string)'')"
  "cardinalityFromSlot0 ([CHR ''('', CHR 0x22, CHR ''1'', CHR 0x22] @ '' string)'') = 0"
  by code_simp+

lemma one_answer_loads: "loaded one_answer (map (\<lambda>(a, b). token_key a b) ts) = map (\<lambda>(a, b). one_pool a b) ts"
proof -
  have "LoadPool one_answer (token_key a b) = Some (one_pool a b)" for a b
    unfolding LoadPool_def one_answer_def option.case Let_def first_int_def one_answer_reads
    by (simp add: one_answer_reads one_pool_def first_int_def del: append.simps)
  then show ?thesis by (induction ts) (auto simp: loaded_def map_filter_def)
qed

lemma one_pool_ratio: "Ratio (one_pool a b) \<noteq> None"
  by (simp add: Ratio_def one_pool_def RatioFromSqrtPriceX96_def Let_def trim_space_def trim_by_def is_space_def
      parse_big_def digit_val_def)

lemma sample_token [simp]: "PoolToken ''r/a.A'' = ''r/a.A''" "as_token sample_asset = ''r/a.A''"
  by (simp_all add: sample_asset_def PoolToken_def is_digit_def Let_def)

definition sample_inputs :: price_inputs where
  "sample_inputs = \<lparr>pi_assets = [sample_asset], pi_pools = [one_pool ''r/a.A'' WUGNOT], pi_anchor = Some sample_anchor,
     pi_supply = Map.empty, pi_depth = Map.empty\<rparr>"

lemma sample_usd: "0 < an_usd sample_anchor"
  by (simp add: sample_anchor_def)

lemma sample_way: "priced_way [one_pool ''r/a.A'' WUGNOT] 3 ''r/a.A'' [one_pool ''r/a.A'' WUGNOT]"
  using one_pool_ratio by (simp add: priced_way_def other_token_def) (simp add: one_pool_def token_key_def)

theorem Build_prices_over_the_deepest_way_witness:
  "\<exists>q \<in> set (rs_quotes (Build sample_inputs)). qt_token q = ''r/a.A'' \<and> qt_usd q \<noteq> None"
proof -
  have proper: "\<forall>p \<in> set (pi_pools sample_inputs). proper p"
    by (simp add: sample_inputs_def proper_def one_pool_def token_key_def WUGNOT_def)
  have an: "pi_anchor sample_inputs = Some sample_anchor" "\<not> an_usd sample_anchor \<le> 0"
    using sample_usd by (simp_all add: sample_inputs_def)
  note all = Build_prices_over_the_deepest_way [OF proper, unfolded an option.case if_not_P [OF an(2)]]
  have "image_mset qt_token (mset (rs_quotes (Build sample_inputs))) = {#''r/a.A''#}"
    using all by (simp add: sample_inputs_def)
  then have "''r/a.A'' \<in># image_mset qt_token (mset (rs_quotes (Build sample_inputs)))" by simp
  then obtain q where q: "q \<in> set (rs_quotes (Build sample_inputs))" "qt_token q = ''r/a.A''" by auto
  have "ways sample_inputs ''r/a.A'' \<noteq> {}" using sample_way by (auto simp: ways_def sample_inputs_def)
  moreover have "''r/a.A'' \<noteq> WUGNOT" by (simp add: WUGNOT_def)
  ultimately have "qt_usd q \<noteq> None"
    using all q by (auto simp: priced_rightly_def split: option.splits)
  then show ?thesis using q by blast
qed

theorem Build_orders_the_quotes_witness:
  "image_mset qt_token (mset (rs_quotes (Build sample_inputs))) = {#''r/a.A''#}"
  using Build_orders_the_quotes [of sample_inputs sample_anchor] sample_usd by (simp add: sample_inputs_def)

lemma Refresh_sample_quote:
  assumes "ts \<noteq> []"
  shows "\<exists>q \<in> set (rs_quotes (Refresh one_answer (Some sample_anchor) [sample_asset] (map (\<lambda>(a, b). token_key a b) ts))).
    qt_token q = ''r/a.A''"
proof -
  have "loaded one_answer (map (\<lambda>(a, b). token_key a b) ts) \<noteq> []" using assms by (simp add: one_answer_loads)
  then obtain s where quotes: "rs_quotes (Refresh one_answer (Some sample_anchor) [sample_asset] (map (\<lambda>(a, b). token_key a b) ts)) =
      rs_quotes (Build \<lparr>pi_assets = [sample_asset], pi_pools = loaded one_answer (map (\<lambda>(a, b). token_key a b) ts),
        pi_anchor = Some sample_anchor, pi_supply = s,
        pi_depth = depth_table one_answer (Some sample_anchor) (loaded one_answer (map (\<lambda>(a, b). token_key a b) ts))\<rparr>)"
    using Refresh_quotes by blast
  let ?i = "\<lparr>pi_assets = [sample_asset], pi_pools = loaded one_answer (map (\<lambda>(a, b). token_key a b) ts),
      pi_anchor = Some sample_anchor, pi_supply = s,
      pi_depth = depth_table one_answer (Some sample_anchor) (loaded one_answer (map (\<lambda>(a, b). token_key a b) ts))\<rparr>"
  let ?a = "ugnotUSDRat (an_usd sample_anchor)"
  let ?q = "build_quote ?i sample_anchor ?a (tvl_table (pi_pools ?i) (usd_table (pi_pools ?i) ?a)) sample_asset"
  have "?q \<in># mset (rs_quotes (Build ?i))" using Build_quotes(1) [of ?i sample_anchor] sample_usd by simp
  then have "?q \<in> set (rs_quotes (Build ?i))" by (simp only: set_mset_mset)
  then show ?thesis unfolding quotes by (rule bexI [rotated]) simp
qed

theorem tier_is_of_the_first_direct_pool_witness:
  "\<exists>q :: quote. qt_token q = ''r/a.A'' \<and>
     qt_depth q = MeasureDepth one_answer (one_pool ''r/a.A'' WUGNOT) ''r/a.A'' (1 / 10) \<and> qt_tier q = TierFor (qt_depth q)"
proof -
  let ?keys = "map (\<lambda>(a, b). token_key a b) [(''r/a.A'', WUGNOT)]"
  let ?R = "Refresh one_answer (Some sample_anchor) [sample_asset] ?keys"
  obtain q where q: "q \<in> set (rs_quotes ?R)" "qt_token q = ''r/a.A''" using Refresh_sample_quote by blast
  have loads: "loaded one_answer ?keys = [one_pool ''r/a.A'' WUGNOT]" by (simp only: one_answer_loads) simp
  have pk: "PoolToken (qt_token q) = ''r/a.A''" using q(2) by simp
  have apart: "PoolToken (qt_token q) \<noteq> WUGNOT" unfolding pk by (simp add: WUGNOT_def)
  have keys: "\<forall>k \<in> set ?keys. pk_token0 k \<noteq> pk_token1 k" by (simp add: token_key_def WUGNOT_def)
  have some: "loaded one_answer ?keys \<noteq> []" unfolding loads by simp
  have "priced_way (loaded one_answer ?keys) 3 (PoolToken (qt_token q)) [one_pool ''r/a.A'' WUGNOT]"
    unfolding loads pk by (rule sample_way)
  from Refresh_prices_routed [OF q(1) some sample_usd keys apart this] have "qt_usd q \<noteq> None" .
  from tier_is_of_the_first_direct_pool [OF some sample_usd keys q(1) apart this]
  have "qt_depth q = MeasureDepth one_answer (one_pool ''r/a.A'' WUGNOT) ''r/a.A'' (1 / 10)" "qt_tier q = TierFor (qt_depth q)"
    unfolding loads pk by (simp_all add: first_ladder_def sample_anchor_def split: if_splits)
  then show ?thesis using q(2) by blast
qed

theorem indirect_token_is_said_to_have_no_market_witness:
  "\<exists>q :: quote. qt_token q = ''r/a.A'' \<and> qt_usd q \<noteq> None \<and> qt_route q \<noteq> [] \<and> qt_tier q = TierNone \<and> qt_warnings q = []"
proof -
  let ?ts = "[(''r/a.A'', ''r/b.B''), (''r/b.B'', WUGNOT)]"
  let ?keys = "map (\<lambda>(a, b). token_key a b) ?ts"
  let ?way = "[one_pool ''r/a.A'' ''r/b.B'', one_pool ''r/b.B'' WUGNOT]"
  have loads: "loaded one_answer ?keys = ?way" by (simp only: one_answer_loads) simp
  have "priced_way ?way 3 ''r/a.A'' ?way"
    using one_pool_ratio
    by (simp add: priced_way_def other_token_def) (simp add: one_pool_def token_key_def WUGNOT_def Path_def)
  moreover have "\<forall>k \<in> set ?keys. pk_token0 k \<noteq> pk_token1 k" by (simp add: token_key_def WUGNOT_def)
  moreover have "\<forall>p \<in> set ?way. {token0 p, token1 p} \<noteq> {''r/a.A'', WUGNOT}"
    by (simp add: one_pool_def token_key_def WUGNOT_def doubleton_eq_iff)
  moreover have "''r/a.A'' \<noteq> WUGNOT" by (simp add: WUGNOT_def)
  ultimately have "\<exists>q \<in> set (rs_quotes (Refresh one_answer (Some sample_anchor) [sample_asset] ?keys)).
      qt_token q = as_token sample_asset \<and> qt_usd q \<noteq> None \<and> qt_route q \<noteq> [] \<and> qt_tier q = TierNone \<and> qt_warnings q = []"
    by (intro indirect_token_is_said_to_have_no_market [OF sample_usd, of _ _ _ _ ?way]) (simp_all only: loads sample_token list.set simp_thms insert_iff)
  then show ?thesis unfolding sample_token by blast
qed

end
