(* ===== verification/Live_Feed.thy ===== *)
theory Live_Feed
  imports Go_Prelude Single_Flight
begin

text \<open>
  The live feed of a network, \<^verbatim>\<open>pkg/httpapi/ws.go\<close>: one loop polls the indexer while anybody
  listens and sends what is new to every listener over a bounded channel. The data here
  are the feed, its locked sections and what one poll sends; \<^verbatim>\<open>Live_Threads\<close> runs them
  concurrently. An event stands for the JSON it is marshalled to.
\<close>

section \<open>The feed\<close>

record feed_block =
  fb_height :: int
  fb_data :: string

record feed_tx =
  ft_height :: int
  ft_data :: string

datatype feed_event =
    Tip string int
  | Block_sent string feed_block
  | Tx_sent string feed_tx

definition liveReplay :: nat where "liveReplay = 16"

definition maxLiveCatchup :: int where "maxLiveCatchup = 20"

definition feed_buffer :: nat where "feed_buffer = 256"

text \<open>
  \<^verbatim>\<open>clients\<close> is a set of channels, kept here by their numbers. The contents of the channels
  are part of the record: what was sent and not yet read, oldest first.
\<close>

record feed =
  lf_network :: string
  lf_clients :: "nat list"
  lf_running :: bool
  lf_last :: int
  lf_recent :: "feed_event list"
  lf_chans :: "nat \<Rightarrow> feed_event list"

definition new_feed :: "string \<Rightarrow> feed" where
  "new_feed net = \<lparr>lf_network = net, lf_clients = [], lf_running = False, lf_last = 0,
     lf_recent = [], lf_chans = (\<lambda>_. [])\<rparr>"

text \<open>A network without an indexer client gets no feed.\<close>

definition InitLiveFeeds :: "string list \<Rightarrow> (string \<Rightarrow> bool) \<Rightarrow> (string \<times> feed) list" where
  "InitLiveFeeds networks has_client = [(n, new_feed n). n \<leftarrow> networks, has_client n]"

text \<open>The feeds a request to \<^verbatim>\<open>LiveFeedHandler\<close> is registered with.\<close>

definition handler_feeds :: "string \<Rightarrow> (string \<times> feed) list \<Rightarrow> string list" where
  "handler_feeds network feeds =
     (if network = '''' \<or> network = ''all'' then map fst feeds
      else if map_of feeds network \<noteq> None then [network] else [])"

section \<open>Locked sections\<close>

text \<open>A send that gives up when the channel is full.\<close>

definition try_send :: "feed_event \<Rightarrow> feed_event list \<Rightarrow> feed_event list option" where
  "try_send e q = (if length q < feed_buffer then Some (q @ [e]) else None)"

definition fan_out ::
  "feed_event \<Rightarrow> nat list \<Rightarrow> (nat \<Rightarrow> feed_event list) \<Rightarrow> nat \<Rightarrow> feed_event list" where
  "fan_out e clients chans ch =
     (if ch \<in> set clients then (case try_send e (chans ch) of Some q \<Rightarrow> q | None \<Rightarrow> chans ch)
      else chans ch)"

definition register :: "nat \<Rightarrow> feed \<Rightarrow> feed" where
  "register ch f = f\<lparr>lf_clients := (if ch \<in> set (lf_clients f) then lf_clients f else ch # lf_clients f)\<rparr>"

definition removeClient :: "nat \<Rightarrow> feed \<Rightarrow> feed" where
  "removeClient ch f = f\<lparr>lf_clients := filter (\<lambda>c. c \<noteq> ch) (lf_clients f)\<rparr>"

definition broadcast :: "feed_event \<Rightarrow> feed \<Rightarrow> feed" where
  "broadcast e f =
     (let recent = lf_recent f @ [e]; n = length recent - liveReplay
      in f\<lparr>lf_recent := drop n recent, lf_chans := fan_out e (lf_clients f) (lf_chans f)\<rparr>)"

definition tipEvent :: "string \<Rightarrow> int \<Rightarrow> feed_event" where
  "tipEvent net h = Tip net h"

definition broadcastTip :: "int \<Rightarrow> feed \<Rightarrow> feed" where
  "broadcastTip h f = f\<lparr>lf_chans := fan_out (tipEvent (lf_network f) h) (lf_clients f) (lf_chans f)\<rparr>"

fun replay_events :: "feed_event list \<Rightarrow> feed_event list \<Rightarrow> feed_event list" where
  "replay_events [] q = q"
| "replay_events (e # es) q = (case try_send e q of None \<Rightarrow> q | Some q' \<Rightarrow> replay_events es q')"

definition replay_to :: "feed \<Rightarrow> feed_event list \<Rightarrow> feed_event list" where
  "replay_to f q =
     (if 0 < lf_last f
      then (case try_send (tipEvent (lf_network f) (lf_last f)) q of
              None \<Rightarrow> q | Some q' \<Rightarrow> replay_events (lf_recent f) q')
      else replay_events (lf_recent f) q)"

definition replay :: "nat \<Rightarrow> feed \<Rightarrow> feed" where
  "replay ch f = f\<lparr>lf_chans := (lf_chans f)(ch := replay_to f (lf_chans f ch))\<rparr>"

text \<open>Whether a polling loop is to be started, or may end, and the feed.\<close>

definition ensureRunning :: "feed \<Rightarrow> bool \<times> feed" where
  "ensureRunning f = (if lf_running f then (False, f) else (True, f\<lparr>lf_running := True\<rparr>))"

definition stopIfIdle :: "feed \<Rightarrow> bool \<times> feed" where
  "stopIfIdle f = (if lf_clients f \<noteq> [] then (False, f) else (True, f\<lparr>lf_running := False\<rparr>))"

section \<open>A poll\<close>

text \<open>
  What the indexer answers during one poll: the height of the tip, the blocks of a range
  of heights, the transactions above a height. \<^term>\<open>None\<close> is an error or a timeout.
\<close>

record answers =
  an_height :: "int option"
  an_blocks :: "int \<Rightarrow> int \<Rightarrow> feed_block list option"
  an_txs :: "int \<Rightarrow> feed_tx list option"

text \<open>The steps a poll takes, each of them one locked section or one assignment.\<close>

datatype poll_act = Set_last int | Announce int | Send feed_event

fun block_acts :: "string \<Rightarrow> int \<Rightarrow> int \<Rightarrow> feed_block list \<Rightarrow> int \<Rightarrow> poll_act list \<times> int" where
  "block_acts net since height [] reached = ([], reached)"
| "block_acts net since height (b # bs) reached =
     (if fb_height b \<le> since \<or> height < fb_height b then block_acts net since height bs reached
      else if reached < fb_height b
      then (case block_acts net since height bs (fb_height b) of (acts, tip) \<Rightarrow>
              (Send (Block_sent net b) # Set_last (fb_height b) # acts, tip))
      else (case block_acts net since height bs reached of (acts, tip) \<Rightarrow>
              (Send (Block_sent net b) # acts, tip)))"

definition tx_acts :: "string \<Rightarrow> int \<Rightarrow> int \<Rightarrow> feed_tx list \<Rightarrow> poll_act list" where
  "tx_acts net since reached ts =
     map (\<lambda>t. Send (Tx_sent net t)) (filter (\<lambda>t. since < ft_height t \<and> ft_height t \<le> reached) ts)"

definition catch_up :: "int \<Rightarrow> int \<Rightarrow> poll_act list \<times> int" where
  "catch_up reached height =
     (if reached = 0 \<or> height < reached then ([Set_last height, Announce height], height)
      else if maxLiveCatchup < height - reached
      then ([Set_last (height - maxLiveCatchup)], height - maxLiveCatchup)
      else ([], reached))"

text \<open>The steps of \<^verbatim>\<open>pollStep\<close>, from the height the feed had reached.\<close>

definition pollStep :: "string \<Rightarrow> int \<Rightarrow> answers \<Rightarrow> poll_act list" where
  "pollStep net reached a =
     (case an_height a of
        None \<Rightarrow> []
      | Some height \<Rightarrow>
          (case catch_up reached height of (start, since) \<Rightarrow>
             if height \<le> since then start
             else (case an_blocks a (since + 1) height of
                     None \<Rightarrow> start
                   | Some bs \<Rightarrow>
                       (case block_acts net since height bs since of (acts, tip) \<Rightarrow>
                          start @ acts @
                          (case an_txs a since of None \<Rightarrow> [] | Some ts \<Rightarrow> tx_acts net since tip ts)))))"

fun run_act :: "poll_act \<Rightarrow> feed \<Rightarrow> feed" where
  "run_act (Set_last h) f = f\<lparr>lf_last := h\<rparr>"
| "run_act (Announce h) f = broadcastTip h f"
| "run_act (Send e) f = broadcast e f"

text \<open>The height reached after some steps, and the steps of a sequence of polls.\<close>

fun last_after :: "int \<Rightarrow> poll_act list \<Rightarrow> int" where
  "last_after l [] = l"
| "last_after l (Set_last h # acts) = last_after h acts"
| "last_after l (_ # acts) = last_after l acts"

fun polls :: "string \<Rightarrow> int \<Rightarrow> answers list \<Rightarrow> poll_act list" where
  "polls net reached [] = []"
| "polls net reached (a # as) =
     pollStep net reached a @ polls net (last_after reached (pollStep net reached a)) as"

section \<open>Sends\<close>

lemma try_send_length: "try_send e q = Some q' \<Longrightarrow> q' = q @ [e] \<and> length q' \<le> feed_buffer"
  by (auto simp: try_send_def split: if_splits)

lemma replay_events_fit:
  "length q + length es \<le> feed_buffer \<Longrightarrow> replay_events es q = q @ es"
  by (induction es arbitrary: q) (auto simp: try_send_def)

text \<open>What a listener with room for it finds first: the tip, and the tail of the feed.\<close>

lemma replay_to_fresh:
  assumes "length q + Suc (length (lf_recent f)) \<le> feed_buffer"
  shows "replay_to f q = q @ (if 0 < lf_last f then [Tip (lf_network f) (lf_last f)] else []) @ lf_recent f"
  using assms by (auto simp: replay_to_def tipEvent_def try_send_def replay_events_fit)

lemma broadcast_recent: "length (lf_recent (broadcast e f)) \<le> liveReplay"
  by (simp add: broadcast_def Let_def)

text \<open>A full channel delays nobody else: each channel depends on its own contents only.\<close>

lemma fan_out_own:
  "chans ch = chans' ch \<Longrightarrow> fan_out e clients chans ch = fan_out e clients chans' ch"
  by (simp add: fan_out_def split: option.split)

lemma last_after_append [simp]: "last_after l (xs @ ys) = last_after (last_after l xs) ys"
  by (induction l xs rule: last_after.induct) simp_all

lemma run_acts_simps [simp]:
  "lf_clients (run_act a f) = lf_clients f" "lf_running (run_act a f) = lf_running f"
  "lf_network (run_act a f) = lf_network f" "lf_last (run_act a f) = last_after (lf_last f) [a]"
  by (cases a; simp add: broadcast_def broadcastTip_def Let_def)+

section \<open>What a poll sends\<close>

text \<open>The blocks and the transactions among the steps.\<close>

fun blocks_sent :: "poll_act list \<Rightarrow> feed_block list" where
  "blocks_sent [] = []"
| "blocks_sent (Send (Block_sent n b) # acts) = b # blocks_sent acts"
| "blocks_sent (_ # acts) = blocks_sent acts"

fun txs_sent :: "poll_act list \<Rightarrow> feed_tx list" where
  "txs_sent [] = []"
| "txs_sent (Send (Tx_sent n t) # acts) = t # txs_sent acts"
| "txs_sent (_ # acts) = txs_sent acts"

text \<open>The steps between two announcements of a tip, which mark a reset of the chain.\<close>

fun stretches :: "poll_act list \<Rightarrow> poll_act list \<Rightarrow> poll_act list list" where
  "stretches cur [] = [cur]"
| "stretches cur (Announce h # acts) = cur # stretches [] acts"
| "stretches cur (a # acts) = stretches (cur @ [a]) acts"

text \<open>
  What the indexer is said to answer: blocks by ascending height, transactions by ascending
  height and none twice.
\<close>

definition ascending :: "answers \<Rightarrow> bool" where
  "ascending a \<longleftrightarrow>
     (\<forall>f h bs. an_blocks a f h = Some bs \<longrightarrow> sorted_wrt (<) (map fb_height bs)) \<and>
     (\<forall>f ts. an_txs a f = Some ts \<longrightarrow> sorted (map ft_height ts) \<and> distinct ts)"

definition in_order :: "poll_act list \<Rightarrow> bool" where
  "in_order acts \<longleftrightarrow> sorted_wrt (<) (map fb_height (blocks_sent acts)) \<and>
     sorted (map ft_height (txs_sent acts)) \<and> distinct (txs_sent acts)"

definition below :: "int \<Rightarrow> poll_act list \<Rightarrow> bool" where
  "below h acts \<longleftrightarrow> (\<forall>b \<in> set (blocks_sent acts). fb_height b \<le> h) \<and>
     (\<forall>t \<in> set (txs_sent acts). ft_height t \<le> h)"

definition above :: "int \<Rightarrow> poll_act list \<Rightarrow> bool" where
  "above h acts \<longleftrightarrow> (\<forall>b \<in> set (blocks_sent acts). h < fb_height b) \<and>
     (\<forall>t \<in> set (txs_sent acts). h < ft_height t)"

definition steady :: "poll_act list \<Rightarrow> bool" where
  "steady acts \<longleftrightarrow> (\<forall>h. Announce h \<notin> set acts)"

lemma blocks_sent_append [simp]: "blocks_sent (xs @ ys) = blocks_sent xs @ blocks_sent ys"
  by (induction xs rule: blocks_sent.induct) simp_all

lemma txs_sent_append [simp]: "txs_sent (xs @ ys) = txs_sent xs @ txs_sent ys"
  by (induction xs rule: txs_sent.induct) simp_all

lemma set_blocks_sent: "b \<in> set (blocks_sent acts) \<longleftrightarrow> (\<exists>n. Send (Block_sent n b) \<in> set acts)"
  by (induction acts rule: blocks_sent.induct) auto

lemma set_txs_sent: "t \<in> set (txs_sent acts) \<longleftrightarrow> (\<exists>n. Send (Tx_sent n t) \<in> set acts)"
  by (induction acts rule: txs_sent.induct) auto

lemma block_acts_spec:
  assumes "block_acts net since height bs reached = (acts, tip)"
  shows "blocks_sent acts = filter (\<lambda>b. since < fb_height b \<and> fb_height b \<le> height) bs \<and>
    txs_sent acts = [] \<and> steady acts \<and> last_after reached acts = tip \<and> reached \<le> tip \<and>
    (\<forall>b \<in> set (blocks_sent acts). fb_height b \<le> tip)"
  using assms
proof (induction bs arbitrary: reached acts tip)
  case Nil
  then show ?case by (simp add: steady_def)
next
  case (Cons b bs)
  let ?in = "since < fb_height b \<and> fb_height b \<le> height"
  let ?next = "if ?in \<and> reached < fb_height b then fb_height b else reached"
  obtain acts' tip' where rec: "block_acts net since height bs ?next = (acts', tip')"
    by fastforce
  note IH = Cons.IH [OF rec]
  have acts: "acts = (if ?in then Send (Block_sent net b) # (if reached < fb_height b then [Set_last (fb_height b)] else []) else [])
      @ acts'" and tip: "tip = tip'"
    using Cons.prems rec by (auto split: if_splits)
  show ?case
    unfolding tip acts using IH by (auto simp: steady_def)
qed

lemma block_acts_network:
  "block_acts net since height bs reached = (acts, tip) \<Longrightarrow> Send (Block_sent n b) \<in> set acts \<Longrightarrow> n = net"
  by (induction bs arbitrary: reached acts tip) (fastforce split: if_splits prod.splits)+

lemma tx_acts_spec [simp]:
  "blocks_sent (tx_acts net since tip ts) = []"
  "txs_sent (tx_acts net since tip ts) = filter (\<lambda>t. since < ft_height t \<and> ft_height t \<le> tip) ts"
  "last_after l (tx_acts net since tip ts) = l" "steady (tx_acts net since tip ts)"
  by (induction ts) (simp_all add: tx_acts_def steady_def)

end
