(* ===== verification/Live_Threads.thy ===== *)
theory Live_Threads
  imports Live_Feed
begin

text \<open>
  The live feed at work: what a sequence of polls sends, and the listeners and the polling
  loop of \<^verbatim>\<open>pkg/httpapi/ws.go\<close> run concurrently, with a step for each locked section.
\<close>

section \<open>A sequence of polls\<close>

lemma steady_append [simp]: "steady (xs @ ys) \<longleftrightarrow> steady xs \<and> steady ys"
  by (auto simp: steady_def)

lemma steady_Nil [simp]: "steady []"
  by (simp add: steady_def)

lemma poll_result:
  "(\<exists>h. pollStep net l a = [Set_last h, Announce h]) \<or>
   steady (pollStep net l a) \<and> l \<le> last_after l (pollStep net l a) \<and> above l (pollStep net l a) \<and>
   below (last_after l (pollStep net l a)) (pollStep net l a) \<and>
   (ascending a \<longrightarrow> in_order (pollStep net l a))"
proof (cases "an_height a")
  case None
  then show ?thesis by (simp add: pollStep_def above_def below_def in_order_def)
next
  case (Some h)
  obtain start since where start: "catch_up l h = (start, since)" by fastforce
  show ?thesis
  proof (cases "l = 0 \<or> h < l")
    case True
    with start have "start = [Set_last h, Announce h]" "since = h" by (auto simp: catch_up_def)
    with Some start show ?thesis by (simp add: pollStep_def)
  next
    case False
    with start have from_start: "l \<le> since" "steady start" "last_after l start = since"
      "blocks_sent start = []" "txs_sent start = []"
      by (auto simp: catch_up_def maxLiveCatchup_def steady_def split: if_splits)
    show ?thesis
    proof (cases "h \<le> since \<or> an_blocks a (since + 1) h = None")
      case True
      with Some start have "pollStep net l a = start" by (auto simp: pollStep_def)
      with from_start show ?thesis by (simp add: above_def below_def in_order_def)
    next
      case False
      then obtain bs where bs: "\<not> h \<le> since" "an_blocks a (since + 1) h = Some bs" by auto
      obtain acts tip where acts: "block_acts net since h bs since = (acts, tip)" by fastforce
      note spec = block_acts_spec [OF acts]
      define ts where "ts = (case an_txs a since of None \<Rightarrow> [] | Some ts \<Rightarrow> ts)"
      have step: "pollStep net l a = start @ acts @ tx_acts net since tip ts"
        using Some start bs acts
        by (cases "an_txs a since") (simp_all add: pollStep_def ts_def tx_acts_def)
      have "in_order (pollStep net l a)" if "ascending a"
      proof -
        from that bs(2) have "sorted_wrt (<) (map fb_height bs)" by (auto simp: ascending_def)
        moreover from that have "sorted (map ft_height ts)" "distinct ts"
          by (auto simp: ascending_def ts_def split: option.split)
        ultimately show ?thesis
          using spec from_start unfolding in_order_def step
          by (simp add: sorted_wrt_map sorted_wrt_filter sorted_filter)
      qed
      with spec from_start show ?thesis
        unfolding step above_def below_def by auto
    qed
  qed
qed

lemma stretches_steady:
  "steady acts \<Longrightarrow> stretches cur (acts @ rest) = stretches (cur @ acts) rest"
proof (induction acts arbitrary: cur)
  case (Cons a acts)
  then show ?case by (cases a) (auto simp: steady_def)
qed simp

lemma in_order_append:
  assumes "in_order xs" "below l xs" "in_order ys" "above l ys"
  shows "in_order (xs @ ys)"
  using assms unfolding in_order_def below_def above_def
  by (fastforce simp: sorted_wrt_append sorted_append)

lemma below_mono: "below l xs \<Longrightarrow> l \<le> m \<Longrightarrow> below m xs"
  by (auto simp: below_def)

lemma below_append [simp]: "below l (xs @ ys) \<longleftrightarrow> below l xs \<and> below l ys"
  by (auto simp: below_def)

lemma polls_in_order:
  assumes "\<forall>a \<in> set as. ascending a" "in_order cur" "below l cur" "ys \<in> set (stretches cur (polls net l as))"
  shows "in_order ys"
  using assms
proof (induction as arbitrary: cur l)
  case Nil
  then show ?case by simp
next
  case (Cons a as)
  let ?step = "pollStep net l a"
  let ?rest = "polls net (last_after l ?step) as"
  have as: "\<forall>a \<in> set as. ascending a" "ascending a" using Cons.prems(1) by simp_all
  from poll_result [of net l a] show ?case
  proof (elim disjE exE conjE)
    fix h assume h: "?step = [Set_last h, Announce h]"
    with Cons.prems have "ys = cur @ [Set_last h] \<or> ys \<in> set (stretches [] (polls net h as))" by auto
    then show ?case
    proof
      assume "ys = cur @ [Set_last h]"
      with Cons.prems show ?thesis by (simp add: in_order_def)
    next
      assume "ys \<in> set (stretches [] (polls net h as))"
      then show ?thesis using Cons.IH [OF as(1), of "[]" h] by (simp add: in_order_def below_def)
    qed
  next
    assume st: "steady ?step" "l \<le> last_after l ?step" "above l ?step"
      "below (last_after l ?step) ?step" "ascending a \<longrightarrow> in_order ?step"
    have "in_order (cur @ ?step)"
      using Cons.prems(2,3) st(3,5) as(2) by (simp add: in_order_append)
    moreover have "below (last_after l ?step) (cur @ ?step)"
      using Cons.prems(3) st(2,4) below_mono by auto
    moreover have "ys \<in> set (stretches (cur @ ?step) ?rest)"
      using Cons.prems(4) st(1) by (simp add: stretches_steady)
    ultimately show ?case using Cons.IH [OF as(1)] by blast
  qed
qed

lemma polls_append: "polls net l (as @ bs) = polls net l as @ polls net (last_after l (polls net l as)) bs"
  by (induction as arbitrary: l) simp_all

lemma steady_polls_above:
  assumes "steady (polls net l as)"
  shows "above l (polls net l as)"
  using assms
proof (induction as arbitrary: l)
  case (Cons a as)
  let ?step = "pollStep net l a"
  from Cons.prems have steady: "steady ?step" "steady (polls net (last_after l ?step) as)" by simp_all
  then have "l \<le> last_after l ?step" "above l ?step"
    using poll_result [of net l a] by (auto simp: steady_def)
  moreover have "above (last_after l ?step) (polls net (last_after l ?step) as)"
    using Cons.IH steady(2) .
  ultimately show ?case by (fastforce simp: above_def)
qed (simp add: above_def)

section \<open>Listeners and the loop\<close>

text \<open>
  A listener registers its channel, is sent the tail of the feed, makes sure the loop
  runs, and then reads until it leaves; its channel has the number of its thread. The loop
  first looks whether anybody is left, then polls, step by step.
\<close>

datatype feed_thread =
    Registering | Replaying | Ensuring | Reading | Gone
  | Loop | Polling "poll_act list" | Stopped

text \<open>\<open>lv_log\<close> and \<open>lv_answers\<close> record the steps taken and the answers they rest on.\<close>

record live =
  lv_feed :: feed
  lv_threads :: "feed_thread list"
  lv_log :: "poll_act list"
  lv_answers :: "answers list"

definition live_init :: "string \<Rightarrow> live" where
  "live_init net = \<lparr>lv_feed = new_feed net, lv_threads = [], lv_log = [], lv_answers = []\<rparr>"

definition thread_at :: "live \<Rightarrow> nat \<Rightarrow> feed_thread \<Rightarrow> bool" where
  "thread_at s i t \<longleftrightarrow> i < length (lv_threads s) \<and> lv_threads s ! i = t"

definition becomes :: "live \<Rightarrow> nat \<Rightarrow> feed_thread \<Rightarrow> feed \<Rightarrow> live" where
  "becomes s i t f = s\<lparr>lv_feed := f, lv_threads := (lv_threads s)[i := t]\<rparr>"

definition read_one :: "nat \<Rightarrow> feed \<Rightarrow> feed" where
  "read_one ch f = f\<lparr>lf_chans := (lf_chans f)(ch := tl (lf_chans f ch))\<rparr>"

inductive live_step :: "live \<Rightarrow> live \<Rightarrow> bool" where
  arrive: "live_step s (s\<lparr>lv_threads := lv_threads s @ [Registering]\<rparr>)"
| register: "thread_at s i Registering \<Longrightarrow>
    live_step s (becomes s i Replaying (register i (lv_feed s)))"
| replay: "thread_at s i Replaying \<Longrightarrow> live_step s (becomes s i Ensuring (replay i (lv_feed s)))"
| ensure: "thread_at s i Ensuring \<Longrightarrow> ensureRunning (lv_feed s) = (started, f) \<Longrightarrow>
    live_step s (s\<lparr>lv_feed := f,
      lv_threads := (lv_threads s)[i := Reading] @ (if started then [Loop] else [])\<rparr>)"
| read: "thread_at s i Reading \<Longrightarrow> live_step s (becomes s i Reading (read_one i (lv_feed s)))"
| leave: "thread_at s i Reading \<Longrightarrow> live_step s (becomes s i Gone (removeClient i (lv_feed s)))"
| idle: "thread_at s i Loop \<Longrightarrow> stopIfIdle (lv_feed s) = (True, f) \<Longrightarrow>
    live_step s (becomes s i Stopped f)"
| poll: "thread_at s i Loop \<Longrightarrow> stopIfIdle (lv_feed s) = (False, f) \<Longrightarrow>
    live_step s ((becomes s i (Polling (pollStep (lf_network f) (lf_last f) a)) f)
      \<lparr>lv_answers := lv_answers s @ [a]\<rparr>)"
| act: "thread_at s i (Polling (x # acts)) \<Longrightarrow>
    live_step s ((becomes s i (Polling acts) (run_act x (lv_feed s)))\<lparr>lv_log := lv_log s @ [x]\<rparr>)"
| sleep: "thread_at s i (Polling []) \<Longrightarrow> live_step s (becomes s i Loop (lv_feed s))"

inductive_cases live_stepE: "live_step s s'"

inductive live_reach :: "string \<Rightarrow> live \<Rightarrow> bool" for net where
  init: "live_reach net (live_init net)"
| step: "live_reach net s \<Longrightarrow> live_step s s' \<Longrightarrow> live_reach net s'"

text \<open>The threads that poll, and those that hold a registered channel.\<close>

fun polling :: "feed_thread \<Rightarrow> bool" where
  "polling Loop \<longleftrightarrow> True"
| "polling (Polling acts) \<longleftrightarrow> True"
| "polling _ \<longleftrightarrow> False"

definition listening :: "feed_thread \<Rightarrow> bool" where
  "listening t \<longleftrightarrow> t = Replaying \<or> t = Ensuring \<or> t = Reading"

definition pollers :: "live \<Rightarrow> nat" where
  "pollers s = count_of polling (lv_threads s)"

text \<open>What is left of the poll in progress.\<close>

fun pending_of :: "feed_thread \<Rightarrow> poll_act list" where
  "pending_of (Polling acts) = acts"
| "pending_of _ = []"

definition pending :: "live \<Rightarrow> poll_act list" where
  "pending s = concat (map pending_of (lv_threads s))"

definition live_inv :: "string \<Rightarrow> live \<Rightarrow> bool" where
  "live_inv net s \<longleftrightarrow>
     pollers s = (if lf_running (lv_feed s) then 1 else 0) \<and>
     (\<forall>ch. ch \<in> set (lf_clients (lv_feed s)) \<longleftrightarrow> ch < length (lv_threads s) \<and> listening (lv_threads s ! ch)) \<and>
     (\<forall>i. thread_at s i Reading \<longrightarrow> lf_running (lv_feed s)) \<and>
     lf_network (lv_feed s) = net \<and>
     lf_last (lv_feed s) = last_after 0 (lv_log s) \<and>
     lv_log s @ pending s = polls net 0 (lv_answers s)"

section \<open>One loop, and no listener without it\<close>

lemma thread_at_less: "thread_at s i t \<Longrightarrow> i < length (lv_threads s) \<and> lv_threads s ! i = t"
  by (simp add: thread_at_def)

lemma becomes_simps [simp]:
  "lv_feed (becomes s i t f) = f" "lv_log (becomes s i t f) = lv_log s"
  "lv_answers (becomes s i t f) = lv_answers s" "lv_threads (becomes s i t f) = (lv_threads s)[i := t]"
  by (simp_all add: becomes_def)

lemma pollers_update:
  "thread_at s i t \<Longrightarrow>
   count_of polling ((lv_threads s)[i := t']) + (if polling t then 1 else 0)
     = pollers s + (if polling t' then 1 else 0)"
  using count_of_update [of i "lv_threads s" polling t'] by (simp add: thread_at_def pollers_def)

lemma pending_of_quiet: "\<not> polling t \<Longrightarrow> pending_of t = []"
  by (cases t) simp_all

lemma pending_none: "count_of polling ts = 0 \<Longrightarrow> concat (map pending_of ts) = []"
  by (induction ts) (auto simp: pending_of_quiet split: if_splits)

lemma pending_one:
  "count_of polling ts \<le> 1 \<Longrightarrow> i < length ts \<Longrightarrow> polling (ts ! i) \<Longrightarrow>
   concat (map pending_of ts) = pending_of (ts ! i)"
proof (induction ts arbitrary: i)
  case (Cons t ts)
  show ?case
  proof (cases i)
    case 0
    with Cons.prems have "count_of polling ts = 0" by simp
    with 0 show ?thesis by (simp add: pending_none)
  next
    case (Suc j)
    with Cons.prems have j: "j < length ts" "polling (ts ! j)" by simp_all
    then have "0 < count_of polling ts"
      by (metis count_of_def filter_empty_conv length_greater_0_conv nth_mem)
    with Cons.prems(1) have "\<not> polling t" "count_of polling ts \<le> 1" by (auto split: if_splits)
    with Cons.IH j Suc show ?thesis by (simp add: pending_of_quiet)
  qed
qed simp

lemma pending_at:
  assumes "live_inv net s" "thread_at s i t" "polling t"
  shows "lv_log s @ pending_of t = polls net 0 (lv_answers s)"
proof -
  have "count_of polling (lv_threads s) \<le> 1"
    using assms(1) by (simp add: live_inv_def pollers_def split: if_splits)
  then have "pending s = pending_of t"
    using pending_one assms(2,3) unfolding pending_def thread_at_def by blast
  with assms(1) show ?thesis by (simp add: live_inv_def)
qed

lemma pending_quiet_update:
  assumes "thread_at s i t" "\<not> polling t" "\<not> polling t'"
  shows "concat (map pending_of ((lv_threads s)[i := t'])) = pending s"
proof -
  have "map pending_of ((lv_threads s)[i := t']) = map pending_of (lv_threads s)"
    using assms by (intro nth_equalityI) (auto simp: nth_list_update thread_at_def pending_of_quiet)
  then show ?thesis by (simp add: pending_def)
qed

text \<open>A step of a listener, and a step of the loop.\<close>

lemma inv_listener:
  assumes inv: "live_inv net s" and at: "thread_at s i t" and "\<not> polling t" "\<not> polling t'"
    and "lf_running f = lf_running (lv_feed s)" "lf_network f = lf_network (lv_feed s)"
    "lf_last f = lf_last (lv_feed s)"
    and clients: "\<And>ch. ch \<in> set (lf_clients f) \<longleftrightarrow>
      (if ch = i then listening t' else ch \<in> set (lf_clients (lv_feed s)))"
    and reading: "t' = Reading \<Longrightarrow> lf_running (lv_feed s)"
  shows "live_inv net (becomes s i t' f)"
proof -
  have "pollers (becomes s i t' f) = pollers s"
    using pollers_update [OF at, of t'] assms(3,4) by (simp add: pollers_def)
  moreover have "ch \<in> set (lf_clients f) \<longleftrightarrow>
      ch < length (lv_threads s) \<and> listening ((lv_threads s)[i := t'] ! ch)" for ch
    using inv at clients [of ch] by (auto simp: live_inv_def thread_at_def nth_list_update)
  moreover have "lf_running (lv_feed s)" if "thread_at (becomes s i t' f) j Reading" for j
    using that inv at reading by (cases "j = i") (auto simp: live_inv_def thread_at_def)
  ultimately show ?thesis
    using inv assms(5-7) pending_quiet_update [OF at assms(3,4)]
    by (simp add: live_inv_def pending_def)
qed

lemma inv_loop:
  assumes inv: "live_inv net s" and at: "thread_at s i t" and "polling t" "polling t'"
    and "lf_running f = lf_running (lv_feed s)" "lf_network f = lf_network (lv_feed s)"
    "lf_clients f = lf_clients (lv_feed s)"
    and log: "lf_last f = last_after 0 log" "log @ pending_of t' = polls net 0 as"
  shows "live_inv net ((becomes s i t' f)\<lparr>lv_log := log, lv_answers := as\<rparr>)"
proof -
  let ?ts = "(lv_threads s)[i := t']"
  have count: "count_of polling ?ts = pollers s"
    using pollers_update [OF at, of t'] assms(3,4) by simp
  then have "concat (map pending_of ?ts) = pending_of t'"
    using pending_one [of ?ts i] inv at assms(4)
    by (auto simp: live_inv_def thread_at_def split: if_splits)
  moreover have "\<not> listening t" "\<not> listening t'"
    using assms(3,4) by (cases t; cases t'; simp add: listening_def)+
  then have "listening (?ts ! ch) = listening (lv_threads s ! ch)" for ch
    using at by (cases "ch = i") (auto simp: thread_at_def)
  moreover have "thread_at s j Reading" if "j < length ?ts" "?ts ! j = Reading" for j
    using that at assms(4) by (cases "j = i") (auto simp: thread_at_def)
  ultimately show ?thesis
    using inv assms(5-7) log count
    by (auto simp: live_inv_def pending_def pollers_def thread_at_def)
qed

lemma feed_simps [simp]:
  "lf_running (register i f) = lf_running f" "lf_network (register i f) = lf_network f"
  "lf_last (register i f) = lf_last f" "lf_running (replay i f) = lf_running f"
  "lf_network (replay i f) = lf_network f" "lf_last (replay i f) = lf_last f"
  "lf_clients (replay i f) = lf_clients f"
  "lf_running (read_one i f) = lf_running f" "lf_network (read_one i f) = lf_network f"
  "lf_last (read_one i f) = lf_last f" "lf_clients (read_one i f) = lf_clients f"
  "lf_running (removeClient i f) = lf_running f" "lf_network (removeClient i f) = lf_network f"
  "lf_last (removeClient i f) = lf_last f"
  by (simp_all add: register_def replay_def read_one_def removeClient_def)

lemma clients_simps [simp]:
  "set (lf_clients (register i f)) = insert i (set (lf_clients f))"
  "set (lf_clients (removeClient i f)) = set (lf_clients f) - {i}"
  by (auto simp: register_def removeClient_def)

lemma client_at: "live_inv net s \<Longrightarrow> thread_at s i t \<Longrightarrow> i \<in> set (lf_clients (lv_feed s)) \<longleftrightarrow> listening t"
  by (auto simp: live_inv_def thread_at_def)

lemma inv_arrive: "live_inv net s \<Longrightarrow> live_inv net (s\<lparr>lv_threads := lv_threads s @ [Registering]\<rparr>)"
  by (auto simp: live_inv_def pollers_def pending_def thread_at_def nth_append listening_def less_Suc_eq
      split: if_splits)

lemma inv_spawn:
  assumes "live_inv net s" "\<not> lf_running (lv_feed s)"
  shows "live_inv net (s\<lparr>lv_feed := (lv_feed s)\<lparr>lf_running := True\<rparr>, lv_threads := lv_threads s @ [Loop]\<rparr>)"
  using assms
  by (auto simp: live_inv_def pollers_def pending_def thread_at_def nth_append listening_def less_Suc_eq
      split: if_splits)

lemma inv_ensure:
  assumes inv: "live_inv net s" and at: "thread_at s i Ensuring"
    and run: "ensureRunning (lv_feed s) = (started, f)"
  shows "live_inv net (s\<lparr>lv_feed := f,
    lv_threads := (lv_threads s)[i := Reading] @ (if started then [Loop] else [])\<rparr>)"
proof -
  define u where "u = (if lf_running (lv_feed s) then s
    else s\<lparr>lv_feed := (lv_feed s)\<lparr>lf_running := True\<rparr>, lv_threads := lv_threads s @ [Loop]\<rparr>)"
  have u: "live_inv net u" "thread_at u i Ensuring" "lf_running (lv_feed u)"
    using inv inv_spawn [OF inv] at by (auto simp: u_def thread_at_def nth_append)
  have "ch \<in> set (lf_clients (lv_feed u)) \<longleftrightarrow>
      (if ch = i then listening Reading else ch \<in> set (lf_clients (lv_feed u)))" for ch
    using client_at [OF u(1,2)] by (auto simp: listening_def)
  then have "live_inv net (becomes u i Reading (lv_feed u))"
    by (intro inv_listener [OF u(1,2)]) (simp_all add: u(3))
  moreover have "becomes u i Reading (lv_feed u) = s\<lparr>lv_feed := f,
      lv_threads := (lv_threads s)[i := Reading] @ (if started then [Loop] else [])\<rparr>"
    using run at by (auto simp: u_def ensureRunning_def becomes_def thread_at_def list_update_append
        split: if_splits)
  ultimately show ?thesis by simp
qed

lemma inv_idle:
  assumes inv: "live_inv net s" and at: "thread_at s i Loop" and stop: "stopIfIdle (lv_feed s) = (True, f)"
  shows "live_inv net (becomes s i Stopped f)"
proof -
  have f: "lf_clients (lv_feed s) = []" "f = (lv_feed s)\<lparr>lf_running := False\<rparr>"
    using stop by (auto simp: stopIfIdle_def split: if_splits)
  have none: "\<not> listening (lv_threads s ! j)" if "j < length (lv_threads s)" for j
    using inv f(1) that by (simp add: live_inv_def)
  have "\<not> listening ((lv_threads s)[i := Stopped] ! j)" if "j < length (lv_threads s)" for j
    using none that by (cases "j = i") (auto simp: listening_def)
  moreover have "\<not> thread_at (becomes s i Stopped f) j Reading" for j
    using none by (cases "j = i") (auto simp: thread_at_def listening_def)
  moreover have one: "pollers s = 1"
    using inv pollers_update [OF at, of Stopped] by (auto simp: live_inv_def split: if_splits)
  then have "count_of polling ((lv_threads s)[i := Stopped]) = 0"
    using pollers_update [OF at, of Stopped] by simp
  moreover have "lv_log s = polls net 0 (lv_answers s)"
    using pending_at [OF inv at] by simp
  ultimately show ?thesis
    using inv f by (simp add: live_inv_def pollers_def pending_def pending_none)
qed

lemma live_inv_step:
  assumes inv: "live_inv net s" and "live_step s s'"
  shows "live_inv net s'"
  using assms(2)
proof cases
  case arrive
  then show ?thesis using inv inv_arrive by simp
next
  case (register i)
  then show ?thesis using inv by (auto intro!: inv_listener simp: listening_def split: if_splits)
next
  case (replay i)
  then show ?thesis
    using inv client_at [OF inv replay(2)]
    by (auto intro!: inv_listener simp: listening_def split: if_splits)
next
  case (ensure i started f)
  then show ?thesis using inv inv_ensure by simp
next
  case (read i)
  then have "lf_running (lv_feed s)" using inv by (auto simp: live_inv_def)
  then show ?thesis
    using inv read client_at [OF inv read(2)]
    by (auto intro!: inv_listener simp: listening_def split: if_splits)
next
  case (leave i)
  then show ?thesis using inv by (auto intro!: inv_listener simp: listening_def split: if_splits)
next
  case (idle i f)
  then show ?thesis using inv inv_idle by simp
next
  case (poll i f a)
  then have f: "f = lv_feed s" by (auto simp: stopIfIdle_def split: if_splits)
  have "lv_log s = polls net 0 (lv_answers s)" "lf_last f = last_after 0 (lv_log s)" "lf_network f = net"
    using pending_at [OF inv poll(2)] inv f by (simp_all add: live_inv_def)
  then have "lv_log s @ pollStep (lf_network f) (lf_last f) a = polls net 0 (lv_answers s @ [a])"
    by (simp add: polls_append)
  moreover have "lf_last f = last_after 0 (lv_log s)" using inv f by (simp add: live_inv_def)
  ultimately have "live_inv net ((becomes s i (Polling (pollStep (lf_network f) (lf_last f) a)) f)
      \<lparr>lv_log := lv_log s, lv_answers := lv_answers s @ [a]\<rparr>)"
    by (intro inv_loop [OF inv poll(2)]) (simp_all add: f)
  then show ?thesis by (simp add: poll(1) becomes_def)
next
  case (act i x acts)
  have "lf_last (lv_feed s) = last_after 0 (lv_log s)" using inv by (simp add: live_inv_def)
  then have "live_inv net ((becomes s i (Polling acts) (run_act x (lv_feed s)))
      \<lparr>lv_log := lv_log s @ [x], lv_answers := lv_answers s\<rparr>)"
    using pending_at [OF inv act(2)] by (intro inv_loop [OF inv act(2)]) simp_all
  then show ?thesis by (simp add: act(1) becomes_def)
next
  case (sleep i)
  have "lf_last (lv_feed s) = last_after 0 (lv_log s)" using inv by (simp add: live_inv_def)
  then have "live_inv net ((becomes s i Loop (lv_feed s))\<lparr>lv_log := lv_log s, lv_answers := lv_answers s\<rparr>)"
    using pending_at [OF inv sleep(2)] by (intro inv_loop [OF inv sleep(2)]) simp_all
  then show ?thesis by (simp add: sleep(1) becomes_def)
qed

lemma live_reach_inv: "live_reach net s \<Longrightarrow> live_inv net s"
proof (induction rule: live_reach.induct)
  case init
  show ?case
    by (simp add: live_inv_def live_init_def new_feed_def pollers_def pending_def thread_at_def)
next
  case (step s s')
  then show ?case using live_inv_step by blast
qed

lemma stretches_prefix: "ys \<in> set (stretches cur xs) \<Longrightarrow> \<exists>zs. ys @ zs \<in> set (stretches cur (xs @ rest))"
proof (induction cur xs rule: stretches.induct)
  case (1 cur)
  have "\<exists>zs. cur @ zs \<in> set (stretches cur rest)"
  proof (induction cur rest rule: stretches.induct)
    case (2 cur h acts)
    show ?case by (rule exI [of _ "[]"]) simp
  qed (fastforce intro: exI [of _ "[]"])+
  with 1 show ?case by simp
qed auto

lemma in_order_prefix: "in_order (xs @ ys) \<Longrightarrow> in_order xs"
  by (simp add: in_order_def sorted_wrt_append sorted_append)

section \<open>Properties\<close>

text \<open>C14. Whatever the order in which browsers come and go, there is never more than one
  polling loop for a feed, a listener that has finished subscribing always has one, and
  the loop that ends leaves nobody registered behind.\<close>
theorem every_listener_has_the_one_loop:
  assumes "live_reach net s"
  shows "pollers s \<le> 1 \<and>
    (\<forall>i. thread_at s i Reading \<longrightarrow> i \<in> set (lf_clients (lv_feed s)) \<and> pollers s = 1)"
  using live_reach_inv [OF assms]
  by (auto simp: live_inv_def listening_def thread_at_def)

text \<open>C15. As long as the indexer answers its range queries in ascending order, every stretch
  of the feed between two resets of the chain carries each block once and by ascending
  height, and its transactions by ascending height and none twice, however polls fail,
  overlap with subscriptions or skip ahead.\<close>
theorem feed_is_in_order:
  assumes "live_reach net s" "\<forall>a \<in> set (lv_answers s). ascending a"
    "ys \<in> set (stretches [] (lv_log s))"
  shows "sorted_wrt (<) (map fb_height (blocks_sent ys)) \<and> sorted (map ft_height (txs_sent ys)) \<and>
    distinct (txs_sent ys)"
proof -
  have log: "lv_log s @ pending s = polls net 0 (lv_answers s)"
    using live_reach_inv [OF assms(1)] by (simp add: live_inv_def)
  obtain zs where "ys @ zs \<in> set (stretches [] (lv_log s @ pending s))"
    using stretches_prefix [OF assms(3)] by blast
  then have "in_order (ys @ zs)"
    using polls_in_order [OF assms(2), of "[]" 0 "ys @ zs" net] unfolding log
    by (simp add: in_order_def below_def)
  then have "in_order ys" by (rule in_order_prefix)
  then show ?thesis by (simp add: in_order_def)
qed

text \<open>C16. When the blocks of a poll were read but its query for transactions failed, the
  blocks are sent, and the transactions in them never are by any later poll on the same
  chain: the height reached has moved past them.\<close>
theorem failed_query_loses_the_transactions:
  assumes "0 < l" "l < h" "h - l \<le> maxLiveCatchup"
    and "an_height a = Some h" "an_blocks a (l + 1) h = Some bs" "an_txs a l = None"
    and "b \<in> set bs" "l < fb_height b" "fb_height b \<le> h"
    and "steady (polls net (last_after l (pollStep net l a)) as)"
    and "ft_height t = fb_height b"
  shows "Send (Block_sent net b) \<in> set (pollStep net l a) \<and>
    Send (Tx_sent n t) \<notin> set (polls net l (a # as))"
proof -
  obtain acts tip where acts: "block_acts net l h bs l = (acts, tip)" by fastforce
  note spec = block_acts_spec [OF acts]
  have step: "pollStep net l a = acts"
    using assms(1-6) acts by (simp add: pollStep_def catch_up_def)
  have b: "b \<in> set (blocks_sent acts)" using spec assms(7-9) by simp
  have "above (last_after l (pollStep net l a)) (polls net (last_after l (pollStep net l a)) as)"
    using assms(10) by (rule steady_polls_above)
  moreover have "ft_height t \<le> tip" "last_after l acts = tip" "txs_sent acts = []"
    using spec b assms(11) by auto
  ultimately have "t \<notin> set (txs_sent (polls net l (a # as)))"
    using step by (auto simp: above_def)
  moreover have "Send (Block_sent net b) \<in> set acts"
    using b block_acts_network [OF acts] by (auto simp: set_blocks_sent)
  ultimately show ?thesis using step by (simp add: set_txs_sent del: polls.simps)
qed

text \<open>After a poll that saw the chain start over at a lower height, a browser that
  subscribes is sent the new height and then the tail of the old chain.\<close>
theorem reset_replays_the_old_chain:
  assumes "0 < h" "h < lf_last f" "an_height a = Some h"
    and "length (lf_recent f) \<le> liveReplay" "lf_chans f ch = []" "ch \<notin> set (lf_clients f)"
  shows "lf_chans (replay ch (register ch (fold run_act (pollStep (lf_network f) (lf_last f) a) f))) ch
    = Tip (lf_network f) h # lf_recent f"
proof -
  have "pollStep (lf_network f) (lf_last f) a = [Set_last h, Announce h]"
    using assms(1-3) by (simp add: pollStep_def catch_up_def)
  then show ?thesis
    using assms by (simp add: replay_def register_def broadcastTip_def fan_out_def replay_to_fresh
        liveReplay_def feed_buffer_def)
qed

section \<open>Witnesses\<close>

definition block_five :: feed_block where "block_five = \<lparr>fb_height = 5, fb_data = ''five''\<rparr>"

definition tip_at :: "int \<Rightarrow> feed_block list \<Rightarrow> answers" where
  "tip_at h bs = \<lparr>an_height = Some h, an_blocks = (\<lambda>_ _. Some bs), an_txs = (\<lambda>_. None)\<rparr>"

text \<open>A browser subscribes, the loop starts, and two polls see the chain at 4 and at 5.\<close>

definition watched :: live where
  "watched = \<lparr>lv_feed = \<lparr>lf_network = ''n'', lf_clients = [0], lf_running = True, lf_last = 5,
       lf_recent = [Block_sent ''n'' block_five],
       lf_chans = (\<lambda>_. [])(0 := [Tip ''n'' 4, Block_sent ''n'' block_five])\<rparr>,
     lv_threads = [Reading, Polling []],
     lv_log = [Set_last 4, Announce 4, Send (Block_sent ''n'' block_five), Set_last 5],
     lv_answers = [tip_at 4 [], tip_at 5 [block_five]]\<rparr>"

definition one_listener ::
  "bool \<Rightarrow> int \<Rightarrow> feed_event list \<Rightarrow> feed_event list \<Rightarrow> feed_thread list \<Rightarrow> poll_act list \<Rightarrow> answers list \<Rightarrow> live" where
  "one_listener running l recent q ts acts as =
     \<lparr>lv_feed = \<lparr>lf_network = ''n'', lf_clients = [0], lf_running = running, lf_last = l,
        lf_recent = recent, lf_chans = (\<lambda>_. [])(0 := q)\<rparr>,
      lv_threads = ts, lv_log = acts, lv_answers = as\<rparr>"

lemma fan_out_one:
  "length q < feed_buffer \<Longrightarrow> fan_out e [0] ((\<lambda>_. [])(0 := q)) = (\<lambda>_. [])(0 := q @ [e])"
  by (rule ext) (simp add: fan_out_def try_send_def)

lemmas one_step = one_listener_def thread_at_def becomes_def

lemma watched_reachable: "live_reach ''n'' watched"
proof -
  let ?b = "Block_sent ''n'' block_five"
  have 1: "live_reach ''n'' ((live_init ''n'')\<lparr>lv_threads := [Registering]\<rparr>)"
    using live_reach.step [OF live_reach.init live_step.arrive] by (simp add: live_init_def)
  have 2: "live_reach ''n'' (one_listener False 0 [] [] [Replaying] [] [])"
    using live_reach.step [OF 1 live_step.register [of _ 0]]
    by (simp add: one_step live_init_def new_feed_def register_def fun_upd_idem)
  have 3: "live_reach ''n'' (one_listener False 0 [] [] [Ensuring] [] [])"
    using live_reach.step [OF 2 live_step.replay [of _ 0]]
    by (simp add: one_step replay_def replay_to_def)
  have 4: "live_reach ''n'' (one_listener True 0 [] [] [Reading, Loop] [] [])"
    using live_reach.step [OF 3 live_step.ensure [of _ 0]] by (simp add: one_step ensureRunning_def)
  have 5: "live_reach ''n'' (one_listener True 0 [] []
      [Reading, Polling [Set_last 4, Announce 4]] [] [tip_at 4 []])"
    using live_reach.step [OF 4 live_step.poll [of _ 1 _ "tip_at 4 []"]]
    by (simp add: one_step stopIfIdle_def pollStep_def tip_at_def catch_up_def)
  have 6: "live_reach ''n'' (one_listener True 4 [] []
      [Reading, Polling [Announce 4]] [Set_last 4] [tip_at 4 []])"
    using live_reach.step [OF 5 live_step.act [of _ 1]] by (simp add: one_step)
  have 7: "live_reach ''n'' (one_listener True 4 [] [Tip ''n'' 4]
      [Reading, Polling []] [Set_last 4, Announce 4] [tip_at 4 []])"
    using live_reach.step [OF 6 live_step.act [of _ 1]]
    by (simp add: one_step broadcastTip_def tipEvent_def fan_out_one feed_buffer_def)
  have 8: "live_reach ''n'' (one_listener True 4 [] [Tip ''n'' 4]
      [Reading, Loop] [Set_last 4, Announce 4] [tip_at 4 []])"
    using live_reach.step [OF 7 live_step.sleep [of _ 1]] by (simp add: one_step)
  have 9: "live_reach ''n'' (one_listener True 4 [] [Tip ''n'' 4]
      [Reading, Polling [Send ?b, Set_last 5]] [Set_last 4, Announce 4] [tip_at 4 [], tip_at 5 [block_five]])"
    using live_reach.step [OF 8 live_step.poll [of _ 1 _ "tip_at 5 [block_five]"]]
    by (simp add: one_step stopIfIdle_def pollStep_def tip_at_def catch_up_def block_five_def maxLiveCatchup_def)
  have 10: "live_reach ''n'' (one_listener True 4 [?b] [Tip ''n'' 4, ?b]
      [Reading, Polling [Set_last 5]] [Set_last 4, Announce 4, Send ?b] [tip_at 4 [], tip_at 5 [block_five]])"
    using live_reach.step [OF 9 live_step.act [of _ 1]]
    by (simp add: one_step broadcast_def liveReplay_def fan_out_one feed_buffer_def Let_def)
  show ?thesis
    using live_reach.step [OF 10 live_step.act [of _ 1]] by (simp add: one_step watched_def)
qed

lemma every_listener_has_the_one_loop_witness: "pollers watched = 1"
proof -
  have "thread_at watched 0 Reading" by (simp add: thread_at_def watched_def)
  then show ?thesis using every_listener_has_the_one_loop [OF watched_reachable] by blast
qed

lemma feed_is_in_order_witness:
  "stretches [] (lv_log watched) = [[Set_last 4], [Send (Block_sent ''n'' block_five), Set_last 5]] \<and>
   sorted_wrt (<) (map fb_height (blocks_sent [Send (Block_sent ''n'' block_five), Set_last 5]))"
proof -
  have s: "stretches [] (lv_log watched) = [[Set_last 4], [Send (Block_sent ''n'' block_five), Set_last 5]]"
    by (simp add: watched_def)
  moreover have "\<forall>a \<in> set (lv_answers watched). ascending a"
    by (simp add: watched_def ascending_def tip_at_def)
  ultimately show ?thesis using feed_is_in_order [OF watched_reachable] by simp
qed

definition lost_tx :: feed_tx where "lost_tx = \<lparr>ft_height = 5, ft_data = ''t''\<rparr>"

text \<open>The next poll, at height 6, is answered in full, with the transaction of height 5.\<close>

definition later_answers :: answers where
  "later_answers = \<lparr>an_height = Some 6, an_blocks = (\<lambda>_ _. Some [\<lparr>fb_height = 6, fb_data = ''''\<rparr>]),
     an_txs = (\<lambda>_. Some [lost_tx])\<rparr>"

lemma failed_query_loses_the_transactions_witness:
  "Send (Tx_sent ''n'' lost_tx) \<notin> set (polls ''n'' 4 [tip_at 5 [block_five], later_answers])"
proof -
  have "pollStep ''n'' 4 (tip_at 5 [block_five]) = [Send (Block_sent ''n'' block_five), Set_last 5]"
    by (simp add: pollStep_def tip_at_def catch_up_def block_five_def maxLiveCatchup_def)
  moreover have "steady (polls ''n'' 5 [later_answers])"
    by (simp add: pollStep_def later_answers_def catch_up_def maxLiveCatchup_def tx_acts_def lost_tx_def steady_def)
  ultimately show ?thesis
    using failed_query_loses_the_transactions [of 4 5 "tip_at 5 [block_five]" "[block_five]" block_five "''n''"
        "[later_answers]" lost_tx "''n''"]
    by (simp add: maxLiveCatchup_def tip_at_def block_five_def lost_tx_def del: polls.simps)
qed

lemma reset_replays_the_old_chain_witness:
  "lf_chans (replay 1 (register 1 (fold run_act (pollStep ''n'' 5 (tip_at 2 [])) (lv_feed watched)))) 1
    = [Tip ''n'' 2, Block_sent ''n'' block_five]"
  using reset_replays_the_old_chain [of 2 "lv_feed watched" "tip_at 2 []" 1]
  by (simp add: watched_def tip_at_def liveReplay_def)

end
