(* ===== verification/Traffic_Log.thy ===== *)
theory Traffic_Log
  imports Traffic_Classify "HOL-Library.Multiset"
begin

text \<open>
  The access log: the row that \<^verbatim>\<open>WithAccessLog\<close> of \<^verbatim>\<open>pkg/httpapi/api_traffic.go\<close> builds from a
  request, the daily key behind visitor ids (\<^verbatim>\<open>pkg/traffic/visitor.go\<close>), and the store that
  buffers rows and writes them in batches (\<^verbatim>\<open>pkg/traffic/traffic.go\<close>). Times are seconds since
  the epoch and a day is its number, which stands for its name \<^verbatim>\<open>2006-01-02\<close>; durations are
  microseconds.
\<close>

section \<open>Visitors\<close>

text \<open>\<^term>\<open>None\<close> is the day of a rotator that has no key yet, and a key that was not minted.\<close>

record salt =
  sl_day :: "int option"
  sl_key :: "string option"

definition newSaltRotator :: salt where
  "newSaltRotator = \<lparr>sl_day = None, sl_key = None\<rparr>"

definition day_of :: "int \<Rightarrow> int" where "day_of t = t div 86400"

definition hour_of :: "int \<Rightarrow> int" where "hour_of t = t mod 86400 div 3600"

text \<open>\<open>rand\<close> is what \<^verbatim>\<open>crypto/rand\<close> would answer now: 32 bytes, or \<^term>\<open>None\<close> for an error.\<close>

definition keyFor :: "string option \<Rightarrow> int \<Rightarrow> salt \<Rightarrow> string option \<times> salt" where
  "keyFor rand now s =
     (if sl_day s \<noteq> Some (day_of now) \<or> sl_key s = None
      then (rand, s\<lparr>sl_day := Some (day_of now), sl_key := rand\<rparr>)
      else (sl_key s, s))"

text \<open>\<open>mac\<close> is the keyed hash in hexadecimal.\<close>

definition visitor ::
  "(string \<Rightarrow> string \<Rightarrow> string) \<Rightarrow> string option \<Rightarrow> string \<Rightarrow> string \<Rightarrow> int \<Rightarrow> salt \<Rightarrow> string \<times> salt" where
  "visitor mac rand ip ua now s =
     (case keyFor rand now s of
        (None, s') \<Rightarrow> ([], s')
      | (Some key, s') \<Rightarrow> (if ip = [] then [] else take 16 (mac key (ip @ [CHR 0x00] @ ua)), s'))"

section \<open>Rows\<close>

record traffic_row =
  tr_at :: int
  tr_visitor :: string
  tr_host :: string
  tr_entity_kind :: entity_kind
  tr_entity :: string
  tr_page_kind :: string
  tr_method :: string
  tr_route :: string
  tr_target :: string
  tr_network :: string
  tr_kind :: string
  tr_tool :: string
  tr_status :: int
  tr_bytes :: int
  tr_dur :: int
  tr_app :: int
  tr_cache :: string
  tr_ref :: string
  tr_client :: string
  tr_robot :: bool

text \<open>
  What the middleware sees: the request with the pattern it matched, and what the handlers
  behind it wrote. The referer is already reduced.
\<close>

record served_request =
  sr_start :: int
  sr_method :: string
  sr_pattern :: string
  sr_path :: string
  sr_viewed :: string
  sr_network :: string
  sr_host :: string
  sr_agent :: string
  sr_tool :: string
  sr_status :: int
  sr_bytes :: int
  sr_dur :: int
  sr_app :: int
  sr_content :: string
  sr_cache :: string
  sr_ref :: string

definition requestHost :: "string \<Rightarrow> string" where
  "requestHost h =
     (if h = [] then []
      else let port = after_last CHR '':'' h; i = length h - length port - 1;
               h' = (if CHR '':'' \<in> set h \<and> 0 < i \<and> CHR '']'' \<notin> set port then take i h else h)
           in to_lower (trim_suffix h' ''.''))"

text \<open>The names of the tools an MCP request called: the first, and a mark for more.\<close>

definition NoteMCPTool :: "string \<Rightarrow> string \<Rightarrow> string" where
  "NoteMCPTool name tool =
     (if tool = [] then name else if \<not> has_suffix tool ''+'' then tool @ ''+'' else tool)"

definition page_view :: "string \<Rightarrow> string \<Rightarrow> string \<Rightarrow> string \<Rightarrow> string \<Rightarrow> string \<times> (entity_kind \<times> string) \<times> string" where
  "page_view route kind path viewed target =
     (if route = PageViewPath then (PageTarget viewed, Entity viewed, PageKind viewed)
      else if route = SPARoute \<and> kind = ''document'' then (PageTarget path, (EntityNone, []), [])
      else (target, (EntityNone, []), []))"

definition access_row :: "string \<Rightarrow> string \<Rightarrow> served_request \<Rightarrow> traffic_row" where
  "access_row mcp vis r =
     (let (route, target0) = SplitPattern (sr_pattern r) (sr_path r);
          kind0 = Kind route (sr_path r) mcp;
          (target, entity0, page0) = page_view route kind0 (sr_path r) (sr_viewed r) target0;
          kind1 = (if has_prefix (sr_content r) ''text/event-stream'' then ''stream'' else kind0);
          (kind, entity, page) =
            (if IsProbe (sr_path r) then (''probe'', (EntityNone, []), []) else (kind1, entity0, page0));
          client = ClientClass (sr_agent r)
      in \<lparr>tr_at = sr_start r, tr_visitor = vis, tr_host = requestHost (sr_host r),
          tr_entity_kind = fst entity, tr_entity = snd entity, tr_page_kind = page,
          tr_method = sr_method r, tr_route = route, tr_target = target, tr_network = sr_network r,
          tr_kind = kind, tr_tool = sr_tool r,
          tr_status = (if sr_status r = 0 then 200 else sr_status r), tr_bytes = sr_bytes r,
          tr_dur = sr_dur r, tr_app = sr_app r, tr_cache = sr_cache r, tr_ref = sr_ref r,
          tr_client = client, tr_robot = (client = ''bot'')\<rparr>)"

section \<open>The store\<close>

definition bufferLimit :: nat where "bufferLimit = 50000"

text \<open>
  The buffer, the two counters, the table on disk and the flushes under way: a batch taken
  out of the buffer, or written and not yet counted, or done with.
\<close>

datatype flush = Taken "traffic_row list" | Counting nat | Flushed

record log_store =
  ls_retention :: int
  ls_buf :: "traffic_row list"
  ls_dropped :: nat
  ls_written :: nat
  ls_table :: "traffic_row list"
  ls_flushes :: "flush list"

definition Open :: "int \<Rightarrow> traffic_row list \<Rightarrow> log_store" where
  "Open retention rows = \<lparr>ls_retention = retention, ls_buf = [], ls_dropped = 0, ls_written = 0,
     ls_table = rows, ls_flushes = []\<rparr>"

definition Record :: "traffic_row \<Rightarrow> log_store \<Rightarrow> log_store" where
  "Record r s =
     (if bufferLimit \<le> length (ls_buf s) then s\<lparr>ls_dropped := ls_dropped s + 1\<rparr>
      else s\<lparr>ls_buf := ls_buf s @ [r]\<rparr>)"

text \<open>
  A flush takes the buffer, writes it in one transaction, which succeeds or fails as a
  whole, and counts what it wrote.
\<close>

definition take_buffer :: "log_store \<Rightarrow> log_store" where
  "take_buffer s =
     (if ls_buf s = [] then s
      else s\<lparr>ls_buf := [], ls_flushes := ls_flushes s @ [Taken (ls_buf s)]\<rparr>)"

definition write_batch :: "bool \<Rightarrow> nat \<Rightarrow> traffic_row list \<Rightarrow> log_store \<Rightarrow> log_store" where
  "write_batch ok i batch s =
     (if ok
      then s\<lparr>ls_table := ls_table s @ batch, ls_flushes := (ls_flushes s)[i := Counting (length batch)]\<rparr>
      else s\<lparr>ls_flushes := (ls_flushes s)[i := Flushed]\<rparr>)"

definition count_written :: "nat \<Rightarrow> nat \<Rightarrow> log_store \<Rightarrow> log_store" where
  "count_written i n s =
     s\<lparr>ls_written := ls_written s + n, ls_flushes := (ls_flushes s)[i := Flushed]\<rparr>"

definition Prune :: "int \<Rightarrow> log_store \<Rightarrow> log_store" where
  "Prune now s =
     (if ls_retention s \<le> 0 then s
      else s\<lparr>ls_table := filter (\<lambda>r. day_of now - ls_retention s \<le> day_of (tr_at r)) (ls_table s)\<rparr>)"

record log_stats =
  st_buffered :: nat
  st_written :: nat
  st_dropped :: nat
  st_retention :: int

definition Stats :: "log_store \<Rightarrow> log_stats" where
  "Stats s = \<lparr>st_buffered = length (ls_buf s), st_written = ls_written s,
     st_dropped = ls_dropped s, st_retention = ls_retention s\<rparr>"

text \<open>What can be seen to happen to a store: a row is handed over and finds room or not, a
  transaction for a batch commits or fails, the table is pruned.\<close>

datatype log_event =
    Accepted traffic_row
  | Refused traffic_row
  | Took
  | Committed "traffic_row list"
  | Failed "traffic_row list"
  | Counted
  | Pruned int

inductive log_step :: "log_store \<Rightarrow> log_event \<Rightarrow> log_store \<Rightarrow> bool" where
  record_row: "log_step s (if length (ls_buf s) < bufferLimit then Accepted r else Refused r) (Record r s)"
| take_rows: "log_step s Took (take_buffer s)"
| write_rows: "i < length (ls_flushes s) \<Longrightarrow> ls_flushes s ! i = Taken batch \<Longrightarrow>
    log_step s (if ok then Committed batch else Failed batch) (write_batch ok i batch s)"
| count_rows: "i < length (ls_flushes s) \<Longrightarrow> ls_flushes s ! i = Counting n \<Longrightarrow>
    log_step s Counted (count_written i n s)"
| prune_rows: "log_step s (Pruned now) (Prune now s)"

inductive_cases log_stepE: "log_step s e s'"

inductive log_run :: "log_store \<Rightarrow> log_event list \<Rightarrow> log_store \<Rightarrow> bool" for s where
  start: "log_run s [] s"
| step: "log_run s es s' \<Longrightarrow> log_step s' e s'' \<Longrightarrow> log_run s (es @ [e]) s''"

section \<open>The schema\<close>

definition addedColumns :: "string list" where
  "addedColumns = [''host'', ''entity_kind'', ''entity'', ''page_kind'']"

text \<open>The columns to add to a table that has these; a table without columns does not exist yet.\<close>

definition migrateAddColumns :: "string list \<Rightarrow> string list" where
  "migrateAddColumns have = (if have = [] then [] else filter (\<lambda>c. c \<notin> set have) addedColumns)"

definition reclassify :: "traffic_row \<Rightarrow> traffic_row" where
  "reclassify r = (if tr_kind r = ''page'' \<and> tr_page_kind r = [] then r\<lparr>tr_kind := ''document''\<rparr> else r)"

definition reclassifyPreBeaconPages :: "traffic_row list \<Rightarrow> traffic_row list" where
  "reclassifyPreBeaconPages rows = map reclassify rows"

end
