(* ===== verification/Traffic_Safety.thy ===== *)
theory Traffic_Safety
  imports Traffic_Log
begin

text \<open>
  What the access log of \<^verbatim>\<open>Traffic_Log\<close> keeps: who is counted once, which rows are well formed,
  and that no row is written twice or lost without a trace in the model.
\<close>

section \<open>Visitors\<close>

text \<open>The ids of a sequence of requests: what \<^verbatim>\<open>crypto/rand\<close> has, the address, the agent, the start.\<close>

fun visitors ::
  "(string \<Rightarrow> string \<Rightarrow> string) \<Rightarrow> (string option \<times> string \<times> string \<times> int) list \<Rightarrow> salt \<Rightarrow> string list" where
  "visitors mac [] s = []"
| "visitors mac ((rand, ip, ua, now) # rs) s =
     (case visitor mac rand ip ua now s of (v, s') \<Rightarrow> v # visitors mac rs s')"

abbreviation day_at :: "(string option \<times> string \<times> string \<times> int) list \<Rightarrow> nat \<Rightarrow> int" where
  "day_at rs i \<equiv> day_of (snd (snd (snd (rs ! i))))"

lemma visitor_key:
  "visitor mac rand ip ua now s = (v, s') \<Longrightarrow> rand \<noteq> None \<Longrightarrow>
   \<exists>key. sl_key s' = Some key \<and> sl_day s' = Some (day_of now) \<and>
     v = (if ip = [] then [] else take 16 (mac key (ip @ [CHR 0x00] @ ua))) \<and>
     (sl_day s = Some (day_of now) \<and> sl_key s \<noteq> None \<longrightarrow> s' = s)"
  by (auto simp: visitor_def keyFor_def split: if_splits option.splits)

lemma visitors_from_key:
  assumes "sl_day s = Some d" "sl_key s = Some key" "j < length rs"
    and "\<forall>i \<le> j. day_at rs i = d" "\<forall>r \<in> set rs. fst r \<noteq> None"
  shows "visitors mac rs s ! j = (case rs ! j of (rand, ip, ua, now) \<Rightarrow>
    if ip = [] then [] else take 16 (mac key (ip @ [CHR 0x00] @ ua)))"
  using assms
proof (induction rs arbitrary: j)
  case (Cons r rs)
  obtain rand ip ua now where r: "r = (rand, ip, ua, now)" by (cases r)
  obtain v s' where vs: "visitor mac rand ip ua now s = (v, s')" by fastforce
  have "day_of now = d" using Cons.prems(4) r by (metis le0 nth_Cons_0 snd_conv)
  then have here: "s' = s" "v = (if ip = [] then [] else take 16 (mac key (ip @ [CHR 0x00] @ ua)))"
    using visitor_key [OF vs] Cons.prems(1,2,5) r by auto
  show ?case
  proof (cases j)
    case 0
    then show ?thesis using r vs here by simp
  next
    case (Suc k)
    have "\<forall>i \<le> k. day_at rs i = d" using Cons.prems(4) Suc by auto
    then have "visitors mac rs s ! k = (case rs ! k of (rand, ip, ua, now) \<Rightarrow>
        if ip = [] then [] else take 16 (mac key (ip @ [CHR 0x00] @ ua)))"
      using Cons.IH Cons.prems Suc by simp
    then show ?thesis using r vs here Suc by simp
  qed
qed simp

lemma visitors_first:
  assumes "j < length rs" "\<forall>i \<le> j. day_at rs i = day_at rs 0" "\<forall>r \<in> set rs. fst r \<noteq> None"
  shows "\<exists>key. \<forall>i \<le> j. visitors mac rs s ! i = (case rs ! i of (rand, ip, ua, now) \<Rightarrow>
    if ip = [] then [] else take 16 (mac key (ip @ [CHR 0x00] @ ua)))"
proof (cases rs)
  case (Cons r rs')
  obtain rand ip ua now where r: "r = (rand, ip, ua, now)" by (cases r)
  obtain v s' where vs: "visitor mac rand ip ua now s = (v, s')" by fastforce
  obtain key where key: "sl_key s' = Some key" "sl_day s' = Some (day_of now)"
    "v = (if ip = [] then [] else take 16 (mac key (ip @ [CHR 0x00] @ ua)))"
    using visitor_key [OF vs] assms(3) Cons r by auto
  show ?thesis
  proof (rule exI [of _ key], intro allI impI)
    fix i
    assume i: "i \<le> j"
    show "visitors mac rs s ! i = (case rs ! i of (rand, ip, ua, now) \<Rightarrow>
        if ip = [] then [] else take 16 (mac key (ip @ [CHR 0x00] @ ua)))"
    proof (cases i)
      case 0
      then show ?thesis using Cons r vs key by simp
    next
      case (Suc k)
      have "day_at rs' m = day_of now" if "m \<le> k" for m
        using assms(2) [rule_format, of "Suc m"] Cons r Suc i that by simp
      then have "visitors mac rs' s' ! k = (case rs' ! k of (rand, ip, ua, now) \<Rightarrow>
          if ip = [] then [] else take 16 (mac key (ip @ [CHR 0x00] @ ua)))"
        using visitors_from_key [OF key(2,1), of k rs'] assms(1,3) Cons Suc i by simp
      then show ?thesis using Cons r vs Suc by simp
    qed
  qed
qed (use assms in simp)

lemma visitors_drop: "\<exists>s'. drop i (visitors mac rs s) = visitors mac (drop i rs) s'"
proof (induction i arbitrary: rs s)
  case (Suc i)
  show ?case
  proof (cases rs)
    case (Cons r rs')
    obtain rand ip ua now where "r = (rand, ip, ua, now)" by (cases r)
    then show ?thesis using Suc.IH [of rs'] Cons by (auto split: prod.split)
  qed simp
qed auto

lemma visitors_length [simp]: "length (visitors mac rs s) = length rs"
  by (induction mac rs s rule: visitors.induct) (auto split: prod.split)

text \<open>Two requests of one client get one id when every request recorded from the first to
  the second started on the same UTC day and random bytes could be had.\<close>
theorem one_id_within_a_day:
  assumes "i \<le> j" "j < length rs" "\<forall>k. i \<le> k \<and> k \<le> j \<longrightarrow> day_at rs k = day_at rs i"
    and "\<forall>r \<in> set rs. fst r \<noteq> None"
    and "rs ! i = (rand, ip, ua, now)" "rs ! j = (rand', ip, ua, now')"
  shows "visitors mac rs s ! i = visitors mac rs s ! j"
proof -
  obtain s' where tail: "drop i (visitors mac rs s) = visitors mac (drop i rs) s'"
    using visitors_drop by blast
  have "day_at (drop i rs) k = day_at (drop i rs) 0" if "k \<le> j - i" for k
    using assms(1,2) assms(3) [rule_format, of "i + k"] that by simp
  moreover have "\<forall>r \<in> set (drop i rs). fst r \<noteq> None" using assms(4) by (meson in_set_dropD)
  moreover have "j - i < length (drop i rs)" using assms(1,2) by simp
  ultimately obtain key where key: "\<forall>k \<le> j - i. visitors mac (drop i rs) s' ! k =
      (case drop i rs ! k of (rand, ip, ua, now) \<Rightarrow>
        if ip = [] then [] else take 16 (mac key (ip @ [CHR 0x00] @ ua)))"
    using visitors_first by blast
  have "visitors mac rs s ! (i + k) = visitors mac (drop i rs) s' ! k" if "k \<le> j - i" for k
    using tail assms(1,2) that by (metis add_leD1 le_add_diff_inverse less_imp_le_nat nth_drop visitors_length le_trans)
  then show ?thesis
    using key [rule_format, of 0] key [rule_format, of "j - i"] assms(1,2,5,6)
    by (metis (no_types, lifting) add.right_neutral case_prod_conv le_add_diff_inverse le0 le_refl less_imp_le_nat nth_drop le_trans)
qed

text \<open>A request is recorded when it is answered, under the day it started. One that started
  before midnight and is answered after the first of the new day throws away the key of
  the new day: the next request of the same client gets a third key, so a client that is
  there on both sides of midnight is counted again within one day.\<close>
theorem late_request_changes_the_key_of_the_day:
  assumes "day_of t2 = day_of t1 - 1" "day_of t3 = day_of t1" "ip \<noteq> []"
  shows "visitors mac [(Some k1, ip, ua, t1), (Some k2, ip2, ua2, t2), (Some k3, ip, ua, t3)] newSaltRotator ! 0
      = take 16 (mac k1 (ip @ [CHR 0x00] @ ua)) \<and>
    visitors mac [(Some k1, ip, ua, t1), (Some k2, ip2, ua2, t2), (Some k3, ip, ua, t3)] newSaltRotator ! 2
      = take 16 (mac k3 (ip @ [CHR 0x00] @ ua))"
  using assms by (simp add: visitor_def keyFor_def newSaltRotator_def)

definition demo_mac :: "string \<Rightarrow> string \<Rightarrow> string" where
  "demo_mac key s = key @ s"

definition demo_visits :: "(string option \<times> string \<times> string \<times> int) list" where
  "demo_visits = [(Some ''k'', ''1.2.3.4'', ''Go'', 86400), (Some ''l'', ''5.6.7.8'', ''Go'', 90000),
     (Some ''m'', ''1.2.3.4'', ''Go'', 100000)]"

lemma one_id_within_a_day_witness:
  "visitors demo_mac demo_visits newSaltRotator ! 0 = visitors demo_mac demo_visits newSaltRotator ! 2"
proof -
  have "day_at demo_visits k = day_at demo_visits 0" if "0 \<le> k \<and> k \<le> 2" for k
  proof -
    have "k = 0 \<or> k = 1 \<or> k = 2" using that by auto
    then show ?thesis by (auto simp: demo_visits_def day_of_def)
  qed
  then show ?thesis
    by (intro one_id_within_a_day [where ip = "''1.2.3.4''" and ua = "''Go''"])
      (auto simp: demo_visits_def)
qed

lemma late_request_changes_the_key_of_the_day_witness:
  "visitors demo_mac [(Some ''k'', ''1.2.3.4'', ''Go'', 86400), (Some ''l'', ''5.6.7.8'', ''Go'', 86399),
     (Some ''m'', ''1.2.3.4'', ''Go'', 86401)] newSaltRotator ! 0 \<noteq>
   visitors demo_mac [(Some ''k'', ''1.2.3.4'', ''Go'', 86400), (Some ''l'', ''5.6.7.8'', ''Go'', 86399),
     (Some ''m'', ''1.2.3.4'', ''Go'', 86401)] newSaltRotator ! 2"
  using late_request_changes_the_key_of_the_day
    [of 86399 86400 86401 "''1.2.3.4''" demo_mac "''k''" "''Go''" "''l''" "''5.6.7.8''" "''Go''" "''m''"]
  by (simp add: day_of_def demo_mac_def)

section \<open>Rows\<close>

definition row_kinds :: "string list" where
  "row_kinds = [''page'', ''mcp'', ''badge'', ''api'', ''asset'', ''document'', ''stream'', ''probe'']"

definition row_ok :: "traffic_row \<Rightarrow> bool" where
  "row_ok r \<longleftrightarrow> tr_kind r \<in> set row_kinds \<and> length (tr_target r) \<le> maxTargetLen + 3 \<and>
     length (tr_entity r) \<le> maxTargetLen + 3 \<and>
     (tr_kind r = ''page'' \<longrightarrow> tr_page_kind r \<noteq> []) \<and>
     (tr_kind r = ''probe'' \<longrightarrow> tr_page_kind r = [] \<and> tr_entity r = []) \<and>
     (tr_robot r \<longleftrightarrow> tr_client r = ''bot'') \<and> 0 < length (tr_route r)"

lemma entity_id_length: "length (snd (entity_id kind n rest)) \<le> maxTargetLen + 3"
  using clip_target_length by (auto simp: entity_id_def Let_def)

lemma Entity_length: "length (snd (Entity path)) \<le> maxTargetLen + 3"
proof -
  have "length (snd (first_entity routes path)) \<le> maxTargetLen + 3" for routes
    by (induction routes path rule: first_entity.induct) (auto split: option.split simp: entity_id_length)
  then show ?thesis by (simp add: Entity_def)
qed

lemma route_nonempty: "route_of pattern \<noteq> []"
  by (simp add: route_of_def Let_def)

lemma Kind_kinds: "Kind route path mcp \<in> set row_kinds"
  by (simp add: Kind_def row_kinds_def)

lemma access_row_eqs:
  "tr_route (access_row mcp vis r) = route_of (sr_pattern r)"
  "tr_kind (access_row mcp vis r) =
    (if IsProbe (sr_path r) then ''probe''
     else if has_prefix (sr_content r) ''text/event-stream'' then ''stream''
     else Kind (route_of (sr_pattern r)) (sr_path r) mcp)"
  "tr_page_kind (access_row mcp vis r) =
    (if \<not> IsProbe (sr_path r) \<and> route_of (sr_pattern r) = PageViewPath then PageKind (sr_viewed r) else [])"
  "tr_entity (access_row mcp vis r) =
    (if \<not> IsProbe (sr_path r) \<and> route_of (sr_pattern r) = PageViewPath then snd (Entity (sr_viewed r)) else [])"
  "tr_client (access_row mcp vis r) = ClientClass (sr_agent r)"
  "tr_robot (access_row mcp vis r) = (ClientClass (sr_agent r) = ''bot'')"
  using SplitPattern_route [of "sr_pattern r" "sr_path r"]
  by (auto simp: access_row_def page_view_def Let_def split: prod.split)

lemma access_row_target: "length (tr_target (access_row mcp vis r)) \<le> maxTargetLen + 3"
  using SplitPattern_target_length [of "sr_pattern r" "sr_path r"] PageTarget_length
  by (auto simp: access_row_def page_view_def Let_def split: prod.split)

lemma access_row_ok: "row_ok (access_row mcp vis r)"
proof -
  have "Kind (route_of (sr_pattern r)) (sr_path r) mcp \<noteq> ''probe''"
    by (simp add: Kind_def)
  then show ?thesis
    using access_row_target Entity_length PageKind_nonempty Kind_kinds [of "route_of (sr_pattern r)" "sr_path r" mcp]
      route_nonempty
    by (auto simp: row_ok_def access_row_eqs Kind_page row_kinds_def)
qed

text \<open>C18. Every row the middleware records is well formed: its kind is one of eight, its target and
  its subject are bounded, a page view always says what kind of page it is and a probe never
  does, and it is marked a robot's exactly when its client is a bot.\<close>
theorem access_rows_are_well_formed: "row_ok (access_row mcp vis r)"
  by (rule access_row_ok)

text \<open>The correction that runs at every start changes no row of the present middleware, and
  repeating it changes nothing.\<close>
theorem correction_spares_new_rows:
  "reclassify (access_row mcp vis r) = access_row mcp vis r \<and>
   reclassifyPreBeaconPages (reclassifyPreBeaconPages rows) = reclassifyPreBeaconPages rows"
  using access_row_ok [of mcp vis r]
  by (auto simp: row_ok_def reclassify_def reclassifyPreBeaconPages_def)

section \<open>Accounts\<close>

text \<open>The rows of the batches that were taken and are not yet written.\<close>

fun in_flight :: "flush \<Rightarrow> traffic_row multiset" where
  "in_flight (Taken batch) = mset batch"
| "in_flight _ = {#}"

fun uncounted :: "flush \<Rightarrow> nat" where
  "uncounted (Counting n) = n"
| "uncounted _ = 0"

definition flying :: "log_store \<Rightarrow> traffic_row multiset" where
  "flying s = sum_list (map in_flight (ls_flushes s))"

text \<open>The rows that found room, those that did not, and those of the transactions that
  committed and that failed, in the events of a run.\<close>

fun accepted :: "log_event list \<Rightarrow> traffic_row list" where
  "accepted [] = []"
| "accepted (Accepted r # es) = r # accepted es"
| "accepted (_ # es) = accepted es"

fun refused :: "log_event list \<Rightarrow> traffic_row list" where
  "refused [] = []"
| "refused (Refused r # es) = r # refused es"
| "refused (_ # es) = refused es"

fun committed :: "log_event list \<Rightarrow> traffic_row list" where
  "committed [] = []"
| "committed (Committed rs # es) = rs @ committed es"
| "committed (_ # es) = committed es"

fun failed_rows :: "log_event list \<Rightarrow> traffic_row list" where
  "failed_rows [] = []"
| "failed_rows (Failed rs # es) = rs @ failed_rows es"
| "failed_rows (_ # es) = failed_rows es"

lemma events_append [simp]:
  "accepted (es @ fs) = accepted es @ accepted fs" "refused (es @ fs) = refused es @ refused fs"
  "committed (es @ fs) = committed es @ committed fs" "failed_rows (es @ fs) = failed_rows es @ failed_rows fs"
  by (induction es rule: accepted.induct) simp_all

definition log_inv :: "log_event list \<Rightarrow> log_store \<Rightarrow> bool" where
  "log_inv es s \<longleftrightarrow> length (ls_buf s) \<le> bufferLimit \<and>
     mset (accepted es) = mset (ls_buf s) + flying s + mset (committed es) + mset (failed_rows es) \<and>
     ls_dropped s = length (refused es) \<and>
     ls_written s + sum_list (map uncounted (ls_flushes s)) = length (committed es)"

lemma sum_list_update_add:
  fixes xs :: "'a::comm_monoid_add list"
  shows "i < length xs \<Longrightarrow> sum_list (xs[i := x]) + xs ! i = sum_list xs + x"
proof (induction xs arbitrary: i)
  case (Cons y ys)
  show ?case
  proof (cases i)
    case (Suc j)
    then have "sum_list (ys[j := x]) + ys ! j = sum_list ys + x" using Cons by simp
    with Suc show ?thesis by (simp add: add.assoc)
  qed (simp add: ac_simps)
qed simp

lemma flushes_update:
  assumes "i < length (ls_flushes s)"
  shows "sum_list (map in_flight ((ls_flushes s)[i := t])) + in_flight (ls_flushes s ! i)
      = flying s + in_flight t"
    "sum_list (map uncounted ((ls_flushes s)[i := t])) + uncounted (ls_flushes s ! i)
      = sum_list (map uncounted (ls_flushes s)) + uncounted t"
  using sum_list_update_add [of i "map in_flight (ls_flushes s)" "in_flight t"]
    sum_list_update_add [of i "map uncounted (ls_flushes s)" "uncounted t"] assms
  by (simp_all add: flying_def map_update)

lemma log_inv_step: "log_inv es s \<Longrightarrow> log_step s e s' \<Longrightarrow> log_inv (es @ [e]) s'"
proof (erule log_stepE)
  fix i batch ok
  assume inv: "log_inv es s" and s': "s' = write_batch ok i batch s"
    and e: "e = (if ok then Committed batch else Failed batch)"
    and i: "i < length (ls_flushes s)" "ls_flushes s ! i = Taken batch"
  show "log_inv (es @ [e]) s'"
    using inv flushes_update [OF i(1), of "Counting (length batch)"] flushes_update [OF i(1), of Flushed] i(2)
    by (auto simp: s' e log_inv_def write_batch_def flying_def ac_simps)
next
  fix i n
  assume inv: "log_inv es s" and s': "s' = count_written i n s" and e: "e = Counted"
    and i: "i < length (ls_flushes s)" "ls_flushes s ! i = Counting n"
  show "log_inv (es @ [e]) s'"
    using inv flushes_update [OF i(1), of Flushed] i(2)
    by (simp add: s' e log_inv_def count_written_def flying_def)
qed (auto simp: log_inv_def Record_def take_buffer_def Prune_def flying_def)

lemma log_run_inv: "log_run (Open retention rows) es s \<Longrightarrow> log_inv es s"
proof (induction rule: log_run.induct)
  case start
  show ?case by (simp add: log_inv_def Open_def flying_def)
qed (rule log_inv_step)

section \<open>The table\<close>

text \<open>Whether a row is within the last days, as many as the retention says, counted by the second,
  and whether it is a day older than that. Without a retention nothing is pruned.\<close>

definition within :: "int \<Rightarrow> int \<Rightarrow> traffic_row \<Rightarrow> bool" where
  "within retention now r \<longleftrightarrow> retention \<le> 0 \<or> now - tr_at r \<le> 86400 * retention"

definition outdated :: "int \<Rightarrow> int \<Rightarrow> traffic_row \<Rightarrow> bool" where
  "outdated retention now r \<longleftrightarrow> 0 < retention \<and> 86400 * (retention + 1) \<le> now - tr_at r"

lemma pruned_rows:
  "within (ls_retention s) now r \<Longrightarrow> count (mset (ls_table (Prune now s))) r = count (mset (ls_table s)) r"
  "outdated (ls_retention s) now r \<Longrightarrow> count (mset (ls_table (Prune now s))) r = 0"
  "count (mset (ls_table (Prune now s))) r \<le> count (mset (ls_table s)) r"
proof -
  have "day_of now - ls_retention s \<le> day_of (tr_at r)" if "now - tr_at r \<le> 86400 * ls_retention s"
  proof -
    have "now - 86400 * ls_retention s \<le> tr_at r" using that by simp
    then have "(now + 86400 * (- ls_retention s)) div 86400 \<le> tr_at r div 86400"
      by (intro zdiv_mono1) simp_all
    then show ?thesis by (simp add: day_of_def)
  qed
  then show "within (ls_retention s) now r \<Longrightarrow> count (mset (ls_table (Prune now s))) r = count (mset (ls_table s)) r"
    by (auto simp: within_def Prune_def count_filter_mset)
  have "now - tr_at r < 86400 * (ls_retention s + 1)" if "day_of now - ls_retention s \<le> day_of (tr_at r)"
    using that pos_mod_bound [of 86400 now] pos_mod_sign [of 86400 "tr_at r"]
      div_mult_mod_eq [of now 86400] div_mult_mod_eq [of "tr_at r" 86400]
    by (simp add: day_of_def)
  then show "outdated (ls_retention s) now r \<Longrightarrow> count (mset (ls_table (Prune now s))) r = 0"
    by (fastforce simp: outdated_def Prune_def count_filter_mset)
  show "count (mset (ls_table (Prune now s))) r \<le> count (mset (ls_table s)) r"
    by (simp add: Prune_def count_filter_mset)
qed

lemma table_step:
  assumes "log_step s e s'"
  shows "ls_retention s' = ls_retention s"
    "count (mset (ls_table s')) r \<le> count (mset (ls_table s)) r + count (mset (committed [e])) r"
    "\<forall>now. e = Pruned now \<longrightarrow> within (ls_retention s) now r \<Longrightarrow>
       count (mset (ls_table s')) r = count (mset (ls_table s)) r + count (mset (committed [e])) r"
    "e = Pruned now \<Longrightarrow> outdated (ls_retention s) now r \<Longrightarrow> count (mset (ls_table s')) r = 0"
proof -
  have other: "ls_retention (Record r' s) = ls_retention s \<and> ls_table (Record r' s) = ls_table s"
    "ls_retention (take_buffer s) = ls_retention s \<and> ls_table (take_buffer s) = ls_table s"
    "ls_retention (count_written i n s) = ls_retention s \<and> ls_table (count_written i n s) = ls_table s"
    "ls_retention (write_batch ok i batch s) = ls_retention s \<and>
       ls_table (write_batch ok i batch s) = ls_table s @ (if ok then batch else [])"
    "ls_retention (Prune n' s) = ls_retention s" for r' i n ok batch n'
    by (simp_all add: Record_def take_buffer_def count_written_def write_batch_def Prune_def)
  show "ls_retention s' = ls_retention s"
    "count (mset (ls_table s')) r \<le> count (mset (ls_table s)) r + count (mset (committed [e])) r"
    "\<forall>now. e = Pruned now \<longrightarrow> within (ls_retention s) now r \<Longrightarrow>
       count (mset (ls_table s')) r = count (mset (ls_table s)) r + count (mset (committed [e])) r"
    "e = Pruned now \<Longrightarrow> outdated (ls_retention s) now r \<Longrightarrow> count (mset (ls_table s')) r = 0"
    using assms by (cases; simp add: other pruned_rows split: if_splits)+
qed

lemma log_run_table:
  assumes "log_run (Open retention rows) es s"
  shows "ls_retention s = retention" "count (mset (ls_table s)) r \<le> count (mset (rows @ committed es)) r"
    "\<forall>now. Pruned now \<in> set es \<longrightarrow> within retention now r \<Longrightarrow>
       count (mset (ls_table s)) r = count (mset (rows @ committed es)) r"
    "es = es1 @ Pruned now # es2 \<Longrightarrow> outdated retention now r \<Longrightarrow>
       count (mset (ls_table s)) r \<le> count (mset (committed es2)) r"
proof -
  have "ls_retention s = retention \<and> count (mset (ls_table s)) r \<le> count (mset (rows @ committed es)) r \<and>
    ((\<forall>now. Pruned now \<in> set es \<longrightarrow> within retention now r) \<longrightarrow>
       count (mset (ls_table s)) r = count (mset (rows @ committed es)) r) \<and>
    (\<forall>es1 now es2. es = es1 @ Pruned now # es2 \<longrightarrow> outdated retention now r \<longrightarrow>
       count (mset (ls_table s)) r \<le> count (mset (committed es2)) r)"
    using assms
  proof (induction rule: log_run.induct)
    case start
    show ?case by (simp add: Open_def)
  next
    case (step es s e s')
    note t = table_step [OF step(2)]
    have "count (mset (ls_table s')) r \<le> count (mset (committed es2)) r"
      if split: "es @ [e] = es1 @ Pruned now # es2" and old: "outdated retention now r" for es1 now es2
    proof (cases es2 rule: rev_cases)
      case Nil
      then show ?thesis using split old t(4) [of now] step.IH by simp
    next
      case (snoc es2' e')
      then have "count (mset (ls_table s)) r \<le> count (mset (committed es2')) r" "e' = e"
        using split old step.IH by simp_all
      then show ?thesis using t(2) [of r] snoc by simp
    qed
    moreover have "count (mset (ls_table s')) r \<le> count (mset (rows @ committed (es @ [e]))) r"
      using t(2) [of r] step.IH by simp
    moreover have "count (mset (ls_table s')) r = count (mset (rows @ committed (es @ [e]))) r"
      if "\<forall>now. Pruned now \<in> set (es @ [e]) \<longrightarrow> within retention now r"
      using t(3) [of r] step.IH that by simp
    ultimately show ?case using t(1) step.IH by blast
  qed
  then show "ls_retention s = retention" "count (mset (ls_table s)) r \<le> count (mset (rows @ committed es)) r"
    "\<forall>now. Pruned now \<in> set es \<longrightarrow> within retention now r \<Longrightarrow>
       count (mset (ls_table s)) r = count (mset (rows @ committed es)) r"
    "es = es1 @ Pruned now # es2 \<Longrightarrow> outdated retention now r \<Longrightarrow>
       count (mset (ls_table s)) r \<le> count (mset (committed es2)) r"
    by blast+
qed

section \<open>The log\<close>

text \<open>C17. Whatever the order of recording, flushing, writing and pruning, from a store opened over a
  table: a row that found room is in exactly one place, as often as it was handed over: in
  the buffer, in a batch being written, or in a transaction that committed or failed; the
  buffer keeps its limit, the rows that found none are counted, and at rest so are the rows
  of the committed transactions. The table has a row no more often than it had it at first
  or than it was committed, exactly as often when it was within the retention at every
  pruning, and once it was a day past the retention at one, only as often as it was committed
  after that.\<close>
theorem every_row_is_in_one_place:
  assumes "log_run (Open retention rows) es s"
  shows "mset (accepted es) = mset (ls_buf s) + flying s + mset (committed es) + mset (failed_rows es) \<and>
    length (ls_buf s) \<le> bufferLimit \<and> ls_dropped s = length (refused es) \<and>
    (set (ls_flushes s) \<subseteq> {Flushed} \<longrightarrow> ls_written s = length (committed es)) \<and>
    (\<forall>r. count (mset (ls_table s)) r \<le> count (mset (rows @ committed es)) r \<and>
      ((\<forall>now. Pruned now \<in> set es \<longrightarrow> within retention now r) \<longrightarrow>
         count (mset (ls_table s)) r = count (mset (rows @ committed es)) r) \<and>
      (\<forall>es1 now es2. es = es1 @ Pruned now # es2 \<and> outdated retention now r \<longrightarrow>
         count (mset (ls_table s)) r \<le> count (mset (committed es2)) r))"
proof -
  have "sum_list (map uncounted ts) = 0" if "set ts \<subseteq> {Flushed}" for ts
    using that by (induction ts) auto
  from this [of "ls_flushes s"] show ?thesis
    using log_run_inv [OF assms] log_run_table [OF assms] unfolding log_inv_def by fastforce
qed

text \<open>A batch whose transaction fails leaves no trace in the figures the store reports: they
  are those of before, and rows handed over are in none of them.\<close>
theorem failed_batch_is_not_reported:
  assumes "log_run (Open retention rows) es s" "i < length (ls_flushes s)" "ls_flushes s ! i = Taken batch" "batch \<noteq> []"
  shows "Stats (write_batch False i batch s) = Stats s \<and>
    st_buffered (Stats (write_batch False i batch s)) + st_written (Stats (write_batch False i batch s)) +
      st_dropped (Stats (write_batch False i batch s)) < length (accepted es) + length (refused es)"
proof -
  have "size (in_flight (Taken batch)) \<le> size (flying s)"
    using flushes_update(1) [OF assms(2), of Flushed] assms(3) by (metis add.right_neutral in_flight.simps(3) le_add2 size_union)
  moreover have "0 < length batch" using assms(4) by simp
  ultimately have "0 < size (flying s)" unfolding in_flight.simps size_mset by linarith
  moreover have "length (accepted es) = length (ls_buf s) + size (flying s) + length (committed es) + length (failed_rows es)"
    using log_run_inv [OF assms(1)] unfolding log_inv_def by (metis size_mset size_union)
  moreover have "ls_written s \<le> length (committed es)" "ls_dropped s = length (refused es)"
    using log_run_inv [OF assms(1)] unfolding log_inv_def by simp_all
  ultimately show ?thesis by (simp add: Stats_def write_batch_def)
qed

section \<open>Witnesses\<close>

definition demo_row :: traffic_row where
  "demo_row = access_row ''/mcp'' ''v'' \<lparr>sr_start = 86400, sr_method = ''GET'', sr_pattern = ''GET /'',
     sr_path = ''/realms'', sr_viewed = '''', sr_network = '''', sr_host = ''gnoscope.org'',
     sr_agent = ''Mozilla/5.0'', sr_tool = '''', sr_status = 0, sr_bytes = 10, sr_dur = 5, sr_app = 0,
     sr_content = ''text/html'', sr_cache = '''', sr_ref = ''''\<rparr>"

definition demo_log :: log_store where
  "demo_log = count_written 0 1 (write_batch True 0 [demo_row] (take_buffer (Record demo_row (Open 30 []))))"

definition demo_events :: "log_event list" where
  "demo_events = [Accepted demo_row, Took, Committed [demo_row], Counted]"

lemma demo_log_run: "log_run (Open 30 []) demo_events demo_log"
proof -
  let ?s1 = "Record demo_row (Open 30 [])"
  let ?s2 = "take_buffer ?s1"
  let ?s3 = "write_batch True 0 [demo_row] ?s2"
  have "log_step (Open 30 []) (Accepted demo_row) ?s1"
    using log_step.record_row [of "Open 30 []" demo_row] by (simp add: Open_def bufferLimit_def)
  moreover have "log_step ?s1 Took ?s2" by (rule log_step.take_rows)
  moreover have "log_step ?s2 (Committed [demo_row]) ?s3"
    using log_step.write_rows [of 0 ?s2 "[demo_row]" True]
    by (simp add: take_buffer_def Record_def Open_def bufferLimit_def)
  moreover have "log_step ?s3 Counted demo_log"
    unfolding demo_log_def
    by (rule log_step.count_rows) (simp_all add: write_batch_def take_buffer_def Record_def Open_def bufferLimit_def)
  ultimately have "log_run (Open 30 []) ((([] @ [Accepted demo_row]) @ [Took]) @ [Committed [demo_row]] @ [Counted]) demo_log"
    by (metis (no_types, lifting) append.assoc log_run.start log_run.step)
  then show ?thesis by (simp add: demo_events_def)
qed

lemma every_row_is_in_one_place_witness: "count (mset (ls_table demo_log)) demo_row = 1"
  using every_row_is_in_one_place [OF demo_log_run] by (simp add: demo_events_def)

lemma failed_batch_is_not_reported_witness:
  "Stats (write_batch False 0 [demo_row] (take_buffer (Record demo_row (Open 30 [])))) =
     Stats (take_buffer (Record demo_row (Open 30 [])))"
proof -
  have "log_step (Open 30 []) (Accepted demo_row) (Record demo_row (Open 30 []))"
    using log_step.record_row [of "Open 30 []" demo_row] by (simp add: Open_def bufferLimit_def)
  from log_run.step [OF log_run.step [OF log_run.start this] log_step.take_rows]
  show ?thesis
    by (rule failed_batch_is_not_reported [THEN conjunct1])
      (simp_all add: take_buffer_def Record_def Open_def bufferLimit_def)
qed

end
