(* ===== verification/Traffic_Report.thy ===== *)
theory Traffic_Report
  imports Traffic_Log Complex_Main
begin

text \<open>
  What the traffic page may ask, \<^verbatim>\<open>pkg/traffic/query.go\<close>: the filter every figure shares, the
  totals, the time series, the ranked panels and the slowest routes. The rows are the table
  and the queries are written over lists; \<open>arrange\<close> stands for the order in which the
  database lists groups that its \<^verbatim>\<open>ORDER BY\<close> does not tell apart.
\<close>

section \<open>Queries\<close>

record report_window =
  wi_key :: string
  wi_seconds :: int
  wi_hourly :: bool

definition windows :: "(string \<times> report_window) list" where
  "windows = [(''24h'', \<lparr>wi_key = ''24h'', wi_seconds = 86400, wi_hourly = True\<rparr>),
     (''7d'', \<lparr>wi_key = ''7d'', wi_seconds = 7 * 86400, wi_hourly = False\<rparr>),
     (''30d'', \<lparr>wi_key = ''30d'', wi_seconds = 30 * 86400, wi_hourly = False\<rparr>),
     (''90d'', \<lparr>wi_key = ''90d'', wi_seconds = 90 * 86400, wi_hourly = False\<rparr>)]"

definition ParseWindow :: "string \<Rightarrow> report_window" where
  "ParseWindow s = (case map_of windows s of Some w \<Rightarrow> w | None \<Rightarrow> the (map_of windows ''7d''))"

datatype who = WhoNonCrawlers | WhoAll | WhoCrawlers | WhoPeople | WhoAgents | WhoUnknown

definition ParseWho :: "string \<Rightarrow> who" where
  "ParseWho s =
     (if s = ''all'' then WhoAll else if s = ''crawlers'' then WhoCrawlers
      else if s = ''people'' then WhoPeople else if s = ''agents'' then WhoAgents
      else if s = ''unknown'' then WhoUnknown else WhoNonCrawlers)"

fun clause :: "who \<Rightarrow> traffic_row \<Rightarrow> bool" where
  "clause WhoAll r = True"
| "clause WhoCrawlers r = (tr_client r = ''bot'')"
| "clause WhoPeople r = (tr_client r = ''browser'')"
| "clause WhoAgents r = (tr_client r = ''agent'')"
| "clause WhoUnknown r = (tr_client r = ''unknown'')"
| "clause WhoNonCrawlers r = (tr_client r \<noteq> ''bot'')"

record traffic_query =
  qu_window :: report_window
  qu_network :: string
  qu_kind :: string
  qu_host :: string
  qu_who :: who
  qu_errors :: bool
  qu_limit :: int
  qu_now :: int

definition matches :: "traffic_query \<Rightarrow> traffic_row \<Rightarrow> bool" where
  "matches q r \<longleftrightarrow>
     qu_now q - wi_seconds (qu_window q) \<le> tr_at r \<and>
     (qu_network q \<noteq> [] \<longrightarrow> tr_network r = qu_network q) \<and>
     (qu_kind q \<noteq> [] \<longrightarrow> tr_kind r = qu_kind q) \<and>
     tr_client r \<noteq> ''internal'' \<and>
     (qu_host q \<noteq> [] \<longrightarrow> tr_host r = qu_host q \<or> tr_host r = []) \<and>
     clause (qu_who q) r \<and>
     (qu_errors q \<longrightarrow> 400 \<le> tr_status r) \<and>
     (qu_kind q \<noteq> ''probe'' \<longrightarrow> tr_kind r \<noteq> ''probe'')"

definition qu_rows :: "traffic_query \<Rightarrow> traffic_row list \<Rightarrow> traffic_row list" where
  "qu_rows q rows = filter (matches q) rows"

definition limit_of :: "traffic_query \<Rightarrow> nat" where
  "limit_of q = (if qu_limit q \<le> 0 \<or> 100 < qu_limit q then 15 else nat (qu_limit q))"

section \<open>Figures\<close>

definition visitor_count :: "traffic_row list \<Rightarrow> nat" where
  "visitor_count rows = card (set (map tr_visitor rows) - {[]})"

definition having :: "(traffic_row \<Rightarrow> bool) \<Rightarrow> traffic_row list \<Rightarrow> nat" where
  "having P rows = length (filter P rows)"

text \<open>Streams are counted, and left out of whatever measures a duration.\<close>

definition timed :: "traffic_row list \<Rightarrow> traffic_row list" where
  "timed rows = filter (\<lambda>r. tr_kind r \<noteq> ''stream'') rows"

definition percentile :: "traffic_row list \<Rightarrow> nat \<Rightarrow> int" where
  "percentile rows pct =
     (let ds = sort (map tr_dur (timed rows)); n = length ds; off = n * pct div 100
      in if n = 0 then 0 else ds ! (if n \<le> off then n - 1 else off))"

record series_point =
  bu_at :: "int \<times> int option"
  bu_hits :: nat
  bu_visitors :: nat
  bu_errors :: nat

definition bucket_of :: "traffic_query \<Rightarrow> traffic_row \<Rightarrow> int \<times> int option" where
  "bucket_of q r = (day_of (tr_at r), if wi_hourly (qu_window q) then Some (hour_of (tr_at r)) else None)"

definition hour_number :: "int \<times> int option \<Rightarrow> int" where
  "hour_number b = 24 * fst b + (case snd b of Some h \<Rightarrow> h | None \<Rightarrow> 0)"

definition series :: "traffic_query \<Rightarrow> traffic_row list \<Rightarrow> series_point list" where
  "series q rows =
     map (\<lambda>b. let rs = filter (\<lambda>r. bucket_of q r = b) rows
              in \<lparr>bu_at = b, bu_hits = length rs, bu_visitors = visitor_count rs,
                  bu_errors = having (\<lambda>r. 400 \<le> tr_status r) rs\<rparr>)
       (sort_key hour_number (remdups (map (bucket_of q) rows)))"

record count_row =
  co_label :: string
  co_hits :: nat
  co_visitors :: nat

definition topBy ::
  "(string list \<Rightarrow> string list) \<Rightarrow> traffic_row list \<Rightarrow> (traffic_row \<Rightarrow> string) \<Rightarrow>
   (traffic_row \<Rightarrow> bool) \<Rightarrow> nat \<Rightarrow> bool \<Rightarrow> count_row list" where
  "topBy arrange rows label extra limit uniq =
     (let rs = filter extra rows;
          group = (\<lambda>l. filter (\<lambda>r. label r = l) rs);
          labels = sort_key (\<lambda>l. - int (length (group l))) (arrange (remdups (map label rs)))
      in map (\<lambda>l. \<lparr>co_label = l, co_hits = length (group l),
                   co_visitors = (if uniq then visitor_count (group l) else 0)\<rparr>) (take limit labels))"

record timing =
  ti_route :: string
  ti_hits :: nat
  ti_p50 :: int
  ti_p95 :: int
  ti_app :: rat

text \<open>The value of a rank counted from 1.\<close>

definition ranked :: "int list \<Rightarrow> nat \<Rightarrow> int" where
  "ranked ds pct = sort ds ! (max 1 (length ds * pct div 100) - 1)"

definition slowest :: "(string list \<Rightarrow> string list) \<Rightarrow> traffic_row list \<Rightarrow> nat \<Rightarrow> timing list" where
  "slowest arrange rows limit =
     (let rs = timed rows;
          time = (\<lambda>l. let g = filter (\<lambda>r. tr_route r = l) rs; ds = map tr_dur g
                     in \<lparr>ti_route = l, ti_hits = length g, ti_p50 = ranked ds 50, ti_p95 = ranked ds 95,
                         ti_app = of_int (sum_list (map tr_app g)) / of_nat (length g)\<rparr>)
      in take limit (sort_key (\<lambda>t. - ti_p95 t)
           (filter (\<lambda>t. 5 \<le> ti_hits t) (map time (arrange (remdups (map tr_route rs)))))))"

section \<open>The report\<close>

record traffic_totals =
  to_requests :: nat
  to_visitors :: nat
  to_pages :: nat
  to_api :: nat
  to_mcp :: nat
  to_bytes :: int
  to_errors :: nat
  to_cache_hits :: nat
  to_p50 :: int
  to_p95 :: int

definition totals_of :: "traffic_row list \<Rightarrow> traffic_totals" where
  "totals_of rows = \<lparr>to_requests = length rows, to_visitors = visitor_count rows,
     to_pages = having (\<lambda>r. tr_kind r = ''page'') rows, to_api = having (\<lambda>r. tr_kind r = ''api'') rows,
     to_mcp = having (\<lambda>r. tr_kind r = ''mcp'') rows, to_bytes = sum_list (map tr_bytes rows),
     to_errors = having (\<lambda>r. 400 \<le> tr_status r) rows, to_cache_hits = having (\<lambda>r. tr_cache r = ''HIT'') rows,
     to_p50 = percentile rows 50, to_p95 = percentile rows 95\<rparr>"

definition labelled :: "string \<Rightarrow> string \<Rightarrow> string" where
  "labelled alt s = (if s = [] then alt else s)"

record traffic_report =
  re_since :: int
  re_totals :: traffic_totals
  re_series :: "series_point list"
  re_panels :: "(string \<times> count_row list) list"
  re_slowest :: "timing list"
  re_unrecorded :: nat
  re_empty :: bool

text \<open>
  The ranked panels by the name of their field: what the row is labelled with, which rows
  count, and whether visitors are counted too.
\<close>

definition panels :: "(string \<times> (traffic_row \<Rightarrow> string) \<times> (traffic_row \<Rightarrow> bool) \<times> bool) list" where
  "panels =
     [(''TopPages'', tr_target, (\<lambda>r. tr_kind r = ''page'' \<and> tr_target r \<noteq> []), True),
      (''TopRealms'', tr_target, (\<lambda>r. has_prefix (to_lower (tr_route r)) ''/api/realm'' \<and> tr_target r \<noteq> []), True),
      (''TopAPI'', tr_route, (\<lambda>r. tr_kind r = ''api''), False),
      (''Tools'', tr_tool, (\<lambda>r. tr_kind r = ''mcp'' \<and> tr_tool r \<noteq> []), False),
      (''Networks'', (\<lambda>r. labelled ''all'' (tr_network r)), (\<lambda>r. True), False),
      (''Clients'', tr_client, (\<lambda>r. True), False),
      (''Referers'', tr_ref, (\<lambda>r. tr_ref r \<noteq> []), True),
      (''Statuses'', (\<lambda>r. itoa (tr_status r)), (\<lambda>r. True), False),
      (''Cache'', (\<lambda>r. labelled ''uncached'' (tr_cache r)), (\<lambda>r. True), False),
      (''NotFound'', tr_target, (\<lambda>r. tr_status r = 404 \<and> tr_target r \<noteq> []), False)]"

definition subject_panels :: "(string \<times> (traffic_row \<Rightarrow> string) \<times> (traffic_row \<Rightarrow> bool) \<times> bool) list" where
  "subject_panels =
     [(''Realms'', tr_entity, (\<lambda>r. tr_entity r \<noteq> [] \<and> tr_entity_kind r = EntityRealm), True),
      (''Addresses'', tr_entity, (\<lambda>r. tr_entity r \<noteq> [] \<and> tr_entity_kind r = EntityAddress), True),
      (''Txs'', tr_entity, (\<lambda>r. tr_entity r \<noteq> [] \<and> tr_entity_kind r = EntityTx), True),
      (''Assets'', tr_entity, (\<lambda>r. tr_entity r \<noteq> [] \<and> tr_entity_kind r = EntityAsset), True),
      (''PageKinds'', tr_page_kind, (\<lambda>r. tr_page_kind r \<noteq> []), True)]"

definition host_panel :: "string \<times> (traffic_row \<Rightarrow> string) \<times> (traffic_row \<Rightarrow> bool) \<times> bool" where
  "host_panel = (''Hosts'', (\<lambda>r. labelled ''(not recorded)'' (tr_host r)), (\<lambda>r. True), True)"

definition run_panel ::
  "(string list \<Rightarrow> string list) \<Rightarrow> nat \<Rightarrow> traffic_row list \<Rightarrow>
   string \<times> (traffic_row \<Rightarrow> string) \<times> (traffic_row \<Rightarrow> bool) \<times> bool \<Rightarrow> string \<times> count_row list" where
  "run_panel arrange most rows p =
     (case p of (name, label, extra, uniq) \<Rightarrow> (name, topBy arrange rows label extra most uniq))"

definition Report :: "(string list \<Rightarrow> string list) \<Rightarrow> traffic_query \<Rightarrow> traffic_row list \<Rightarrow> traffic_report" where
  "Report arrange q table =
     (let rows = qu_rows q table; most = limit_of q;
          pages = qu_rows (q\<lparr>qu_kind := ''page''\<rparr>) table;
          anyhost = qu_rows (q\<lparr>qu_host := []\<rparr>) table;
          blank = \<lparr>re_since = qu_now q - wi_seconds (qu_window q), re_totals = totals_of rows,
                   re_series = [], re_panels = [], re_slowest = [], re_unrecorded = 0, re_empty = True\<rparr>
      in if rows = [] then blank
         else blank\<lparr>re_empty := False, re_series := series q rows,
                re_panels := map (run_panel arrange most rows) panels @
                             map (run_panel arrange most pages) subject_panels @
                             [run_panel arrange most anyhost host_panel],
                re_slowest := slowest arrange rows most,
                re_unrecorded := having (\<lambda>r. tr_host r = []) anyhost\<rparr>)"

text \<open>The query of a request for the page.\<close>

definition page_query ::
  "string \<Rightarrow> string \<Rightarrow> string \<Rightarrow> string \<Rightarrow> string \<Rightarrow> string \<Rightarrow> string \<Rightarrow> string \<Rightarrow> int \<Rightarrow> traffic_query" where
  "page_query network report_window kind host who errors bots limit now =
     \<lparr>qu_window = ParseWindow report_window, qu_network = network, qu_kind = kind,
      qu_host = to_lower (trim_space host),
      qu_who = (if bots = ''1'' \<and> who = [] then WhoAll else ParseWho who),
      qu_errors = (errors = ''1''),
      qu_limit = (case parse_int limit of (n, ok) \<Rightarrow> if ok then n else 0), qu_now = now\<rparr>"

section \<open>Properties\<close>

definition counted :: "traffic_query \<Rightarrow> traffic_row \<Rightarrow> bool" where
  "counted q r \<longleftrightarrow> tr_client r \<noteq> ''internal'' \<and> (tr_kind r = ''probe'' \<longrightarrow> qu_kind q = ''probe'')"

lemma matches_counted: "matches q r \<Longrightarrow> counted q r"
  by (auto simp: matches_def counted_def)

lemma qu_rows_counted:
  assumes "\<And>r. matches q' r \<Longrightarrow> counted q r"
  shows "qu_rows q' (filter (counted q) rows) = qu_rows q' rows"
  unfolding qu_rows_def filter_filter using assms by (intro filter_cong) auto

text \<open>C19. The server's own requests, and those of scanners unless they are asked for, have no
  influence on any figure of the report: the report is that of the table without them.\<close>
theorem warmer_and_probes_are_invisible:
  "Report arrange q (filter (counted q) table) = Report arrange q table"
proof -
  have "qu_rows (q\<lparr>qu_kind := ''page''\<rparr>) (filter (counted q) table) = qu_rows (q\<lparr>qu_kind := ''page''\<rparr>) table"
    by (rule qu_rows_counted) (auto simp: matches_def counted_def)
  moreover have "qu_rows (q\<lparr>qu_host := []\<rparr>) (filter (counted q) table) = qu_rows (q\<lparr>qu_host := []\<rparr>) table"
    by (rule qu_rows_counted) (auto simp: matches_def counted_def)
  moreover have "qu_rows q (filter (counted q) table) = qu_rows q table"
    by (rule qu_rows_counted) (rule matches_counted)
  ultimately show ?thesis by (simp add: Report_def)
qed

lemma group_lengths:
  "distinct ks \<Longrightarrow> set (map f rs) \<subseteq> set ks \<Longrightarrow> (\<Sum>k \<leftarrow> ks. length (filter (\<lambda>r. f r = k) rs)) = length rs"
proof (induction rs)
  case (Cons r rs)
  have "(\<Sum>k \<leftarrow> ks. length (filter (\<lambda>x. f x = k) (r # rs)))
      = (\<Sum>k \<leftarrow> ks. (if f r = k then 1 else 0) + length (filter (\<lambda>x. f x = k) rs))"
    by (intro arg_cong [where f = sum_list] map_cong) auto
  also have "\<dots> = (\<Sum>k \<leftarrow> ks. if f r = k then 1 else 0) + length rs"
    using Cons by (simp add: sum_list_addf)
  also have "(\<Sum>k \<leftarrow> ks. if f r = k then 1 else 0) = (1::nat)"
    using Cons.prems by (simp add: sum_list_distinct_conv_sum_set)
  finally show ?case by simp
qed simp

text \<open>The points of the time series add up to the totals: the requests and the errors of all
  of them are the requests and the errors of the report.\<close>
theorem series_adds_up:
  assumes "\<not> re_empty (Report arrange q table)"
  shows "sum_list (map bu_hits (re_series (Report arrange q table))) = to_requests (re_totals (Report arrange q table)) \<and>
    sum_list (map bu_errors (re_series (Report arrange q table))) = to_errors (re_totals (Report arrange q table))"
proof -
  let ?rows = "qu_rows q table"
  let ?ks = "sort_key hour_number (remdups (map (bucket_of q) ?rows))"
  have series: "re_series (Report arrange q table) = series q ?rows"
    "re_totals (Report arrange q table) = totals_of ?rows"
    using assms by (simp_all add: Report_def Let_def split: if_splits)
  have "(\<Sum>b \<leftarrow> ?ks. length (filter (\<lambda>r. bucket_of q r = b) rs)) = length rs" if "set rs \<subseteq> set ?rows" for rs
    using that by (intro group_lengths) auto
  from this [of ?rows] this [of "filter (\<lambda>r. 400 \<le> tr_status r) ?rows"] show ?thesis
    unfolding series by (auto simp: series_def totals_of_def having_def Let_def comp_def filter_filter conj_commute)
qed

lemma sorted_nth_below:
  assumes "sorted ds" "k < length ds"
  shows "k < length (filter (\<lambda>d. d \<le> ds ! k) ds)"
proof -
  have "filter (\<lambda>d. d \<le> ds ! k) (take (Suc k) ds) = take (Suc k) ds"
    using assms by (auto simp: filter_id_conv in_set_conv_nth less_Suc_eq_le intro!: sorted_nth_mono)
  then have "Suc k \<le> length (filter (\<lambda>d. d \<le> ds ! k) (take (Suc k) ds @ drop (Suc k) ds))"
    using assms(2) unfolding filter_append by simp
  then show ?thesis by simp
qed

text \<open>A percentile of the totals is reached by a request of the report, and more than that
  share of its timed requests took no longer.\<close>
theorem percentile_covers_its_share:
  assumes "timed rows \<noteq> []" "pct < 100"
  shows "percentile rows pct \<in> set (map tr_dur (timed rows)) \<and>
    pct * length (timed rows) < 100 * having (\<lambda>r. tr_dur r \<le> percentile rows pct) (timed rows)"
proof -
  let ?ds = "map tr_dur (timed rows)"
  let ?n = "length ?ds"
  have n: "0 < ?n" using assms(1) by simp
  have "?n * pct < ?n * 100" using n assms(2) by simp
  then have off: "?n * pct div 100 < ?n" by (simp add: div_less_iff_less_mult)
  then have p: "percentile rows pct = sort ?ds ! (?n * pct div 100)"
    using assms(1) by (auto simp: percentile_def Let_def dest: arg_cong [where f = length])
  have "?n * pct div 100 < length (filter (\<lambda>d. d \<le> percentile rows pct) (sort ?ds))"
    unfolding p using off by (intro sorted_nth_below) simp_all
  also have "\<dots> = length (filter (\<lambda>d. d \<le> percentile rows pct) ?ds)"
    by (metis filter_sort length_sort)
  also have "\<dots> = having (\<lambda>r. tr_dur r \<le> percentile rows pct) (timed rows)"
    by (simp add: having_def filter_map comp_def)
  finally have "?n * pct < 100 * having (\<lambda>r. tr_dur r \<le> percentile rows pct) (timed rows)"
    by (simp add: div_less_iff_less_mult)
  moreover have "percentile rows pct \<in> set ?ds"
    unfolding p using off by (metis length_sort nth_mem set_sort)
  ultimately show ?thesis by (simp add: mult.commute)
qed

lemma one_route:
  assumes "\<forall>r \<in> set rows. tr_route r = route" "rows \<noteq> []"
  shows "remdups (map tr_route rows) = [route]" "filter (\<lambda>r. tr_route r = route) rows = rows"
proof -
  have "set (remdups (map tr_route rows)) = {route}" using assms by (auto simp: neq_Nil_conv)
  then show "remdups (map tr_route rows) = [route]"
    by (metis distinct_remdups distinct_length_2_or_more empty_set insert_not_empty list.set_intros(1) list.set_intros(2)
        neq_Nil_conv singletonD)
  show "filter (\<lambda>r. tr_route r = route) rows = rows" using assms(1) by (simp add: filter_id_conv)
qed

text \<open>The report has two 95th percentiles, and they are not the same: over the requests of one
  route, the slowest-routes panel serves the value a rank below the one in the totals.\<close>
theorem the_two_percentiles_differ:
  assumes "\<forall>r \<in> set rows. tr_route r = route \<and> tr_kind r \<noteq> ''stream''"
    and "5 \<le> length rows" "0 < limit" "arrange [route] = [route]"
  shows "to_p95 (totals_of rows) = sort (map tr_dur rows) ! (length rows * 95 div 100) \<and>
    map ti_p95 (slowest arrange rows limit) = [sort (map tr_dur rows) ! (length rows * 95 div 100 - 1)]"
proof -
  have rows: "rows \<noteq> []" "timed rows = rows"
    using assms(1,2) by (auto simp: timed_def filter_id_conv)
  have "length rows * 95 div 100 < length rows" using assms(2) by simp
  then have "to_p95 (totals_of rows) = sort (map tr_dur rows) ! (length rows * 95 div 100)"
    using rows by (auto simp: totals_of_def percentile_def Let_def dest: arg_cong [where f = length])
  moreover have "max 1 (length rows * 95 div 100) = length rows * 95 div 100" using assms(2) by simp
  moreover have "remdups (map tr_route rows) = [route]" "filter (\<lambda>r. tr_route r = route) rows = rows"
    using one_route [of rows route] assms(1) rows(1) by blast+
  ultimately show ?thesis
    using rows(2) assms(2-4) by (cases limit) (simp_all add: slowest_def ranked_def Let_def)
qed

section \<open>Witnesses\<close>

definition row_taking :: "int \<Rightarrow> traffic_row" where
  "row_taking d = \<lparr>tr_at = 86400, tr_visitor = ''v'', tr_host = ''h'', tr_entity_kind = EntityNone,
     tr_entity = [], tr_page_kind = [], tr_method = ''GET'', tr_route = ''/api/txs'', tr_target = [],
     tr_network = [], tr_kind = ''api'', tr_tool = [], tr_status = 200, tr_bytes = 1, tr_dur = d,
     tr_app = 0, tr_cache = [], tr_ref = [], tr_client = ''browser'', tr_robot = False\<rparr>"

definition five_rows :: "traffic_row list" where
  "five_rows = map row_taking [3, 1, 5, 2, 4]"

definition demo_query :: traffic_query where
  "demo_query = page_query [] ''24h'' [] [] [] [] [] [] 90000"

lemma series_adds_up_witness:
  "sum_list (map bu_hits (re_series (Report id demo_query five_rows))) = 5"
proof -
  have rows: "qu_rows demo_query five_rows = five_rows"
    by (simp add: qu_rows_def matches_def demo_query_def page_query_def ParseWindow_def windows_def
        ParseWho_def five_rows_def row_taking_def to_lower_def trim_space_def trim_by_def)
  then have "\<not> re_empty (Report id demo_query five_rows)" "to_requests (re_totals (Report id demo_query five_rows)) = 5"
    by (simp_all add: Report_def Let_def five_rows_def totals_of_def)
  then show ?thesis using series_adds_up [of id demo_query five_rows] by simp
qed

lemma five_rows_timed: "timed five_rows = five_rows" "map tr_dur five_rows = [3, 1, 5, 2, 4]"
  by (simp_all add: timed_def five_rows_def row_taking_def)

lemma percentile_covers_its_share_witness: "percentile five_rows 95 \<in> {1, 2, 3, 4, 5}"
  using percentile_covers_its_share [of five_rows 95]
  by (auto simp: five_rows_timed) (simp add: five_rows_def)

lemma the_two_percentiles_differ_witness:
  "to_p95 (totals_of five_rows) = 5 \<and> map ti_p95 (slowest id five_rows 15) = [4]"
  using the_two_percentiles_differ [of five_rows "''/api/txs''" 15 id] five_rows_timed
  by (simp add: five_rows_def row_taking_def)

end
