(* ===== verification/Discover_Scan.thy ===== *)
theory Discover_Scan
  imports Go_Utf8
begin

text \<open>
  The scanners of the grounding gate, \<^verbatim>\<open>pkg/discover/grounding.go\<close>: its regular expressions as
  functions that say how long a match is at a place of a text, and what finding all
  matches from left to right yields. Each expression is unambiguous enough for its
  greedy match to be the match of package \<^verbatim>\<open>regexp\<close>.
\<close>

section \<open>All matches\<close>

text \<open>A matcher is given the text before the place, the nearest byte first, and the text from it on.\<close>

type_synonym matcher = "string \<Rightarrow> string \<Rightarrow> nat"

function find_all :: "matcher \<Rightarrow> string \<Rightarrow> string \<Rightarrow> string list" where
  "find_all m pre [] = []"
| "find_all m pre (c # s) =
     (let n = m pre (c # s)
      in if n = 0 then find_all m (c # pre) s
         else take n (c # s) # find_all m (rev (take n (c # s)) @ pre) (drop n (c # s)))"
  by pat_completeness auto
termination by (relation "measure (\<lambda>(m, pre, s). length s)") auto

text \<open>Bytes that start a match wherever they stand are all inside the matches.\<close>

lemma filter_find_all:
  "(\<And>pre c s. P c \<Longrightarrow> m pre (c # s) \<noteq> 0) \<Longrightarrow>
   filter P s = concat (map (filter P) (find_all m pre s))"
proof (induction m pre s rule: find_all.induct)
  case (2 m pre c s)
  show ?case
  proof (cases "m pre (c # s) = 0")
    case True
    then have "\<not> P c" using "2.prems" [of c pre s] by blast
    moreover have "filter P s = concat (map (filter P) (find_all m (c # pre) s))"
      using "2.IH"(1) [OF refl True] "2.prems" by blast
    ultimately show ?thesis using True by simp
  next
    case False
    let ?n = "m pre (c # s)"
    have "filter P (drop ?n (c # s))
        = concat (map (filter P) (find_all m (rev (take ?n (c # s)) @ pre) (drop ?n (c # s))))"
      using "2.IH"(2) [OF refl False] "2.prems" by blast
    moreover have "filter P (c # s) = filter P (take ?n (c # s)) @ filter P (drop ?n (c # s))"
      by (metis append_take_drop_id filter_append)
    moreover have "find_all m pre (c # s)
        = take ?n (c # s) # find_all m (rev (take ?n (c # s)) @ pre) (drop ?n (c # s))"
      using False by (simp add: Let_def)
    ultimately show ?thesis by (simp del: filter.simps find_all.simps)
  qed
qed simp

section \<open>Replacing and splitting\<close>

function replace_all :: "string \<Rightarrow> string \<Rightarrow> string \<Rightarrow> string" where
  "replace_all old new [] = []"
| "replace_all old new (c # s) =
     (if old \<noteq> [] \<and> has_prefix (c # s) old then new @ replace_all old new (drop (length old) (c # s))
      else c # replace_all old new s)"
  by pat_completeness auto
termination by (relation "measure (\<lambda>(old, new, s). length s)") auto

text \<open>\<^verbatim>\<open>strings.Fields\<close>.\<close>

fun fields_from :: "string \<Rightarrow> string \<Rightarrow> string list" where
  "fields_from cur [] = (if cur = [] then [] else [rev cur])"
| "fields_from cur (c # s) =
     (if is_space c then (if cur = [] then [] else [rev cur]) @ fields_from [] s
      else fields_from (c # cur) s)"

definition space_fields :: "string \<Rightarrow> string list" where
  "space_fields s = fields_from [] s"

section \<open>Numbers and words\<close>

definition nnbsp :: string where "nnbsp = [CHR 0xE2, CHR 0x80, CHR 0xAF]"
definition nbsp :: string where "nbsp = [CHR 0xC2, CHR 0xA0]"

text \<open>The length of the run of digits, commas and spaces a text starts with.\<close>

function num_run :: "string \<Rightarrow> nat" where
  "num_run [] = 0"
| "num_run (c # s) =
     (if is_digit c \<or> c = CHR '','' \<or> c = CHR '' '' then Suc (num_run s)
      else if has_prefix (c # s) nnbsp then 3 + num_run (drop 2 s)
      else if has_prefix (c # s) nbsp then 2 + num_run (drop 1 s)
      else 0)"
  by pat_completeness auto
termination by (relation "measure length") auto

definition number_at :: matcher where
  "number_at pre s =
     (case s of
        [] \<Rightarrow> 0
      | c # _ \<Rightarrow>
          if \<not> is_digit c then 0
          else let n = num_run s; rest = drop n s; frac = takeWhile is_digit (tl rest)
               in if rest \<noteq> [] \<and> hd rest = CHR ''.'' \<and> frac \<noteq> [] then n + 1 + length frac else n)"

definition is_letter :: "char \<Rightarrow> bool" where
  "is_letter c \<longleftrightarrow> (65 \<le> (of_char c :: nat) \<and> (of_char c :: nat) \<le> 90) \<or>
     (97 \<le> (of_char c :: nat) \<and> (of_char c :: nat) \<le> 122)"

definition is_upper :: "char \<Rightarrow> bool" where
  "is_upper c \<longleftrightarrow> 65 \<le> (of_char c :: nat) \<and> (of_char c :: nat) \<le> 90"

definition is_lower :: "char \<Rightarrow> bool" where
  "is_lower c \<longleftrightarrow> 97 \<le> (of_char c :: nat) \<and> (of_char c :: nat) \<le> 122"

text \<open>The same on the bits of the byte, for evaluation.\<close>

lemma is_upper_bits [code]:
  "is_upper (Char b0 b1 b2 b3 b4 b5 b6 b7) \<longleftrightarrow>
     \<not> b7 \<and> b6 \<and> \<not> b5 \<and> (b0 \<or> b1 \<or> b2 \<or> b3 \<or> b4) \<and> \<not> (b4 \<and> b3 \<and> (b2 \<or> b1 \<and> b0))"
  by (cases b0; cases b1; cases b2; cases b3; cases b4; cases b5; cases b6; cases b7;
      simp add: is_upper_def)

lemma is_lower_bits [code]:
  "is_lower (Char b0 b1 b2 b3 b4 b5 b6 b7) \<longleftrightarrow>
     \<not> b7 \<and> b6 \<and> b5 \<and> (b0 \<or> b1 \<or> b2 \<or> b3 \<or> b4) \<and> \<not> (b4 \<and> b3 \<and> (b2 \<or> b1 \<and> b0))"
  by (cases b0; cases b1; cases b2; cases b3; cases b4; cases b5; cases b6; cases b7;
      simp add: is_lower_def)

lemma is_letter_bits [code]: "is_letter c \<longleftrightarrow> is_upper c \<or> is_lower c"
  by (simp add: is_letter_def is_upper_def is_lower_def)

definition word_byte :: "char \<Rightarrow> bool" where
  "word_byte c \<longleftrightarrow> is_letter c \<or> is_digit c \<or> c = CHR ''_''"

definition word_at :: matcher where
  "word_at pre s = length (takeWhile is_letter s)"

section \<open>Names\<close>

text \<open>A literal followed by at least \<open>k\<close> bytes of a class.\<close>

definition run_after :: "string \<Rightarrow> (char \<Rightarrow> bool) \<Rightarrow> nat \<Rightarrow> matcher" where
  "run_after lit P k pre s =
     (if has_prefix s lit \<and> k \<le> length (takeWhile P (drop (length lit) s))
      then length lit + length (takeWhile P (drop (length lit) s)) else 0)"

definition re_space :: "char \<Rightarrow> bool" where
  "re_space c \<longleftrightarrow> c \<in> {CHR '' '', CHR 0x09, CHR 0x0A, CHR 0x0C, CHR 0x0D}"

definition path_at :: matcher where
  "path_at = run_after ''gno.land/'' (\<lambda>c. \<not> re_space c \<and> c \<notin> {CHR '','', CHR ''.'', CHR '')''}) 1"

definition address_at :: matcher where
  "address_at = run_after ''g1'' (\<lambda>c. is_lower c \<or> is_digit c) 8"

definition handle_at :: matcher where
  "handle_at = run_after ''@'' (\<lambda>c. word_byte c \<or> c = CHR ''-'') 1"

definition capital_word :: "string \<Rightarrow> nat" where
  "capital_word s =
     (case s of
        [] \<Rightarrow> 0
      | c # t \<Rightarrow> if is_upper c \<and> takeWhile is_lower t \<noteq> [] then Suc (length (takeWhile is_lower t)) else 0)"

text \<open>The capitalised words that follow, each after one space.\<close>

function more_capitals :: "string \<Rightarrow> nat" where
  "more_capitals [] = 0"
| "more_capitals (c # s) =
     (let n = capital_word s
      in if c = CHR '' '' \<and> n \<noteq> 0 then Suc n + more_capitals (drop n s) else 0)"
  by pat_completeness auto
termination by (relation "measure length") auto

definition proper_noun_at :: matcher where
  "proper_noun_at pre s =
     (let n = capital_word s; k = more_capitals (drop n s)
      in if (pre = [] \<or> \<not> word_byte (hd pre)) \<and> n \<noteq> 0 \<and> k \<noteq> 0 then n + k else 0)"

definition entityShapes :: "(string \<times> matcher) list" where
  "entityShapes = [(''a package path'', path_at), (''an address'', address_at),
     (''a handle'', handle_at), (''a proper noun'', proper_noun_at)]"

section \<open>Sentences\<close>

definition sentence_end_at :: matcher where
  "sentence_end_at pre s =
     (case s of
        [] \<Rightarrow> 0
      | c # t \<Rightarrow>
          if c \<notin> {CHR ''.'', CHR ''!'', CHR ''?''} then 0
          else if t = [] then 1 else if re_space (hd t) then 2 else 0)"

definition forward_words :: "string list" where
  "forward_words = [''will'', ''plans to'', ''aims to'', ''intends'', ''intend to'', ''expects'',
     ''expect to'', ''is building'', ''are building'', ''going to'', ''upcoming'', ''soon'']"

definition boundary :: "string \<Rightarrow> string \<Rightarrow> bool" where
  "boundary pre s \<longleftrightarrow> (pre \<noteq> [] \<and> word_byte (hd pre)) \<noteq> (s \<noteq> [] \<and> word_byte (hd s))"

definition forward_at :: matcher where
  "forward_at pre s =
     (if boundary pre s
      then (case filter (\<lambda>w. has_prefix (to_lower s) w \<and>
                boundary (rev (take (length w) s) @ pre) (drop (length w) s)) forward_words of
              [] \<Rightarrow> 0 | w # _ \<Rightarrow> length w)
      else 0)"

section \<open>Lemmas\<close>

lemma number_at_digit: "is_digit c \<Longrightarrow> number_at pre (c # s) \<noteq> 0"
  by (simp add: number_at_def Let_def)

lemma digits_in_numbers:
  "filter is_digit s = concat (map (filter is_digit) (find_all number_at pre s))"
  by (rule filter_find_all) (rule number_at_digit)

lemma fields_from_word:
  "w \<noteq> [] \<Longrightarrow> \<forall>c \<in> set w. \<not> is_space c \<Longrightarrow> v = [] \<or> is_space (hd v) \<Longrightarrow>
   fields_from cur (w @ v) = (rev cur @ w) # fields_from [] v"
proof (induction w arbitrary: cur)
  case (Cons c w)
  then show ?case by (cases w; cases v) auto
qed simp

lemma fields_no_space: "f \<in> set (fields_from cur s) \<Longrightarrow> \<forall>c \<in> set cur. \<not> is_space c \<Longrightarrow> \<forall>c \<in> set f. \<not> is_space c"
  by (induction cur s rule: fields_from.induct) (auto split: if_splits)

end
