(* ===== verification/Discover_Ground.thy ===== *)
theory Discover_Ground
  imports Discover_Scan Complex_Main
begin

text \<open>
  The grounding gate, \<^verbatim>\<open>pkg/discover/grounding.go\<close>: whether the two explaining layers of an
  event state anything its facts do not. The facts are a list in the order in which Go
  happens to range over the map; floating-point numbers are rationals. A violation keeps
  its check, its field and the text it is about; its message is left out.
\<close>

section \<open>Facts and layers\<close>

text \<open>A number with a fraction comes with the way it is printed.\<close>

datatype fact = FInt int | FFloat rat string | FStr string | FBool bool

type_synonym facts = "(string \<times> fact) list"

record Layers =
  ly_what :: string
  ly_means :: string
  ly_matters :: string

definition Headline :: "Layers \<Rightarrow> string" where "Headline l = ly_means l"

definition Explanation :: "Layers \<Rightarrow> string" where
  "Explanation l = ly_means l @ [CHR 0x0A] @ ly_matters l"

datatype check = G1 | G2 | G3 | G4 | G5 | G7

record violation =
  vi_check :: check
  vi_field :: string
  vi_at :: string

definition violations :: "check \<Rightarrow> string \<Rightarrow> string list \<Rightarrow> violation list" where
  "violations g field ts = map (\<lambda>t. \<lparr>vi_check = g, vi_field = field, vi_at = t\<rparr>) ts"

section \<open>Budgets\<close>

definition MaxWhat :: nat where "MaxWhat = 140"
definition MaxMeans :: nat where "MaxMeans = 90"
definition MaxMatters :: nat where "MaxMatters = 200"
definition MaxExplanation :: nat where "MaxExplanation = 290"

definition rune_count :: "string \<Rightarrow> nat" where "rune_count s = length (runes s)"

definition over_budget :: "string \<Rightarrow> string \<Rightarrow> nat \<Rightarrow> violation list" where
  "over_budget field t most = (if t = [] \<or> most < rune_count t then violations G7 field [t] else [])"

definition checkBudgets :: "Layers \<Rightarrow> violation list" where
  "checkBudgets l =
     over_budget ''what'' (ly_what l) MaxWhat @ over_budget ''means'' (ly_means l) MaxMeans @
     over_budget ''matters'' (ly_matters l) MaxMatters @
     (if 1 < length (find_all sentence_end_at [] (ly_means l)) then violations G7 ''means'' [ly_means l] else []) @
     (if MaxExplanation < rune_count (Explanation l) then violations G7 ''explanation'' [Explanation l] else [])"

section \<open>Numbers\<close>

definition maskNamedEntities :: "facts \<Rightarrow> string \<Rightarrow> string" where
  "maskNamedEntities fs text =
     fold (\<lambda>(k, v) t. case v of
         FStr s \<Rightarrow> if s = [] \<or> list_all is_digit s then t else replace_all s '' '' t
       | _ \<Rightarrow> t) fs text"

definition smallWords :: "(string \<times> rat) list" where
  "smallWords =
     [(''zero'', 0), (''one'', 1), (''two'', 2), (''three'', 3), (''four'', 4), (''five'', 5), (''six'', 6),
      (''seven'', 7), (''eight'', 8), (''nine'', 9), (''ten'', 10), (''eleven'', 11), (''twelve'', 12),
      (''thirteen'', 13), (''fourteen'', 14), (''fifteen'', 15), (''sixteen'', 16),
      (''seventeen'', 17), (''eighteen'', 18), (''nineteen'', 19),
      (''first'', 1), (''second'', 2), (''third'', 3), (''fourth'', 4), (''fifth'', 5), (''sixth'', 6),
      (''seventh'', 7), (''eighth'', 8), (''ninth'', 9), (''tenth'', 10)]"

definition numeric :: "fact option \<Rightarrow> rat option" where
  "numeric v = (case v of Some (FInt n) \<Rightarrow> Some (of_int n) | Some (FFloat x s) \<Rightarrow> Some x | _ \<Rightarrow> None)"

text \<open>\<^verbatim>\<open>math.Round\<close>: to the nearest integer, halves away from zero.\<close>

definition round_half :: "rat \<Rightarrow> rat" where
  "round_half x = (if 0 \<le> x then of_int \<lfloor>x + 1 / 2\<rfloor> else - of_int \<lfloor>- x + 1 / 2\<rfloor>)"

definition renderings :: "rat option \<Rightarrow> string \<Rightarrow> rat \<Rightarrow> rat list" where
  "renderings block k v =
     [v, round_half v, round_half (v * 10) / 10] @
     (let key = to_lower k
      in if str_contains key ''ugnot''
         then [v / 1000000, round_half (v / 1000000), round_half (v / 100000) / 10]
         else if str_contains key ''seconds''
         then [v / 60, round_half (v / 60), v / 3600, round_half (v / 3600), v / 86400, round_half (v / 86400)]
         else (case block of
                 Some b \<Rightarrow> if str_contains key ''blocks''
                   then [v * b, round_half (v * b), round_half (v * b / 10) / 10] else []
               | None \<Rightarrow> []))"

definition groundedNumbers :: "facts \<Rightarrow> rat list" where
  "groundedNumbers fs =
     concat (map (\<lambda>(k, v). case numeric (Some v) of
         Some x \<Rightarrow> renderings (numeric (map_of fs ''block_seconds'')) k x | None \<Rightarrow> []) fs) @ [1]"

definition nearAny :: "rat \<Rightarrow> rat list \<Rightarrow> bool" where
  "nearAny v allowed = list_ex (\<lambda>a. \<bar>a - v\<bar> < 1 / 1000000) allowed"

text \<open>The digits of a token: those before the point, and those after it.\<close>

definition digits_value :: "string \<Rightarrow> rat" where
  "digits_value ds = fold (\<lambda>c v. 10 * v + of_nat (of_char c - 48)) ds 0"

definition parseNumber :: "string \<Rightarrow> rat" where
  "parseNumber tok =
     (let whole = filter is_digit (takeWhile (\<lambda>c. c \<noteq> CHR ''.'') tok);
          frac = tl (dropWhile (\<lambda>c. c \<noteq> CHR ''.'') tok)
      in digits_value whole + digits_value frac / 10 ^ length frac)"

definition superlatives :: "(string \<times> string list) list" where
  "superlatives =
     [(''first'', [''first_ever'']), (''most'', [''rank_'']), (''largest'', [''rank_'']),
      (''biggest'', [''rank_'']), (''fastest'', [''rank_'']),
      (''ever'', [''first_ever'', ''distinct_'', ''_all_time'']),
      (''only'', []), (''never'', []), (''unprecedented'', []), (''revolutionary'', []),
      (''leading'', []), (''popular'', []), (''major'', []), (''huge'', [])]"

definition licensedSuperlative :: "facts \<Rightarrow> string \<Rightarrow> bool" where
  "licensedSuperlative fs word =
     (case map_of superlatives word of
        None \<Rightarrow> True
      | Some licences \<Rightarrow>
          list_ex (\<lambda>want. list_ex (\<lambda>(k, v).
              str_contains (to_lower k) (trim_by (\<lambda>c. c = CHR ''_'') want) \<and>
              (case v of FBool b \<Rightarrow> b | _ \<Rightarrow> True)) fs) licences)"

definition isFactValue :: "facts \<Rightarrow> string \<Rightarrow> bool" where
  "isFactValue fs word = list_ex (\<lambda>(k, v). case v of FStr s \<Rightarrow> equal_fold s word | _ \<Rightarrow> False) fs"

definition words_of :: "string \<Rightarrow> string list" where
  "words_of text = find_all word_at [] (to_lower text)"

definition number_tokens :: "facts \<Rightarrow> string \<Rightarrow> string list" where
  "number_tokens fs text = find_all number_at [] (maskNamedEntities fs text)"

definition figure_word :: "facts \<Rightarrow> string \<Rightarrow> bool" where
  "figure_word fs w =
     (case map_of smallWords w of
        None \<Rightarrow> False
      | Some v \<Rightarrow> \<not> (map_of superlatives w \<noteq> None \<and> licensedSuperlative fs w) \<and>
          \<not> isFactValue fs w \<and> \<not> nearAny v (groundedNumbers fs))"

definition checkNumbers :: "facts \<Rightarrow> string \<Rightarrow> string \<Rightarrow> violation list" where
  "checkNumbers fs field text =
     violations G1 field (filter (\<lambda>tok. \<not> nearAny (parseNumber tok) (groundedNumbers fs)) (number_tokens fs text)) @
     violations G1 field (filter (figure_word fs) (words_of text))"

section \<open>Names\<close>

fun print_fact :: "fact \<Rightarrow> string" where
  "print_fact (FInt n) = itoa n"
| "print_fact (FFloat x s) = s"
| "print_fact (FStr s) = s"
| "print_fact (FBool b) = (if b then ''true'' else ''false'')"

definition factStrings :: "facts \<Rightarrow> string list" where
  "factStrings fs = map (print_fact \<circ> snd) fs"

definition mentionedIn :: "string list \<Rightarrow> string \<Rightarrow> bool" where
  "mentionedIn vals tok =
     list_ex (\<lambda>v. v = tok \<or> str_contains v tok \<or> str_contains tok v \<and> v \<noteq> []) vals"

definition checkEntities :: "facts \<Rightarrow> string \<Rightarrow> string \<Rightarrow> violation list" where
  "checkEntities fs field text =
     concat (map (\<lambda>(name, m). violations G2 field
       (filter (\<lambda>tok. \<not> mentionedIn (factStrings fs) tok) (find_all m [] text))) entityShapes)"

section \<open>Claims\<close>

definition checkSuperlatives :: "facts \<Rightarrow> string \<Rightarrow> string \<Rightarrow> violation list" where
  "checkSuperlatives fs field text =
     violations G3 field
       (filter (\<lambda>w. map_of superlatives w \<noteq> None \<and> \<not> licensedSuperlative fs w) (words_of text))"

definition checkForwardLooking :: "string \<Rightarrow> string \<Rightarrow> violation list" where
  "checkForwardLooking field text = violations G4 field (find_all forward_at [] text)"

definition maskFactValues :: "string \<Rightarrow> facts \<Rightarrow> string" where
  "maskFactValues means fs =
     fold (\<lambda>(k, v) t. case v of FStr s \<Rightarrow> if length s < 2 then t else replace_all s '' '' t | _ \<Rightarrow> t) fs means"

definition spaced :: "string \<Rightarrow> string" where
  "spaced text = '' '' @ to_lower (join_with '' '' (space_fields text)) @ '' ''"

definition uses_headword :: "string \<Rightarrow> string \<Rightarrow> bool" where
  "uses_headword text hw =
     (let lower = spaced text; h = to_lower hw
      in str_contains lower ('' '' @ h @ '' '') \<or> str_contains lower ('' '' @ h @ '', '') \<or>
         str_contains lower ('' '' @ h @ ''. '') \<or> str_contains lower ('' '' @ h @ ''s ''))"

definition checkJargon :: "string list \<Rightarrow> string \<Rightarrow> facts \<Rightarrow> violation list" where
  "checkJargon headwords means fs =
     violations G5 ''means'' (filter (uses_headword (maskFactValues means fs)) headwords)"

section \<open>The gate\<close>

definition check_layer :: "facts \<Rightarrow> string \<Rightarrow> string \<Rightarrow> violation list" where
  "check_layer fs field text =
     checkNumbers fs field text @ checkEntities fs field text @
     checkSuperlatives fs field text @ checkForwardLooking field text"

definition Ground :: "facts \<Rightarrow> Layers \<Rightarrow> string list \<Rightarrow> violation list" where
  "Ground fs l headwords =
     checkBudgets l @ check_layer fs ''means'' (ly_means l) @ check_layer fs ''matters'' (ly_matters l) @
     checkJargon headwords (ly_means l) fs"

end
