(* ===== verification/Discover_Gate.thy ===== *)
theory Discover_Gate
  imports Discover_Ground "HOL-Library.Multiset"
begin

text \<open>
  What the grounding gate of \<^verbatim>\<open>Discover_Ground\<close> guarantees about an event it lets through, and
  where it is weaker than it says.
\<close>

lemma violations_empty [simp]: "violations g field ts = [] \<longleftrightarrow> ts = []"
  by (simp add: violations_def)

lemma Ground_layer:
  "Ground fs l hw = [] \<Longrightarrow> t \<in> {ly_means l, ly_matters l} \<Longrightarrow> \<exists>field. check_layer fs field t = []"
  by (auto simp: Ground_def)

lemma check_layer_empty:
  "check_layer fs field t = [] \<longleftrightarrow>
    (\<forall>tok \<in> set (number_tokens fs t). nearAny (parseNumber tok) (groundedNumbers fs)) \<and>
    (\<forall>w \<in> set (words_of t). \<not> figure_word fs w) \<and>
    (\<forall>(name, m) \<in> set entityShapes. \<forall>tok \<in> set (find_all m [] t). mentionedIn (factStrings fs) tok) \<and>
    (\<forall>w \<in> set (words_of t). map_of superlatives w \<noteq> None \<longrightarrow> licensedSuperlative fs w) \<and>
    find_all forward_at [] t = []"
  by (auto simp: check_layer_def checkNumbers_def checkEntities_def checkSuperlatives_def
      checkForwardLooking_def filter_empty_conv)

text \<open>C25. In a layer that passes the gate no digit goes unread: outside the names the facts carry,
  the digits of the text are those of its number tokens, in order, and each token is within
  a millionth of a number the facts yield by the declared conversions.\<close>
theorem every_digit_is_of_a_grounded_number:
  assumes "Ground fs l hw = []" "t \<in> {ly_means l, ly_matters l}"
  shows "filter is_digit (maskNamedEntities fs t) = concat (map (filter is_digit) (number_tokens fs t)) \<and>
    (\<forall>tok \<in> set (number_tokens fs t). \<exists>v \<in> set (groundedNumbers fs). \<bar>v - parseNumber tok\<bar> < 1 / 1000000)"
proof -
  obtain field where "check_layer fs field t = []" using Ground_layer [OF assms] ..
  then have "\<forall>tok \<in> set (number_tokens fs t). nearAny (parseNumber tok) (groundedNumbers fs)"
    by (simp add: check_layer_empty)
  then show ?thesis
    using digits_in_numbers by (auto simp: number_tokens_def nearAny_def list_ex_iff)
qed

text \<open>A layer that passes has none of the words nothing licenses, and a word of rank only when
  the facts have a key that speaks of a rank.\<close>
theorem passing_layers_claim_nothing:
  assumes "Ground fs l hw = []" "t \<in> {ly_means l, ly_matters l}" "w \<in> set (words_of t)"
  shows "w \<notin> {''only'', ''never'', ''unprecedented'', ''revolutionary'', ''leading'', ''popular'', ''major'', ''huge''} \<and>
    (w \<in> {''most'', ''largest'', ''biggest'', ''fastest''} \<longrightarrow>
      (\<exists>(k, v) \<in> set fs. str_contains (to_lower k) ''rank'' \<and> v \<noteq> FBool False))"
proof -
  obtain field where "check_layer fs field t = []" using Ground_layer [OF assms(1,2)] ..
  then have lic: "map_of superlatives w \<noteq> None \<Longrightarrow> licensedSuperlative fs w"
    using assms(3) by (simp add: check_layer_empty)
  have rank: "trim_by (\<lambda>c. c = CHR ''_'') ''rank_'' = ''rank''" by (simp add: trim_by_def)
  have "w \<notin> {''only'', ''never'', ''unprecedented'', ''revolutionary'', ''leading'', ''popular'', ''major'', ''huge''}"
  proof
    assume "w \<in> {''only'', ''never'', ''unprecedented'', ''revolutionary'', ''leading'', ''popular'', ''major'', ''huge''}"
    then have "map_of superlatives w = Some []"
      by (elim insertE emptyE) (simp_all add: superlatives_def)
    with lic show False by (simp add: licensedSuperlative_def)
  qed
  moreover have "\<exists>(k, v) \<in> set fs. str_contains (to_lower k) ''rank'' \<and> v \<noteq> FBool False"
    if "w \<in> {''most'', ''largest'', ''biggest'', ''fastest''}"
  proof -
    have "map_of superlatives w = Some [''rank_'']"
      using that by (elim insertE emptyE) (simp_all add: superlatives_def)
    with lic have "list_ex (\<lambda>(k, v). str_contains (to_lower k) ''rank'' \<and>
        (case v of FBool b \<Rightarrow> b | _ \<Rightarrow> True)) fs"
      by (simp add: licensedSuperlative_def rank)
    then obtain k v where "(k, v) \<in> set fs" "str_contains (to_lower k) ''rank''"
      "case v of FBool b \<Rightarrow> b | _ \<Rightarrow> True"
      by (auto simp: list_ex_iff)
    then show ?thesis by (intro bexI [of _ "(k, v)"]) auto
  qed
  ultimately show ?thesis by blast
qed



lemma join_contains:
  "f \<in> set fs \<Longrightarrow> \<exists>u v. '' '' @ to_lower (join_with '' '' fs) @ '' '' = u @ '' '' @ to_lower f @ '' '' @ v"
proof (induction fs)
  case outer: (Cons p ps)
  show ?case
  proof (cases ps)
    case Nil
    with outer.prems show ?thesis by (intro exI [of _ "[]"]) simp
  next
    case (Cons q qs)
    have join: "to_lower (join_with '' '' (p # ps)) = to_lower p @ '' '' @ to_lower (join_with '' '' ps)"
      using Cons by (simp add: to_lower_def lower_char_def)
    show ?thesis
    proof (cases "f = p")
      case True
      then show ?thesis
        unfolding join True
        by (intro exI [of _ "[]"] exI [of _ "to_lower (join_with '' '' ps) @ '' ''"]) simp
    next
      case False
      then obtain u v where "'' '' @ to_lower (join_with '' '' ps) @ '' '' = u @ '' '' @ to_lower f @ '' '' @ v"
        using outer.IH outer.prems by (metis set_ConsD)
      then have "'' '' @ to_lower (join_with '' '' (p # ps)) @ '' ''
          = ('' '' @ to_lower p @ u) @ '' '' @ to_lower f @ '' '' @ v"
        unfolding join by simp
      then show ?thesis by blast
    qed
  qed
qed simp

text \<open>The line a skimmer reads uses no headword of the glossary in its own words: once the
  values of the facts are taken out, no word of it is a headword, in whatever case.\<close>
theorem headline_uses_no_headword:
  assumes "Ground fs l hw = []" "h \<in> set hw" "f \<in> set (space_fields (maskFactValues (ly_means l) fs))"
  shows "\<not> equal_fold f h"
proof
  assume "equal_fold f h"
  then have eq: "to_lower f = to_lower h" by (simp add: equal_fold_def)
  obtain u v where "spaced (maskFactValues (ly_means l) fs) = u @ ('' '' @ to_lower h @ '' '') @ v"
    using join_contains [OF assms(3)] unfolding spaced_def eq by auto
  then have "uses_headword (maskFactValues (ly_means l) fs) h"
    unfolding uses_headword_def Let_def str_contains_iff by blast
  moreover have "filter (uses_headword (maskFactValues (ly_means l) fs)) hw = []"
    using assms(1) by (simp add: Ground_def checkJargon_def)
  ultimately show False using assms(2) by (simp add: filter_empty_conv)
qed

text \<open>The names in a layer are checked against the facts by containment in either direction, so
  one fact that prints as \<open>1\<close> grounds every address there is.\<close>
theorem a_count_of_one_grounds_every_address:
  assumes "(k, FInt 1) \<in> set fs"
  shows "filter (\<lambda>tok. \<not> mentionedIn (factStrings fs) tok) (find_all address_at [] t) = []"
proof -
  have tok: "\<exists>s. tok = ''g1'' @ s" if "tok \<in> set (find_all address_at pre t)" for tok pre
    using that
  proof (induction address_at pre t rule: find_all.induct)
    case (2 pre c s)
    then show ?case
      by (auto simp: address_at_def run_after_def Let_def has_prefix_iff take_append split: if_splits)
  qed simp
  have "''1'' \<in> set (factStrings fs)"
  proof -
    have "print_fact (FInt 1) = ''1''" by code_simp
    then show ?thesis using assms by (force simp: factStrings_def)
  qed
  moreover have "str_contains (''g1'' @ s) ''1''" for s
    unfolding str_contains_iff by (rule exI [of _ "''g''"]) simp
  ultimately show ?thesis
    by (auto simp: filter_empty_conv mentionedIn_def list_ex_iff intro!: bexI [of _ "''1''"] dest!: tok)
qed

section \<open>The order of the facts\<close>

lemma replace_all_absent: "h \<notin> set s \<Longrightarrow> replace_all (h # t) new s = s"
  by (induction s) (auto simp: has_prefix_iff)

lemma replace_all_once:
  "h \<notin> set u \<Longrightarrow> replace_all (h # t) new (u @ (h # t) @ r) = u @ new @ replace_all (h # t) new r"
  by (induction u) (auto simp: has_prefix_iff)

lemma no_digits_no_numbers: "\<forall>c \<in> set u. \<not> is_digit c \<Longrightarrow> find_all number_at pre (u @ r) = find_all number_at (rev u @ pre) r"
  by (induction u arbitrary: pre) (simp_all add: number_at_def)

lemma digits_run_through: "\<forall>c \<in> set d. is_digit c \<Longrightarrow> num_run d = length d"
  by (induction d) simp_all

lemma digits_are_a_number:
  assumes "d \<noteq> []" "\<forall>c \<in> set d. is_digit c"
  shows "find_all number_at pre d = [d]"
proof -
  obtain c ds where d: "d = c # ds" using assms(1) by (cases d) auto
  have "number_at pre d = length d"
    using assms(2) digits_run_through [OF assms(2)] unfolding number_at_def d by (simp add: Let_def)
  then show ?thesis unfolding d by (simp add: Let_def)
qed

lemma mask_others: "\<forall>(k, v) \<in> set fs. \<forall>s. v \<noteq> FStr s \<Longrightarrow> maskNamedEntities (fs @ gs) text = maskNamedEntities gs text"
  by (induction fs) (auto simp: maskNamedEntities_def split: fact.splits)

lemma mask_name: "\<not> list_all is_digit s \<Longrightarrow> maskNamedEntities ((k, FStr s) # fs) text = maskNamedEntities fs (replace_all s '' '' text)"
  by (auto simp: maskNamedEntities_def)


section \<open>Witnesses\<close>

definition deploy_facts :: facts where
  "deploy_facts = [(''package_name'', FStr ''nym''), (''actor_label'', FStr ''@nym-polux007''), (''num_files'', FInt 3)]"

definition deploy_layers :: Layers where
  "deploy_layers = \<lparr>ly_what = ''Published.'', ly_means = ''@nym-polux007 put a new app on the chain, called nym.'',
     ly_matters = ''It is 3 files of code.''\<rparr>"

lemma deploy_passes: "Ground (rev deploy_facts) deploy_layers [''realm''] = []"
  by code_simp

definition shared_layers :: Layers where
  "shared_layers = \<lparr>ly_what = ''Shared.'', ly_means = ''Shared by olux007'', ly_matters = ''It is code.''\<rparr>"


lemma every_digit_is_of_a_grounded_number_witness:
  "\<exists>v \<in> set (groundedNumbers (rev deploy_facts)). \<bar>v - parseNumber ''3 ''\<bar> < 1 / 1000000"
proof -
  have "ly_matters deploy_layers = ''It is 3 files of code.''" by (simp add: deploy_layers_def)
  moreover have "''3 '' \<in> set (number_tokens (rev deploy_facts) ''It is 3 files of code.'')" by code_simp
  ultimately show ?thesis
    using every_digit_is_of_a_grounded_number [OF deploy_passes, of "ly_matters deploy_layers"] by auto
qed

lemma passing_layers_claim_nothing_witness: "''code'' \<notin> {''only'', ''never'', ''popular''}"
proof -
  have "''code'' \<in> set (words_of ''It is 3 files of code.'')" by code_simp
  then have "''code'' \<in> set (words_of (ly_matters deploy_layers))" by (simp add: deploy_layers_def)
  then show ?thesis
    using passing_layers_claim_nothing [OF deploy_passes, of "ly_matters deploy_layers" "''code''"] by simp
qed

lemma headline_uses_no_headword_witness: "\<not> equal_fold ''chain,'' ''realm''"
proof -
  have "''chain,'' \<in> set (space_fields (maskFactValues (ly_means deploy_layers) (rev deploy_facts)))" by code_simp
  then show ?thesis using headline_uses_no_headword [OF deploy_passes, of "''realm''"] by simp
qed

lemma a_count_of_one_grounds_every_address_witness:
  "filter (\<lambda>tok. \<not> mentionedIn (factStrings [(''num_files'', FInt 1)]) tok)
     (find_all address_at [] ''Sent to g1inventedaddress by nobody.'') = []"
  by (rule a_count_of_one_grounds_every_address [of "''num_files''"]) simp

end
