(* ===== verification/Discover_Spike.thy ===== *)
theory Discover_Spike
  imports Go_Prelude Complex_Main "HOL-Library.Multiset"
begin

text \<open>
  The spike detector, \<^verbatim>\<open>pkg/discover/spike.go\<close>: whether a day of a daily series is unusual
  against the median and the spread of the days before it. Floating-point numbers are
  rationals, and the infinite score of a day over a flat baseline is \<^term>\<open>None\<close>.
\<close>

section \<open>Statistics\<close>

definition median :: "rat list \<Rightarrow> rat" where
  "median xs =
     (if xs = [] then 0
      else let s = sort xs; mid = length s div 2
           in if length s mod 2 = 1 then s ! mid else (s ! (mid - 1) + s ! mid) / 2)"

definition meanOf :: "rat list \<Rightarrow> rat" where
  "meanOf xs = (if xs = [] then 0 else sum_list xs / of_nat (length xs))"

section \<open>The detector\<close>

definition SpikeWindow :: nat where "SpikeWindow = 7"
definition SpikeMinBaseline :: nat where "SpikeMinBaseline = 3"
definition SpikeZ :: rat where "SpikeZ = 7 / 2"
definition SpikeRatio :: rat where "SpikeRatio = 2"

definition SpikeFloors :: "string \<Rightarrow> rat" where
  "SpikeFloors kind = (if kind = ''chain.spike'' then 100 else if kind = ''package.spike'' then 25 else 0)"

record day_point =
  pt_day :: string
  pt_x :: rat

datatype spike_reason = Warm_up | Statistical | Absolute | Headline | Fire

record spike =
  sp_day :: string
  sp_x :: rat
  sp_n :: nat
  sp_median :: rat
  sp_mad :: rat
  sp_z :: "rat option"
  sp_excess :: rat
  sp_ratio :: rat
  sp_fired :: bool
  sp_why :: spike_reason

text \<open>The days counted as the baseline of day \<open>i\<close>, the nearest first.\<close>

definition baseline :: "day_point list \<Rightarrow> string \<Rightarrow> nat \<Rightarrow> rat list" where
  "baseline series start i =
     map pt_x (filter (\<lambda>p. \<not> (start \<noteq> [] \<and> pt_day p < start))
       (rev (drop (i - SpikeWindow) (take i series))))"

definition deviations :: "rat list \<Rightarrow> rat list" where
  "deviations base = map (\<lambda>b. \<bar>b - median base\<bar>) base"

definition spread :: "rat list \<Rightarrow> rat" where
  "spread base =
     (let mad = median (deviations base); mean = meanOf (deviations base)
      in if 0 < mad then mad / (6745 / 10000)
         else if 0 < mean then 1253314 / 1000000 * mean else 0)"

definition score_of :: "rat list \<Rightarrow> rat \<Rightarrow> rat option" where
  "score_of base x =
     (if 0 < spread base then Some ((x - median base) / spread base)
      else if median base < x then None else Some 0)"

definition gate :: "rat option \<Rightarrow> rat \<Rightarrow> rat \<Rightarrow> rat \<Rightarrow> rat \<Rightarrow> spike_reason" where
  "gate z excess least m x =
     (if (case z of Some v \<Rightarrow> v < SpikeZ | None \<Rightarrow> False) then Statistical
      else if excess < least then Absolute
      else if 0 < m \<and> x < SpikeRatio * m then Headline
      else Fire)"

definition detect_day :: "day_point list \<Rightarrow> rat \<Rightarrow> string \<Rightarrow> nat \<Rightarrow> spike" where
  "detect_day series least start i =
     (let p = series ! i; base = baseline series start i; m = median base;
          warm = \<lparr>sp_day = pt_day p, sp_x = pt_x p, sp_n = length base, sp_median = 0, sp_mad = 0,
            sp_z = Some 0, sp_excess = 0, sp_ratio = 0, sp_fired = False, sp_why = Warm_up\<rparr>
      in if length base < SpikeMinBaseline then warm
         else let z = score_of base (pt_x p); why = gate z (pt_x p - m) least m (pt_x p)
              in warm\<lparr>sp_median := m, sp_mad := median (deviations base), sp_z := z,
                      sp_excess := pt_x p - m, sp_ratio := (if m \<noteq> 0 then pt_x p / m else 0),
                      sp_fired := (why = Fire), sp_why := why\<rparr>)"

definition Detect :: "day_point list \<Rightarrow> rat \<Rightarrow> string \<Rightarrow> spike list" where
  "Detect series least start = map (detect_day series least start) [0..<length series]"

definition Fired :: "spike list \<Rightarrow> string list" where
  "Fired verdicts = map sp_day (filter sp_fired verdicts)"

section \<open>The median\<close>

lemma sort_mset: "mset xs = mset ys \<Longrightarrow> sort xs = sort (ys :: rat list)"
  by (metis properties_for_sort mset_sort sorted_sort)

lemma median_mset: "mset xs = mset ys \<Longrightarrow> median xs = median ys"
  unfolding median_def using sort_mset [of xs ys] by (metis mset_zero_iff)

lemma sorted_half:
  fixes s :: "rat list"
  assumes "sorted s" "length s < 2 * length (filter (\<lambda>x. x \<le> b) s)" "k \<le> length s div 2"
  shows "s ! k \<le> b"
proof (rule ccontr)
  assume not: "\<not> s ! k \<le> b"
  have nonempty: "k < length s" using assms(2,3) by (cases s) auto
  have "filter (\<lambda>x. x \<le> b) (drop k s) = []"
  proof (rule filter_False, intro ballI notI)
    fix x
    assume "x \<in> set (drop k s)" "x \<le> b"
    then obtain j where "j < length s - k" "x = s ! (k + j)" by (auto simp: in_set_conv_nth)
    then have "s ! k \<le> x" using assms(1) by (simp add: sorted_nth_mono)
    with \<open>x \<le> b\<close> not show False by simp
  qed
  then have "filter (\<lambda>x. x \<le> b) s = filter (\<lambda>x. x \<le> b) (take k s)"
    by (metis append_Nil2 append_take_drop_id filter_append)
  then have "length (filter (\<lambda>x. x \<le> b) s) \<le> k"
    using length_filter_le [of "\<lambda>x. x \<le> b" "take k s"] nonempty by simp
  with assms(2,3) show False by linarith
qed

text \<open>The baseline of the detector is not moved by a minority of its days: when more than
  half of the values are at most a bound, so is the median, whatever the others are.\<close>
theorem median_ignores_a_minority:
  assumes "length xs < 2 * length (filter (\<lambda>x. x \<le> b) xs)"
  shows "median xs \<le> b"
proof -
  let ?s = "sort xs"
  have half: "length ?s < 2 * length (filter (\<lambda>x. x \<le> b) ?s)"
    using assms by (simp add: filter_sort)
  have "?s ! (length ?s div 2) \<le> b" "?s ! (length ?s div 2 - 1) \<le> b"
    using sorted_half [OF sorted_sort half] by simp_all
  then show ?thesis using assms by (auto simp: median_def Let_def)
qed

lemma deviations_nonneg: "d \<in> set (deviations base) \<Longrightarrow> 0 \<le> d"
  by (auto simp: deviations_def)

lemma spread_nonneg: "0 \<le> spread base"
proof -
  have "0 \<le> 1253314 / 1000000 * (x :: rat)" if "0 < x" for x using that by simp
  then show ?thesis by (simp add: spread_def Let_def)
qed

section \<open>Properties\<close>

lemma nth_Detect: "i < length series \<Longrightarrow> Detect series least start ! i = detect_day series least start i"
  by (simp add: Detect_def)

lemma gate_Fire:
  "gate z excess least m x = Fire \<longleftrightarrow>
    \<not> (case z of Some v \<Rightarrow> v < SpikeZ | None \<Rightarrow> False) \<and> \<not> excess < least \<and> \<not> (0 < m \<and> x < SpikeRatio * m)"
  by (simp add: gate_def)

lemma gates:
  assumes "i < length series" and x_def: "x = pt_x (series ! i)" and base_def: "base = baseline series start i"
  shows "sp_fired (Detect series least start ! i) \<longleftrightarrow>
    SpikeMinBaseline \<le> length base \<and>
    (if 0 < spread base then median base + SpikeZ * spread base \<le> x else median base < x) \<and>
    median base + least \<le> x \<and> (0 < median base \<longrightarrow> SpikeRatio * median base \<le> x)"
proof -
  have z: "(case score_of base x of Some v \<Rightarrow> v < SpikeZ | None \<Rightarrow> False) \<longleftrightarrow>
      \<not> (if 0 < spread base then median base + SpikeZ * spread base \<le> x else median base < x)"
    by (auto simp: score_of_def pos_divide_less_eq not_less algebra_simps SpikeZ_def)
  have "sp_fired (detect_day series least start i) \<longleftrightarrow> SpikeMinBaseline \<le> length base \<and>
      gate (score_of base x) (x - median base) least (median base) x = Fire"
    by (simp add: detect_day_def Let_def x_def base_def not_less)
  then show ?thesis
    unfolding nth_Detect [OF assms(1)] gate_Fire z by (auto simp: not_less algebra_simps)
qed

lemma day_fires:
  "i < length series \<Longrightarrow> sp_fired (Detect series least start ! i) \<longleftrightarrow>
    SpikeMinBaseline \<le> length (baseline series start i) \<and>
    (if 0 < spread (baseline series start i)
     then median (baseline series start i) + SpikeZ * spread (baseline series start i) \<le> pt_x (series ! i)
     else median (baseline series start i) < pt_x (series ! i)) \<and>
    median (baseline series start i) + least \<le> pt_x (series ! i) \<and>
    (0 < median (baseline series start i) \<longrightarrow> SpikeRatio * median (baseline series start i) \<le> pt_x (series ! i))"
  by (rule gates) simp_all

text \<open>A day fires exactly when it has a baseline of three days and passes the three gates: it
  lies three and a half spreads above the median, or above a flat baseline at all; the excess
  reaches the floor of the kind; and it is at least twice a positive median.\<close>
theorem fires_iff_all_gates:
  assumes "i < length series" and x_def: "x = pt_x (series ! i)" and base_def: "base = baseline series start i"
  shows "sp_fired (Detect series least start ! i) \<longleftrightarrow>
    SpikeMinBaseline \<le> length base \<and>
    (if 0 < spread base then median base + SpikeZ * spread base \<le> x else median base < x) \<and>
    median base + least \<le> x \<and> (0 < median base \<longrightarrow> SpikeRatio * median base \<le> x)"
  unfolding assms(2,3) using assms(1) by (rule day_fires)

lemma fires_reaches_its_baseline:
  assumes "sp_fired (detect_day series least start i)" "0 < sp_median (detect_day series least start i)"
  shows "2 \<le> sp_ratio (detect_day series least start i)"
  using assms by (auto simp: detect_day_def Let_def gate_def SpikeRatio_def field_simps split: if_splits)

text \<open>A larger figure on the same day fires whenever a smaller one does.\<close>
theorem more_still_fires:
  assumes "i < length series" "sp_fired (Detect series least start ! i)" "pt_x (series ! i) \<le> y"
  shows "sp_fired (Detect (series[i := (series ! i)\<lparr>pt_x := y\<rparr>]) least start ! i)"
proof -
  have "baseline (series[i := (series ! i)\<lparr>pt_x := y\<rparr>]) start i = baseline series start i"
    by (simp add: baseline_def take_update_cancel)
  then show ?thesis
    using assms(2,3) day_fires [OF assms(1), of least start]
      day_fires [of i "series[i := (series ! i)\<lparr>pt_x := y\<rparr>]" least start] assms(1)
    by (auto split: if_splits)
qed

text \<open>The window is counted in rows and not in days: without a first day to clip at, the verdicts
  are those of any series with the same figures, however far apart its days lie.\<close>

lemma verdicts_ignore_the_days:
  assumes "map pt_x s = map pt_x t"
  shows "map sp_fired (Detect s least []) = map sp_fired (Detect t least [])"
proof -
  have len: "length s = length t" using assms map_eq_imp_length_eq by blast
  have figures: "map pt_x (rev (drop k (take i r))) = rev (drop k (take i (map pt_x r)))" for k i r
    by (simp add: take_map drop_map rev_map)
  have base: "baseline s [] i = baseline t [] i" for i
    by (simp add: baseline_def figures assms)
  have "pt_x (s ! i) = pt_x (t ! i)" if "i < length s" for i
    using that assms len by (metis nth_map)
  then show ?thesis
    by (simp add: Detect_def comp_def len detect_day_def Let_def base)
qed

lemma baseline_clipped:
  assumes "start \<noteq> []" "\<forall>p \<in> set old. pt_day p < start" "\<forall>p \<in> set new. \<not> pt_day p < start"
    and "i \<le> length new"
  shows "baseline (old @ new) start (length old + i) = baseline new [] i"
proof -
  let ?live = "\<lambda>p. \<not> (start \<noteq> [] \<and> pt_day p < start)"
  have none: "filter ?live (rev (drop k old)) = []" for k
    using assms(1,2) by (auto simp: filter_empty_conv dest: in_set_dropD)
  have all: "filter ?live (rev (drop k (take i new))) = rev (drop k (take i new))" for k
    using assms(3) by (auto simp: filter_id_conv dest: in_set_dropD in_set_takeD)
  have "drop (length old + i - SpikeWindow) (take (length old + i) (old @ new))
      = drop (length old + i - SpikeWindow) old @ drop (i - SpikeWindow) (take i new)"
    by simp
  then show ?thesis unfolding baseline_def using none all by simp
qed

text \<open>Passing the first day of a subject is the same as leaving out the days before it: over
  its own days the detector gives the verdicts of the series cut at that day.\<close>
theorem clipping_is_dropping:
  assumes "start \<noteq> []" "\<forall>p \<in> set old. pt_day p < start" "\<forall>p \<in> set new. \<not> pt_day p < start"
  shows "drop (length old) (Detect (old @ new) least start) = Detect new least []"
proof (rule nth_equalityI)
  fix i
  assume "i < length (drop (length old) (Detect (old @ new) least start))"
  then have i: "i < length new" by (simp add: Detect_def)
  have "detect_day (old @ new) least start (length old + i) = detect_day new least [] i"
    using baseline_clipped [OF assms, of i] i by (simp add: detect_day_def)
  then show "drop (length old) (Detect (old @ new) least start) ! i = Detect new least [] ! i"
    using i by (simp add: nth_Detect) (simp add: Detect_def)
qed (simp add: Detect_def)

section \<open>Witnesses\<close>

definition quiet_week :: "day_point list" where
  "quiet_week = map (\<lambda>x. \<lparr>pt_day = ''2026-09-1'', pt_x = x\<rparr>) [40, 50, 400, 45, 46]"

lemma median_ignores_a_minority_witness: "median [40, 50, 400, 45, 46] \<le> 50"
  using median_ignores_a_minority [of "[40, 50, 400, 45, 46]" 50] by simp

definition busy_day :: "day_point list" where
  "busy_day = quiet_week @ [\<lparr>pt_day = ''2026-09-18'', pt_x = 603\<rparr>]"

lemma busy_day_base: "baseline busy_day [] 5 = [46, 45, 400, 50, 40]"
  by (simp add: baseline_def busy_day_def quiet_week_def SpikeWindow_def)

lemma busy_day_figures: "median [46, 45, 400, 50, 40] = 46" "spread [46, 45, 400, 50, 40] = 4 / (6745 / 10000)"
  by code_simp+

lemma busy_day_x: "pt_x (busy_day ! 5) = 603" "5 < length busy_day"
  by (simp_all add: busy_day_def quiet_week_def)

lemma fires_iff_all_gates_witness: "sp_fired (Detect busy_day 100 [] ! 5)"
  using fires_iff_all_gates [OF busy_day_x(2) refl refl, of 100 "[]"]
  unfolding busy_day_base busy_day_figures busy_day_x
  by (simp add: SpikeMinBaseline_def SpikeZ_def SpikeRatio_def)

lemma more_still_fires_witness:
  "sp_fired (Detect (busy_day[5 := (busy_day ! 5)\<lparr>pt_x := 700\<rparr>]) 100 [] ! 5)"
proof -
  have "sp_fired (Detect busy_day 100 [] ! 5)"
    unfolding day_fires [OF busy_day_x(2)] busy_day_base busy_day_figures busy_day_x
    by (simp add: SpikeMinBaseline_def SpikeZ_def SpikeRatio_def)
  then show ?thesis using more_still_fires [OF busy_day_x(2)] busy_day_x(1) by simp
qed

lemma clipping_is_dropping_witness:
  "drop 1 (Detect (\<lparr>pt_day = ''2026-08-31'', pt_x = 0\<rparr> # quiet_week) 100 ''2026-09-01'') = Detect quiet_week 100 []"
  using clipping_is_dropping [of "''2026-09-01''" "[\<lparr>pt_day = ''2026-08-31'', pt_x = 0\<rparr>]" quiet_week 100]
  by (simp add: quiet_week_def less_char_def)

end
