(* ===== verification/Discover_Emit.thy ===== *)
theory Discover_Emit
  imports Discover_Gate Discover_Spike
begin

text \<open>
  The emitters, \<^verbatim>\<open>pkg/discover/emit.go\<close>: for every kind of event the facts and the three layers
  a reader sees, with the paths and counts they are made from.
\<close>

section \<open>Paths\<close>

definition VersionSegment :: "string \<Rightarrow> bool" where
  "VersionSegment seg \<longleftrightarrow> 2 \<le> length seg \<and> hd seg = CHR ''v'' \<and> list_all is_digit (tl seg)"

text \<open>The last segment, from the third on, that is no version; the segments in reverse order.\<close>

fun last_name :: "string list \<Rightarrow> string option" where
  "last_name [] = None"
| "last_name (p # ps) = (if VersionSegment p then last_name ps else Some p)"

definition SplitPath :: "string \<Rightarrow> string \<times> string" where
  "SplitPath path =
     (let parts = split_on CHR ''/'' (trim_prefix path ''gno.land/'')
      in if length parts < 3 then ([], last parts)
         else (parts ! 1, case last_name (rev (drop 2 parts)) of Some p \<Rightarrow> p | None \<Rightarrow> last parts))"

section \<open>Phrases\<close>

definition plural_noun :: "int \<Rightarrow> string \<Rightarrow> string" where
  "plural_noun n noun = (if n = 1 then ''1 '' @ noun else itoa n @ '' '' @ noun @ ''s'')"

definition numberWords :: "string list" where
  "numberWords = [''Zero'', ''One'', ''Two'', ''Three'', ''Four'', ''Five'', ''Six'', ''Seven'', ''Eight'',
     ''Nine'', ''Ten'', ''Eleven'', ''Twelve'', ''Thirteen'', ''Fourteen'', ''Fifteen'',
     ''Sixteen'', ''Seventeen'', ''Eighteen'', ''Nineteen'']"

definition spellSmall :: "int \<Rightarrow> string" where
  "spellSmall n = (if 0 \<le> n \<and> nat n < length numberWords then numberWords ! nat n else itoa n)"

definition article :: "string \<Rightarrow> string" where
  "article word =
     (if word = [] then ''a'' else if hd word \<in> set ''aeiouAEIOU'' then ''an'' else ''a'')"

definition shed :: "nat \<Rightarrow> string \<Rightarrow> string \<Rightarrow> string" where
  "shed most full short = (if rune_count full \<le> most then full else short)"

definition deployedMeans :: "string \<Rightarrow> string \<Rightarrow> string \<Rightarrow> string" where
  "deployedMeans who thing name =
     shed MaxMeans (who @ '' put a new '' @ thing @ '' on the chain, called '' @ name @ ''.'')
       (who @ '' put a new '' @ thing @ '' on the chain.'')"

definition deployedWhat :: "string \<Rightarrow> string \<Rightarrow> int \<Rightarrow> int \<Rightarrow> string" where
  "deployedWhat path creator numFiles height =
     (let by_whom = (if fst (SplitPath path) \<noteq> creator then '', by '' @ creator else []);
          start = ''MsgAddPackage published '' @ path @ '', '' @ plural_noun numFiles ''file'' @ by_whom
      in shed MaxWhat (start @ '', at block '' @ itoa height @ ''.'') (start @ ''.''))"

definition debutMeans :: "string \<Rightarrow> string \<Rightarrow> string \<Rightarrow> string" where
  "debutMeans who thing pkg =
     shed MaxMeans (who @ '' published on the chain for the first time, '' @ article thing @ '' '' @ thing @
         '' called '' @ pkg @ ''.'')
       (who @ '' published on the chain for the first time.'')"

definition waitedPhrase :: "rat \<Rightarrow> string" where
  "waitedPhrase seconds =
     (let n = \<lfloor>round_half seconds\<rfloor>
      in if 2 \<le> n then ''It waited '' @ itoa n @ '' seconds to be checked and approved.''
         else ''It was checked and approved almost immediately.'')"

definition thing_of :: "bool \<Rightarrow> string" where
  "thing_of is_realm = (if is_realm then ''app'' else ''library'')"

definition somebody :: "string \<Rightarrow> string" where
  "somebody label = (if label = [] then ''Somebody'' else label)"

section \<open>Events\<close>

text \<open>The inputs of the emitters. A ratio comes with the way it is printed.\<close>

record PackageDeployed =
  pd_path :: string
  pd_creator :: string
  pd_label :: string
  pd_height :: int
  pd_is_realm :: bool
  pd_files :: int
  pd_first_ever :: bool

record DeployerFirst =
  df_address :: string
  df_label :: string
  df_package :: string
  df_is_realm :: bool
  df_net :: string
  df_deployers :: int

record ChainSpike =
  cs_day :: string
  cs_net :: string
  cs_new :: int
  cs_median :: int
  cs_ratio :: rat
  cs_shown :: string

record PackageEnabled =
  pe_path :: string
  pe_height :: int
  pe_blocks :: int
  pe_seconds :: rat
  pe_shown :: string
  pe_is_realm :: bool

record PackageFirstCall =
  fc_path :: string
  fc_ref :: string
  fc_caller :: string
  fc_height :: int
  fc_external :: bool

record PackageSpike =
  ps_ref :: string
  ps_day :: string
  ps_calls :: int
  ps_callers :: int
  ps_median :: int
  ps_ratio :: rat
  ps_shown :: string

record NamespaceRegistered =
  nr_name :: string
  nr_address :: string
  nr_height :: int

record ValidatorRegistered =
  vr_moniker :: string
  vr_address :: string
  vr_height :: int

record PackageRejected =
  pr_path :: string
  pr_ref :: string
  pr_actor :: string
  pr_height :: int

record ProposalOpened =
  po_id :: int
  po_title :: string
  po_label :: string
  po_actor :: string
  po_height :: int

record ProposalClosed =
  pc_id :: int
  pc_title :: string
  pc_outcome :: string
  pc_yes :: int
  pc_executed :: bool
  pc_height :: int

record TransferLarge =
  tl_gnot :: int
  tl_sender :: string
  tl_recipient :: string
  tl_height :: int

datatype event_input =
    Package_deployed PackageDeployed
  | Deployer_first DeployerFirst
  | Chain_spike ChainSpike
  | Package_enabled PackageEnabled
  | Package_first_call PackageFirstCall
  | Package_spike PackageSpike
  | Namespace_registered NamespaceRegistered
  | Validator_registered ValidatorRegistered
  | Package_rejected PackageRejected
  | Proposal_opened ProposalOpened
  | Proposal_closed ProposalClosed
  | Transfer_large TransferLarge

definition TransferLargeThresholdGNOT :: int where "TransferLargeThresholdGNOT = 100000"

definition lay :: "string \<Rightarrow> string \<Rightarrow> string \<Rightarrow> Layers" where
  "lay what means matters = \<lparr>ly_what = what, ly_means = means, ly_matters = matters\<rparr>"

section \<open>The emitters\<close>

definition emit_Package_deployed :: "PackageDeployed \<Rightarrow> facts \<times> Layers" where
  "emit_Package_deployed i =
    ([(''package_name'', FStr (snd (SplitPath (pd_path i)))), (''namespace'', FStr (fst (SplitPath (pd_path i)))),
      (''actor_label'', FStr (pd_label i)), (''is_realm'', FBool (pd_is_realm i)), (''num_files'', FInt (pd_files i)),
      (''first_ever'', FBool (pd_first_ever i))],
      lay (deployedWhat (pd_path i) (pd_creator i) (pd_files i) (pd_height i))
        (deployedMeans (somebody (pd_label i)) (thing_of (pd_is_realm i)) (snd (SplitPath (pd_path i))))
        (''Anyone can look at it or use it now, and nobody can change it except '' @
         (if pd_label i = [] then ''its author'' else (pd_label i)) @ ''. It is '' @ plural_noun (pd_files i) ''file'' @ '' of code.''))"

definition emit_Deployer_first :: "DeployerFirst \<Rightarrow> facts \<times> Layers" where
  "emit_Deployer_first i =
    ([(''actor_address'', FStr (df_address i)), (''actor_label'', FStr (df_label i)), (''package_name'', FStr (df_package i)),
      (''first_ever'', FBool True), (''distinct_deployers'', FInt (df_deployers i))],
      lay ((df_address i) @ '' has no earlier successful MsgAddPackage on '' @ df_net i @ ''.'')
        (debutMeans (somebody (df_label i)) (thing_of (df_is_realm i)) (df_package i))
        (''A new builder arrived. '' @ spellSmall (df_deployers i) @ '' people have ever published on this chain.''))"

definition emit_Chain_spike :: "ChainSpike \<Rightarrow> facts \<times> Layers" where
  "emit_Chain_spike i =
    ([(''day'', FStr (cs_day i)), (''new_addresses'', FInt (cs_new i)), (''baseline_median'', FInt (cs_median i)),
      (''excess'', FInt ((cs_new i) - (cs_median i))), (''ratio'', FFloat (cs_ratio i) (cs_shown i))],
      lay (itoa (cs_new i) @ '' addresses appeared on '' @ cs_net i @ '' for the first time on '' @ cs_day i @
           '', against a 7-day median of '' @ itoa (cs_median i) @ ''.'')
        (itoa (cs_new i) @ '' new wallets showed up on the chain in one day.'')
        (''A normal day is about '' @ itoa (cs_median i) @ '', so that is '' @ itoa \<lfloor>round_half (cs_ratio i)\<rfloor> @
         '' times normal. Something brought a lot of people at once.''))"

definition emit_Package_enabled :: "PackageEnabled \<Rightarrow> facts \<times> Layers" where
  "emit_Package_enabled i =
    ([(''package_name'', FStr (snd (SplitPath (pe_path i)))), (''wait_blocks'', FInt (pe_blocks i)),
      (''wait_seconds'', FFloat (pe_seconds i) (pe_shown i))],
      lay (''MsgEnablePackage enabled '' @ pe_path i @ '' at block '' @ itoa (pe_height i) @ '', '' @ plural_noun (pe_blocks i) ''block'' @
           '' after submission.'')
        (''An '' @ thing_of (pe_is_realm i) @ '' called '' @ snd (SplitPath (pe_path i)) @ '' was switched on.'')
        (''Anyone can use it now. '' @ waitedPhrase (pe_seconds i)))"

definition emit_Package_first_call :: "PackageFirstCall \<Rightarrow> facts \<times> Layers" where
  "emit_Package_first_call i =
    ([(''package_name'', FStr (snd (SplitPath (fc_path i)))), (''package_ref'', FStr (fc_ref i)),
      (''external'', FBool (fc_external i)), (''first_ever'', FBool True)],
      lay (''The first successful call to '' @ fc_path i @ '' was at block '' @ itoa (fc_height i) @ '', by '' @ fc_caller i @ ''.'')
        (''Somebody used '' @ fc_ref i @ '' for the first time.'')
        (if fc_external i
         then ''A deployed package that nobody has called is just stored code. Somebody other than its author has started running this one.''
         else ''A deployed package that nobody has called is just stored code. Somebody has started running this one.''))"

definition emit_Package_spike :: "PackageSpike \<Rightarrow> facts \<times> Layers" where
  "emit_Package_spike i =
    ([(''package_ref'', FStr (ps_ref i)), (''day'', FStr (ps_day i)), (''calls'', FInt (ps_calls i)), (''callers'', FInt (ps_callers i)),
      (''baseline_median'', FInt (ps_median i)), (''ratio'', FFloat (ps_ratio i) (ps_shown i))],
      lay ((ps_ref i) @ '' took '' @ itoa (ps_calls i) @ '' calls on '' @ ps_day i @ '' from '' @ itoa (ps_callers i) @
           '' callers, against a 7-day median of '' @ itoa (ps_median i) @ ''.'')
        ((ps_ref i) @ '' took '' @ itoa \<lfloor>round_half (ps_ratio i)\<rfloor> @ ''x its usual daily calls, from '' @ itoa (ps_callers i) @
         '' different people.'')
        (''A normal day there is about '' @ itoa (ps_median i) @ '' calls. '' @ itoa (ps_callers i) @
         '' people in one day is not one script running twice.''))"

definition emit_Namespace_registered :: "NamespaceRegistered \<Rightarrow> facts \<times> Layers" where
  "emit_Namespace_registered i =
    ([(''name'', FStr (nr_name i)), (''actor_label'', FStr (''@'' @ nr_name i)), (''address'', FStr (nr_address i))],
      lay (''r/sys/namereg recorded the name '' @ nr_name i @ '' for '' @ nr_address i @ '' at block '' @ itoa (nr_height i) @ ''.'')
        (''@'' @ nr_name i @ '' claimed their name on chain.'')
        (''Packages published by that address can live under '' @ nr_name i @
         '' from now on, and the name is theirs alone.''))"

definition emit_Validator_registered :: "ValidatorRegistered \<Rightarrow> facts \<times> Layers" where
  "emit_Validator_registered i =
    ([(''moniker'', FStr (vr_moniker i)), (''address'', FStr (vr_address i))],
      lay (''valoper registered '' @ vr_moniker i @ '' for '' @ vr_address i @ '' at block '' @ itoa (vr_height i) @ ''.'')
        ((vr_moniker i) @ '' put itself forward to help run the chain.'')
        ''Registering is not the same as validating: it puts them forward, and the chain decides separately whether they produce blocks.'')"

definition emit_Package_rejected :: "PackageRejected \<Rightarrow> facts \<times> Layers" where
  "emit_Package_rejected i =
    ([(''package_name'', FStr (snd (SplitPath (pr_path i)))), (''package_ref'', FStr (pr_ref i))],
      lay (''MsgRejectPackage refused '' @ pr_path i @ '' at block '' @ itoa (pr_height i) @ '', by '' @ pr_actor i @ ''.'')
        (''Somebody with approval rights turned down the code at '' @ pr_ref i @ ''.'')
        ''The code stayed parked rather than going live. Submitting a changed version under the same path is allowed.'')"

definition emit_Proposal_opened :: "ProposalOpened \<Rightarrow> facts \<times> Layers" where
  "emit_Proposal_opened i =
    ([(''proposal_id'', FInt (po_id i)), (''title'', FStr (po_title i)), (''actor_label'', FStr (po_label i))],
      lay (''ProposalCreated recorded proposal '' @ itoa (po_id i) @ '' by '' @ po_actor i @ '' at block '' @ itoa (po_height i) @ ''.'')
        (let full = somebody (po_label i) @ '' asked to change something about the chain: '' @ po_title i @ ''.''
         in if MaxMeans < length full then somebody (po_label i) @ '' asked to change something about the chain.'' else full)
        (''GovDAO members can vote on it. Its subject is '' @ po_title i @ ''.''))"

definition emit_Proposal_closed :: "ProposalClosed \<Rightarrow> facts \<times> Layers" where
  "emit_Proposal_closed i =
    ([(''proposal_id'', FInt (pc_id i)), (''title'', FStr (pc_title i)), (''outcome'', FStr (pc_outcome i)), (''yes_pct'', FInt (pc_yes i)),
      (''executed'', FBool (pc_executed i))],
      lay (''Proposal '' @ itoa (pc_id i) @ '' closed '' @ pc_outcome i @ '' at block '' @ itoa (pc_height i) @ '', with '' @ itoa (pc_yes i) @ ''% yes.'')
        (''The request to change the chain '' @ pc_outcome i @ '' with '' @ itoa (pc_yes i) @ ''% yes'' @
         (if pc_executed i then '', and was executed.'' else ''.''))
        (if pc_executed i then ''The change is already in effect, not merely agreed. Its subject was '' @ pc_title i @ ''.''
         else ''The vote is settled at '' @ itoa (pc_yes i) @ ''% yes. Its subject was '' @ pc_title i @ ''.''))"

definition emit_Transfer_large :: "TransferLarge \<Rightarrow> facts \<times> Layers" where
  "emit_Transfer_large i =
    ([(''gnot'', FInt (tl_gnot i)), (''threshold_gnot'', FInt TransferLargeThresholdGNOT), (''parties'', FInt 2)],
      lay (''BankMsgSend moved '' @ itoa (tl_gnot i) @ '' GNOT from '' @ tl_sender i @ '' to '' @ tl_recipient i @ '' at block '' @
           itoa (tl_height i) @ ''.'')
        (itoa (tl_gnot i) @ '' GNOT moved between two accounts.'')
        (''Transfers are listed here from '' @ itoa TransferLargeThresholdGNOT @
         '' GNOT upward, which is why this one appears. Neither end is a realm.''))"

fun Emit :: "event_input \<Rightarrow> facts \<times> Layers" where
  "Emit (Package_deployed i) = emit_Package_deployed i"
| "Emit (Deployer_first i) = emit_Deployer_first i"
| "Emit (Chain_spike i) = emit_Chain_spike i"
| "Emit (Package_enabled i) = emit_Package_enabled i"
| "Emit (Package_first_call i) = emit_Package_first_call i"
| "Emit (Package_spike i) = emit_Package_spike i"
| "Emit (Namespace_registered i) = emit_Namespace_registered i"
| "Emit (Validator_registered i) = emit_Validator_registered i"
| "Emit (Package_rejected i) = emit_Package_rejected i"
| "Emit (Proposal_opened i) = emit_Proposal_opened i"
| "Emit (Proposal_closed i) = emit_Proposal_closed i"
| "Emit (Transfer_large i) = emit_Transfer_large i"

abbreviation emit_facts :: "event_input \<Rightarrow> facts" where "emit_facts e \<equiv> fst (Emit e)"
abbreviation emit_layers :: "event_input \<Rightarrow> Layers" where "emit_layers e \<equiv> snd (Emit e)"

text \<open>What a build does with the candidates of a network: keep those the gate lets through.\<close>

definition publishable :: "string list \<Rightarrow> event_input \<Rightarrow> bool" where
  "publishable headwords e \<longleftrightarrow> Ground (emit_facts e) (emit_layers e) headwords = []"

definition build_events :: "string list \<Rightarrow> event_input list \<Rightarrow> event_input list \<times> nat" where
  "build_events headwords cs =
     (filter (publishable headwords) cs, length (filter (\<lambda>c. \<not> publishable headwords c) cs))"

text \<open>The candidates a series of daily counts gives: a spike for each day that fired, the latest
  first. Counts are not negative, so Go's conversion to an integer is the floor.\<close>

definition chain_spikes :: "(rat \<Rightarrow> string) \<Rightarrow> string \<Rightarrow> string \<Rightarrow> day_point list \<Rightarrow> event_input list" where
  "chain_spikes show net since series =
     (if series = [] then []
      else map (\<lambda>v. Chain_spike \<lparr>cs_day = sp_day v, cs_net = net, cs_new = \<lfloor>sp_x v\<rfloor>, cs_median = \<lfloor>sp_median v\<rfloor>,
                cs_ratio = sp_ratio v, cs_shown = show (sp_ratio v)\<rparr>)
             (rev (sort_key sp_day (filter (\<lambda>v. sp_fired v \<and> \<not> sp_day v < take 10 since)
                (Detect series (SpikeFloors ''chain.spike'') (pt_day (hd series)))))))"

section \<open>Names and lines\<close>

lemma last_name_versions:
  "list_all VersionSegment vs \<Longrightarrow> last_name (vs @ ps) = last_name ps"
  by (induction vs) auto

text \<open>The name of a package is its last segment that is no version: whatever versions follow it,
  and whatever stands between it and the namespace.\<close>
theorem SplitPath_names_no_version:
  assumes "CHR ''/'' \<notin> set kind" "CHR ''/'' \<notin> set ns" "CHR ''/'' \<notin> set name"
    and "\<not> VersionSegment name" "list_all VersionSegment vs"
    and "\<forall>q \<in> set (between @ vs). CHR ''/'' \<notin> set q"
  shows "SplitPath (''gno.land/'' @ join_with ''/'' ([kind, ns] @ between @ name # vs)) = (ns, name)"
proof -
  let ?parts = "[kind, ns] @ between @ name # vs"
  have "split_on CHR ''/'' (join_with ''/'' ?parts) = ?parts"
    by (rule split_join) (use assms in auto)
  moreover have "trim_prefix (''gno.land/'' @ s) ''gno.land/'' = s" for s
    by (simp add: trim_prefix_def has_prefix_iff)
  moreover have "list_all VersionSegment (rev vs)" using assms(5) by (simp add: list_all_iff)
  ultimately show ?thesis
    using assms(4) by (simp add: SplitPath_def Let_def last_name_versions)
qed

lemma SplitPath_names_no_version_witness:
  "SplitPath ''gno.land/p/moul/x/vm/riscv/v0'' = (''moul'', ''riscv'')"
  using SplitPath_names_no_version [of "''p''" "''moul''" "''riscv''" "[''v0'']" "[''x'', ''vm'']"]
  by (simp add: VersionSegment_def is_digit_def)

lemma find_all_word_end:
  assumes "w \<noteq> []" "list_all is_letter w" "\<not> is_letter c"
  shows "w \<in> set (find_all word_at pre (u @ CHR '' '' # w @ c # v))"
proof (induction "length u" arbitrary: u pre rule: less_induct)
  case less
  have space: "\<not> is_letter CHR '' ''" by (simp add: is_letter_def)
  have here: "w \<in> set (find_all word_at p (w @ c # v))" for p
  proof -
    obtain x xs where w: "w = x # xs" using assms(1) by (cases w) auto
    have "takeWhile is_letter (w @ c # v) = w"
      using assms(2,3) by (simp add: takeWhile_append2 list_all_iff)
    then have "word_at p (w @ c # v) = length w" by (simp add: word_at_def)
    then show ?thesis using w by simp
  qed
  show ?case
  proof (cases u)
    case Nil
    then show ?thesis using here space by (simp add: word_at_def)
  next
    case (Cons x xs)
    show ?thesis
    proof (cases "is_letter x")
      case False
      then show ?thesis using less [of xs] Cons by (simp add: word_at_def)
    next
      case True
      let ?k = "length (takeWhile is_letter u)"
      have "takeWhile is_letter (u @ CHR '' '' # w @ c # v) = takeWhile is_letter u"
        using space by (induction u) auto
      then have k: "word_at pre (u @ CHR '' '' # w @ c # v) = ?k" by (simp add: word_at_def)
      have "0 < ?k" "?k \<le> length u" using True Cons by (simp_all add: length_takeWhile_le)
      then have "length (drop ?k u) < length u" by (simp only: length_drop)
      then show ?thesis
        using less [of "drop ?k u"] k \<open>0 < ?k\<close> \<open>?k \<le> length u\<close> Cons by (auto simp: Let_def)
    qed
  qed
qed

lemma words_of_named:
  "w \<noteq> [] \<Longrightarrow> list_all is_lower w \<Longrightarrow> w \<in> set (words_of (u @ '' '' @ w @ ''.''))"
proof -
  assume w: "w \<noteq> []" "list_all is_lower w"
  have low: "to_lower w = w"
    using w(2) by (induction w) (auto simp: to_lower_def lower_char_def is_lower_def)
  have "list_all is_letter w" using w(2) by (auto simp: list_all_iff is_lower_def is_letter_def)
  then show ?thesis
    using find_all_word_end [OF w(1), of "CHR ''.''" "[]" "to_lower u" "[]"] low
    by (simp add: words_of_def to_lower_def lower_char_def is_letter_def)
qed

lemma unlicensed_word_fails:
  assumes "map_of superlatives w = Some []" "w \<in> set (words_of t)" "t \<in> {ly_means l, ly_matters l}"
  shows "Ground fs l hw \<noteq> []"
proof
  assume "Ground fs l hw = []"
  then obtain field where "check_layer fs field t = []" using Ground_layer assms(3) by blast
  then have "licensedSuperlative fs w" using assms(1,2) by (simp add: check_layer_empty)
  then show False using assms(1) by (simp add: licensedSuperlative_def)
qed

text \<open>A package whose name happens to be one of the words nothing licenses is never announced: the
  gate spares the numbers and the headwords that are the value of a fact, but not the claims,
  so the event is dropped as long as its headline has room for the name.\<close>
theorem a_package_named_popular_is_never_announced:
  assumes "name \<in> {''only'', ''never'', ''unprecedented'', ''revolutionary'', ''leading'', ''popular'', ''major'', ''huge''}"
    and "snd (SplitPath (pd_path i)) = name"
    and "rune_count (somebody (pd_label i) @ '' put a new '' @ thing_of (pd_is_realm i) @
           '' on the chain, called '' @ name @ ''.'') \<le> MaxMeans"
  shows "\<not> publishable headwords (Package_deployed i)"
proof -
  have name: "name \<noteq> []" "list_all is_lower name" "map_of superlatives name = Some []"
    using assms(1) by (elim insertE emptyE; simp add: superlatives_def is_lower_def)+
  have "ly_means (emit_layers (Package_deployed i)) =
      (somebody (pd_label i) @ '' put a new '' @ thing_of (pd_is_realm i) @ '' on the chain, called'') @ '' '' @ name @ ''.''"
    using assms(2,3) by (simp add: emit_Package_deployed_def lay_def deployedMeans_def shed_def)
  then have "name \<in> set (words_of (ly_means (emit_layers (Package_deployed i))))"
    using words_of_named [OF name(1,2)] by (simp only:)
  then show ?thesis
    unfolding publishable_def by (intro unlicensed_word_fails [OF name(3)]) auto
qed

definition popular_package :: PackageDeployed where
  "popular_package = \<lparr>pd_path = ''gno.land/r/moul/popular'', pd_creator = ''g1abc'', pd_label = ''@moul'',
     pd_height = 5, pd_is_realm = True, pd_files = 3, pd_first_ever = False\<rparr>"

lemma a_package_named_popular_is_never_announced_witness: "\<not> publishable [] (Package_deployed popular_package)"
proof -
  have "snd (SplitPath (pd_path popular_package)) = ''popular''" by code_simp
  moreover have "rune_count (somebody (pd_label popular_package) @ '' put a new '' @ thing_of (pd_is_realm popular_package) @
      '' on the chain, called '' @ ''popular'' @ ''.'') \<le> MaxMeans"
    by code_simp
  ultimately show ?thesis
    using a_package_named_popular_is_never_announced [of "''popular''" popular_package] by simp
qed

section \<open>Spikes\<close>

lemma round_half_mono: "of_int k \<le> x \<Longrightarrow> 0 \<le> k \<Longrightarrow> k \<le> \<lfloor>round_half x\<rfloor>"
  by (simp add: round_half_def le_floor_iff) linarith?

lemma median_at_least:
  assumes "xs \<noteq> []" "\<forall>x \<in> set xs. k \<le> x"
  shows "k \<le> median xs"
proof -
  have "i < length xs \<Longrightarrow> k \<le> sort xs ! i" for i
    using assms(2) by (metis length_sort nth_mem set_sort)
  moreover have "length xs div 2 < length xs" "length xs div 2 - 1 < length xs"
    using assms(1) by (cases xs; simp)+
  ultimately have "k \<le> sort xs ! (length xs div 2)" "k \<le> sort xs ! (length xs div 2 - 1)" by blast+
  then show ?thesis using assms(1) by (simp add: median_def Let_def)
qed

lemma baseline_subset: "set (baseline series start i) \<subseteq> pt_x ` set series"
  by (auto simp: baseline_def dest!: in_set_dropD in_set_takeD)

lemma fired_figures:
  assumes "sp_fired (detect_day series least start i)"
  shows "least \<le> sp_x (detect_day series least start i) - sp_median (detect_day series least start i) \<and>
    sp_median (detect_day series least start i) = median (baseline series start i) \<and>
    baseline series start i \<noteq> []"
  using assms
  by (auto simp: detect_day_def Let_def gate_def SpikeMinBaseline_def split: if_splits)

text \<open>From the daily counts to the sentence: a chain spike is only ever reported of a day with a
  hundred addresses more than the median it names, and the multiple its text gives is at
  least two, because a day is in the series only when somebody arrived on it.\<close>
theorem chain_spikes_are_at_least_double:
  assumes "\<forall>p \<in> set series. 1 \<le> pt_x p"
    and "\<forall>p \<in> set series. pt_x p = of_int \<lfloor>pt_x p\<rfloor>"
    and "Chain_spike c \<in> set (chain_spikes show net since series)"
  shows "100 \<le> cs_new c - cs_median c \<and> 2 \<le> \<lfloor>round_half (cs_ratio c)\<rfloor>"
proof -
  obtain start i where i: "i < length series"
    and v: "sp_fired (detect_day series 100 start i)"
      "cs_new c = \<lfloor>sp_x (detect_day series 100 start i)\<rfloor>" "cs_median c = \<lfloor>sp_median (detect_day series 100 start i)\<rfloor>"
      "cs_ratio c = sp_ratio (detect_day series 100 start i)"
    using assms(3) by (auto simp: chain_spikes_def Detect_def SpikeFloors_def split: if_splits)
  let ?m = "sp_median (detect_day series 100 start i)"
  have x: "sp_x (detect_day series 100 start i) = pt_x (series ! i)" by (simp add: detect_day_def Let_def)
  have "\<forall>b \<in> set (baseline series start i). 1 \<le> b" using assms(1) baseline_subset by fastforce
  then have m: "1 \<le> ?m" using fired_figures [OF v(1)] median_at_least by simp
  then have "2 \<le> cs_ratio c" using fires_reaches_its_baseline [OF v(1)] v(4) by simp
  moreover have "of_int (cs_new c - cs_median c) \<ge> (100 :: rat)"
  proof -
    have "pt_x (series ! i) = of_int (cs_new c)" using assms(2) nth_mem [OF i] v(2) x by metis
    moreover have "of_int (cs_median c) \<le> ?m" using v(3) by simp
    moreover have "100 \<le> pt_x (series ! i) - ?m" using fired_figures [OF v(1)] x by simp
    ultimately show ?thesis by simp
  qed
  ultimately show ?thesis using round_half_mono [of 2 "cs_ratio c"] by linarith
qed

lemma busy_days_positive: "\<forall>p \<in> set busy_day. 1 \<le> pt_x p" "\<forall>p \<in> set busy_day. pt_x p = of_int \<lfloor>pt_x p\<rfloor>"
  by (simp_all add: busy_day_def quiet_week_def)

lemma busy_day_started: "baseline busy_day (pt_day (hd busy_day)) 5 = [46, 45, 400, 50, 40]"
  unfolding baseline_def busy_day_def quiet_week_def SpikeWindow_def by code_simp

lemma busy_day_reported:
  "Chain_spike \<lparr>cs_day = ''2026-09-18'', cs_net = ''mainnet'', cs_new = 603, cs_median = 46,
     cs_ratio = 603 / 46, cs_shown = []\<rparr> \<in>
     set (chain_spikes (\<lambda>_. []) ''mainnet'' [] busy_day)"
proof -
  let ?v = "detect_day busy_day 100 (pt_day (hd busy_day)) 5"
  have "sp_fired (Detect busy_day 100 (pt_day (hd busy_day)) ! 5)"
    unfolding day_fires [OF busy_day_x(2)] busy_day_started busy_day_figures busy_day_x
    by (simp add: SpikeMinBaseline_def SpikeZ_def SpikeRatio_def)
  then have fired: "sp_fired ?v" by (simp only: nth_Detect [OF busy_day_x(2)])
  then have "sp_median ?v = 46" using fired_figures busy_day_started busy_day_figures by simp
  moreover have "sp_x ?v = 603" "sp_day ?v = ''2026-09-18''"
    by (simp_all add: detect_day_def Let_def busy_day_def quiet_week_def)
  moreover have "sp_ratio ?v = 603 / 46"
    unfolding detect_day_def Let_def busy_day_started busy_day_figures busy_day_x
    by (simp add: SpikeMinBaseline_def)
  moreover have "?v \<in> set (Detect busy_day 100 (pt_day (hd busy_day)))"
    using busy_day_x(2) by (simp add: Detect_def)
  ultimately show ?thesis
    using fired by (force simp: chain_spikes_def SpikeFloors_def busy_day_def)
qed

lemma chain_spikes_are_at_least_double_witness: "2 \<le> \<lfloor>round_half (603 / 46)\<rfloor>"
  using chain_spikes_are_at_least_double [OF busy_days_positive busy_day_reported] by simp

end
