(* ===== verification/Discover_Announce.thy ===== *)
theory Discover_Announce
  imports Discover_Emit
begin

text \<open>
  An emitter of \<^verbatim>\<open>pkg/discover/emit.go\<close> against the gate of \<^verbatim>\<open>pkg/discover/grounding.go\<close>, for every
  amount it may be given.
\<close>

section \<open>Scanning past digits\<close>

lemma find_all_skip:
  "(\<And>p d v. d \<in> set ds \<Longrightarrow> m p (d # v) = 0) \<Longrightarrow> find_all m pre (ds @ s) = find_all m (rev ds @ pre) s"
  by (induction ds arbitrary: pre) auto

lemma find_all_hd:
  assumes "\<And>c p q s. m (c # p) s = m (c # q) s"
  shows "find_all m (c # p) s = find_all m (c # q) s"
proof (induction "length s" arbitrary: c p q s rule: less_induct)
  case less
  show ?case
  proof (cases s)
    case (Cons x xs)
    let ?n = "m (c # q) s"
    have same: "m (c # p) s = ?n" by (rule assms)
    show ?thesis
    proof (cases "?n = 0")
      case True
      then show ?thesis using less [of xs x "c # p" "c # q"] same Cons by simp
    next
      case False
      obtain y ys where t: "rev (take ?n s) = y # ys" using False Cons by (cases "rev (take ?n s)") auto
      have "length (drop ?n s) < length s" using False Cons by simp
      then have "find_all m (y # ys @ c # p) (drop ?n s) = find_all m (y # ys @ c # q) (drop ?n s)" by (rule less)
      then have "find_all m (rev (take ?n s) @ c # p) (drop ?n s) = find_all m (rev (take ?n s) @ c # q) (drop ?n s)"
        unfolding t by simp
      moreover have "find_all m r s = take (m r s) s # find_all m (rev (take (m r s) s) @ r) (drop (m r s) s)"
        if "m r s \<noteq> 0" for r
        using that unfolding Cons find_all.simps(2) Let_def by simp
      ultimately show ?thesis using same False by simp
    qed
  qed simp
qed

lemma find_all_pre:
  assumes "\<And>p q s. m p s = m q s"
  shows "find_all m p s = find_all m q s"
proof (induction "length s" arbitrary: p q s rule: less_induct)
  case less
  show ?case
  proof (cases s)
    case (Cons x xs)
    have same: "m p s = m q s" by (rule assms)
    show ?thesis
    proof (cases "m q s = 0")
      case True
      then show ?thesis using less [of xs "x # p" "x # q"] same Cons by simp
    next
      case False
      then have "length (drop (m q s) s) < length s" using Cons by simp
      note less [OF this, of "rev (take (m q s) s) @ p" "rev (take (m q s) s) @ q"]
      then show ?thesis using same False unfolding Cons by (simp only: find_all.simps(2) Let_def if_False)
    qed
  qed simp
qed

lemma no_digits: "\<forall>c \<in> set s. \<not> is_digit c \<Longrightarrow> find_all number_at pre s = []"
  by (induction s arbitrary: pre) (simp_all add: number_at_def)

lemma run_after_pre: "run_after lit P k p s = run_after lit P k q s"
  by (simp add: run_after_def)

lemma word_at_pre: "word_at p s = word_at q s"
  by (simp add: word_at_def)

lemma proper_noun_at_hd: "proper_noun_at (c # p) s = proper_noun_at (c # q) s"
  by (simp add: proper_noun_at_def)

lemma forward_words_nonempty: "w \<in> set forward_words \<Longrightarrow> w \<noteq> []"
  by (auto simp: forward_words_def)

lemma boundary_hd: "boundary (c # p) s = boundary (c # q) s"
  by (simp add: boundary_def)

lemma forward_at_hd: "forward_at (c # p) s = forward_at (c # q) s"
proof -
  have "boundary (rev (take (length w) s) @ c # p) v = boundary (rev (take (length w) s) @ c # q) v" for w v
    by (cases "rev (take (length w) s)") (auto simp: boundary_def)
  note same = this
  show ?thesis unfolding forward_at_def same boundary_hd [of c p _ q] by (rule refl)
qed

section \<open>Printed numbers\<close>

lemma digit_char_value:
  assumes "d < 10"
  shows "is_digit (digit_char d) \<and> of_char (digit_char d) - 48 = d \<and> lower_char (digit_char d) = digit_char d"
proof -
  have "d \<in> {0, 1, 2, 3, 4, 5, 6, 7, 8, 9}" using assms by auto
  then show ?thesis by (auto simp: digit_char_def is_digit_def lower_char_def)
qed

lemma digits_value_snoc: "digits_value (ds @ [c]) = 10 * digits_value ds + of_nat (of_char c - 48)"
  by (simp add: digits_value_def)

lemma digits_value_nat_digits: "digits_value (nat_digits n) = of_nat n"
proof (induction n rule: nat_digits.induct)
  case (1 n)
  show ?case
  proof (cases "n < 10")
    case True
    then show ?thesis
      using digit_char_value [of n] by (simp add: nat_digits.simps [of n] digits_value_def)
  next
    case False
    have "(of_nat n :: rat) = of_nat (10 * (n div 10) + n mod 10)" by simp
    also have "\<dots> = 10 * of_nat (n div 10) + of_nat (n mod 10)" by (simp only: of_nat_add of_nat_mult)
    finally show ?thesis
      using False 1 digit_char_value [of "n mod 10"]
      by (simp add: nat_digits.simps [of n] digits_value_snoc)
  qed
qed

lemma nat_digits_digits: "list_all is_digit (nat_digits n) \<and> to_lower (nat_digits n) = nat_digits n"
proof (induction n rule: nat_digits.induct)
  case (1 n)
  then show ?case
    using digit_char_value [of n] digit_char_value [of "n mod 10"]
    by (cases "n < 10") (simp_all add: nat_digits.simps [of n] to_lower_def)
qed

lemma num_run_digits: "list_all is_digit ds \<Longrightarrow> num_run (ds @ s) = length ds + num_run s"
  by (induction ds) auto

section \<open>Large transfers\<close>

definition transfer_facts :: "int \<Rightarrow> facts" where
  "transfer_facts gnot = [(''gnot'', FInt gnot), (''threshold_gnot'', FInt 100000), (''parties'', FInt 2)]"

lemma transfer_numbers: "of_int gnot \<in> set (groundedNumbers (transfer_facts gnot))"
  "100000 \<in> set (groundedNumbers (transfer_facts gnot))" "2 \<in> set (groundedNumbers (transfer_facts gnot))"
  "1 \<in> set (groundedNumbers (transfer_facts gnot))"
  by (simp_all add: groundedNumbers_def transfer_facts_def numeric_def renderings_def)

lemma nearAny_mem: "v \<in> set vs \<Longrightarrow> nearAny v vs"
  by (force simp: nearAny_def list_ex_iff)

lemma transfer_unmasked: "maskNamedEntities (transfer_facts gnot) t = t"
  by (simp add: maskNamedEntities_def transfer_facts_def)

lemma transfer_words:
  assumes "set (words_of t) \<inter> (fst ` set smallWords - {''one'', ''two''}) = {}"
    and "set (words_of t) \<inter> fst ` set superlatives = {}"
  shows "\<forall>w \<in> set (words_of t). \<not> figure_word (transfer_facts gnot) w \<and> map_of superlatives w = None"
proof
  fix w
  assume w: "w \<in> set (words_of t)"
  have "map_of superlatives w = None" using w assms(2) by (auto simp: map_of_eq_None_iff)
  moreover have "map_of smallWords w = None \<or> w = ''one'' \<or> w = ''two''"
    using w assms(1) by (auto simp: map_of_eq_None_iff)
  moreover have "map_of smallWords ''one'' = Some 1" "map_of smallWords ''two'' = Some 2"
    by (simp_all add: smallWords_def)
  ultimately show "\<not> figure_word (transfer_facts gnot) w \<and> map_of superlatives w = None"
    using nearAny_mem [OF transfer_numbers(3)] nearAny_mem [OF transfer_numbers(4)] 
    by (auto simp: figure_word_def split: option.splits)
qed

definition transfer_tail :: string where "transfer_tail = '' GNOT moved between two accounts.''"
definition transfer_matters :: string where
  "transfer_matters = ''Transfers are listed here from 100000 GNOT upward, which is why this one appears. Neither end is a realm.''"

lemma matters_text: "ly_matters (emit_layers (Transfer_large i)) = transfer_matters"
proof -
  have "itoa 100000 = ''100000''" by (simp add: itoa_def nat_digits.simps digit_char_def)
  then show ?thesis
    by (simp add: emit_Transfer_large_def lay_def transfer_matters_def TransferLargeThresholdGNOT_def)
qed

lemma matters_scanned:
  "words_of transfer_matters = [''transfers'', ''are'', ''listed'', ''here'', ''from'', ''gnot'', ''upward'', ''which'',
     ''is'', ''why'', ''this'', ''one'', ''appears'', ''neither'', ''end'', ''is'', ''a'', ''realm'']"
  "find_all number_at [] transfer_matters = [''100000 '']"
  "list_all (\<lambda>(name, m). find_all m [] transfer_matters = []) entityShapes"
  "find_all forward_at [] transfer_matters = []"
  by code_simp+

lemma tail_rest: "num_run transfer_tail = 1" "drop 1 transfer_tail = ''GNOT moved between two accounts.''"
  "\<forall>c \<in> set (drop 1 transfer_tail). \<not> is_digit c" "take 1 transfer_tail = '' ''"
  by code_simp+

lemma transfer_emit:
  "emit_facts (Transfer_large i) = transfer_facts (tl_gnot i)"
  "0 \<le> tl_gnot i \<Longrightarrow> ly_means (emit_layers (Transfer_large i)) = nat_digits (nat (tl_gnot i)) @ transfer_tail"
  by (simp_all add: emit_Transfer_large_def lay_def transfer_facts_def transfer_tail_def itoa_def
      TransferLargeThresholdGNOT_def)

lemma means_numbers:
  assumes "list_all is_digit ds" "ds \<noteq> []"
  shows "find_all number_at [] (ds @ transfer_tail) = [ds @ '' '']"
proof -
  obtain d rest where ds: "ds = d # rest" using assms(2) by (cases ds) auto
  have "number_at [] (ds @ transfer_tail) = length ds + 1"
    using assms(1) tail_rest num_run_digits [OF assms(1), of transfer_tail]
    by (simp add: number_at_def ds Let_def)
  then show ?thesis
    using no_digits [OF tail_rest(3)] tail_rest(4) unfolding ds by (simp add: Let_def)
qed

lemma parse_digits_token: "parseNumber (nat_digits n @ '' '') = of_nat n"
proof -
  have ds: "filter is_digit (nat_digits n) = nat_digits n" "\<forall>c \<in> set (nat_digits n). c \<noteq> CHR ''.''"
    using nat_digits_digits [of n] by (auto simp: list_all_iff is_digit_def filter_id_conv)
  then have "takeWhile (\<lambda>c. c \<noteq> CHR ''.'') (nat_digits n @ '' '') = nat_digits n @ '' ''"
    "dropWhile (\<lambda>c. c \<noteq> CHR ''.'') (nat_digits n @ '' '') = []"
    by (auto simp: takeWhile_eq_all_conv dropWhile_eq_Nil_conv)
  then show ?thesis
    using ds(1) digits_value_nat_digits by (simp add: parseNumber_def digits_value_def is_digit_def)
qed

text \<open>A scanner that starts no match at a digit or a space, and looks back one byte at most, sees of
  a line behind its number what it sees behind a space.\<close>

definition blank :: "char \<Rightarrow> bool" where "blank d \<longleftrightarrow> is_digit d \<or> d = CHR '' ''"

lemma blank_no_word: "blank d \<Longrightarrow> \<not> is_letter d \<and> \<not> is_upper d \<and> d \<noteq> CHR ''g'' \<and> d \<noteq> CHR ''@'' \<and> lower_char d = d"
  by (auto simp: blank_def is_digit_def is_letter_def is_upper_def lower_char_def)

lemma scan_behind_number:
  assumes skip: "\<And>p d v. blank d \<Longrightarrow> m p (d # v) = 0"
    and hd: "\<And>c p q s. m (c # p) s = m (c # q) s"
    and ds: "list_all is_digit ds"
  shows "find_all m [] (ds @ CHR '' '' # t) = find_all m [CHR '' ''] t"
proof -
  have "find_all m [] ((ds @ '' '') @ t) = find_all m (rev (ds @ '' '') @ []) t"
    by (rule find_all_skip) (use ds skip in \<open>auto simp: list_all_iff blank_def\<close>)
  also have "\<dots> = find_all m (CHR '' '' # rev ds) t" by simp
  also have "\<dots> = find_all m [CHR '' ''] t" by (rule find_all_hd) (rule hd)
  finally show ?thesis by simp
qed

lemma forward_words_start: "\<forall>w \<in> set forward_words. w \<noteq> [] \<and> \<not> blank (hd w)"
  by code_simp

lemma forward_at_blank:
  assumes "blank d"
  shows "forward_at p (d # v) = 0"
proof -
  have "\<not> has_prefix (to_lower (d # v)) w" if "w \<in> set forward_words" for w
    using forward_words_start that assms blank_no_word [OF assms]
    by (cases w) (auto simp: has_prefix_def to_lower_def)
  then have "filter (\<lambda>w. has_prefix (to_lower (d # v)) w \<and> Q w) forward_words = []" for Q
    by (simp add: filter_empty_conv)
  then show ?thesis by (simp add: forward_at_def)
qed

lemma shapes_blank: "blank d \<Longrightarrow> (name, m) \<in> set entityShapes \<Longrightarrow> m p (d # v) = 0"
  using blank_no_word [of d]
  by (auto simp: entityShapes_def path_at_def address_at_def handle_at_def run_after_def has_prefix_def
      proper_noun_at_def capital_word_def Let_def)

lemma shapes_hd: "(name, m) \<in> set entityShapes \<Longrightarrow> m (c # p) s = m (c # q) s"
  using proper_noun_at_hd [of c p s q]
  by (auto simp: entityShapes_def path_at_def address_at_def handle_at_def run_after_def)

lemma means_words:
  assumes "list_all is_digit ds" "to_lower ds = ds"
  shows "words_of (ds @ transfer_tail) = [''gnot'', ''moved'', ''between'', ''two'', ''accounts'']"
proof -
  have tail: "transfer_tail = CHR '' '' # drop 1 transfer_tail" by (simp add: transfer_tail_def)
  have "to_lower (ds @ transfer_tail) = ds @ CHR '' '' # to_lower (drop 1 transfer_tail)"
    using assms(2) by (subst tail) (simp add: to_lower_def lower_char_def)
  moreover have "find_all word_at [] (ds @ CHR '' '' # to_lower (drop 1 transfer_tail))
      = find_all word_at [CHR '' ''] (to_lower (drop 1 transfer_tail))"
    by (rule scan_behind_number) (use assms(1) blank_no_word in \<open>simp_all add: word_at_def\<close>)
  moreover have "find_all word_at [CHR '' ''] (to_lower (drop 1 transfer_tail))
      = [''gnot'', ''moved'', ''between'', ''two'', ''accounts'']" by code_simp
  ultimately show ?thesis by (simp add: words_of_def)
qed

lemma tail_scanned:
  "list_all (\<lambda>(name, m). find_all m [CHR '' ''] (drop 1 transfer_tail) = []) entityShapes"
  "find_all forward_at [CHR '' ''] (drop 1 transfer_tail) = []"
  by code_simp+

lemma means_clean:
  assumes "list_all is_digit ds"
  shows "find_all forward_at [] (ds @ transfer_tail) = []"
    "(name, m) \<in> set entityShapes \<Longrightarrow> find_all m [] (ds @ transfer_tail) = []"
proof -
  have tail: "transfer_tail = CHR '' '' # drop 1 transfer_tail" by (simp add: transfer_tail_def)
  have "find_all forward_at [] (ds @ CHR '' '' # t) = find_all forward_at [CHR '' ''] t" for t
    by (rule scan_behind_number) (use assms forward_at_blank forward_at_hd in blast)+
  then show "find_all forward_at [] (ds @ transfer_tail) = []"
    using tail_scanned(2) by (subst tail) simp
  assume m: "(name, m) \<in> set entityShapes"
  have "find_all m [] (ds @ CHR '' '' # t) = find_all m [CHR '' ''] t" for t
    by (rule scan_behind_number) (use assms shapes_blank [OF _ m] shapes_hd [OF m] in blast)+
  then show "find_all m [] (ds @ transfer_tail) = []"
    using tail_scanned(1) m by (subst tail) (fastforce simp: list_all_iff)
qed

lemma transfer_layers_pass:
  assumes "0 \<le> tl_gnot i"
  shows "check_layer (transfer_facts (tl_gnot i)) field (ly_means (emit_layers (Transfer_large i))) = []"
    and "check_layer (transfer_facts (tl_gnot i)) field (ly_matters (emit_layers (Transfer_large i))) = []"
proof -
  let ?ds = "nat_digits (nat (tl_gnot i))"
  have ds: "list_all is_digit ?ds" "to_lower ?ds = ?ds" using nat_digits_digits by blast+
  have "of_nat (nat (tl_gnot i)) \<in> set (groundedNumbers (transfer_facts (tl_gnot i)))"
    using transfer_numbers(1) assms by simp
  then have "\<forall>tok \<in> set (number_tokens (transfer_facts (tl_gnot i)) (?ds @ transfer_tail)).
      nearAny (parseNumber tok) (groundedNumbers (transfer_facts (tl_gnot i)))"
    using means_numbers [OF ds(1)] nearAny_mem
    by (simp add: number_tokens_def transfer_unmasked parse_digits_token)
  moreover have "set (words_of (?ds @ transfer_tail)) \<inter> (fst ` set smallWords - {''one'', ''two''}) = {}"
    "set (words_of (?ds @ transfer_tail)) \<inter> fst ` set superlatives = {}"
    unfolding means_words [OF ds] by (simp_all add: smallWords_def superlatives_def)
  ultimately show "check_layer (transfer_facts (tl_gnot i)) field (ly_means (emit_layers (Transfer_large i))) = []"
    using means_clean [OF ds(1)] transfer_words
    unfolding check_layer_empty transfer_emit(2) [OF assms] by fastforce
  have "parseNumber ''100000 '' = 100000" by code_simp
  then have "\<forall>tok \<in> set (number_tokens (transfer_facts (tl_gnot i)) transfer_matters).
      nearAny (parseNumber tok) (groundedNumbers (transfer_facts (tl_gnot i)))"
    using matters_scanned(2) nearAny_mem [OF transfer_numbers(2)]
    by (simp add: number_tokens_def transfer_unmasked)
  moreover have "set (words_of transfer_matters) \<inter> (fst ` set smallWords - {''one'', ''two''}) = {}"
    "set (words_of transfer_matters) \<inter> fst ` set superlatives = {}"
    unfolding matters_scanned(1) by (simp_all add: smallWords_def superlatives_def)
  ultimately show "check_layer (transfer_facts (tl_gnot i)) field (ly_matters (emit_layers (Transfer_large i))) = []"
    using matters_scanned(3,4) transfer_words
    unfolding check_layer_empty matters_text by (fastforce simp: list_all_iff)
qed

text \<open>C24. What a large transfer says is never refused as untrue: whatever the amount, its two explaining
  layers pass every check on numbers, names and claims, and only the budgets and the
  glossary can stop it.\<close>
theorem transfers_are_always_grounded:
  assumes "0 \<le> tl_gnot i" "(facts, l) = Emit (Transfer_large i)"
  shows "Ground facts l headwords = checkBudgets l @ checkJargon headwords (ly_means l) facts"
proof -
  have "facts = transfer_facts (tl_gnot i)" "l = emit_layers (Transfer_large i)"
    using assms(2) transfer_emit(1) by (metis fst_conv, metis snd_conv)
  then show ?thesis using transfer_layers_pass [OF assms(1)] by (simp add: Ground_def)
qed

definition record_transfer :: TransferLarge where
  "record_transfer = \<lparr>tl_gnot = 681635, tl_sender = ''g1sender'', tl_recipient = ''g1recipient'', tl_height = 1005\<rparr>"

lemma transfers_are_always_grounded_witness:
  "Ground (emit_facts (Transfer_large record_transfer)) (emit_layers (Transfer_large record_transfer)) [] =
     checkBudgets (emit_layers (Transfer_large record_transfer))"
  using transfers_are_always_grounded [of record_transfer _ _ "[]"]
  by (simp add: record_transfer_def checkJargon_def)

end
