(* ===== verification/Glossary_Parse.thy ===== *)
theory Glossary_Parse
  imports Discover_Scan
begin

text \<open>
  The glossary of the product (\<^verbatim>\<open>pkg/glossary/glossary.go\<close>): reading the table of
  \<^verbatim>\<open>docs/glossary.md\<close>, and the rules it states about itself. The check that the definitions
  bottom out walks the references depth first; its recursion has fuel for one step more than
  there are terms.
\<close>

section \<open>Data\<close>

definition MaxSentences :: nat where "MaxSentences = 3"

record entry =
  en_gloss :: string
  en_also :: "string list"

record glossary =
  gl_version :: string
  gl_terms :: "string \<rightharpoonup> entry"
  gl_order :: "string list"

text \<open>The ways in which a file is refused; the line of a row is left out.\<close>

datatype glossary_error =
    No_version
  | Bad_date string
  | Columns nat
  | Empty_cell
  | Defined_twice string
  | Sentences string nat
  | No_terms
  | Defines_itself string
  | Leans_on string string
  | Cycle "string list"

section \<open>The version line\<close>

definition daysIn :: "nat \<Rightarrow> nat \<Rightarrow> nat" where
  "daysIn m y =
     (if m = 2 then if y mod 4 = 0 \<and> (y mod 100 \<noteq> 0 \<or> y mod 400 = 0) then 29 else 28
      else if m \<in> {4, 6, 9, 11} then 30 else 31)"

definition two :: "char \<Rightarrow> char \<Rightarrow> nat" where
  "two a b = 10 * (of_char a - 48) + (of_char b - 48)"

text \<open>\<^verbatim>\<open>time.Parse("2006-01-02")\<close> on a text of the right shape.\<close>

definition is_date :: "string \<Rightarrow> bool" where
  "is_date d =
     (let y = 100 * two (d ! 0) (d ! 1) + two (d ! 2) (d ! 3); m = two (d ! 5) (d ! 6); k = two (d ! 8) (d ! 9)
      in 1 \<le> m \<and> m \<le> 12 \<and> 1 \<le> k \<and> k \<le> daysIn m y)"

definition date_shape :: "string \<Rightarrow> bool" where
  "date_shape d \<longleftrightarrow> length d = 10 \<and> d ! 4 = CHR ''-'' \<and> d ! 7 = CHR ''-'' \<and>
     list_all (\<lambda>i. is_digit (d ! i)) [0, 1, 2, 3, 5, 6, 8, 9]"

text \<open>The date a text that begins a line gives, if it is a version line. What follows the date is
  white space up to the end of a line.\<close>

definition version_at :: "string \<Rightarrow> string option" where
  "version_at s =
     (if \<not> has_prefix s ''Version:'' then None
      else let t = dropWhile re_space (drop 8 s); d = take 10 t; r = drop 10 t
           in if date_shape d \<and> (CHR 0x0A \<in> set (takeWhile re_space r) \<or> dropWhile re_space r = [])
              then Some d else None)"

fun find_version :: "bool \<Rightarrow> string \<Rightarrow> string option" where
  "find_version start [] = None"
| "find_version start (c # s) =
     (case if start then version_at (c # s) else None of
        Some d \<Rightarrow> Some d
      | None \<Rightarrow> find_version (c = CHR 0x0A) s)"

section \<open>Rows\<close>

definition isPipeRow :: "string \<Rightarrow> bool" where
  "isPipeRow line \<longleftrightarrow> line \<noteq> [] \<and> hd line = CHR ''|'' \<and> List.last line = CHR ''|'' \<and> 1 < length line"

definition isSeparatorRow :: "string \<Rightarrow> bool" where
  "isSeparatorRow line \<longleftrightarrow>
     isPipeRow line \<and> trim_by (\<lambda>c. c \<in> set ''|-: '') line = [] \<and> CHR ''-'' \<in> set line"

definition tableRow :: "string \<Rightarrow> glossary_error + string \<times> string" where
  "tableRow line =
     (let cells = split_on CHR ''|'' (trim_by (\<lambda>c. c = CHR ''|'') line)
      in if length cells \<noteq> 2 then Inl (Columns (length cells))
         else let t = trim_by is_space (cells ! 0); g = trim_by is_space (cells ! 1)
              in if t = [] \<or> g = [] then Inl Empty_cell else Inr (t, g))"

text \<open>Inline code: a backquote up to the next one.\<close>

definition code_at :: matcher where
  "code_at pre s =
     (case s of
        [] \<Rightarrow> 0
      | c # t \<Rightarrow>
          let n = length (takeWhile (\<lambda>c. c \<noteq> CHR 0x60) t)
          in if c = CHR 0x60 \<and> n < length t then n + 2 else 0)"

text \<open>A bold span: two stars around something without a star.\<close>

definition bold_at :: matcher where
  "bold_at pre s =
     (let n = length (takeWhile (\<lambda>c. c \<noteq> CHR ''*'') (drop 2 s))
      in if has_prefix s ''**'' \<and> n \<noteq> 0 \<and> has_prefix (drop (2 + n) s) ''**'' then n + 4 else 0)"

function replace_matches :: "matcher \<Rightarrow> string \<Rightarrow> string \<Rightarrow> string \<Rightarrow> string" where
  "replace_matches m new pre [] = []"
| "replace_matches m new pre (c # s) =
     (let n = m pre (c # s)
      in if n = 0 then c # replace_matches m new (c # pre) s
         else new @ replace_matches m new (rev (take n (c # s)) @ pre) (drop n (c # s)))"
  by pat_completeness auto
termination by (relation "measure (\<lambda>(m, new, pre, s). length s)") auto

definition sentences :: "string \<Rightarrow> nat" where
  "sentences gloss = length (find_all sentence_end_at [] (replace_matches code_at '' '' [] gloss))"

definition refs :: "string \<Rightarrow> string list" where
  "refs gloss =
     rev (remdups (rev (filter (\<lambda>r. r \<noteq> [])
       (map (\<lambda>m. trim_by is_space (drop 2 (butlast (butlast m)))) (find_all bold_at [] gloss)))))"

section \<open>The table\<close>

fun read_rows :: "bool \<Rightarrow> string list \<Rightarrow> glossary \<Rightarrow> glossary_error + glossary" where
  "read_rows inTable [] g = Inr g"
| "read_rows inTable (l # ls) g =
     (let line = trim_by is_space l
      in if isSeparatorRow line then read_rows True ls g
         else if \<not> inTable then read_rows False ls g
         else if \<not> isPipeRow line then read_rows False ls g
         else case tableRow line of
             Inl e \<Rightarrow> Inl e
           | Inr (t, gloss) \<Rightarrow>
               if gl_terms g t \<noteq> None then Inl (Defined_twice t)
               else if sentences gloss = 0 \<or> MaxSentences < sentences gloss then Inl (Sentences t (sentences gloss))
               else read_rows inTable ls
                 (g\<lparr>gl_terms := (gl_terms g)(t \<mapsto> \<lparr>en_gloss = gloss, en_also = refs gloss\<rparr>),
                    gl_order := gl_order g @ [t]\<rparr>))"

section \<open>The rules\<close>

text \<open>What a term leans on; nothing if the table does not define it.\<close>

definition also_of :: "glossary \<Rightarrow> string \<Rightarrow> string list" where
  "also_of g t = (case gl_terms g t of Some e \<Rightarrow> en_also e | None \<Rightarrow> [])"

fun first_open :: "glossary \<Rightarrow> string \<Rightarrow> string list \<Rightarrow> glossary_error option" where
  "first_open g t [] = None"
| "first_open g t (r # rs) =
     (if r = t then Some (Defines_itself t)
      else if gl_terms g r = None then Some (Leans_on t r)
      else first_open g t rs)"

fun closure_from :: "glossary \<Rightarrow> string list \<Rightarrow> glossary_error option" where
  "closure_from g [] = None"
| "closure_from g (t # ts) =
     (case first_open g t (also_of g t) of Some e \<Rightarrow> Some e | None \<Rightarrow> closure_from g ts)"

definition checkClosure :: "glossary \<Rightarrow> glossary_error option" where
  "checkClosure g = closure_from g (gl_order g)"

datatype mark = Open | Done

type_synonym visiting = "(string \<rightharpoonup> mark) \<times> string list"

fun visit_all :: "(string \<Rightarrow> visiting \<Rightarrow> (string list + visiting) option) \<Rightarrow>
    string list \<Rightarrow> visiting \<Rightarrow> (string list + visiting) option" where
  "visit_all f [] s = Some (Inr s)"
| "visit_all f (r # rs) s =
     (case f r s of Some (Inr s) \<Rightarrow> visit_all f rs s | x \<Rightarrow> x)"

fun visit_term :: "(string \<Rightarrow> string list) \<Rightarrow> nat \<Rightarrow> string \<Rightarrow> visiting \<Rightarrow> (string list + visiting) option" where
  "visit_term also 0 t s = None"
| "visit_term also (Suc n) t (state, path) =
     (case state t of
        Some Done \<Rightarrow> Some (Inr (state, path))
      | Some Open \<Rightarrow> Some (Inl (path @ [t]))
      | None \<Rightarrow>
          (case visit_all (visit_term also n) (also t) (state(t \<mapsto> Open), path @ [t]) of
             Some (Inr (state, path)) \<Rightarrow> Some (Inr (state(t \<mapsto> Done), butlast path))
           | x \<Rightarrow> x))"

text \<open>No result is a walk that ran out of fuel, which the lemmas exclude.\<close>

definition checkAcyclic :: "glossary \<Rightarrow> glossary_error option option" where
  "checkAcyclic g =
     (case visit_all (visit_term (also_of g) (Suc (length (gl_order g)))) (sort_strings (gl_order g)) (Map.empty, []) of
        None \<Rightarrow> None
      | Some (Inl path) \<Rightarrow> Some (Some (Cycle path))
      | Some (Inr _) \<Rightarrow> Some None)"

text \<open>Reading the whole file. A walk that ran out of fuel would read as a file without a cycle.\<close>

definition Parse :: "string \<Rightarrow> glossary_error + glossary" where
  "Parse raw =
     (case find_version True raw of
        None \<Rightarrow> Inl No_version
      | Some d \<Rightarrow>
          if \<not> is_date d then Inl (Bad_date d)
          else case read_rows False (split_on CHR 0x0A raw) \<lparr>gl_version = d, gl_terms = Map.empty, gl_order = []\<rparr> of
              Inl e \<Rightarrow> Inl e
            | Inr g \<Rightarrow>
                if gl_order g = [] then Inl No_terms
                else case checkClosure g of
                    Some e \<Rightarrow> Inl e
                  | None \<Rightarrow> (case checkAcyclic g of Some (Some e) \<Rightarrow> Inl e | _ \<Rightarrow> Inr g))"

end
