(* ===== verification/Glossary_Graph.thy ===== *)
theory Glossary_Graph
  imports Glossary_Parse
begin

text \<open>
  What the rules of the glossary guarantee: an accepted file is closed, its definitions bottom
  out in words that lean on nothing, and a file is refused for a cycle exactly when it has one.
\<close>

section \<open>Walking the references\<close>

text \<open>The words a term leans on come before it.\<close>

definition leans :: "(string \<Rightarrow> string list) \<Rightarrow> (string \<times> string) set" where
  "leans also = {(r, t). r \<in> set (also t)}"

definition chain :: "(string \<Rightarrow> string list) \<Rightarrow> string list \<Rightarrow> bool" where
  "chain also ts = successively (\<lambda>t r. r \<in> set (also t)) ts"

definition visit_ok :: "(string \<Rightarrow> string list) \<Rightarrow> string set \<Rightarrow> visiting \<Rightarrow> bool" where
  "visit_ok also T s \<longleftrightarrow>
     (\<forall>t. fst s t = Some Done \<longrightarrow> t \<in> Wellfounded.acc (leans also)) \<and>
     (\<forall>t. fst s t = Some Open \<longleftrightarrow> t \<in> set (snd s)) \<and>
     distinct (snd s) \<and> set (snd s) \<subseteq> T \<and> chain also (snd s)"

text \<open>A visit that comes back leaves the path as it was and marks more; one that is refused
  returns a way that ends where it has been before.\<close>

definition came_back :: "(string \<Rightarrow> string list) \<Rightarrow> string set \<Rightarrow> string list \<Rightarrow> visiting \<Rightarrow> visiting \<Rightarrow> bool" where
  "came_back also T ts s s' \<longleftrightarrow>
     visit_ok also T s' \<and> snd s' = snd s \<and> (\<forall>t \<in> set ts. fst s' t = Some Done) \<and>
     (\<forall>t. fst s t = Some Done \<longrightarrow> fst s' t = Some Done)"

definition cycle_way :: "(string \<Rightarrow> string list) \<Rightarrow> string list \<Rightarrow> bool" where
  "cycle_way also p \<longleftrightarrow> (\<exists>us t vs. p = us @ t # vs @ [t]) \<and> chain also p"

definition visited :: "(string \<Rightarrow> string list) \<Rightarrow> string set \<Rightarrow> string list \<Rightarrow> visiting \<Rightarrow>
    (string list + visiting) option \<Rightarrow> bool" where
  "visited also T ts s r \<longleftrightarrow>
     (case r of None \<Rightarrow> False | Some (Inl p) \<Rightarrow> cycle_way also p | Some (Inr s') \<Rightarrow> came_back also T ts s s')"

text \<open>Where a walk may go on to: from the last term of its path to one that term leans on.\<close>

definition may_visit :: "(string \<Rightarrow> string list) \<Rightarrow> visiting \<Rightarrow> string \<Rightarrow> bool" where
  "may_visit also s t \<longleftrightarrow> snd s \<noteq> [] \<longrightarrow> t \<in> set (also (List.last (snd s)))"

lemma chain_snoc: "chain also (p @ [t]) \<longleftrightarrow> chain also p \<and> (p \<noteq> [] \<longrightarrow> t \<in> set (also (List.last p)))"
  by (cases "p = []") (auto simp: chain_def successively_append_iff)

lemma visit_all_visited:
  assumes "\<And>t s. t \<in> set ts \<Longrightarrow> visit_ok also T s \<Longrightarrow> snd s = path \<Longrightarrow> visited also T [t] s (f t s)"
    and "visit_ok also T s" "snd s = path"
  shows "visited also T ts s (visit_all f ts s)"
  using assms
proof (induction ts arbitrary: s)
  case Nil
  then show ?case by (simp add: visited_def came_back_def)
next
  case (Cons t ts)
  have first: "visited also T [t] s (f t s)" using Cons.prems by simp
  show ?case
  proof (cases "f t s")
    case None
    then show ?thesis using first by (simp add: visited_def)
  next
    case (Some r)
    show ?thesis
    proof (cases r)
      case (Inl p)
      then show ?thesis using first Some by (simp add: visited_def)
    next
      case (Inr s1)
      then have s1: "came_back also T [t] s s1" using first Some by (simp add: visited_def)
      then have "visited also T ts s1 (visit_all f ts s1)"
        using Cons.IH Cons.prems(1,3) by (simp add: came_back_def)
      then show ?thesis
        using s1 Some Inr by (auto simp: visited_def came_back_def split: option.splits sum.splits)
    qed
  qed
qed

lemma visit_visited:
  assumes "finite T" "\<And>t. t \<in> T \<Longrightarrow> set (also t) \<subseteq> T"
    and "visit_ok also T s" "may_visit also s t" "t \<in> T" "card T < n + length (snd s)"
  shows "visited also T [t] s (visit_term also n t s)"
  using assms(3-6)
proof (induction n arbitrary: t s)
  case 0
  then have "length (snd s) \<le> card T"
    using assms(1) by (metis card_mono distinct_card visit_ok_def)
  with 0 show ?case by simp
next
  case (Suc n)
  obtain state path where s: "s = (state, path)" by (cases s)
  have ok: "visit_ok also T (state, path)" using Suc.prems s by simp
  consider "state t = Some Done" | "state t = Some Open" | "state t = None"
    by (metis mark.exhaust option.exhaust)
  then show ?case
  proof cases
    case 1
    then show ?thesis using ok by (simp add: s visited_def came_back_def)
  next
    case 2
    then have "t \<in> set path" "chain also path" using ok by (auto simp: visit_ok_def)
    moreover from this obtain us vs where "path = us @ t # vs" by (meson split_list)
    moreover have "chain also (path @ [t])"
      using \<open>chain also path\<close> Suc.prems(2) by (simp add: chain_snoc may_visit_def s)
    ultimately have "cycle_way also (path @ [t])" by (auto simp: cycle_way_def)
    then show ?thesis using 2 by (simp add: s visited_def)
  next
    case 3
    let ?s = "(state(t \<mapsto> Open), path @ [t])"
    have "t \<notin> set path" using 3 ok by (force simp: visit_ok_def)
    then have ok': "visit_ok also T ?s"
      using ok 3 Suc.prems(2,3) by (auto simp: visit_ok_def chain_snoc may_visit_def s)
    have all: "visited also T (also t) ?s (visit_all (visit_term also n) (also t) ?s)"
    proof (rule visit_all_visited [OF _ ok'])
      fix r s'
      assume "r \<in> set (also t)" "visit_ok also T s'" "snd s' = path @ [t]"
      then show "visited also T [r] s' (visit_term also n r s')"
        using Suc.IH [of s' r] Suc.prems(3,4) assms(2) by (auto simp: may_visit_def s)
    qed simp
    show ?thesis
    proof (cases "visit_all (visit_term also n) (also t) ?s")
      case None
      then show ?thesis using all by (simp add: visited_def)
    next
      case (Some r)
      show ?thesis
      proof (cases r)
        case (Inl p)
        then show ?thesis using all Some 3 by (simp add: s visited_def)
      next
        case (Inr s2)
        obtain st2 p2 where s2: "s2 = (st2, p2)" by (cases s2)
        have came: "came_back also T (also t) ?s (st2, p2)"
          using all Some Inr s2 by (simp add: visited_def)
        then have "\<forall>r \<in> set (also t). r \<in> Wellfounded.acc (leans also)"
          by (auto simp: came_back_def visit_ok_def)
        then have "t \<in> Wellfounded.acc (leans also)" by (auto intro: accI simp: leans_def)
        then have "came_back also T [t] s (st2(t \<mapsto> Done), butlast p2)"
          using came ok 3 \<open>t \<notin> set path\<close>
          by (auto simp: came_back_def visit_ok_def chain_snoc s)
        then show ?thesis using Some Inr s2 3 by (simp add: s visited_def)
      qed
    qed
  qed
qed

section \<open>The check\<close>

lemma chain_reaches:
  "chain also (t # vs @ [u]) \<Longrightarrow> (u, t) \<in> (leans also)\<^sup>+"
proof (induction vs arbitrary: t)
  case (Cons v vs)
  then have "(u, v) \<in> (leans also)\<^sup>+" "(v, t) \<in> leans also" by (auto simp: chain_def leans_def)
  then show ?case by (rule trancl_into_trancl)
qed (auto simp: chain_def leans_def)

lemma cycle_way_cycle: "cycle_way also p \<Longrightarrow> \<not> acyclic (leans also)"
proof -
  assume "cycle_way also p"
  then obtain us t vs where "p = us @ t # vs @ [t]" "chain also p" by (auto simp: cycle_way_def)
  then have "chain also (t # vs @ [t])" by (auto simp: chain_def successively_append_iff)
  then have "(t, t) \<in> (leans also)\<^sup>+" by (rule chain_reaches)
  then show ?thesis by (auto simp: acyclic_def)
qed

lemma acc_wf:
  assumes "\<And>t. t \<in> T \<Longrightarrow> t \<in> Wellfounded.acc R" "\<And>r t. (r, t) \<in> R \<Longrightarrow> t \<in> T"
  shows "wf R"
proof -
  have "t \<in> Wellfounded.acc R" for t
    using assms by (cases "t \<in> T") (auto intro: accI)
  then show ?thesis by (rule acc_wfI [OF allI])
qed

text \<open>What the rest needs of a table: its terms are those in its order, each once, and closed.\<close>

definition closed_table :: "glossary \<Rightarrow> bool" where
  "closed_table g \<longleftrightarrow> dom (gl_terms g) = set (gl_order g) \<and> distinct (gl_order g) \<and>
     (\<forall>t \<in> set (gl_order g). \<forall>r \<in> set (also_of g t). r \<noteq> t \<and> r \<in> set (gl_order g))"

lemma also_of_defined: "r \<in> set (also_of g t) \<Longrightarrow> t \<in> dom (gl_terms g)"
  by (cases "gl_terms g t") (auto simp: also_of_def)

lemma walk_visited:
  assumes "closed_table g"
  shows "visited (also_of g) (set (gl_order g)) (sort_strings (gl_order g)) (Map.empty, [])
    (visit_all (visit_term (also_of g) (Suc (length (gl_order g)))) (sort_strings (gl_order g)) (Map.empty, []))"
proof (rule visit_all_visited)
  let ?T = "set (gl_order g)"
  show "visit_ok (also_of g) ?T (Map.empty, [])" by (simp add: visit_ok_def chain_def)
  fix t and s :: visiting
  assume "t \<in> set (sort_strings (gl_order g))" "visit_ok (also_of g) ?T s" "snd s = []"
  then show "visited (also_of g) ?T [t] s (visit_term (also_of g) (Suc (length (gl_order g))) t s)"
    using assms
    by (intro visit_visited) (auto simp: closed_table_def may_visit_def sort_strings_def less_Suc_eq_le card_length)
qed simp

lemma checkAcyclic_cases:
  assumes "closed_table g"
  shows "(checkAcyclic g = Some None \<and> wf (leans (also_of g))) \<or>
    (\<exists>p. checkAcyclic g = Some (Some (Cycle p)) \<and> cycle_way (also_of g) p)"
proof -
  let ?r = "visit_all (visit_term (also_of g) (Suc (length (gl_order g)))) (sort_strings (gl_order g)) (Map.empty, [])"
  note v = walk_visited [OF assms]
  show ?thesis
  proof (cases "\<exists>s. ?r = Some (Inr s)")
    case True
    then obtain s where s: "?r = Some (Inr s)" by blast
    then have "\<forall>t \<in> set (gl_order g). t \<in> Wellfounded.acc (leans (also_of g))"
      using v by (auto simp: visited_def came_back_def visit_ok_def sort_strings_def)
    then have "wf (leans (also_of g))"
      using also_of_defined [of _ g] assms
      by (intro acc_wf [of "set (gl_order g)"]) (force simp: leans_def closed_table_def)+
    then show ?thesis using s by (simp add: checkAcyclic_def)
  next
    case False
    then show ?thesis
      using v by (auto simp: visited_def checkAcyclic_def split: option.splits sum.splits)
  qed
qed

text \<open>C28. The walk over the references always ends, within one step more than there are terms, and
  refuses a closed table exactly when a word is, over any number of steps, defined by itself;
  the way it names then comes back to a term it has been at.\<close>
theorem checkAcyclic_finds_cycles:
  assumes "closed_table g"
  shows "checkAcyclic g \<noteq> None \<and>
    (checkAcyclic g = Some None \<longleftrightarrow> acyclic (leans (also_of g))) \<and>
    (\<forall>p. checkAcyclic g = Some (Some (Cycle p)) \<longrightarrow> cycle_way (also_of g) p)"
  using checkAcyclic_cases [OF assms] cycle_way_cycle wf_acyclic by auto

section \<open>The file\<close>

lemma first_open_None:
  "first_open g t rs = None \<longleftrightarrow> (\<forall>r \<in> set rs. r \<noteq> t \<and> gl_terms g r \<noteq> None)"
  by (induction g t rs rule: first_open.induct) auto

lemma closure_from_None:
  "closure_from g ts = None \<longleftrightarrow> (\<forall>t \<in> set ts. \<forall>r \<in> set (also_of g t). r \<noteq> t \<and> gl_terms g r \<noteq> None)"
proof (induction g ts rule: closure_from.induct)
  case (2 g t ts)
  then show ?case
    using first_open_None [of g t "also_of g t"] by (cases "first_open g t (also_of g t)") auto
qed simp

definition rows_ok :: "glossary \<Rightarrow> bool" where
  "rows_ok g \<longleftrightarrow> dom (gl_terms g) = set (gl_order g) \<and> distinct (gl_order g) \<and>
     (\<forall>e \<in> ran (gl_terms g). sentences (en_gloss e) \<in> {1..MaxSentences} \<and> en_also e = refs (en_gloss e))"

lemma add_row_ok:
  assumes "rows_ok g" "gl_terms g t = None" "sentences gloss \<noteq> 0" "\<not> MaxSentences < sentences gloss"
  shows "rows_ok (g\<lparr>gl_terms := (gl_terms g)(t \<mapsto> \<lparr>en_gloss = gloss, en_also = refs gloss\<rparr>),
      gl_order := gl_order g @ [t]\<rparr>)"
  using assms by (auto simp: rows_ok_def ran_def)

lemma read_rows_ok: "read_rows b ls g = Inr g' \<Longrightarrow> rows_ok g \<Longrightarrow> rows_ok g'"
proof (induction b ls g rule: read_rows.induct)
  case (2 b l ls g)
  let ?line = "trim_by is_space l"
  consider "isSeparatorRow ?line \<or> \<not> b \<or> \<not> isPipeRow ?line"
    | t gloss where "\<not> isSeparatorRow ?line" "b" "isPipeRow ?line" "tableRow ?line = Inr (t, gloss)"
      "gl_terms g t = None" "sentences gloss \<noteq> 0" "\<not> MaxSentences < sentences gloss"
    using "2.prems"(1) by (auto simp: Let_def split: if_splits sum.splits)
  then show ?case
  proof cases
    case 1
    then show ?thesis using 2 by (auto simp: Let_def split: if_splits)
  next
    case 2
    note row = this
    then show ?thesis
      using "2.IH"(4) [OF refl row(1) _ _ row(4) refl] "2.prems" add_row_ok [OF "2.prems"(2) row(5-7)]
      by (simp add: Let_def)
  qed
qed simp

text \<open>C27. A glossary that was read is one a reader can follow to the end: every term is defined once
  in one to three sentences, every word it marks is another term of the table, and following
  the marks from word to word comes to an end.\<close>
theorem Parse_bottoms_out:
  assumes "Parse raw = Inr g"
  shows "distinct (gl_order g) \<and> gl_order g \<noteq> [] \<and>
    (\<forall>t \<in> set (gl_order g). \<exists>e. gl_terms g t = Some e \<and> sentences (en_gloss e) \<in> {1..MaxSentences} \<and>
       set (refs (en_gloss e)) \<subseteq> set (gl_order g) - {t}) \<and>
    wf (leans (also_of g))"
proof -
  obtain d where d: "find_version True raw = Some d" "is_date d"
    using assms by (auto simp: Parse_def simp del: read_rows.simps split: option.splits if_splits)
  let ?start = "\<lparr>gl_version = d, gl_terms = Map.empty, gl_order = []\<rparr>"
  obtain g' where g': "read_rows False (split_on CHR 0x0A raw) ?start = Inr g'"
    using assms d by (cases "read_rows False (split_on CHR 0x0A raw) ?start") (simp_all add: Parse_def)
  have "Parse raw =
      (if gl_order g' = [] then Inl No_terms
       else case checkClosure g' of Some e \<Rightarrow> Inl e
         | None \<Rightarrow> (case checkAcyclic g' of Some (Some e) \<Rightarrow> Inl e | _ \<Rightarrow> Inr g'))"
    using d g' by (simp only: Parse_def option.case sum.case not_True_eq_False if_False)
  then have "gl_order g' \<noteq> []" "checkClosure g' = None" "\<nexists>e. checkAcyclic g' = Some (Some e)" "g' = g"
    using assms by (simp_all split: if_splits option.splits)
  then have ne: "gl_order g \<noteq> []" and cl: "checkClosure g = None" and ac: "\<nexists>e. checkAcyclic g = Some (Some e)"
    and read: "read_rows False (split_on CHR 0x0A raw) ?start = Inr g"
    using g' by auto
  have "rows_ok ?start" by (simp add: rows_ok_def)
  then have rows: "rows_ok g" by (rule read_rows_ok [OF read])
  moreover have "\<forall>t \<in> set (gl_order g). \<forall>r \<in> set (also_of g t). r \<noteq> t \<and> r \<in> dom (gl_terms g)"
    using cl unfolding checkClosure_def closure_from_None dom_def by simp
  ultimately have cl: "closed_table g" by (simp add: closed_table_def rows_ok_def)
  then have "wf (leans (also_of g))" using checkAcyclic_cases ac by blast
  moreover have "\<exists>e. gl_terms g t = Some e \<and> sentences (en_gloss e) \<in> {1..MaxSentences} \<and>
      set (refs (en_gloss e)) \<subseteq> set (gl_order g) - {t}" if "t \<in> set (gl_order g)" for t
  proof -
    have "t \<in> dom (gl_terms g)" using that rows by (simp add: rows_ok_def)
    then obtain e where e: "gl_terms g t = Some e" by blast
    then have "e \<in> ran (gl_terms g)" by (rule ranI)
    moreover have "\<forall>r \<in> set (en_also e). r \<noteq> t \<and> r \<in> set (gl_order g)"
    proof -
      have "also_of g t = en_also e" using e by (simp add: also_of_def)
      moreover have "\<forall>r \<in> set (also_of g t). r \<noteq> t \<and> r \<in> set (gl_order g)"
        using cl that unfolding closed_table_def by blast
      ultimately show ?thesis by (simp only:)
    qed
    ultimately show ?thesis using rows e by (auto simp: rows_ok_def)
  qed
  ultimately show ?thesis using rows ne by (simp add: rows_ok_def)
qed

section \<open>Witnesses\<close>

definition small_file :: string where
  "small_file = ''Version: 2026-09-28'' @ [CHR 0x0A] @ ''|---|---|'' @ [CHR 0x0A] @ ''| gas | A cost. |'' @ [CHR 0x0A] @
     ''| call | Costs **gas**, as `a.b.` does. |''"

definition looped :: glossary where
  "looped = \<lparr>gl_version = ''2026-09-28'', gl_terms = [''gas'' \<mapsto> \<lparr>en_gloss = [], en_also = [''call'']\<rparr>,
     ''call'' \<mapsto> \<lparr>en_gloss = [], en_also = [''gas'']\<rparr>], gl_order = [''gas'', ''call'']\<rparr>"

lemma Parse_bottoms_out_witness:
  "\<exists>g. Parse small_file = Inr g \<and> gl_order g = [''gas'', ''call''] \<and> wf (leans (also_of g))"
proof -
  have "case Parse small_file of Inr g \<Rightarrow> gl_order g = [''gas'', ''call''] | Inl _ \<Rightarrow> False" by code_simp
  then obtain g where "Parse small_file = Inr g" "gl_order g = [''gas'', ''call'']"
    by (auto split: sum.splits)
  then show ?thesis using Parse_bottoms_out by blast
qed

lemma checkAcyclic_finds_cycles_witness: "\<not> acyclic (leans (also_of looped))"
proof -
  have "closed_table looped" by (auto simp: closed_table_def looped_def also_of_def)
  moreover have "checkAcyclic looped \<noteq> Some None" by code_simp
  ultimately show ?thesis using checkAcyclic_finds_cycles by blast
qed

end
