(* ===== verification/Ghlab_Walk.thy ===== *)
theory Ghlab_Walk
  imports Go_Prelude Complex_Main
begin

text \<open>
  The laboratory of GitHub contributions (\<^verbatim>\<open>pkg/ghlab\<close>): walking the pull requests of a
  repository from the most recently updated one down (\<^verbatim>\<open>graphql.go\<close>, \<^verbatim>\<open>walkRepo\<close> of \<^verbatim>\<open>sync.go\<close>) and
  what is stored of them (\<^verbatim>\<open>ghlab.go\<close>). GitHub, the clock and the outcome of every transaction
  are functions of a world that moves on with every call; a time is in seconds, and its
  RFC 3339 text is made and read by two of those functions.
\<close>

section \<open>Bots\<close>

definition botLogins :: "string list" where
  "botLogins = [''dependabot'', ''dependabot[bot]'', ''github-actions'', ''renovate'', ''renovate[bot]'',
     ''codecov'', ''coderabbitai'', ''gnolang-bot'', ''mergify'', ''allcontributors'', ''semantic-release'',
     ''web-flow'', ''copilot-swe-agent'', ''gno2d2'']"

definition IsBot :: "string \<Rightarrow> bool" where
  "IsBot login =
     (let l = to_lower (trim_space login)
      in l = [] \<or> l \<in> set botLogins \<or> has_suffix l ''[bot]'' \<or> has_suffix l ''-bot'')"

section \<open>What GitHub answers\<close>

record gql_actor =
  ac_login :: string
  ac_typename :: string

definition actor_name :: "gql_actor option \<Rightarrow> string" where
  "actor_name a =
     (case a of
        None \<Rightarrow> []
      | Some a \<Rightarrow>
          if ac_typename a = ''Bot'' \<and> \<not> has_suffix (ac_login a) ''[bot]'' then ac_login a @ ''[bot]''
          else ac_login a)"

text \<open>A review or a comment; the time is the one its connection calls it.\<close>

record gql_event =
  ge_author :: "gql_actor option"
  ge_at :: string

record gql_conn =
  cn_next :: bool
  cn_end :: string
  cn_nodes :: "gql_event list"

record gql_pull =
  pu_number :: int
  pu_title :: string
  pu_state :: string
  pu_draft :: bool
  pu_created :: string
  pu_updated :: string
  pu_merged :: string
  pu_closed :: string
  pu_author :: "gql_actor option"
  pu_reviews :: gql_conn
  pu_comments :: gql_conn

record pull_conn =
  pc_next :: bool
  pc_end :: string
  pc_nodes :: "gql_pull list"

datatype gh_error = Http nat string | Transport | Graph_error | Bad_name | Store_failed

fun IsRateLimited :: "gh_error \<Rightarrow> bool" where
  "IsRateLimited (Http n body) \<longleftrightarrow> n = 429 \<or> n = 403 \<and> str_contains (to_lower body) ''rate limit''"
| "IsRateLimited _ \<longleftrightarrow> False"

text \<open>What comes back over the wire: no answer, a status, an envelope with errors, the first of
  which has this type and message, or the data.\<close>

datatype 'a gh_reply = No_answer | Status nat string | Errors string string | Data 'a

fun graphql :: "'a gh_reply \<Rightarrow> gh_error + 'a" where
  "graphql No_answer = Inl Transport"
| "graphql (Status n body) = Inl (Http n (take 300 body))"
| "graphql (Errors kind msg) =
     Inl (if kind = ''RATE_LIMITED'' then Http 429 (''rate limit: '' @ msg)
          else if kind = ''NOT_FOUND'' then Http 404 msg else Graph_error)"
| "graphql (Data d) = Inr d"

text \<open>The REST endpoints have no such envelope: one would not be read as the list that is expected.\<close>

fun rest_get :: "'a gh_reply \<Rightarrow> gh_error + 'a" where
  "rest_get (Status n body) = Inl (Http n (take 300 body))"
| "rest_get (Data d) = Inr d"
| "rest_get _ = Inl Transport"

record gh_contributor =
  hc_login :: string
  hc_contributions :: int
  hc_avatar :: string
  hc_type :: string

text \<open>The world: the pull requests of a repository behind a cursor, the reviews or comments of one
  behind a cursor, a page of contributors, whether a transaction commits. No repository
  is \<^term>\<open>None\<close>.\<close>

record 'w outside =
  ox_now :: "'w \<Rightarrow> int"
  ox_parse :: "string \<Rightarrow> int option"
  ox_format :: "int \<Rightarrow> string"
  ox_pulls :: "string \<Rightarrow> string \<Rightarrow> 'w \<Rightarrow> pull_conn option gh_reply \<times> 'w"
  ox_more :: "string \<Rightarrow> int \<Rightarrow> bool \<Rightarrow> string \<Rightarrow> 'w \<Rightarrow> gql_conn option gh_reply \<times> 'w"
  ox_contributors :: "string \<Rightarrow> nat \<Rightarrow> 'w \<Rightarrow> gh_contributor list gh_reply \<times> 'w"
  ox_commit :: "'w \<Rightarrow> bool \<times> 'w"

section \<open>Rows\<close>

record pr_row =
  rw_full :: string
  rw_number :: int
  rw_title :: string
  rw_author :: string
  rw_state :: string
  rw_draft :: bool
  rw_created :: string
  rw_updated :: string
  rw_merged :: string
  rw_closed :: string

record pr_event =
  re_full :: string
  re_number :: int
  re_login :: string
  re_kind :: string
  re_at :: string

definition event_row :: "string \<Rightarrow> int \<Rightarrow> string \<Rightarrow> string \<Rightarrow> gql_event \<Rightarrow> pr_event list" where
  "event_row full n author kind e =
     (let login = actor_name (ge_author e)
      in if login = [] \<or> ge_at e = [] then []
         else if login = author \<or> IsBot login then []
         else [\<lparr>re_full = full, re_number = n, re_login = login, re_kind = kind, re_at = ge_at e\<rparr>])"

definition toRows :: "string \<Rightarrow> gql_pull \<Rightarrow> pr_row \<times> pr_event list" where
  "toRows full p =
     (let author = actor_name (pu_author p)
      in (\<lparr>rw_full = full, rw_number = pu_number p, rw_title = pu_title p, rw_author = author,
           rw_state = (if pu_state p = ''OPEN'' then ''open'' else ''closed''), rw_draft = pu_draft p,
           rw_created = pu_created p, rw_updated = pu_updated p, rw_merged = pu_merged p,
           rw_closed = pu_closed p\<rparr>,
          concat (map (event_row full (pu_number p) author ''review'') (cn_nodes (pu_reviews p))) @
          concat (map (event_row full (pu_number p) author ''comment'') (cn_nodes (pu_comments p)))))"

section \<open>The store\<close>

record walk_record =
  wl_started :: string
  wl_cursor :: string
  wl_watermark :: string
  wl_last :: string

definition no_walk :: walk_record where
  "no_walk = \<lparr>wl_started = [], wl_cursor = [], wl_watermark = [], wl_last = []\<rparr>"

record contributor =
  co_full :: string
  co_login :: string
  co_commits :: int
  co_avatar :: string

record 'w lab =
  lb_prs :: "string \<times> int \<Rightarrow> pr_row option"
  lb_events :: "pr_event list"
  lb_walks :: "string \<Rightarrow> walk_record option"
  lb_contributors :: "contributor list"
  lb_world :: 'w

definition commit :: "'w outside \<Rightarrow> 'w lab \<Rightarrow> bool \<times> 'w lab" where
  "commit X s = (case ox_commit X (lb_world s) of (ok, w) \<Rightarrow> (ok, s\<lparr>lb_world := w\<rparr>))"

text \<open>A row that is there keeps its creation time.\<close>

definition upsert_pr :: "pr_row \<Rightarrow> (string \<times> int \<Rightarrow> pr_row option) \<Rightarrow> string \<times> int \<Rightarrow> pr_row option" where
  "upsert_pr r m =
     (let key = (rw_full r, rw_number r)
      in m(key := Some (case m key of None \<Rightarrow> r | Some old \<Rightarrow> r\<lparr>rw_created := rw_created old\<rparr>)))"

definition UpsertPRs :: "'w outside \<Rightarrow> pr_row list \<Rightarrow> 'w lab \<Rightarrow> bool \<times> 'w lab" where
  "UpsertPRs X prs s =
     (if prs = [] then (True, s)
      else case commit X s of
          (True, s) \<Rightarrow> (True, s\<lparr>lb_prs := fold upsert_pr prs (lb_prs s)\<rparr>)
        | (False, s) \<Rightarrow> (False, s))"

definition replaces :: "pr_row list \<Rightarrow> pr_event \<Rightarrow> bool" where
  "replaces prs e = list_ex (\<lambda>r. rw_full r = re_full e \<and> rw_number r = re_number e) prs"

definition StorePage :: "'w outside \<Rightarrow> pr_row list \<Rightarrow> pr_event list \<Rightarrow> 'w lab \<Rightarrow> bool \<times> 'w lab" where
  "StorePage X prs evs s =
     (case UpsertPRs X prs s of
        (False, s) \<Rightarrow> (False, s)
      | (True, s) \<Rightarrow>
          (case commit X s of
             (True, s) \<Rightarrow> (True, s\<lparr>lb_events := filter (\<lambda>e. \<not> replaces prs e) (lb_events s) @ evs\<rparr>)
           | (False, s) \<Rightarrow> (False, s)))"

definition Walk :: "string \<Rightarrow> 'w lab \<Rightarrow> walk_record" where
  "Walk full s = (case lb_walks s full of None \<Rightarrow> no_walk | Some w \<Rightarrow> w)"

definition SetWalk :: "'w outside \<Rightarrow> string \<Rightarrow> walk_record \<Rightarrow> 'w lab \<Rightarrow> bool \<times> 'w lab" where
  "SetWalk X full w s =
     (case commit X s of
        (True, s) \<Rightarrow> (True, s\<lparr>lb_walks := (lb_walks s)(full \<mapsto> w)\<rparr>)
      | (False, s) \<Rightarrow> (False, s))"

text \<open>The table has one row for each repository and login, so a list that names one twice is refused.\<close>

definition ReplaceContributors :: "'w outside \<Rightarrow> string \<Rightarrow> contributor list \<Rightarrow> 'w lab \<Rightarrow> bool \<times> 'w lab" where
  "ReplaceContributors X full cs s =
     (if \<not> distinct (map co_login cs) then (False, s)
      else case commit X s of
          (True, s) \<Rightarrow> (True, s\<lparr>lb_contributors := filter (\<lambda>c. co_full c \<noteq> full) (lb_contributors s) @ cs\<rparr>)
        | (False, s) \<Rightarrow> (False, s))"

section \<open>Reading a page\<close>

partial_function (option) moreEvents ::
  "'w outside \<Rightarrow> string \<Rightarrow> int \<Rightarrow> bool \<Rightarrow> string \<Rightarrow> gql_event list \<Rightarrow> 'w \<Rightarrow>
   ((gh_error + gql_event list) \<times> 'w) option" where
  "moreEvents X full n reviews cursor out w =
     (let (r, w) = ox_more X full n reviews cursor w
      in case graphql r of
           Inl e \<Rightarrow> Some (Inl e, w)
         | Inr None \<Rightarrow> Some (Inr out, w)
         | Inr (Some c) \<Rightarrow>
             if \<not> cn_next c \<or> cn_end c = [] then Some (Inr (out @ cn_nodes c), w)
             else moreEvents X full n reviews (cn_end c) (out @ cn_nodes c) w)"

definition all_events ::
  "'w outside \<Rightarrow> string \<Rightarrow> int \<Rightarrow> bool \<Rightarrow> gql_conn \<Rightarrow> 'w \<Rightarrow> ((gh_error + gql_conn) \<times> 'w) option" where
  "all_events X full n reviews c w =
     (if \<not> cn_next c then Some (Inr c, w)
      else case moreEvents X full n reviews (cn_end c) [] w of
          None \<Rightarrow> None
        | Some (Inl e, w) \<Rightarrow> Some (Inl e, w)
        | Some (Inr rest, w) \<Rightarrow> Some (Inr (c\<lparr>cn_nodes := cn_nodes c @ rest\<rparr>), w))"

record walk_page =
  wp_prs :: "pr_row list"
  wp_events :: "pr_event list"
  wp_end :: string
  wp_oldest :: "int option"

definition older :: "int option \<Rightarrow> int option \<Rightarrow> int option" where
  "older t old = (case (t, old) of (Some a, Some b) \<Rightarrow> Some (min a b) | (Some a, None) \<Rightarrow> Some a | (None, _) \<Rightarrow> old)"

fun page_rows ::
  "'w outside \<Rightarrow> string \<Rightarrow> gql_pull list \<Rightarrow> walk_page \<Rightarrow> 'w \<Rightarrow> ((gh_error + walk_page) \<times> 'w) option" where
  "page_rows X full [] wp w = Some (Inr wp, w)"
| "page_rows X full (p # ps) wp w =
     (case all_events X full (pu_number p) True (pu_reviews p) w of
        None \<Rightarrow> None
      | Some (Inl e, w) \<Rightarrow> Some (Inl e, w)
      | Some (Inr rs, w) \<Rightarrow>
          (case all_events X full (pu_number p) False (pu_comments p) w of
             None \<Rightarrow> None
           | Some (Inl e, w) \<Rightarrow> Some (Inl e, w)
           | Some (Inr cs, w) \<Rightarrow>
               (let (row, evs) = toRows full (p\<lparr>pu_reviews := rs, pu_comments := cs\<rparr>)
                in page_rows X full ps
                     (wp\<lparr>wp_prs := wp_prs wp @ [row], wp_events := wp_events wp @ evs,
                         wp_oldest := older (ox_parse X (pu_updated p)) (wp_oldest wp)\<rparr>) w)))"

definition empty_page :: "string \<Rightarrow> walk_page" where
  "empty_page cursor = \<lparr>wp_prs = [], wp_events = [], wp_end = cursor, wp_oldest = None\<rparr>"

section \<open>The walk\<close>

definition walkMaxPages :: nat where "walkMaxPages = 120"
definition walkSlack :: int where "walkSlack = 3600"
definition contributorMaxPages :: nat where "contributorMaxPages = 3"

definition reaches_stop :: "int option \<Rightarrow> int option \<Rightarrow> bool" where
  "reaches_stop stop oldest = (case (stop, oldest) of (Some t, Some old) \<Rightarrow> old < t | _ \<Rightarrow> False)"

text \<open>The pages from a cursor on, each stored before the next is asked for, with the walk's record
  carried along. The result says whether the walk is complete, and what ended it otherwise.\<close>

fun WalkPulls ::
  "'w outside \<Rightarrow> string \<Rightarrow> int option \<Rightarrow> nat \<Rightarrow> string \<Rightarrow> walk_record \<Rightarrow> 'w lab \<Rightarrow>
   ((bool \<times> gh_error option) \<times> walk_record \<times> 'w lab) option" where
  "WalkPulls X full stop 0 cursor st s = Some ((False, None), st, s)"
| "WalkPulls X full stop (Suc n) cursor st s =
     (let (r, w) = ox_pulls X full cursor (lb_world s); s = s\<lparr>lb_world := w\<rparr>
      in case graphql r of
           Inl e \<Rightarrow> Some ((False, Some e), st, s)
         | Inr None \<Rightarrow> Some ((False, Some (Http 404 full)), st, s)
         | Inr (Some c) \<Rightarrow>
             (case page_rows X full (pc_nodes c) (empty_page (pc_end c)) w of
                None \<Rightarrow> None
              | Some (Inl e, w) \<Rightarrow> Some ((False, Some e), st, s\<lparr>lb_world := w\<rparr>)
              | Some (Inr wp, w) \<Rightarrow>
                  (case StorePage X (wp_prs wp) (wp_events wp) (s\<lparr>lb_world := w\<rparr>) of
                     (False, s) \<Rightarrow> Some ((False, Some Store_failed), st, s)
                   | (True, s) \<Rightarrow>
                       (let st = st\<lparr>wl_cursor := wp_end wp\<rparr>
                        in case SetWalk X full st s of
                             (False, s) \<Rightarrow> Some ((False, Some Store_failed), st, s)
                           | (True, s) \<Rightarrow>
                               if \<not> pc_next c \<or> reaches_stop stop (wp_oldest wp) then Some ((True, None), st, s)
                               else WalkPulls X full stop n (pc_end c) st s))))"

fun FetchContributors ::
  "'w outside \<Rightarrow> string \<Rightarrow> nat \<Rightarrow> nat \<Rightarrow> contributor list \<Rightarrow> 'w \<Rightarrow> (gh_error + contributor list) \<times> 'w" where
  "FetchContributors X full page 0 out w = (Inr out, w)"
| "FetchContributors X full page (Suc n) out w =
     (let (r, w) = ox_contributors X full page w
      in case rest_get r of
           Inl e \<Rightarrow> (Inl e, w)
         | Inr batch \<Rightarrow>
             (let out = out @ map (\<lambda>g. \<lparr>co_full = full, co_login = hc_login g,
                    co_commits = hc_contributions g, co_avatar = hc_avatar g\<rparr>)
                  (filter (\<lambda>g. \<not> (hc_login g = [] \<or> IsBot (hc_login g) \<or> hc_type g = ''Bot'')) batch)
              in if length batch < 100 then (Inr out, w) else FetchContributors X full (Suc page) n out w))"

definition walkContributors :: "'w outside \<Rightarrow> string \<Rightarrow> 'w lab \<Rightarrow> gh_error option \<times> 'w lab" where
  "walkContributors X full s =
     (let (r, w) = FetchContributors X full 1 contributorMaxPages [] (lb_world s); s = s\<lparr>lb_world := w\<rparr>
      in case r of
           Inl e \<Rightarrow> (if IsRateLimited e then Some e else None, s)
         | Inr cs \<Rightarrow>
             if cs = [] then (None, s)
             else case ReplaceContributors X full cs s of (ok, s) \<Rightarrow> (if ok then None else Some Store_failed, s))"

definition begin_walk :: "'w outside \<Rightarrow> string \<Rightarrow> 'w lab \<Rightarrow> walk_record" where
  "begin_walk X full s =
     (let st = Walk full s
      in if wl_cursor st = [] then st\<lparr>wl_started := ox_format X (ox_now X (lb_world s))\<rparr> else st)"

definition stop_time :: "'w outside \<Rightarrow> walk_record \<Rightarrow> int option" where
  "stop_time X st =
     (if wl_watermark st = [] then None
      else map_option (\<lambda>t. t - walkSlack) (ox_parse X (wl_watermark st)))"

definition end_walk :: "'w outside \<Rightarrow> bool \<Rightarrow> walk_record \<Rightarrow> 'w lab \<Rightarrow> walk_record" where
  "end_walk X finished st s =
     (let st = st\<lparr>wl_last := ox_format X (ox_now X (lb_world s))\<rparr>
      in if finished then st\<lparr>wl_watermark := wl_started st, wl_cursor := []\<rparr> else st)"

definition walkRepo :: "'w outside \<Rightarrow> string \<Rightarrow> 'w lab \<Rightarrow> (gh_error option \<times> 'w lab) option" where
  "walkRepo X full s =
     (let st = begin_walk X full s
      in case (if CHR ''/'' \<in> set full then WalkPulls X full (stop_time X st) walkMaxPages (wl_cursor st) st s
               else Some ((False, Some Bad_name), st, s)) of
           None \<Rightarrow> None
         | Some ((finished, err), st, s) \<Rightarrow>
             if err = Some Store_failed then Some (err, s)
             else case SetWalk X full (end_walk X finished st s) s of
                 (False, s) \<Rightarrow> Some (Some Store_failed, s)
               | (True, s) \<Rightarrow>
                   if (case err of Some e \<Rightarrow> IsRateLimited e | None \<Rightarrow> False) then Some (err, s)
                   else Some (walkContributors X full s))"

section \<open>The discovered repositories\<close>

definition discoveredWalkBudget :: nat where "discoveredWalkBudget = 60"

text \<open>The least recently walked first, and by name among those; a text sorts as its bytes.\<close>

definition ScoreQueue :: "string list \<Rightarrow> 'w lab \<Rightarrow> string list" where
  "ScoreQueue discovered s = sort_key (\<lambda>n. wl_last (Walk n s)) (sort_strings discovered)"

fun walk_queue :: "'w outside \<Rightarrow> string list \<Rightarrow> 'w lab \<Rightarrow> (gh_error option \<times> 'w lab) option" where
  "walk_queue X [] s = Some (None, s)"
| "walk_queue X (full # fs) s =
     (case walkRepo X full s of
        None \<Rightarrow> None
      | Some (Some e, s) \<Rightarrow> Some (Some e, s)
      | Some (None, s) \<Rightarrow> walk_queue X fs s)"

definition syncDiscoveredWalks :: "'w outside \<Rightarrow> string list \<Rightarrow> 'w lab \<Rightarrow> (gh_error option \<times> 'w lab) option" where
  "syncDiscoveredWalks X discovered s = walk_queue X (take discoveredWalkBudget (ScoreQueue discovered s)) s"

end
