(* ===== verification/Ghlab_Safety.thy ===== *)
theory Ghlab_Safety
  imports Ghlab_Walk
begin

text \<open>
  What the walks of \<^verbatim>\<open>Ghlab_Walk\<close> keep, however often they are cut short by a rate limit, a failed
  transaction or the budget of pages: what the store does not hold as GitHub has it was
  touched since an hour before the last complete walk began.
\<close>

section \<open>GitHub\<close>

type_synonym 'w remote = "'w \<Rightarrow> string \<Rightarrow> int \<Rightarrow> gql_pull option"

definition touched :: "'w outside \<Rightarrow> gql_pull \<Rightarrow> int" where
  "touched X p = the (ox_parse X (pu_updated p))"

definition key :: "'w outside \<Rightarrow> gql_pull \<Rightarrow> int \<times> int" where
  "key X p = (touched X p, pu_number p)"

definition events_of :: "bool \<Rightarrow> gql_pull \<Rightarrow> gql_event list" where
  "events_of reviews p = cn_nodes (if reviews then pu_reviews p else pu_comments p)"

text \<open>Time goes on, and a pull request that changes carries a later time, up to the slack between
  the two clocks.\<close>

definition evolves :: "'w outside \<Rightarrow> 'w remote \<Rightarrow> 'w \<Rightarrow> 'w \<Rightarrow> bool" where
  "evolves X remote w w' \<longleftrightarrow> ox_now X w \<le> ox_now X w' \<and>
     (\<forall>full n p. remote w' full n = Some p \<longrightarrow>
        remote w full n = Some p \<or> ox_now X w - walkSlack \<le> touched X p)"

text \<open>A part of a connection from offset \<open>k\<close> on; its cursor says where the next part begins.\<close>

definition conn_ok :: "(string \<Rightarrow> nat) \<Rightarrow> gql_event list \<Rightarrow> nat \<Rightarrow> gql_conn \<Rightarrow> bool" where
  "conn_ok off evs k c \<longleftrightarrow>
     (\<exists>m. cn_nodes c = take m (drop k evs) \<and>
        (if cn_next c then cn_end c \<noteq> [] \<and> off (cn_end c) = k + m \<and> 0 < m \<and> k + m \<le> length evs
         else length evs \<le> k + m))"

definition node_ok :: "(string \<Rightarrow> nat) \<Rightarrow> gql_pull \<Rightarrow> gql_pull \<Rightarrow> bool" where
  "node_ok off v p \<longleftrightarrow>
     v\<lparr>pu_reviews := pu_reviews p, pu_comments := pu_comments p\<rparr> = p \<and>
     conn_ok off (events_of True p) 0 (pu_reviews v) \<and> conn_ok off (events_of False p) 0 (pu_comments v)"

text \<open>A page behind a cursor: what lies above the cursor was handed over before; the page has what
  lies between it and the cursor it ends with, and what is left is not younger.\<close>

definition page_ok ::
  "'w outside \<Rightarrow> (string \<Rightarrow> nat) \<Rightarrow> (string \<Rightarrow> int \<times> int \<Rightarrow> bool) \<Rightarrow> (int \<Rightarrow> gql_pull option) \<Rightarrow>
   string \<Rightarrow> pull_conn \<Rightarrow> bool" where
  "page_ok X off passed pulls cursor c \<longleftrightarrow>
     distinct (map pu_number (pc_nodes c)) \<and>
     (\<forall>v \<in> set (pc_nodes c). \<exists>p. pulls (pu_number v) = Some p \<and> node_ok off v p) \<and>
     (\<forall>n p. pulls n = Some p \<and> \<not> passed cursor (key X p) \<and> (\<not> pc_next c \<or> passed (pc_end c) (key X p)) \<longrightarrow>
        n \<in> pu_number ` set (pc_nodes c)) \<and>
     (pc_next c \<longrightarrow> (\<forall>n p. \<forall>v \<in> set (pc_nodes c).
        pulls n = Some p \<and> \<not> passed (pc_end c) (key X p) \<longrightarrow> touched X p \<le> touched X v \<or> passed cursor (key X p)))"

text \<open>The documented behaviour of the API: its cursors, its order, and clocks that are less than the
  slack apart. A page is read at one moment; anything may happen between two pages.\<close>

definition more_ok :: "'w outside \<Rightarrow> 'w remote \<Rightarrow> (string \<Rightarrow> nat) \<Rightarrow> bool" where
  "more_ok X remote off \<longleftrightarrow>
     (\<forall>full n b cursor w r w'. ox_more X full n b cursor w = (r, w') \<longrightarrow>
        remote w' = remote w \<and> ox_now X w \<le> ox_now X w' \<and>
        (\<forall>x p. r = Data x \<and> remote w full n = Some p \<and> off cursor \<le> length (events_of b p) \<longrightarrow>
           (\<exists>c. x = Some c \<and> conn_ok off (events_of b p) (off cursor) c)))"

definition pulls_ok ::
  "'w outside \<Rightarrow> 'w remote \<Rightarrow> (string \<Rightarrow> nat) \<Rightarrow> (string \<Rightarrow> int \<times> int \<Rightarrow> bool) \<Rightarrow> bool" where
  "pulls_ok X remote off passed \<longleftrightarrow>
     (\<forall>full cursor w r w'. ox_pulls X full cursor w = (r, w') \<longrightarrow>
        evolves X remote w w' \<and>
        (\<forall>c. r = Data (Some c) \<longrightarrow> page_ok X off passed (remote w' full) cursor c))"

definition github_ok ::
  "'w outside \<Rightarrow> 'w remote \<Rightarrow> (string \<Rightarrow> nat) \<Rightarrow> (string \<Rightarrow> int \<times> int \<Rightarrow> bool) \<Rightarrow> bool" where
  "github_ok X remote off passed \<longleftrightarrow>
     (\<forall>t. ox_parse X (ox_format X t) = Some t \<and> ox_format X t \<noteq> []) \<and>
     (\<forall>w full n p. remote w full n = Some p \<longrightarrow> pu_number p = n \<and> ox_parse X (pu_updated p) \<noteq> None) \<and>
     (\<forall>k. \<not> passed [] k) \<and>
     (\<forall>w. evolves X remote w (snd (ox_commit X w))) \<and>
     (\<forall>full k w. evolves X remote w (snd (ox_contributors X full k w))) \<and>
     more_ok X remote off \<and> pulls_ok X remote off passed"

lemma evolves_refl [simp]: "evolves X remote w w"
  by (simp add: evolves_def)

lemma evolves_trans: "evolves X remote w w' \<Longrightarrow> evolves X remote w' w'' \<Longrightarrow> evolves X remote w w''"
  unfolding evolves_def by fastforce

lemma same_evolves: "remote w' = remote w \<Longrightarrow> ox_now X w \<le> ox_now X w' \<Longrightarrow> evolves X remote w w'"
  by (simp add: evolves_def)

lemma github_format: "github_ok X remote off passed \<Longrightarrow> ox_parse X (ox_format X t) = Some t \<and> ox_format X t \<noteq> []"
  by (simp add: github_ok_def)

lemma github_pull:
  "github_ok X remote off passed \<Longrightarrow> remote w full n = Some p \<Longrightarrow>
   pu_number p = n \<and> ox_parse X (pu_updated p) = Some (touched X p)"
  unfolding github_ok_def touched_def by fastforce

lemma github_passed: "github_ok X remote off passed \<Longrightarrow> \<not> passed [] k"
  by (cases k) (simp add: github_ok_def)

lemma github_commit: "github_ok X remote off passed \<Longrightarrow> commit X s = (ok, s') \<Longrightarrow>
    evolves X remote (lb_world s) (lb_world s')"
proof -
  assume G: "github_ok X remote off passed" and c: "commit X s = (ok, s')"
  have "evolves X remote (lb_world s) (snd (ox_commit X (lb_world s)))" using G by (simp add: github_ok_def)
  then show ?thesis using c by (cases "ox_commit X (lb_world s)") (auto simp: commit_def)
qed

lemma github_more:
  "github_ok X remote off passed \<Longrightarrow> ox_more X full n b cursor w = (r, w') \<Longrightarrow>
   remote w' = remote w \<and> ox_now X w \<le> ox_now X w' \<and>
   (\<forall>x p. r = Data x \<and> remote w full n = Some p \<and> off cursor \<le> length (events_of b p) \<longrightarrow>
      (\<exists>c. x = Some c \<and> conn_ok off (events_of b p) (off cursor) c))"
  unfolding github_ok_def more_ok_def by blast

lemma github_pulls:
  "github_ok X remote off passed \<Longrightarrow> ox_pulls X full cursor w = (r, w') \<Longrightarrow>
   evolves X remote w w' \<and> (\<forall>c. r = Data (Some c) \<longrightarrow> page_ok X off passed (remote w' full) cursor c)"
  unfolding github_ok_def pulls_ok_def by blast

section \<open>A page\<close>

definition read_ok :: "'w outside \<Rightarrow> 'w remote \<Rightarrow> 'w \<Rightarrow> ('a \<Rightarrow> bool) \<Rightarrow> ((gh_error + 'a) \<times> 'w) option \<Rightarrow> bool" where
  "read_ok X remote w P r \<longleftrightarrow>
     (\<exists>x w'. r = Some (x, w') \<and> remote w' = remote w \<and> ox_now X w \<le> ox_now X w' \<and>
        (case x of Inl _ \<Rightarrow> True | Inr v \<Rightarrow> P v))"

lemma read_ok_fail [simp]: "read_ok X remote w P (Some (Inl e, w')) \<longleftrightarrow> remote w' = remote w \<and> ox_now X w \<le> ox_now X w'"
  by (auto simp: read_ok_def)

lemma read_ok_value [simp]:
  "read_ok X remote w P (Some (Inr v, w')) \<longleftrightarrow> remote w' = remote w \<and> ox_now X w \<le> ox_now X w' \<and> P v"
  by (auto simp: read_ok_def)

lemma read_ok_later:
  "read_ok X remote w1 P r \<Longrightarrow> remote w1 = remote w \<Longrightarrow> ox_now X w \<le> ox_now X w1 \<Longrightarrow>
   (\<And>v. P v \<Longrightarrow> Q v) \<Longrightarrow> read_ok X remote w Q r"
  unfolding read_ok_def by (fastforce split: sum.splits)

lemma read_ok_cases:
  assumes "read_ok X remote w P r"
  obtains e w' where "r = Some (Inl e, w')" "remote w' = remote w" "ox_now X w \<le> ox_now X w'"
    | v w' where "r = Some (Inr v, w')" "remote w' = remote w" "ox_now X w \<le> ox_now X w'" "P v"
proof -
  obtain x w' where "r = Some (x, w')" "remote w' = remote w" "ox_now X w \<le> ox_now X w'"
    "case x of Inl _ \<Rightarrow> True | Inr v \<Rightarrow> P v"
    using assms unfolding read_ok_def by blast
  then show ?thesis using that by (cases x) auto
qed

lemma moreEvents_reads:
  assumes "github_ok X remote off passed" "remote w full n = Some p" "off cursor \<le> length (events_of b p)"
  shows "read_ok X remote w (\<lambda>evs. evs = out @ drop (off cursor) (events_of b p)) (moreEvents X full n b cursor out w)"
  using assms(2,3)
proof (induction "length (events_of b p) - off cursor" arbitrary: cursor out w rule: less_induct)
  case less
  obtain r w1 where r: "ox_more X full n b cursor w = (r, w1)" by (cases "ox_more X full n b cursor w")
  note m = github_more [OF assms(1) r]
  show ?case
  proof (cases "graphql r")
    case (Inl e)
    then show ?thesis using m by (subst moreEvents.simps) (simp add: r)
  next
    case (Inr x)
    then have "r = Data x" by (cases r) auto
    then obtain c k where c: "x = Some c" "cn_nodes c = take k (drop (off cursor) (events_of b p))"
      "if cn_next c then cn_end c \<noteq> [] \<and> off (cn_end c) = off cursor + k \<and> 0 < k \<and> off cursor + k \<le> length (events_of b p)
       else length (events_of b p) \<le> off cursor + k"
      using m less.prems unfolding conn_ok_def by blast
    show ?thesis
    proof (cases "cn_next c")
      case False
      then have "cn_nodes c = drop (off cursor) (events_of b p)" using c by simp
      then show ?thesis using False m c(1) Inr by (subst moreEvents.simps) (simp add: r)
    next
      case True
      then have "read_ok X remote w1 (\<lambda>evs. evs = (out @ cn_nodes c) @ drop (off (cn_end c)) (events_of b p))
          (moreEvents X full n b (cn_end c) (out @ cn_nodes c) w1)"
        using c less.prems m by (intro less.hyps) auto
      moreover have "cn_nodes c @ drop (off (cn_end c)) (events_of b p) = drop (off cursor) (events_of b p)"
        using True c by (simp add: add.commute drop_drop [symmetric] del: drop_drop)
      moreover have "moreEvents X full n b cursor out w = moreEvents X full n b (cn_end c) (out @ cn_nodes c) w1"
        using True c(1,3) Inr by (subst moreEvents.simps) (simp add: r)
      ultimately show ?thesis using m by (auto intro: read_ok_later)
    qed
  qed
qed

lemma all_events_reads:
  assumes "github_ok X remote off passed" "remote w full n = Some p" "conn_ok off (events_of b p) 0 c"
  shows "read_ok X remote w (\<lambda>c'. cn_nodes c' = events_of b p) (all_events X full n b c w)"
proof (cases "cn_next c")
  case False
  then show ?thesis using assms(3) by (auto simp: all_events_def conn_ok_def)
next
  case True
  then obtain m where m: "cn_nodes c = take m (events_of b p)" "off (cn_end c) = m" "m \<le> length (events_of b p)"
    using assms(3) by (auto simp: conn_ok_def)
  have "read_ok X remote w (\<lambda>evs. evs = [] @ drop (off (cn_end c)) (events_of b p))
      (moreEvents X full n b (cn_end c) [] w)"
    using m by (intro moreEvents_reads [OF assms(1,2)]) simp
  then show ?thesis
    by (cases rule: read_ok_cases) (use True m in \<open>simp_all add: all_events_def\<close>)
qed

lemma toRows_full:
  assumes "node_ok off v p" "cn_nodes rs = events_of True p" "cn_nodes cs = events_of False p"
  shows "toRows full (v\<lparr>pu_reviews := rs, pu_comments := cs\<rparr>) = toRows full p"
proof -
  have p: "p = v\<lparr>pu_reviews := pu_reviews p, pu_comments := pu_comments p\<rparr>" using assms(1) by (simp add: node_ok_def)
  have "toRows full (v\<lparr>pu_reviews := rs, pu_comments := cs\<rparr>)
      = toRows full (v\<lparr>pu_reviews := pu_reviews p, pu_comments := pu_comments p\<rparr>)"
    using assms(2,3) by (simp add: toRows_def events_of_def)
  then show ?thesis using p by simp
qed

definition rows_of :: "string \<Rightarrow> gql_pull list \<Rightarrow> pr_row list" where
  "rows_of full ps = map (\<lambda>p. fst (toRows full p)) ps"

definition events_rows :: "string \<Rightarrow> gql_pull list \<Rightarrow> pr_event list" where
  "events_rows full ps = concat (map (\<lambda>p. snd (toRows full p)) ps)"

definition rows_page :: "'w outside \<Rightarrow> string \<Rightarrow> gql_pull list \<Rightarrow> gql_pull list \<Rightarrow> walk_page \<Rightarrow> walk_page \<Rightarrow> bool" where
  "rows_page X full vs ps wp wp' \<longleftrightarrow>
     wp_prs wp' = wp_prs wp @ rows_of full ps \<and> wp_events wp' = wp_events wp @ events_rows full ps \<and>
     wp_end wp' = wp_end wp \<and>
     (\<forall>t. wp_oldest wp' = Some t \<longrightarrow> wp_oldest wp = Some t \<or> (\<exists>v \<in> set vs. touched X v = t))"

lemma older_Some: "older a b = Some t \<Longrightarrow> a = Some t \<or> b = Some t"
  by (auto simp: older_def min_def split: option.splits if_splits)

lemma page_rows_reads:
  assumes G: "github_ok X remote off passed"
    and "list_all2 (\<lambda>v p. pulls full (pu_number v) = Some p \<and> node_ok off v p) vs ps" "remote w = pulls"
  shows "read_ok X remote w (rows_page X full vs ps wp) (page_rows X full vs wp w)"
  using assms(2,3)
proof (induction vs ps arbitrary: wp w rule: list_all2_induct)
  case Nil
  then show ?case by (simp add: rows_page_def rows_of_def events_rows_def)
next
  case (Cons v vs p ps)
  let ?n = "pu_number v"
  have p: "remote w full ?n = Some p" "node_ok off v p" using Cons.hyps(1) Cons.prems by auto
  have "read_ok X remote w (\<lambda>c'. cn_nodes c' = events_of True p) (all_events X full ?n True (pu_reviews v) w)"
    using p by (intro all_events_reads [OF G]) (auto simp: node_ok_def)
  then show ?case
  proof (cases rule: read_ok_cases)
    case (1 e w1)
    then show ?thesis by simp
  next
    case (2 rs w1)
    have "remote w1 full ?n = Some p" using p(1) 2(2) by simp
    then have "read_ok X remote w1 (\<lambda>c'. cn_nodes c' = events_of False p) (all_events X full ?n False (pu_comments v) w1)"
      using p(2) by (intro all_events_reads [OF G]) (auto simp: node_ok_def)
    then show ?thesis
    proof (cases rule: read_ok_cases)
      case (1 e w2)
      then show ?thesis using 2 by simp
    next
      case (2 cs w2)
      note rs = \<open>cn_nodes rs = _\<close>
      let ?wp = "wp\<lparr>wp_prs := wp_prs wp @ [fst (toRows full p)], wp_events := wp_events wp @ snd (toRows full p),
          wp_oldest := older (ox_parse X (pu_updated v)) (wp_oldest wp)\<rparr>"
      have rest: "read_ok X remote w2 (rows_page X full vs ps ?wp) (page_rows X full vs ?wp w2)"
        using Cons.IH Cons.prems \<open>remote w1 = remote w\<close> 2(2) by simp
      have "page_rows X full (v # vs) wp w = page_rows X full vs ?wp w2"
        using \<open>all_events X full ?n True (pu_reviews v) w = _\<close> 2(1) toRows_full [OF p(2) rs 2(4), of full]
        by (simp add: case_prod_beta)
      moreover have "rows_page X full (v # vs) (p # ps) wp wp'" if "rows_page X full vs ps ?wp wp'" for wp'
        using that older_Some [of "ox_parse X (pu_updated v)" "wp_oldest wp"]
        by (auto simp: rows_page_def rows_of_def events_rows_def touched_def)
      ultimately show ?thesis
        using read_ok_later [OF rest] 2(2,3) \<open>remote w1 = remote w\<close> \<open>ox_now X w \<le> ox_now X w1\<close> by simp
    qed
  qed
qed

section \<open>What is stored\<close>

text \<open>A pull request is stored when its row, up to the creation time, and all its events are.\<close>

definition stored :: "string \<Rightarrow> 'w lab \<Rightarrow> gql_pull \<Rightarrow> bool" where
  "stored full s p \<longleftrightarrow>
     (\<exists>r. lb_prs s (full, pu_number p) = Some r \<and> r\<lparr>rw_created := []\<rparr> = (fst (toRows full p))\<lparr>rw_created := []\<rparr>) \<and>
     filter (\<lambda>e. re_full e = full \<and> re_number e = pu_number p) (lb_events s) = snd (toRows full p)"

lemma stored_cong:
  "lb_prs s' = lb_prs s \<Longrightarrow> lb_events s' = lb_events s \<Longrightarrow> stored full s' p = stored full s p"
  by (simp add: stored_def)

lemma toRows_key: "rw_full (fst (toRows full p)) = full \<and> rw_number (fst (toRows full p)) = pu_number p"
  by (simp add: toRows_def Let_def)

lemma event_row_key: "e \<in> set (event_row full n a k ev) \<Longrightarrow> re_full e = full \<and> re_number e = n"
  by (auto simp: event_row_def Let_def split: if_splits)

lemma toRows_events: "e \<in> set (snd (toRows full p)) \<Longrightarrow> re_full e = full \<and> re_number e = pu_number p"
  by (auto simp: toRows_def Let_def dest!: event_row_key)

lemma upsert_other:
  "\<forall>p \<in> set ps. (g, pu_number p) \<noteq> k \<Longrightarrow> fold upsert_pr (rows_of g ps) m k = m k"
  by (induction ps arbitrary: m) (auto simp: rows_of_def upsert_pr_def Let_def toRows_key)

lemma upsert_own:
  "\<exists>r. upsert_pr (fst (toRows g p)) m (g, pu_number p) = Some r \<and>
     r\<lparr>rw_created := []\<rparr> = (fst (toRows g p))\<lparr>rw_created := []\<rparr>"
  by (cases "m (g, pu_number p)") (simp_all add: upsert_pr_def Let_def toRows_key)

lemma upsert_same:
  "distinct (map pu_number ps) \<Longrightarrow> p \<in> set ps \<Longrightarrow>
   \<exists>r. fold upsert_pr (rows_of g ps) m (g, pu_number p) = Some r \<and>
     r\<lparr>rw_created := []\<rparr> = (fst (toRows g p))\<lparr>rw_created := []\<rparr>"
proof (induction ps arbitrary: m)
  case (Cons q ps)
  let ?m = "upsert_pr (fst (toRows g q)) m"
  have step: "fold upsert_pr (rows_of g (q # ps)) m = fold upsert_pr (rows_of g ps) ?m" by (simp add: rows_of_def)
  show ?case
  proof (cases "p = q")
    case True
    have "pu_number q \<notin> pu_number ` set ps" using Cons.prems(1) by simp
    then have "\<forall>q \<in> set ps. (g, pu_number q) \<noteq> (g, pu_number p)" using True by (auto simp: image_iff)
    then have "fold upsert_pr (rows_of g (q # ps)) m (g, pu_number p) = ?m (g, pu_number p)"
      unfolding step by (rule upsert_other)
    then show ?thesis using upsert_own True by simp
  next
    case False
    then show ?thesis unfolding step using Cons by simp
  qed
qed simp

lemma events_other:
  "\<forall>p \<in> set ps. (g, pu_number p) \<noteq> (full, n) \<Longrightarrow>
   filter (\<lambda>e. re_full e = full \<and> re_number e = n) (events_rows g ps) = []"
  by (fastforce simp: events_rows_def filter_empty_conv dest!: toRows_events)

lemma events_same:
  assumes "distinct (map pu_number ps)" "p \<in> set ps"
  shows "filter (\<lambda>e. re_full e = g \<and> re_number e = pu_number p) (events_rows g ps) = snd (toRows g p)"
  using assms
proof (induction ps)
  case (Cons q ps)
  have own: "filter (\<lambda>e. re_full e = g \<and> re_number e = pu_number q) (snd (toRows g q)) = snd (toRows g q)" for q
    by (rule filter_True) (use toRows_events in blast)
  show ?case
  proof (cases "p = q")
    case True
    have "pu_number q \<notin> pu_number ` set ps" using Cons.prems(1) by simp
    then have "\<forall>q \<in> set ps. (g, pu_number q) \<noteq> (g, pu_number p)" using True by (auto simp: image_iff)
    then have "filter (\<lambda>e. re_full e = g \<and> re_number e = pu_number p) (events_rows g ps) = []" by (rule events_other)
    then show ?thesis using own True by (simp add: events_rows_def)
  next
    case False
    then have "pu_number q \<noteq> pu_number p" using Cons.prems by force
    then have "filter (\<lambda>e. re_full e = g \<and> re_number e = pu_number p) (snd (toRows g q)) = []"
      by (auto simp: filter_empty_conv dest!: toRows_events)
    then show ?thesis using False Cons by (simp add: events_rows_def)
  qed
qed simp

lemma commit_fields:
  "commit X s = (ok, s') \<Longrightarrow>
   lb_prs s' = lb_prs s \<and> lb_events s' = lb_events s \<and> lb_walks s' = lb_walks s \<and> lb_contributors s' = lb_contributors s"
  by (auto simp: commit_def split: prod.splits)

lemma UpsertPRs_effect:
  assumes "github_ok X remote off passed" "UpsertPRs X rs s = (ok, s')"
  shows "evolves X remote (lb_world s) (lb_world s') \<and> lb_walks s' = lb_walks s \<and> lb_events s' = lb_events s \<and>
    lb_prs s' = (if ok then fold upsert_pr rs (lb_prs s) else lb_prs s)"
proof (cases "rs = []")
  case True
  then show ?thesis using assms(2) by (auto simp: UpsertPRs_def)
next
  case False
  obtain ok2 s2 where c: "commit X s = (ok2, s2)" by (cases "commit X s")
  then show ?thesis
    using False assms(2) commit_fields [OF c] github_commit [OF assms(1) c]
    by (cases ok2) (auto simp: UpsertPRs_def)
qed

lemma StorePage_effect:
  assumes "github_ok X remote off passed" "StorePage X rs es s = (ok, s')"
  obtains ok1 ok2 where
    "evolves X remote (lb_world s) (lb_world s')" "lb_walks s' = lb_walks s"
    "lb_prs s' = (if ok1 then fold upsert_pr rs (lb_prs s) else lb_prs s)"
    "lb_events s' = (if ok1 \<and> ok2 then filter (\<lambda>e. \<not> replaces rs e) (lb_events s) @ es else lb_events s)"
    "ok \<longrightarrow> ok1 \<and> ok2"
proof -
  obtain ok1 s1 where u: "UpsertPRs X rs s = (ok1, s1)" by (cases "UpsertPRs X rs s")
  note e = UpsertPRs_effect [OF assms(1) u]
  obtain ok2 s2 where c: "commit X s1 = (ok2, s2)" by (cases "commit X s1")
  note f = commit_fields [OF c]
  have ev: "evolves X remote (lb_world s) (lb_world s2)"
    by (rule evolves_trans [OF conjunct1 [OF e] github_commit [OF assms(1) c]])
  show ?thesis
  proof (cases ok1)
    case False
    then show ?thesis using that [of False False] assms(2) u e by (simp add: StorePage_def)
  next
    case True
    let ?E = "filter (\<lambda>e. \<not> replaces rs e) (lb_events s2) @ es"
    have s': "s' = (if ok2 then s2\<lparr>lb_events := ?E\<rparr> else s2)" "ok = ok2"
      using assms(2) u c True by (cases ok2; simp add: StorePage_def)+
    show ?thesis
      by (rule that [of True ok2]) (use s' ev e f True in simp_all)
  qed
qed

text \<open>A page leaves what was stored as it was, also when its second transaction fails, and stores
  what is on it when both commit.\<close>

lemma StorePage_stores:
  assumes G: "github_ok X remote off passed"
    and store: "StorePage X (rows_of g ps) (events_rows g ps) s = (ok, s')" and ps: "distinct (map pu_number ps)"
  shows "evolves X remote (lb_world s) (lb_world s')" "lb_walks s' = lb_walks s"
    and "stored full s p \<Longrightarrow> (full = g \<and> pu_number p \<in> pu_number ` set ps \<longrightarrow> p \<in> set ps) \<Longrightarrow> stored full s' p"
    and "ok \<Longrightarrow> p \<in> set ps \<Longrightarrow> stored g s' p"
proof -
  let ?U = "fold upsert_pr (rows_of g ps) (lb_prs s)"
  let ?E = "filter (\<lambda>e. \<not> replaces (rows_of g ps) e) (lb_events s) @ events_rows g ps"
  obtain ok1 ok2 where ev: "evolves X remote (lb_world s) (lb_world s')" "lb_walks s' = lb_walks s"
    and eff: "lb_prs s' = (if ok1 then ?U else lb_prs s)" "lb_events s' = (if ok1 \<and> ok2 then ?E else lb_events s)"
      "ok \<longrightarrow> ok1 \<and> ok2"
    using StorePage_effect [OF G store] by metis
  show "evolves X remote (lb_world s) (lb_world s')" "lb_walks s' = lb_walks s" by (fact ev)+
  have rep: "replaces (rows_of g ps) e \<longleftrightarrow> re_full e = g \<and> re_number e \<in> pu_number ` set ps" for e
    by (force simp: replaces_def rows_of_def list_ex_iff toRows_key image_iff)
  have E_in: "filter (\<lambda>e. re_full e = g \<and> re_number e = pu_number p) ?E = snd (toRows g p)" if "p \<in> set ps" for p
    using events_same [OF ps that, of g] that by (auto simp: rep filter_empty_conv)
  have E_out: "filter (\<lambda>e. re_full e = full \<and> re_number e = n) ?E = filter (\<lambda>e. re_full e = full \<and> re_number e = n) (lb_events s)"
    if "\<forall>p \<in> set ps. (g, pu_number p) \<noteq> (full, n)" for full n
    using events_other [OF that] that by (auto simp: rep intro!: filter_cong)
  show "stored g s' p" if "ok" "p \<in> set ps"
    using eff that upsert_same [OF ps that(2), of g "lb_prs s"] E_in [OF that(2)] by (simp add: stored_def)
  assume st: "stored full s p" and on: "full = g \<and> pu_number p \<in> pu_number ` set ps \<longrightarrow> p \<in> set ps"
  show "stored full s' p"
  proof (cases "full = g \<and> pu_number p \<in> pu_number ` set ps")
    case True
    then have p: "p \<in> set ps" "full = g" using on by blast+
    then show ?thesis
      using eff(1,2) st upsert_same [OF ps p(1), of g "lb_prs s"] E_in [OF p(1)]
      by (simp add: stored_def split del: if_split) (simp split: if_splits)
  next
    case False
    then have out: "\<forall>q \<in> set ps. (g, pu_number q) \<noteq> (full, pu_number p)" by (auto simp: image_iff)
    show ?thesis
      using eff(1,2) st upsert_other [OF out, of "lb_prs s"] E_out [OF out]
      by (simp add: stored_def split del: if_split) (simp split: if_splits)
  qed
qed

section \<open>What a store lacks\<close>

text \<open>Every pull request GitHub now has is stored, or was touched since a time, or is excused.\<close>

definition settled :: "'w outside \<Rightarrow> 'w remote \<Rightarrow> string \<Rightarrow> int \<Rightarrow> (gql_pull \<Rightarrow> bool) \<Rightarrow> 'w lab \<Rightarrow> bool" where
  "settled X remote full t Q s \<longleftrightarrow>
     (\<forall>n p. remote (lb_world s) full n = Some p \<longrightarrow> stored full s p \<or> t - walkSlack \<le> touched X p \<or> Q p)"

definition keeps :: "'w outside \<Rightarrow> 'w remote \<Rightarrow> 'w lab \<Rightarrow> 'w lab \<Rightarrow> bool" where
  "keeps X remote s s' \<longleftrightarrow> evolves X remote (lb_world s) (lb_world s') \<and>
     (\<forall>full n p. remote (lb_world s) full n = Some p \<longrightarrow> stored full s p \<longrightarrow> stored full s' p)"

lemma keeps_now: "keeps X remote s s' \<Longrightarrow> ox_now X (lb_world s) \<le> ox_now X (lb_world s')"
  by (simp add: keeps_def evolves_def)

lemma settled_step:
  assumes "settled X remote full t Q s" "evolves X remote (lb_world s) (lb_world s')" "t \<le> ox_now X (lb_world s)"
    and "\<And>n p. remote (lb_world s) full n = Some p \<Longrightarrow> stored full s p \<or> Q p \<Longrightarrow> stored full s' p \<or> Q' p \<or> t - walkSlack \<le> touched X p"
  shows "settled X remote full t Q' s'"
  unfolding settled_def
proof (intro allI impI)
  fix n p
  assume p: "remote (lb_world s') full n = Some p"
  show "stored full s' p \<or> t - walkSlack \<le> touched X p \<or> Q' p"
  proof (cases "remote (lb_world s) full n = Some p")
    case True
    then show ?thesis using assms(1,4) unfolding settled_def by blast
  next
    case False
    then have "ox_now X (lb_world s) - walkSlack \<le> touched X p"
      using assms(2) p unfolding evolves_def by blast
    then show ?thesis using assms(3) by simp
  qed
qed

lemma settled_keeps:
  "settled X remote full t Q s \<Longrightarrow> keeps X remote s s' \<Longrightarrow> t \<le> ox_now X (lb_world s) \<Longrightarrow> settled X remote full t Q s'"
  by (erule settled_step) (auto simp: keeps_def)

text \<open>A time in the records of a walk since which everything but the excused is stored.\<close>

definition settled_since :: "'w outside \<Rightarrow> 'w remote \<Rightarrow> string \<Rightarrow> string \<Rightarrow> (gql_pull \<Rightarrow> bool) \<Rightarrow> 'w lab \<Rightarrow> bool" where
  "settled_since X remote full when Q s \<longleftrightarrow>
     (\<exists>t. ox_parse X when = Some t \<and> t \<le> ox_now X (lb_world s) \<and> settled X remote full t Q s)"

lemma settled_since_keeps:
  "settled_since X remote full when Q s \<Longrightarrow> keeps X remote s s' \<Longrightarrow> settled_since X remote full when Q s'"
  unfolding settled_since_def using keeps_now settled_keeps order_trans by meson

definition no_excuse :: "gql_pull \<Rightarrow> bool" where "no_excuse p \<longleftrightarrow> False"

text \<open>What the record of a repository's walk stands for.\<close>

definition walk_ok ::
  "'w outside \<Rightarrow> 'w remote \<Rightarrow> (string \<Rightarrow> int \<times> int \<Rightarrow> bool) \<Rightarrow> string \<Rightarrow> walk_record \<Rightarrow> 'w lab \<Rightarrow> bool" where
  "walk_ok X remote passed full st s \<longleftrightarrow>
     (wl_watermark st \<noteq> [] \<longrightarrow> settled_since X remote full (wl_watermark st) no_excuse s) \<and>
     (wl_cursor st \<noteq> [] \<longrightarrow>
        settled_since X remote full (wl_started st) (\<lambda>p. \<not> passed (wl_cursor st) (key X p)) s)"

definition lab_ok :: "'w outside \<Rightarrow> 'w remote \<Rightarrow> (string \<Rightarrow> int \<times> int \<Rightarrow> bool) \<Rightarrow> 'w lab \<Rightarrow> bool" where
  "lab_ok X remote passed s \<longleftrightarrow> (\<forall>full. walk_ok X remote passed full (Walk full s) s)"

lemma walk_ok_keeps: "walk_ok X remote passed full st s \<Longrightarrow> keeps X remote s s' \<Longrightarrow> walk_ok X remote passed full st s'"
  unfolding walk_ok_def using settled_since_keeps by blast

lemma lab_ok_keeps:
  "lab_ok X remote passed s \<Longrightarrow> keeps X remote s s' \<Longrightarrow> lb_walks s' = lb_walks s \<Longrightarrow> lab_ok X remote passed s'"
  unfolding lab_ok_def Walk_def using walk_ok_keeps by fastforce

lemma commit_keeps: "github_ok X remote off passed \<Longrightarrow> commit X s = (ok, s') \<Longrightarrow> keeps X remote s s'"
  using github_commit [of X remote off passed s ok s'] commit_fields [of X s ok s']
  by (simp add: keeps_def stored_def)

lemma SetWalk_ok:
  assumes G: "github_ok X remote off passed" and "SetWalk X full st s = (ok, s')"
    and "lab_ok X remote passed s" "walk_ok X remote passed full st s"
  shows "keeps X remote s s'" "lab_ok X remote passed s'"
proof -
  obtain ok1 s1 where c: "commit X s = (ok1, s1)" by (cases "commit X s")
  have s': "s' = (if ok1 then s1\<lparr>lb_walks := (lb_walks s1)(full \<mapsto> st)\<rparr> else s1)"
    using assms(2) c by (cases ok1) (simp_all add: SetWalk_def)
  have k: "keeps X remote s s1" by (rule commit_keeps [OF G c])
  then show keeps: "keeps X remote s s'" unfolding s' keeps_def stored_def by simp
  have walks: "Walk f s' = (if ok1 \<and> f = full then st else Walk f s)" for f
    using commit_fields [OF c] by (simp add: s' Walk_def)
  show "lab_ok X remote passed s'"
    unfolding lab_ok_def walks using assms(3,4) walk_ok_keeps [OF _ keeps] by (simp add: lab_ok_def)
qed

section \<open>One walk\<close>

text \<open>Between two pages: the records of a walk that began at a time, has passed its cursor, and stops
  at a time an earlier walk has settled.\<close>

definition walking ::
  "'w outside \<Rightarrow> 'w remote \<Rightarrow> (string \<Rightarrow> int \<times> int \<Rightarrow> bool) \<Rightarrow> string \<Rightarrow> int option \<Rightarrow> walk_record \<Rightarrow> 'w lab \<Rightarrow> bool" where
  "walking X remote passed full stop st s \<longleftrightarrow>
     lab_ok X remote passed s \<and>
     (wl_watermark st \<noteq> [] \<longrightarrow> settled_since X remote full (wl_watermark st) no_excuse s) \<and>
     settled_since X remote full (wl_started st) (\<lambda>p. \<not> passed (wl_cursor st) (key X p)) s \<and>
     (\<forall>k. stop = Some k \<longrightarrow> (\<exists>t. k = t - walkSlack \<and> t \<le> ox_now X (lb_world s) \<and> settled X remote full t no_excuse s))"

lemma walking_later:
  assumes "walking X remote passed full stop st s" "keeps X remote s s'" "lab_ok X remote passed s'"
  shows "walking X remote passed full stop st s'"
proof -
  have "\<exists>t. k = t - walkSlack \<and> t \<le> ox_now X (lb_world s') \<and> settled X remote full t no_excuse s'"
    if k: "stop = Some k" for k
  proof -
    obtain t where "k = t - walkSlack" "t \<le> ox_now X (lb_world s)" "settled X remote full t no_excuse s"
      using k assms(1) unfolding walking_def by blast
    then show ?thesis using settled_keeps [OF _ assms(2)] keeps_now [OF assms(2)] by (intro exI [of _ t]) auto
  qed
  then show ?thesis
    using assms settled_since_keeps unfolding walking_def by blast
qed

lemma walking_keeps:
  "walking X remote passed full stop st s \<Longrightarrow> keeps X remote s s' \<Longrightarrow> lb_walks s' = lb_walks s \<Longrightarrow>
   walking X remote passed full stop st s'"
  by (rule walking_later) (auto simp: walking_def intro: lab_ok_keeps)

lemma walking_walk_ok: "walking X remote passed full stop st s \<Longrightarrow> walk_ok X remote passed full st s"
  by (simp add: walking_def walk_ok_def)

text \<open>A page that was stored: the cursor moves past it, and the walk is complete when nothing is left
  or what is left was settled before.\<close>

lemma page_stored:
  assumes G: "github_ok X remote off passed" and walk: "walking X remote passed full stop st s"
    and page: "page_ok X off passed (remote (lb_world s) full) (wl_cursor st) c"
    and ps: "list_all2 (\<lambda>v p. remote (lb_world s) full (pu_number v) = Some p \<and> node_ok off v p) (pc_nodes c) ps"
    and store: "StorePage X (rows_of full ps) (events_rows full ps) s = (ok, s')"
    and oldest: "\<forall>t. oldest = Some t \<longrightarrow> (\<exists>v \<in> set (pc_nodes c). touched X v = t)"
  shows "walking X remote passed full stop st s'"
    and "ok \<Longrightarrow> walking X remote passed full stop (st\<lparr>wl_cursor := pc_end c\<rparr>) s'"
    and "ok \<Longrightarrow> \<not> pc_next c \<or> reaches_stop stop oldest \<Longrightarrow> settled_since X remote full (wl_started st) no_excuse s'"
proof -
  have numbers: "map pu_number ps = map pu_number (pc_nodes c)"
    using ps by (induction rule: list_all2_induct) (use github_pull [OF G] in auto)
  then have dist: "distinct (map pu_number ps)" using page by (simp add: page_ok_def)
  have mem: "p \<in> set ps" if p: "remote (lb_world s) full n = Some p" and n: "n \<in> pu_number ` set (pc_nodes c)" for n p
  proof -
    obtain v where v: "v \<in> set (pc_nodes c)" "n = pu_number v" using n by blast
    then obtain i where i: "i < length (pc_nodes c)" "v = pc_nodes c ! i" by (metis in_set_conv_nth)
    then have "remote (lb_world s) full (pu_number v) = Some (ps ! i)" "i < length ps"
      using list_all2_nthD [OF ps i(1)] list_all2_lengthD [OF ps] by auto
    then show ?thesis using p v(2) by (metis nth_mem option.inject)
  qed
  note page_kept = StorePage_stores [OF G store dist]
  have on: "f = full \<and> pu_number p \<in> pu_number ` set ps \<longrightarrow> p \<in> set ps" if "remote (lb_world s) f n = Some p" for f n p
    using that mem github_pull [OF G that] numbers by (metis list.set_map)
  have keeps: "keeps X remote s s'"
    unfolding keeps_def using page_kept(1) page_kept(3) on by blast
  show walk': "walking X remote passed full stop st s'"
    by (rule walking_keeps [OF walk keeps page_kept(2)])
  assume ok: ok
  obtain t0 where t0: "ox_parse X (wl_started st) = Some t0" "t0 \<le> ox_now X (lb_world s)"
    and half: "settled X remote full t0 (\<lambda>p. \<not> passed (wl_cursor st) (key X p)) s"
    using walk by (auto simp: walking_def settled_since_def)
  have now: "t0 \<le> ox_now X (lb_world s')" using t0(2) keeps_now [OF keeps] by simp
  have cover: "stored full s' p"
    if "remote (lb_world s) full n = Some p" "\<not> passed (wl_cursor st) (key X p)"
      "\<not> pc_next c \<or> passed (pc_end c) (key X p)" for n p
    using that page mem page_kept(4) ok unfolding page_ok_def by blast
  have "settled X remote full t0 (\<lambda>p. \<not> passed (pc_end c) (key X p)) s'"
    by (rule settled_step [OF half page_kept(1) t0(2)]) (use cover keeps in \<open>auto simp: keeps_def\<close>)
  then show "walking X remote passed full stop (st\<lparr>wl_cursor := pc_end c\<rparr>) s'"
    using walk' t0(1) now by (auto simp: walking_def settled_since_def)
  assume fin: "\<not> pc_next c \<or> reaches_stop stop oldest"
  have "settled X remote full t0 no_excuse s'"
  proof (rule settled_step [OF half page_kept(1) t0(2)])
    fix n p
    assume p: "remote (lb_world s) full n = Some p" and "stored full s p \<or> \<not> passed (wl_cursor st) (key X p)"
    then consider "stored full s' p" | "\<not> passed (wl_cursor st) (key X p)" "pc_next c" "\<not> passed (pc_end c) (key X p)"
      using cover keeps unfolding keeps_def by blast
    then show "stored full s' p \<or> no_excuse p \<or> t0 - walkSlack \<le> touched X p"
    proof cases
      case 2
      then obtain k o' where k: "stop = Some k" "oldest = Some o'" "o' < k"
        using fin by (auto simp: reaches_stop_def split: option.splits)
      then obtain v t where v: "v \<in> set (pc_nodes c)" "touched X v = o'" and t: "k = t - walkSlack"
        "settled X remote full t no_excuse s"
        using oldest walk by (auto simp: walking_def)
      have "touched X p \<le> touched X v" using page p 2 v(1) unfolding page_ok_def by blast
      then have "\<not> t - walkSlack \<le> touched X p" using v(2) k(3) t(1) by simp
      then have "stored full s p" using t(2) p by (auto simp: settled_def no_excuse_def)
      then show ?thesis using keeps p unfolding keeps_def by blast
    qed simp
  qed
  then show "settled_since X remote full (wl_started st) no_excuse s'"
    using t0(1) now by (auto simp: settled_since_def)
qed

lemma world_keeps: "evolves X remote (lb_world s) w \<Longrightarrow> keeps X remote s (s\<lparr>lb_world := w\<rparr>)"
  by (simp add: keeps_def stored_def)

lemma walking_world:
  "walking X remote passed full stop st s \<Longrightarrow> evolves X remote (lb_world s) w \<Longrightarrow>
   walking X remote passed full stop st (s\<lparr>lb_world := w\<rparr>)"
  by (rule walking_keeps [OF _ world_keeps]) simp_all

definition walk_result ::
  "'w outside \<Rightarrow> 'w remote \<Rightarrow> (string \<Rightarrow> int \<times> int \<Rightarrow> bool) \<Rightarrow> string \<Rightarrow> int option \<Rightarrow> walk_record \<Rightarrow>
   (bool \<times> gh_error option) \<times> walk_record \<times> 'w lab \<Rightarrow> bool" where
  "walk_result X remote passed full stop st r =
     (case r of ((fin, err), st', s') \<Rightarrow>
        lab_ok X remote passed s' \<and> wl_started st' = wl_started st \<and>
        (err \<noteq> Some Store_failed \<longrightarrow> walking X remote passed full stop st' s') \<and>
        (fin \<longrightarrow> settled_since X remote full (wl_started st) no_excuse s'))"

lemma walking_lab_ok: "walking X remote passed full stop st s \<Longrightarrow> lab_ok X remote passed s"
  by (simp add: walking_def)

lemma WalkPulls_result:
  assumes G: "github_ok X remote off passed"
  shows "walking X remote passed full stop st s \<Longrightarrow> WalkPulls X full stop n (wl_cursor st) st s = Some r \<Longrightarrow>
    walk_result X remote passed full stop st r"
proof (induction n arbitrary: st s)
  case 0
  then show ?case by (auto simp: walk_result_def walking_lab_ok)
next
  case (Suc n)
  obtain a w where a: "ox_pulls X full (wl_cursor st) (lb_world s) = (a, w)"
    by (cases "ox_pulls X full (wl_cursor st) (lb_world s)")
  note pulls = github_pulls [OF G a]
  let ?s = "s\<lparr>lb_world := w\<rparr>"
  have walk: "walking X remote passed full stop st ?s" by (rule walking_world [OF Suc.prems(1) conjunct1 [OF pulls]])
  show ?case
  proof (cases "graphql a")
    case (Inl e)
    then show ?thesis using Suc.prems(2) walk by (auto simp: a walk_result_def walking_lab_ok)
  next
    case (Inr x)
    then have x: "a = Data x" by (cases a) auto
    show ?thesis
    proof (cases x)
      case None
      then show ?thesis using Suc.prems(2) walk Inr by (auto simp: a walk_result_def walking_lab_ok)
    next
      case (Some c)
      then have page: "page_ok X off passed (remote w full) (wl_cursor st) c" using pulls x by simp
      define ps where "ps = map (\<lambda>v. the (remote w full (pu_number v))) (pc_nodes c)"
      have ps: "list_all2 (\<lambda>v p. remote w full (pu_number v) = Some p \<and> node_ok off v p) (pc_nodes c) ps"
      proof -
        have "\<exists>p. remote w full (pu_number v) = Some p \<and> node_ok off v p" if "v \<in> set (pc_nodes c)" for v
          using page that unfolding page_ok_def by blast
        then have "\<forall>v \<in> set (pc_nodes c). remote w full (pu_number v) = Some (the (remote w full (pu_number v))) \<and>
            node_ok off v (the (remote w full (pu_number v)))" by fastforce
        then show ?thesis unfolding ps_def by (simp add: list_all2_conv_all_nth)
      qed
      have "read_ok X remote w (rows_page X full (pc_nodes c) ps (empty_page (pc_end c)))
          (page_rows X full (pc_nodes c) (empty_page (pc_end c)) w)"
        by (rule page_rows_reads [OF G ps refl])
      then show ?thesis
      proof (cases rule: read_ok_cases)
        case (1 e w2)
        then have "walking X remote passed full stop st (s\<lparr>lb_world := w2\<rparr>)"
          using walking_world [OF walk, of w2] same_evolves [of remote w2 w X] by simp
        then show ?thesis using Suc.prems(2) Inr Some 1 by (auto simp: a walk_result_def walking_lab_ok)
      next
        case (2 wp w2)
        let ?s2 = "s\<lparr>lb_world := w2\<rparr>"
        have walk2: "walking X remote passed full stop st ?s2"
          using walking_world [OF walk, of w2] same_evolves [of remote w2 w X] 2(2,3) by simp
        have wp: "wp_prs wp = rows_of full ps" "wp_events wp = events_rows full ps" "wp_end wp = pc_end c"
          "\<forall>t. wp_oldest wp = Some t \<longrightarrow> (\<exists>v \<in> set (pc_nodes c). touched X v = t)"
          using 2(4) by (auto simp: rows_page_def empty_page_def)
        obtain ok s3 where st: "StorePage X (wp_prs wp) (wp_events wp) ?s2 = (ok, s3)"
          by (cases "StorePage X (wp_prs wp) (wp_events wp) ?s2")
        note stored = page_stored [OF G walk2 _ _ st [unfolded wp] wp(4)]
        have page2: "page_ok X off passed (remote (lb_world ?s2) full) (wl_cursor st) c" using page 2(2) by simp
        have ps2: "list_all2 (\<lambda>v p. remote (lb_world ?s2) full (pu_number v) = Some p \<and> node_ok off v p) (pc_nodes c) ps"
          using ps 2(2) by simp
        show ?thesis
        proof (cases ok)
          case False
          then show ?thesis
            using Suc.prems(2) Inr Some 2 st walking_lab_ok [OF stored(1) [OF page2 ps2]]
            by (auto simp: a walk_result_def)
        next
          case True
          let ?st = "st\<lparr>wl_cursor := pc_end c\<rparr>"
          have walk3: "walking X remote passed full stop ?st s3" by (rule stored(2) [OF page2 ps2 True])
          obtain ok2 s4 where sw: "SetWalk X full ?st s3 = (ok2, s4)" by (cases "SetWalk X full ?st s3")
          note set = SetWalk_ok [OF G sw walking_lab_ok [OF walk3] walking_walk_ok [OF walk3]]
          have walk4: "walking X remote passed full stop ?st s4" by (rule walking_later [OF walk3 set])
          note eval = Suc.prems(2) Inr Some 2(1) st True sw wp(3)
          consider "\<not> ok2" | "ok2" "\<not> pc_next c \<or> reaches_stop stop (wp_oldest wp)"
            | "ok2" "pc_next c" "\<not> reaches_stop stop (wp_oldest wp)" by blast
          then show ?thesis
          proof cases
            case 1
            then show ?thesis using eval set by (auto simp: a walk_result_def)
          next
            case 2
            then have "settled_since X remote full (wl_started st) no_excuse s4"
              using stored(3) [OF page2 ps2 True] settled_since_keeps set(1) by blast
            moreover have "r = ((True, None), ?st, s4)" using eval 2 by (simp add: a)
            ultimately show ?thesis using walk4 by (simp add: walk_result_def walking_lab_ok)
          next
            case 3
            then have "WalkPulls X full stop n (wl_cursor ?st) ?st s4 = Some r" using eval by (simp add: a)
            then have "walk_result X remote passed full stop ?st r" by (rule Suc.IH [OF walk4])
            then show ?thesis by (simp add: walk_result_def)
          qed
        qed
      qed
    qed
  qed
qed

text \<open>A walk comes back, whatever GitHub answers.\<close>

lemma page_reads:
  assumes G: "github_ok X remote off passed" and page: "page_ok X off passed (remote w full) cursor c"
  obtains ps where "list_all2 (\<lambda>v p. remote w full (pu_number v) = Some p \<and> node_ok off v p) (pc_nodes c) ps"
    "read_ok X remote w (rows_page X full (pc_nodes c) ps wp) (page_rows X full (pc_nodes c) wp w)"
proof -
  define ps where "ps = map (\<lambda>v. the (remote w full (pu_number v))) (pc_nodes c)"
  have "\<exists>p. remote w full (pu_number v) = Some p \<and> node_ok off v p" if "v \<in> set (pc_nodes c)" for v
    using page that unfolding page_ok_def by blast
  then have "\<forall>v \<in> set (pc_nodes c). remote w full (pu_number v) = Some (the (remote w full (pu_number v))) \<and>
      node_ok off v (the (remote w full (pu_number v)))" by fastforce
  then have ps: "list_all2 (\<lambda>v p. remote w full (pu_number v) = Some p \<and> node_ok off v p) (pc_nodes c) ps"
    unfolding ps_def by (simp add: list_all2_conv_all_nth)
  then show ?thesis by (rule that [OF _ page_rows_reads [OF G _ refl]]) (rule ps)
qed

lemma WalkPulls_returns:
  assumes G: "github_ok X remote off passed"
  shows "WalkPulls X full stop n cursor st s \<noteq> None"
proof (induction n arbitrary: cursor st s)
  case (Suc n)
  obtain a w where a: "ox_pulls X full cursor (lb_world s) = (a, w)" by (cases "ox_pulls X full cursor (lb_world s)")
  show ?case
  proof (cases "graphql a")
    case (Inl e)
    then show ?thesis by (simp add: a)
  next
    case (Inr x)
    then have x: "a = Data x" by (cases a) auto
    show ?thesis
    proof (cases x)
      case None
      then show ?thesis using Inr by (simp add: a)
    next
      case (Some c)
      then have "page_ok X off passed (remote w full) cursor c" using github_pulls [OF G a] x by simp
      then obtain ps where "read_ok X remote w (rows_page X full (pc_nodes c) ps (empty_page (pc_end c)))
          (page_rows X full (pc_nodes c) (empty_page (pc_end c)) w)"
        by (rule page_reads [OF G])
      then obtain y w2 where "page_rows X full (pc_nodes c) (empty_page (pc_end c)) w = Some (y, w2)"
        by (auto simp: read_ok_def)
      note eval = this Inr Some
      show ?thesis
      proof (cases y)
        case (Inl e)
        then show ?thesis using eval by (simp add: a)
      next
        case (Inr wp)
        obtain ok s3 where st: "StorePage X (wp_prs wp) (wp_events wp) (s\<lparr>lb_world := w2\<rparr>) = (ok, s3)"
          by (cases "StorePage X (wp_prs wp) (wp_events wp) (s\<lparr>lb_world := w2\<rparr>)")
        obtain ok2 s4 where sw: "SetWalk X full (st\<lparr>wl_cursor := wp_end wp\<rparr>) s3 = (ok2, s4)"
          by (cases "SetWalk X full (st\<lparr>wl_cursor := wp_end wp\<rparr>) s3")
        have "WalkPulls X full stop n (pc_end c) (st\<lparr>wl_cursor := wp_end wp\<rparr>) s4 \<noteq> None" by (rule Suc.IH)
        then show ?thesis using eval Inr st sw by (cases ok; cases ok2) (auto simp: a Let_def)
      qed
    qed
  qed
qed simp

section \<open>A pass\<close>

lemma begin_walking:
  assumes G: "github_ok X remote off passed" and ok: "lab_ok X remote passed s" and st: "st = begin_walk X full s"
  shows "walking X remote passed full (stop_time X st) st s"
proof -
  have w: "walk_ok X remote passed full (Walk full s) s" using ok by (simp add: lab_ok_def)
  have wm: "wl_watermark st = wl_watermark (Walk full s)" "wl_cursor st = wl_cursor (Walk full s)"
    by (simp_all add: st begin_walk_def Let_def)
  have since: "settled_since X remote full (wl_started st) (\<lambda>p. \<not> passed (wl_cursor st) (key X p)) s"
  proof (cases "wl_cursor st = []")
    case True
    then show ?thesis
      using wm(2) github_format [OF G] github_passed [OF G]
      by (auto simp: st begin_walk_def Let_def settled_since_def settled_def)
  next
    case False
    then have "st = Walk full s" using wm(2) by (simp add: st begin_walk_def Let_def)
    then show ?thesis using w False by (simp add: walk_ok_def)
  qed
  have "\<exists>t. k = t - walkSlack \<and> t \<le> ox_now X (lb_world s) \<and> settled X remote full t no_excuse s"
    if "stop_time X st = Some k" for k
    using that w wm(1) by (auto simp: stop_time_def walk_ok_def settled_since_def split: if_splits)
  then show ?thesis using ok w wm(1) since by (simp add: walking_def walk_ok_def)
qed

lemma FetchContributors_evolves:
  assumes "github_ok X remote off passed"
  shows "FetchContributors X full page n out w = (r, w') \<Longrightarrow> evolves X remote w w'"
proof (induction n arbitrary: page out w)
  case (Suc n)
  obtain a w1 where a: "ox_contributors X full page w = (a, w1)" by (cases "ox_contributors X full page w")
  then have ev: "evolves X remote w w1" using assms unfolding github_ok_def by (metis snd_conv)
  show ?case
  proof (cases "rest_get a")
    case (Inl e)
    then show ?thesis using Suc.prems ev by (simp add: a)
  next
    case (Inr batch)
    then show ?thesis
      using Suc.prems Suc.IH evolves_trans [OF ev] ev by (auto simp: a Let_def split: if_splits)
  qed
qed simp

lemma walkContributors_ok:
  assumes G: "github_ok X remote off passed" and ok: "lab_ok X remote passed s"
    and "walkContributors X full s = (e, s')"
  shows "lab_ok X remote passed s'"
proof -
  obtain r w where f: "FetchContributors X full 1 contributorMaxPages [] (lb_world s) = (r, w)"
    by (cases "FetchContributors X full 1 contributorMaxPages [] (lb_world s)")
  let ?s = "s\<lparr>lb_world := w\<rparr>"
  have ok1: "lab_ok X remote passed ?s"
    by (rule lab_ok_keeps [OF ok world_keeps [OF FetchContributors_evolves [OF G f]]]) simp
  have "lab_ok X remote passed s2" if "ReplaceContributors X full cs ?s = (b, s2)" for cs b s2
  proof (cases "distinct (map co_login cs)")
    case True
    obtain b1 s1 where c: "commit X ?s = (b1, s1)" by (cases "commit X ?s")
    have "lab_ok X remote passed s1"
      using lab_ok_keeps [OF ok1 commit_keeps [OF G c]] commit_fields [OF c] by simp
    then have "lab_ok X remote passed (s1\<lparr>lb_contributors := f\<rparr>)" for f
      by (rule lab_ok_keeps) (simp_all add: keeps_def stored_def)
    then show ?thesis
      using that True c \<open>lab_ok X remote passed s1\<close> by (cases b1) (auto simp: ReplaceContributors_def)
  qed (use that ok1 in \<open>auto simp: ReplaceContributors_def\<close>)
  then show ?thesis
    using assms(3) f ok1 by (auto simp: walkContributors_def Let_def split: sum.splits if_splits prod.splits)
qed

lemma walkRepo_ok:
  assumes G: "github_ok X remote off passed" and ok: "lab_ok X remote passed s"
    and pass: "walkRepo X full s = Some (e, s')"
  shows "lab_ok X remote passed s'"
proof -
  define st where "st = begin_walk X full s"
  have walk: "walking X remote passed full (stop_time X st) st s" by (rule begin_walking [OF G ok st_def])
  define r where "r = (if CHR ''/'' \<in> set full then WalkPulls X full (stop_time X st) walkMaxPages (wl_cursor st) st s
       else Some ((False, Some Bad_name), st, s))"
  then obtain fin err st1 s1 where r1: "r = Some ((fin, err), st1, s1)"
  proof -
    have "r \<noteq> None"
      using pass unfolding walkRepo_def Let_def st_def [symmetric] r_def [symmetric] by (cases r) simp_all
    then show ?thesis using that by (cases r) auto
  qed
  have res: "walk_result X remote passed full (stop_time X st) st ((fin, err), st1, s1)"
  proof (cases "CHR ''/'' \<in> set full")
    case True
    then show ?thesis using WalkPulls_result [OF G walk] r1 r_def by simp
  next
    case False
    then show ?thesis using walk r1 by (simp add: r_def walk_result_def walking_lab_ok)
  qed
  show ?thesis
  proof (cases "err = Some Store_failed")
    case True
    then show ?thesis
      using pass res r1 by (simp add: walkRepo_def Let_def st_def [symmetric] r_def [symmetric] walk_result_def)
  next
    case False
    then have "walk_ok X remote passed full (end_walk X fin st1 s1) s1" "lab_ok X remote passed s1"
      using res by (auto simp: walk_result_def end_walk_def Let_def walking_def walk_ok_def)
    moreover obtain ok2 s2 where sw: "SetWalk X full (end_walk X fin st1 s1) s1 = (ok2, s2)"
      by (cases "SetWalk X full (end_walk X fin st1 s1) s1")
    ultimately have ok2: "lab_ok X remote passed s2" using SetWalk_ok(2) [OF G sw] by blast
    have "walkRepo X full s =
        (if \<not> ok2 then Some (Some Store_failed, s2)
         else if (case err of Some e \<Rightarrow> IsRateLimited e | None \<Rightarrow> False) then Some (err, s2)
         else Some (walkContributors X full s2))"
      using False r1 sw by (cases ok2) (simp_all add: walkRepo_def Let_def st_def [symmetric] r_def [symmetric])
    then show ?thesis
      using pass ok2 walkContributors_ok [OF G ok2]
      by (cases "walkContributors X full s2") (auto split: if_splits)
  qed
qed

lemma walkRepo_returns:
  assumes "github_ok X remote off passed"
  shows "walkRepo X full s \<noteq> None"
proof -
  define st where "st = begin_walk X full s"
  obtain fin err st1 s1 where
    "(if CHR ''/'' \<in> set full then WalkPulls X full (stop_time X st) walkMaxPages (wl_cursor st) st s
      else Some ((False, Some Bad_name), st, s)) = Some ((fin, err), st1, s1)"
    using WalkPulls_returns [OF assms, of full "stop_time X st" walkMaxPages "wl_cursor st" st s]
    by (cases "CHR ''/'' \<in> set full") auto
  moreover obtain ok2 s2 where "SetWalk X full (end_walk X fin st1 s1) s1 = (ok2, s2)"
    by (cases "SetWalk X full (end_walk X fin st1 s1) s1")
  ultimately show ?thesis
    by (cases ok2) (simp_all add: walkRepo_def Let_def st_def [symmetric])
qed

lemma walk_queue_ok:
  assumes G: "github_ok X remote off passed"
  shows "lab_ok X remote passed s \<Longrightarrow> walk_queue X fs s = Some (e, s') \<Longrightarrow> lab_ok X remote passed s'"
proof (induction fs arbitrary: s)
  case (Cons f fs)
  obtain x s1 where f: "walkRepo X f s = Some (x, s1)" using walkRepo_returns [OF G] by fastforce
  have "lab_ok X remote passed s1" by (rule walkRepo_ok [OF G Cons.prems(1) f])
  then show ?case using Cons f by (cases x) auto
qed simp

lemma walk_queue_returns:
  assumes G: "github_ok X remote off passed"
  shows "walk_queue X fs s \<noteq> None"
proof (induction fs arbitrary: s)
  case (Cons f fs)
  obtain x s1 where f: "walkRepo X f s = Some (x, s1)" using walkRepo_returns [OF G] by fastforce
  show ?case using Cons.IH f by (cases x) auto
qed simp

section \<open>The laboratory\<close>

text \<open>Passes over a repository or over the queue of the discovered ones, with time going by between
  them. A crash inside a pass leaves what a failed transaction leaves.\<close>

inductive lab_step :: "'w outside \<Rightarrow> 'w remote \<Rightarrow> 'w lab \<Rightarrow> 'w lab \<Rightarrow> bool" for X remote where
  Walk_one: "walkRepo X full s = Some (e, s') \<Longrightarrow> lab_step X remote s s'"
| Walk_queue: "syncDiscoveredWalks X discovered s = Some (e, s') \<Longrightarrow> lab_step X remote s s'"
| Time_passes: "evolves X remote (lb_world s) w \<Longrightarrow> lab_step X remote s (s\<lparr>lb_world := w\<rparr>)"

inductive lab_run :: "'w outside \<Rightarrow> 'w remote \<Rightarrow> 'w lab \<Rightarrow> 'w lab \<Rightarrow> bool" for X remote where
  Begin: "lab_run X remote s s"
| Next: "lab_run X remote s s' \<Longrightarrow> lab_step X remote s' s'' \<Longrightarrow> lab_run X remote s s''"

lemma lab_step_ok:
  assumes "lab_step X remote s s'" "github_ok X remote off passed" "lab_ok X remote passed s"
  shows "lab_ok X remote passed s'"
  using assms(1)
proof cases
  case (Walk_one full e)
  then show ?thesis by (rule walkRepo_ok [OF assms(2,3)])
next
  case (Walk_queue discovered e)
  then show ?thesis by (intro walk_queue_ok [OF assms(2,3)]) (simp add: syncDiscoveredWalks_def)
next
  case (Time_passes w)
  then show ?thesis using lab_ok_keeps [OF assms(3) world_keeps] by simp
qed

lemma lab_run_ok:
  "lab_run X remote s s' \<Longrightarrow> github_ok X remote off passed \<Longrightarrow> lab_ok X remote passed s \<Longrightarrow> lab_ok X remote passed s'"
  by (induction rule: lab_run.induct) (auto intro: lab_step_ok)

text \<open>C29. However many passes were made, resumed or cut short by a rate limit, a failed transaction or
  the budget of pages: a pull request of a repository that was once walked to the end is
  stored with all its events as GitHub has it, or was touched since an hour before the last
  such walk began.\<close>
theorem what_is_missing_was_touched:
  assumes "github_ok X remote off passed" "lab_run X remote s s'" "lb_walks s = Map.empty"
    and "remote (lb_world s') full n = Some p" "wl_watermark (Walk full s') \<noteq> []"
  shows "stored full s' p \<or>
    (\<exists>t. ox_parse X (wl_watermark (Walk full s')) = Some t \<and> t - walkSlack \<le> touched X p)"
proof -
  have "lab_ok X remote passed s"
    using assms(3) by (simp add: lab_ok_def walk_ok_def Walk_def no_walk_def)
  then have "lab_ok X remote passed s'" by (rule lab_run_ok [OF assms(2,1)])
  then have "settled_since X remote full (wl_watermark (Walk full s')) no_excuse s'"
    using assms(5) unfolding lab_ok_def walk_ok_def by blast
  then show ?thesis using assms(4) unfolding settled_since_def settled_def no_excuse_def by blast
qed

text \<open>C30. A round over the discovered repositories comes back, whatever GitHub refuses and however its
  answers are cut into pages: no thread of reviews or comments keeps it reading for ever.\<close>
theorem discovered_walks_return:
  assumes "github_ok X remote off passed"
  shows "\<exists>e s'. syncDiscoveredWalks X discovered s = Some (e, s')"
  using walk_queue_returns [OF assms] by (simp add: syncDiscoveredWalks_def)

section \<open>Witnesses\<close>

text \<open>A repository of two pull requests, a page each, with a clock for a world.\<close>

function print_bits :: "int \<Rightarrow> string" where
  "print_bits n =
     (if n < 2 then [if n = 1 then CHR ''1'' else CHR ''0'']
      else print_bits (n div 2) @ [if n mod 2 = 1 then CHR ''1'' else CHR ''0''])"
  by pat_completeness auto
termination by (relation "measure nat") auto

declare print_bits.simps [simp del]

definition read_bits :: "string \<Rightarrow> int" where
  "read_bits ds = foldl (\<lambda>v c. 2 * v + (if c = CHR ''1'' then 1 else 0)) 0 ds"

definition print_time :: "int \<Rightarrow> string" where
  "print_time t = (if t < 0 then CHR ''-'' # print_bits (- t) else CHR ''+'' # print_bits t)"

definition read_time :: "string \<Rightarrow> int option" where
  "read_time s =
     (case s of [] \<Rightarrow> None | c # ds \<Rightarrow> Some (if c = CHR ''-'' then - read_bits ds else read_bits ds))"

lemma read_print_bits: "0 \<le> n \<Longrightarrow> read_bits (print_bits n) = n"
proof (induction n rule: print_bits.induct)
  case (1 n)
  show ?case
  proof (cases "n < 2")
    case True
    then have "n = 0 \<or> n = 1" using 1(2) by auto
    then show ?thesis by (auto simp: print_bits.simps [of 0] print_bits.simps [of 1] read_bits_def)
  next
    case False
    then have "read_bits (print_bits (n div 2)) = n div 2" using 1 by simp
    moreover have "read_bits (ds @ [c]) = 2 * read_bits ds + (if c = CHR ''1'' then 1 else 0)" for ds c
      by (simp add: read_bits_def)
    ultimately show ?thesis
      using False by (simp add: print_bits.simps [of n]) presburger
  qed
qed

definition whole :: "gql_event list \<Rightarrow> gql_conn" where
  "whole evs = \<lparr>cn_next = False, cn_end = [], cn_nodes = evs\<rparr>"

definition small_pull :: "int \<Rightarrow> string \<Rightarrow> gql_pull" where
  "small_pull n at_time = \<lparr>pu_number = n, pu_title = ''fix'', pu_state = ''OPEN'', pu_draft = False,
     pu_created = print_time 50, pu_updated = at_time, pu_merged = [], pu_closed = [], pu_author = None,
     pu_reviews = whole [\<lparr>ge_author = Some \<lparr>ac_login = ''moul'', ac_typename = ''User''\<rparr>, ge_at = print_time 90\<rparr>],
     pu_comments = whole []\<rparr>"

definition small_remote :: "int remote" where
  "small_remote w full n = (if n = 1 then Some (small_pull 1 (print_time 200)) else if n = 2 then Some (small_pull 2 (print_time 100)) else None)"

definition small_outside :: "int outside" where
  "small_outside = \<lparr>ox_now = \<lambda>w. w, ox_parse = read_time, ox_format = print_time,
     ox_pulls = \<lambda>full c w. (Data (Some (
        if c = [] then \<lparr>pc_next = True, pc_end = ''1'', pc_nodes = [small_pull 1 (print_time 200)]\<rparr>
        else if c = ''1'' then \<lparr>pc_next = False, pc_end = ''2'', pc_nodes = [small_pull 2 (print_time 100)]\<rparr>
        else \<lparr>pc_next = False, pc_end = c, pc_nodes = []\<rparr>)), w + 1),
     ox_more = \<lambda>full n b c w. (Data (Some (whole
        (case small_remote w full n of None \<Rightarrow> [] | Some p \<Rightarrow> events_of b p))), w),
     ox_contributors = \<lambda>full k w. (Data [], w), ox_commit = \<lambda>w. (True, w + 1)\<rparr>"

definition small_passed :: "string \<Rightarrow> int \<times> int \<Rightarrow> bool" where
  "small_passed c k \<longleftrightarrow> c \<noteq> [] \<and> (c = ''1'' \<longrightarrow> 200 \<le> fst k)"

lemma read_print: "read_time (print_time t) = Some t \<and> print_time t \<noteq> []"
  by (simp add: read_time_def print_time_def read_print_bits)

lemma small_evolves: "w \<le> w' \<Longrightarrow> evolves small_outside small_remote w w'"
  by (simp add: evolves_def small_outside_def small_remote_def)

lemma whole_ok: "conn_ok off evs 0 (whole evs)"
  by (auto simp: conn_ok_def whole_def intro: exI [of _ "length evs"])

lemma small_node: "node_ok (\<lambda>_. 0) (small_pull n t) (small_pull n t)"
  using whole_ok by (simp add: node_ok_def small_pull_def events_of_def whole_def)

lemma small_fields: "pu_number (small_pull n t) = n" "pu_updated (small_pull n t) = t"
  by (simp_all add: small_pull_def)

lemma small_touched: "touched small_outside (small_pull n (print_time 200)) = 200" "touched small_outside (small_pull n (print_time 100)) = 100"
  by (simp_all add: touched_def small_outside_def small_fields read_print)

lemmas small_simps = page_ok_def small_remote_def small_passed_def key_def small_fields small_touched

lemma small_page:
  "page_ok small_outside (\<lambda>_. 0) small_passed (small_remote w full) []
     \<lparr>pc_next = True, pc_end = ''1'', pc_nodes = [small_pull 1 (print_time 200)]\<rparr>"
  "page_ok small_outside (\<lambda>_. 0) small_passed (small_remote w full) ''1''
     \<lparr>pc_next = False, pc_end = ''2'', pc_nodes = [small_pull 2 (print_time 100)]\<rparr>"
  "c \<noteq> [] \<Longrightarrow> c \<noteq> ''1'' \<Longrightarrow> page_ok small_outside (\<lambda>_. 0) small_passed (small_remote w full) c
     \<lparr>pc_next = False, pc_end = c, pc_nodes = []\<rparr>"
  using small_node by (simp_all add: small_simps split: if_splits)

lemma small_github: "github_ok small_outside small_remote (\<lambda>_. 0) small_passed"
proof -
  have "more_ok small_outside small_remote (\<lambda>_. 0)"
    using whole_ok by (auto simp: more_ok_def small_outside_def)
  moreover have "pulls_ok small_outside small_remote (\<lambda>_. 0) small_passed"
    unfolding pulls_ok_def using small_page small_evolves by (auto simp: small_outside_def)
  moreover have "small_remote w full n = Some p \<Longrightarrow> pu_number p = n \<and> ox_parse small_outside (pu_updated p) \<noteq> None" for w full n p
    by (auto simp: small_remote_def small_outside_def small_pull_def read_print split: if_splits)
  ultimately show ?thesis
    using read_print small_evolves by (auto simp: github_ok_def small_outside_def small_passed_def)
qed

definition empty_lab :: "int lab" where
  "empty_lab = \<lparr>lb_prs = Map.empty, lb_events = [], lb_walks = Map.empty, lb_contributors = [], lb_world = 100000\<rparr>"

definition walked_lab :: "int lab" where
  "walked_lab = (case walkRepo small_outside ''a/b'' empty_lab of Some (_, s) \<Rightarrow> s | None \<Rightarrow> empty_lab)"

lemma walked_run: "lab_run small_outside small_remote empty_lab walked_lab"
proof -
  obtain e s where "walkRepo small_outside ''a/b'' empty_lab = Some (e, s)"
    using walkRepo_returns [OF small_github] by fastforce
  then have "lab_step small_outside small_remote empty_lab walked_lab"
    by (auto simp: walked_lab_def intro: lab_step.Walk_one)
  then show ?thesis by (rule lab_run.Next [OF lab_run.Begin])
qed

lemma walked_mark: "ox_parse small_outside (wl_watermark (Walk ''a/b'' walked_lab)) = Some 100000"
  by code_simp

lemma what_is_missing_was_touched_witness: "stored ''a/b'' walked_lab (small_pull 2 (print_time 100))"
proof -
  have "wl_watermark (Walk ''a/b'' walked_lab) \<noteq> []"
    using walked_mark by (auto simp: small_outside_def read_time_def)
  moreover have "small_remote (lb_world walked_lab) ''a/b'' 2 = Some (small_pull 2 (print_time 100))"
    by (simp add: small_remote_def)
  moreover have "lb_walks empty_lab = Map.empty" by (simp add: empty_lab_def)
  ultimately show ?thesis
    using what_is_missing_was_touched [OF small_github walked_run] walked_mark small_touched(2)
    by (fastforce simp: walkSlack_def)
qed

lemma discovered_walks_return_witness:
  "\<exists>e s. syncDiscoveredWalks small_outside [''a/b'', ''c/d''] empty_lab = Some (e, s)"
  by (rule discovered_walks_return [OF small_github])

end
