(* ===== verification/Spec2Isabelle.thy ===== *)
theory Spec2Isabelle
  imports Gnostate_Limits Gnostate_Prefetch Response_Flow Memo_Cache Discover_Verdict
    Discover_Generation Net_Config Sync_Budget Sync_Machine Endpoint_Safety Rate_Limit Src_Links Src_Tokens Gno_Bech32 Price_Quotes
    Live_Threads Traffic_Safety Traffic_Report Discover_Announce Glossary_Graph Ghlab_Safety
begin

text \<open>
  A model of gnoscope (module \<^verbatim>\<open>mygnoscan\<close>), a block explorer for gno.land networks, written in
  Go. The program is one server: a syncer copies the chains it is configured for from
  transaction indexers into SQLite, an HTTP API answers from the database and, where a page
  needs the state of a realm or a price, from an RPC node, and background tasks derive feeds
  and figures from what is stored. All paths below are under \<^verbatim>\<open>src/pkg\<close>.

  \<^bold>\<open>Foundations.\<close>
  \<^theory_text>\<open>Go_Prelude\<close> has the parts of Go's library the code uses (\<^verbatim>\<open>strings\<close>, \<^verbatim>\<open>strconv\<close>, \<^verbatim>\<open>sort\<close>,
  \<^verbatim>\<open>unicode\<close> on ASCII) with their laws; \<^theory_text>\<open>Go_Utf8\<close> has runes, \<^theory_text>\<open>Go_Json\<close> parsed JSON,
  \<^theory_text>\<open>Go_Url\<close> query strings; \<^theory_text>\<open>Go_State\<close> has programs over a shared state (the library's state
  monad) with a postcondition calculus; \<^theory_text>\<open>Single_Flight\<close> is the contract of one computation per
  key that two caches share.

  \<^bold>\<open>State of a realm\<close> (\<^verbatim>\<open>gnostate\<close>). \<^theory_text>\<open>Gnostate_Types\<close>, \<^theory_text>\<open>Gnostate_Decode\<close>, \<^theory_text>\<open>Gnostate_Avl\<close> and
  \<^theory_text>\<open>Gnostate_Prefetch\<close> translate \<^verbatim>\<open>types.go\<close>, \<^verbatim>\<open>decode.go\<close>, \<^verbatim>\<open>avl.go\<close> and \<^verbatim>\<open>prefetch.go\<close>: a walker
  with counters turns the JSON of a node into a tree, asking a resolver for every object it
  meets. The walker's recursion is bounded by fuel; \<^theory_text>\<open>Gnostate_Walk\<close> shows that the fuel the
  entry points pass, computed from the depth and fetch limits of the code and the size of the
  payload, never runs out, so the walk returns. \<^theory_text>\<open>Gnostate_Limits\<close> has the bounds of a whole
  decode, \<^theory_text>\<open>Gnostate_Sim\<close> the contract of two walkers side by side, and \<^theory_text>\<open>Gnostate_Prefetch\<close> the
  refinement of the direct decode by the one in rounds.

  \<^bold>\<open>Syncing\<close> (\<^verbatim>\<open>syncer\<close>, \<^verbatim>\<open>store\<close>, \<^verbatim>\<open>indexer\<close>). \<^theory_text>\<open>Sync_Store\<close> has the tables and what a pass asks
  of the world: the database and the indexer are functions of a world state that may fail at
  any call. \<^theory_text>\<open>Sync_Blocks\<close> translates \<^verbatim>\<open>syncBlocks\<close>, \<^theory_text>\<open>Sync_Walk\<close> the page walk over transactions
  and the halving sweep of sessions, \<^theory_text>\<open>Sync_Ledgers\<close> the token and coin ledgers with their
  backfills, \<^theory_text>\<open>Sync_Reset\<close> the detection of another chain and the deletion of its data.
  \<^theory_text>\<open>Sync_Range\<close> and \<^theory_text>\<open>Sync_Budget\<close> show what a pass keeps and costs; \<^theory_text>\<open>Sync_Machine\<close> composes
  passes, resets and restarts into one step relation with its invariants. What a pass
  costs, and what failed statements may cost the ledgers, is counted in worlds that count
  range queries and failures beside the answers. \<^theory_text>\<open>Endpoint_Pool\<close> and
  \<^theory_text>\<open>Endpoint_Safety\<close> are the client under the syncer: the circuit breaker, the probes and the
  choice of an endpoint. A walk over pages asks until the indexer has no more, so it is a partial
  function into an option; that it returns is proved, since every page moves the cursor.

  \<^bold>\<open>Serving\<close> (\<^verbatim>\<open>httpapi\<close>). \<^theory_text>\<open>Response_Cache\<close> has the locked operations of \<^verbatim>\<open>cache.go\<close> and
  \<^theory_text>\<open>Response_Flow\<close> the concurrent requests over them, one step per locked section;
  \<^theory_text>\<open>Memo_Cache\<close> does both for \<^verbatim>\<open>memo.go\<close>. \<^theory_text>\<open>Rate_Limit\<close> is \<^verbatim>\<open>ratelimit.go\<close>, as a machine of requests,
  releases and sweeps over a clock. \<^theory_text>\<open>Live_Feed\<close> and \<^theory_text>\<open>Live_Threads\<close> are \<^verbatim>\<open>ws.go\<close>: what a poll of
  the indexer sends, and listeners that come and go while the loop runs.
  \<^theory_text>\<open>Traffic_Classify\<close>, \<^theory_text>\<open>Traffic_Log\<close>, \<^theory_text>\<open>Traffic_Safety\<close> and \<^theory_text>\<open>Traffic_Report\<close> are \<^verbatim>\<open>traffic\<close> with the
  middleware of \<^verbatim>\<open>api_traffic.go\<close>: which row a request leaves, how rows are buffered, flushed
  and pruned under any interleaving, and every figure of the page over lists of rows.

  \<^bold>\<open>Prices\<close> (\<^verbatim>\<open>price\<close>). \<^theory_text>\<open>Price_Repr\<close> reads amounts, \<^theory_text>\<open>Price_Routes\<close> searches the ways from a token
  to the anchor, \<^theory_text>\<open>Price_Discover\<close> walks outward to find the pools, \<^theory_text>\<open>Price_Build\<close> prices and
  ranks; \<^theory_text>\<open>Price_Quotes\<close> shows which assets have a price and why. Each search is bounded by the
  number of hops the code allows.

  \<^bold>\<open>The discovery feed\<close> (\<^verbatim>\<open>discover\<close>). \<^theory_text>\<open>Discover_Spike\<close> finds unusual days; \<^theory_text>\<open>Discover_Emit\<close>
  writes the sentences of every kind of event, with the part of \<^verbatim>\<open>store/discover_build.go\<close> that
  feeds it; \<^theory_text>\<open>Discover_Scan\<close> and \<^theory_text>\<open>Discover_Ground\<close> are the gate every sentence has to pass,
  \<^theory_text>\<open>Discover_Gate\<close> and \<^theory_text>\<open>Discover_Announce\<close> what passing guarantees and who always passes.
  \<^theory_text>\<open>Discover_Verdict\<close> says what may be shared, \<^theory_text>\<open>Discover_Generation\<close> which packages are versions
  of one app.

  \<^bold>\<open>Sources and names.\<close> \<^theory_text>\<open>Src_Index\<close>, \<^theory_text>\<open>Src_Lines\<close>, \<^theory_text>\<open>Src_Tokens\<close> and \<^theory_text>\<open>Src_Links\<close> are the source
  viewer (\<^verbatim>\<open>srctok\<close>); \<^theory_text>\<open>Gno_Address\<close> and \<^theory_text>\<open>Gno_Bech32\<close> the addresses of packages (\<^verbatim>\<open>gnoaddr\<close>);
  \<^theory_text>\<open>Net_Config\<close> the networks a server is configured for (\<^verbatim>\<open>config\<close>).
  \<^theory_text>\<open>Glossary_Parse\<close> reads and checks the table of terms (\<^verbatim>\<open>glossary\<close>), \<^theory_text>\<open>Glossary_Graph\<close> shows
  that its search for cycles of definitions finds exactly the cycles.

  \<^bold>\<open>The laboratory\<close> (\<^verbatim>\<open>ghlab\<close>). \<^theory_text>\<open>Ghlab_Walk\<close> translates the passes over the pull requests of
  GitHub repositories, from the pages of the GraphQL API to the rows and the record each walk
  resumes from: the budgets of \<^verbatim>\<open>sync.go\<close> are the counters of its recursions, and the threads of
  reviews and comments, which have no budget, are a partial function. \<^theory_text>\<open>Ghlab_Safety\<close> states
  what GitHub documents of its cursors and order, and shows that under it every pass returns
  and what the store lacks was touched since the last complete walk began.

  \<^bold>\<open>Conventions.\<close> A struct is a record, an enumeration a datatype, a fallible function an option
  or a sum; a definition has the name of the Go function it translates. Where the code ranges
  over a map, the order is an argument. Where goroutines share a state, a theory has a step
  relation with one step for each section under the lock, and its invariants hold in every
  reachable state; the clock is read once in a section. Case folding is that of ASCII, which
  is what the texts of a chain are folded for. Heights, counts and amounts are unbounded
  integers, except where the code's width shows: the regrouping of \<^verbatim>\<open>gnoaddr\<close> and the checksum work
  on words, \<^verbatim>\<open>Atoi\<close> saturates, sums of amounts wrap. A \<^verbatim>\<open>float64\<close> is a rational: bucket levels,
  percentages, prices and the statistics of spikes do not show its rounding.

  \<^bold>\<open>Parameters.\<close> Code that is not in the repository, or not in Go, is an argument with its
  documented behaviour as a hypothesis where one is needed: SHA-256 and HMAC, the Go scanner
  and parser, \<^verbatim>\<open>strconv.Unquote\<close>, \<^verbatim>\<open>SplitHostPort\<close> and \<^verbatim>\<open>ParseIP\<close>, the parser of RFC 3339 times, the
  printing of floats, the file system, the SQL engine, the indexers, GitHub and
  the evaluator of a chain's node.

  \<^bold>\<open>Not modelled.\<close> SQL text is outside the development: of the store only the operations whose
  logic is in Go, or whose statement is a plain insert, update or delete, have definitions, so
  the read queries of the pages (packages, accounts, analytics, pulse, series) have none.
  Sentences of warnings, tiers and violations are left out and their cases kept. Ranking scores
  (\<^verbatim>\<open>discover/score.go\<close>) are products of logarithms and powers of floats. The handlers of the API
  assemble JSON from queries; the governance audit, the DeFi pages and the MCP endpoint
  combine answers of a remote node. Of the laboratory, the search for repositories, the scores
  and the pages' queries are left out. The bundled front end, the analysis of packages, badges,
  the registry and the programs under \<^verbatim>\<open>cmd\<close> are listed in the inventory with the reason they
  have no model.
\<close>

end
